(* ===== verification/Prelude.thy ===== *)
theory Prelude
  imports Main "HOL-Library.Word"
begin

text \<open>
  Shared vocabulary of the development: the machine integers of the Rust code
  as words, results with errors and panics, the checked and saturating
  arithmetic of the standard library, slices, little-endian byte strings, and
  the generic lemmas the component theories use.

  A Rust \<^verbatim>\<open>u8\<close>, \<^verbatim>\<open>u32\<close>, \<^verbatim>\<open>u64\<close> or \<^verbatim>\<open>u128\<close> is a word of that width.  A
  \<^verbatim>\<open>usize\<close> that counts elements of a vector is a \<^typ>\<open>nat\<close>, with the
  64-bit limit written out where the code checks it.  A \<^verbatim>\<open>B256\<close> is a 256-bit
  word and an \<^verbatim>\<open>Address\<close> a 160-bit word; their byte slices are big-endian.
\<close>

unbundle bit_operations_syntax

named_theorems res_simps \<open>rewriting of results: bind, ensure, option conversion\<close>
named_theorems checked_simps \<open>checked and saturating machine arithmetic\<close>

section \<open>Machine types\<close>

type_synonym u8 = "8 word"
type_synonym u32 = "32 word"
type_synonym u64 = "64 word"
type_synonym u128 = "128 word"
type_synonym usize = nat
type_synonym bytes = "u8 list"
type_synonym b256 = "256 word"
type_synonym address = "160 word"

section \<open>Results\<close>

text \<open>
  \<^verbatim>\<open>std::io::Error\<close> by its kind and message; \<open>Panic\<close> is an unwinding panic
  (an index or slice out of range, an \<^verbatim>\<open>expect\<close> on \<^verbatim>\<open>None\<close>), which the code never
  returns as a value and which the safety theorems exclude.
\<close>

datatype error =
    InvalidData string
  | InvalidInput string
  | OtherError string
  | Unsupported string
  | UnexpectedEof string
  | Panic string

type_synonym 'a res = "error + 'a"

definition bind_res :: "'e + 'a \<Rightarrow> ('a \<Rightarrow> 'e + 'b) \<Rightarrow> 'e + 'b" where
  "bind_res r f = (case r of Inl e \<Rightarrow> Inl e | Inr x \<Rightarrow> f x)"

definition ensure :: "bool \<Rightarrow> 'e \<Rightarrow> 'e + unit" where
  "ensure c e = (if c then Inr () else Inl e)"

definition ok_or :: "'a option \<Rightarrow> 'e \<Rightarrow> 'e + 'a" where
  "ok_or v e = (case v of None \<Rightarrow> Inl e | Some x \<Rightarrow> Inr x)"

definition is_ok :: "'e + 'a \<Rightarrow> bool" where
  "is_ok r = (case r of Inl _ \<Rightarrow> False | Inr _ \<Rightarrow> True)"

fun is_panic :: "error \<Rightarrow> bool" where
  "is_panic (Panic _) = True"
| "is_panic _ = False"

text \<open>
  \<^verbatim>\<open>map_err\<close>, and the rewording of an error that keeps its kind.
\<close>

definition map_err :: "('e \<Rightarrow> 'f) \<Rightarrow> 'e + 'a \<Rightarrow> 'f + 'a" where
  "map_err f r = (case r of Inl e \<Rightarrow> Inl (f e) | Inr x \<Rightarrow> Inr x)"

fun reword :: "(string \<Rightarrow> string) \<Rightarrow> error \<Rightarrow> error" where
  "reword f (InvalidData m) = InvalidData (f m)"
| "reword f (InvalidInput m) = InvalidInput (f m)"
| "reword f (OtherError m) = OtherError (f m)"
| "reword f (Unsupported m) = Unsupported (f m)"
| "reword f (UnexpectedEof m) = UnexpectedEof (f m)"
| "reword f (Panic m) = Panic m"

text \<open>\<^verbatim>\<open>format!\<close> of a number.\<close>

fun show_nat :: "nat \<Rightarrow> string" where
  "show_nat n = (if n < 10 then [char_of (48 + n)] else show_nat (n div 10) @ [char_of (48 + n mod 10)])"

declare show_nat.simps [simp del]

definition panics :: "error + 'a \<Rightarrow> bool" where
  "panics r = (case r of Inl e \<Rightarrow> is_panic e | Inr _ \<Rightarrow> False)"

lemma bind_res_simps [simp, res_simps]:
  "bind_res (Inl e) f = Inl e"
  "bind_res (Inr x) f = f x"
  by (simp_all add: bind_res_def)

lemma bind_res_Inr_iff [res_simps]:
  "bind_res r f = Inr y \<longleftrightarrow> (\<exists>x. r = Inr x \<and> f x = Inr y)"
  by (cases r) auto

lemma bind_res_Inl_iff [res_simps]:
  "bind_res r f = Inl e \<longleftrightarrow> r = Inl e \<or> (\<exists>x. r = Inr x \<and> f x = Inl e)"
  by (cases r) auto

lemma bind_res_InrE [elim]:
  assumes "bind_res r f = Inr y"
  obtains x where "r = Inr x" and "f x = Inr y"
  using assms by (auto simp: bind_res_Inr_iff)

lemma bind_res_assoc: "bind_res (bind_res r f) g = bind_res r (\<lambda>x. bind_res (f x) g)"
  by (cases r) auto

lemma bind_res_cong [fundef_cong]:
  "r = r' \<Longrightarrow> (\<And>x. r' = Inr x \<Longrightarrow> f x = f' x) \<Longrightarrow> bind_res r f = bind_res r' f'"
  by (cases r') auto

lemma ensure_simps [simp, res_simps]:
  "ensure True e = Inr ()" "ensure False e = Inl e"
  "ensure c e = Inr u \<longleftrightarrow> c" "ensure c e = Inl e' \<longleftrightarrow> \<not> c \<and> e' = e"
  by (auto simp: ensure_def)

lemma ok_or_simps [simp, res_simps]:
  "ok_or None e = Inl e" "ok_or (Some x) e = Inr x"
  "ok_or v e = Inr x \<longleftrightarrow> v = Some x" "ok_or v e = Inl e' \<longleftrightarrow> v = None \<and> e' = e"
  by (auto simp: ok_or_def split: option.splits)

lemma is_ok_simps [simp, res_simps]:
  "is_ok (Inl e) = False" "is_ok (Inr x) = True"
  by (simp_all add: is_ok_def)

lemma panics_simps [simp, res_simps]:
  "panics (Inr x) = False" "panics (Inl e) = is_panic e"
  by (simp_all add: panics_def)

lemma map_err_simps [simp, res_simps]:
  "map_err f (Inl e) = Inl (f e)" "map_err f (Inr x) = Inr x"
  by (simp_all add: map_err_def)

lemma map_err_Inr_iff [res_simps]: "map_err f r = Inr x \<longleftrightarrow> r = Inr x"
  by (cases r) simp_all

lemma if_Inl_eq_Inr_iff [res_simps]: "(if c then Inl e else r) = Inr x \<longleftrightarrow> \<not> c \<and> r = Inr x"
  by simp

lemma is_panic_reword [simp]: "is_panic (reword f e) = is_panic e"
  by (cases e) simp_all

lemma panics_map_reword [simp, res_simps]: "panics (map_err (reword f) r) = panics r"
  by (cases r) (simp_all add: panics_def)

lemma panics_bind [res_simps]:
  "panics (bind_res r f) \<longleftrightarrow> panics r \<or> (\<exists>x. r = Inr x \<and> panics (f x))"
  by (cases r) auto

lemma panics_ensure [simp, res_simps]: "panics (ensure c e) \<longleftrightarrow> \<not> c \<and> is_panic e"
  by (auto simp: ensure_def)

lemma panics_ok_or [simp, res_simps]: "panics (ok_or v e) \<longleftrightarrow> v = None \<and> is_panic e"
  by (auto simp: ok_or_def split: option.splits)

section \<open>Checked and saturating arithmetic\<close>

definition checked_add :: "'a::len word \<Rightarrow> 'a word \<Rightarrow> 'a word option" where
  "checked_add a b = (if unat a + unat b < 2 ^ LENGTH('a) then Some (a + b) else None)"

definition checked_mul :: "'a::len word \<Rightarrow> 'a word \<Rightarrow> 'a word option" where
  "checked_mul a b = (if unat a * unat b < 2 ^ LENGTH('a) then Some (a * b) else None)"

definition checked_sub :: "'a::len word \<Rightarrow> 'a word \<Rightarrow> 'a word option" where
  "checked_sub a b = (if b \<le> a then Some (a - b) else None)"

definition saturating_add :: "'a::len word \<Rightarrow> 'a word \<Rightarrow> 'a word" where
  "saturating_add a b = (if unat a + unat b < 2 ^ LENGTH('a) then a + b else - 1)"

definition saturating_sub :: "'a::len word \<Rightarrow> 'a word \<Rightarrow> 'a word" where
  "saturating_sub a b = (if b \<le> a then a - b else 0)"

definition usize_limit :: nat where
  "usize_limit = 2 ^ 64"

definition usize_checked_add :: "usize \<Rightarrow> usize \<Rightarrow> usize option" where
  "usize_checked_add a b = (if a + b < usize_limit then Some (a + b) else None)"

definition usize_checked_mul :: "usize \<Rightarrow> usize \<Rightarrow> usize option" where
  "usize_checked_mul a b = (if a * b < usize_limit then Some (a * b) else None)"

definition try_u32 :: "usize \<Rightarrow> u32 option" where
  "try_u32 n = (if n < 2 ^ 32 then Some (of_nat n) else None)"

definition try_u64 :: "usize \<Rightarrow> u64 option" where
  "try_u64 n = (if n < 2 ^ 64 then Some (of_nat n) else None)"

lemma unat_checked_add [checked_simps]:
  "checked_add a b = Some c \<Longrightarrow> unat c = unat a + unat b"
  by (auto simp: checked_add_def unat_word_ariths split: if_splits)

lemma unat_checked_mul [checked_simps]:
  "checked_mul a b = Some c \<Longrightarrow> unat c = unat a * unat b"
  by (auto simp: checked_mul_def unat_word_ariths split: if_splits)

lemma checked_add_Some_iff [checked_simps]:
  fixes a b c :: "'a::len word"
  shows "checked_add a b = Some c \<longleftrightarrow> unat c = unat a + unat b"
  by (auto simp: checked_add_def unat_word_ariths word_unat_eq_iff split: if_splits)
     (metis unsigned_less)

lemma checked_add_None_iff [checked_simps]:
  fixes a b :: "'a::len word"
  shows "checked_add a b = None \<longleftrightarrow> 2 ^ LENGTH('a) \<le> unat a + unat b"
  by (simp add: checked_add_def not_less)

lemma checked_sub_Some_iff [checked_simps]:
  "checked_sub a b = Some c \<longleftrightarrow> b \<le> a \<and> c = a - b"
  by (auto simp: checked_sub_def)

lemma unat_saturating_sub [checked_simps]: "unat (saturating_sub a b) = unat a - unat b"
  by (simp add: saturating_sub_def unat_sub word_le_nat_alt)

lemma unat_minus_one_max: "unat (- 1 :: 'a::len word) = 2 ^ LENGTH('a) - 1"
  by (simp add: unsigned_minus_1_eq_mask mask_eq_exp_minus_1)

lemma unat_saturating_add [checked_simps]:
  fixes a b :: "'a::len word"
  shows "unat (saturating_add a b) = min (unat a + unat b) (2 ^ LENGTH('a) - 1)"
  by (auto simp: saturating_add_def unat_word_ariths unat_minus_one_max)

lemma usize_checked_add_Some_iff [checked_simps]:
  "usize_checked_add a b = Some c \<longleftrightarrow> c = a + b \<and> a + b < usize_limit"
  by (auto simp: usize_checked_add_def)

lemma usize_checked_mul_Some_iff [checked_simps]:
  "usize_checked_mul a b = Some c \<longleftrightarrow> c = a * b \<and> a * b < usize_limit"
  by (auto simp: usize_checked_mul_def)

lemma unat_of_nat_less: "n < 2 ^ LENGTH('a) \<Longrightarrow> unat (of_nat n :: 'a::len word) = n"
  by (simp add: unat_of_nat)

lemma length_of_nat_u64: "length xs < 2 ^ 64 \<Longrightarrow> unat (of_nat (length xs) :: u64) = length xs"
  by (rule unat_of_nat_less) simp

lemma try_u32_Some_iff [checked_simps]: "try_u32 n = Some w \<longleftrightarrow> n = unat w"
  by (auto simp: try_u32_def unat_of_nat) (use unsigned_less[of w, where ?'a = nat] in simp)

lemma try_u64_Some_iff [checked_simps]: "try_u64 n = Some w \<longleftrightarrow> n = unat w"
  by (auto simp: try_u64_def unat_of_nat) (use unsigned_less[of w, where ?'a = nat] in simp)

section \<open>Bit lengths\<close>

text \<open>\<^verbatim>\<open>leading_zeros\<close> counts from the top; \<open>bit_len n\<close> is the width of \<open>n\<close>.\<close>

fun bit_len :: "nat \<Rightarrow> nat" where
  "bit_len n = (if n = 0 then 0 else Suc (bit_len (n div 2)))"

declare bit_len.simps [simp del]

definition leading_zeros :: "'a::len word \<Rightarrow> nat" where
  "leading_zeros w = LENGTH('a) - bit_len (unat w)"

lemma bit_len_0 [simp]: "bit_len 0 = 0"
  by (simp add: bit_len.simps)

lemma bit_len_pos [simp]: "0 < n \<Longrightarrow> bit_len n = Suc (bit_len (n div 2))"
  by (subst bit_len.simps) simp

lemma bit_len_eq_0_iff [simp]: "bit_len n = 0 \<longleftrightarrow> n = 0"
  by (cases "n = 0") auto

lemma bit_len_upper: "n < 2 ^ bit_len n"
proof (induction n rule: bit_len.induct)
  case (1 n)
  show ?case
  proof (cases "n = 0")
    case False
    with 1 have "n div 2 < 2 ^ bit_len (n div 2)" by simp
    with False show ?thesis by simp
  qed simp
qed

lemma bit_len_le: "n < 2 ^ k \<Longrightarrow> bit_len n \<le> k"
proof (induction k arbitrary: n)
  case (Suc k)
  then show ?case by (cases "n = 0") (auto simp: less_mult_imp_div_less mult.commute)
qed simp

lemma bit_len_lower: "0 < n \<Longrightarrow> 2 ^ (bit_len n - 1) \<le> n"
proof (induction n rule: bit_len.induct)
  case (1 n)
  show ?case
  proof (cases "n div 2 = 0")
    case True
    with 1 show ?thesis by (auto simp: div_eq_0_iff)
  next
    case False
    with 1 have "2 ^ (bit_len (n div 2) - 1) \<le> n div 2" by simp
    with False 1 show ?thesis
      by (cases "bit_len (n div 2)") auto
  qed
qed

lemma bit_len_word_le: "bit_len (unat (w :: 'a::len word)) \<le> LENGTH('a)"
  by (simp add: bit_len_le)

lemma leading_zeros_le: "leading_zeros (w :: 'a::len word) \<le> LENGTH('a)"
  by (simp add: leading_zeros_def)

lemma width_minus_leading_zeros [simp]:
  "LENGTH('a) - leading_zeros (w :: 'a::len word) = bit_len (unat w)"
  using bit_len_word_le[of w] by (simp add: leading_zeros_def)

lemma bit_len_gt_0_iff [simp]: "0 < bit_len n \<longleftrightarrow> 0 < n"
  by (metis bit_len_eq_0_iff neq0_conv)

declare bit_len_pos [simp del]

section \<open>Slices\<close>

text \<open>\<^verbatim>\<open>xs[a..b]\<close> panics unless \<open>a \<le> b \<le> length xs\<close>.\<close>

definition slice :: "'a list \<Rightarrow> usize \<Rightarrow> usize \<Rightarrow> 'a list res" where
  "slice xs a b =
     (if a \<le> b \<and> b \<le> length xs then Inr (take (b - a) (drop a xs))
      else Inl (Panic ''slice index out of range''))"

definition slice_from :: "'a list \<Rightarrow> usize \<Rightarrow> 'a list res" where
  "slice_from xs a =
     (if a \<le> length xs then Inr (drop a xs) else Inl (Panic ''slice index out of range''))"

definition index :: "'a list \<Rightarrow> usize \<Rightarrow> 'a res" where
  "index xs i = (if i < length xs then Inr (xs ! i) else Inl (Panic ''index out of bounds''))"

definition get :: "'a list \<Rightarrow> usize \<Rightarrow> 'a option" where
  "get xs i = (if i < length xs then Some (xs ! i) else None)"

definition last_opt :: "'a list \<Rightarrow> 'a option" where
  "last_opt xs = (if xs = [] then None else Some (last xs))"

lemma slice_ok [simp, res_simps]:
  "a \<le> b \<Longrightarrow> b \<le> length xs \<Longrightarrow> slice xs a b = Inr (take (b - a) (drop a xs))"
  by (simp add: slice_def)

lemma slice_Inr_iff [res_simps]:
  "slice xs a b = Inr ys \<longleftrightarrow> a \<le> b \<and> b \<le> length xs \<and> ys = take (b - a) (drop a xs)"
  by (auto simp: slice_def)

lemma slice_from_ok [simp, res_simps]: "a \<le> length xs \<Longrightarrow> slice_from xs a = Inr (drop a xs)"
  by (simp add: slice_from_def)

lemma index_ok [simp, res_simps]: "i < length xs \<Longrightarrow> index xs i = Inr (xs ! i)"
  by (simp add: index_def)

lemma last_opt_simps [simp]:
  "last_opt [] = None" "last_opt (xs @ [x]) = Some x"
  "last_opt xs = None \<longleftrightarrow> xs = []"
  "last_opt xs = Some x \<longleftrightarrow> xs \<noteq> [] \<and> last xs = x"
  by (auto simp: last_opt_def)

section \<open>Little-endian byte strings\<close>

fun nat_to_le :: "nat \<Rightarrow> nat \<Rightarrow> bytes" where
  "nat_to_le 0 x = []"
| "nat_to_le (Suc n) x = of_nat x # nat_to_le n (x div 256)"

fun nat_of_le :: "bytes \<Rightarrow> nat" where
  "nat_of_le [] = 0"
| "nat_of_le (b # bs) = unat b + 256 * nat_of_le bs"

definition to_le_bytes :: "'a::len word \<Rightarrow> bytes" where
  "to_le_bytes w = nat_to_le (LENGTH('a) div 8) (unat w)"

definition from_le_bytes :: "bytes \<Rightarrow> 'a::len word" where
  "from_le_bytes bs = of_nat (nat_of_le bs)"

text \<open>\<^verbatim>\<open>as_slice\<close> of a fixed byte array (\<^verbatim>\<open>B256\<close>, \<^verbatim>\<open>Address\<close>): big-endian.\<close>

definition as_slice :: "'a::len word \<Rightarrow> bytes" where
  "as_slice w = rev (to_le_bytes w)"

definition from_slice :: "bytes \<Rightarrow> 'a::len word" where
  "from_slice bs = from_le_bytes (rev bs)"

lemma length_nat_to_le [simp]: "length (nat_to_le n x) = n"
  by (induction n arbitrary: x) auto

lemma unat_u8_less: "unat (b :: u8) < 256"
  using unsigned_less[of b, where ?'a = nat] by simp

lemma unat_of_nat_u8: "unat (of_nat x :: u8) = x mod 256"
  by (simp add: unat_of_nat)

lemma nat_of_le_nat_to_le: "nat_of_le (nat_to_le n x) = x mod 256 ^ n"
proof (induction n arbitrary: x)
  case (Suc n)
  have "x mod 256 ^ Suc n = x mod 256 + 256 * (x div 256 mod 256 ^ n)"
    using mod_mult2_eq[of x 256 "256 ^ n"] by simp
  with Suc show ?case by (simp add: unat_of_nat_u8)
qed simp

lemma nat_of_le_bound: "nat_of_le bs < 256 ^ length bs"
proof (induction bs)
  case (Cons b bs)
  have "unat b < 256" by (rule unat_u8_less)
  with Cons show ?case by simp
qed simp

lemma nat_to_le_nat_of_le [simp]: "nat_to_le (length bs) (nat_of_le bs) = bs"
proof (induction bs)
  case (Cons b bs)
  have "unat b < 256" by (rule unat_u8_less)
  with Cons show ?case
    by (simp add: word_unat_eq_iff unat_of_nat_u8 del: of_nat_add of_nat_mult)
qed simp

lemma nat_of_le_append: "nat_of_le (xs @ ys) = nat_of_le xs + 256 ^ length xs * nat_of_le ys"
  by (induction xs) (auto simp: algebra_simps)

lemma nat_of_le_inj: "length xs = length ys \<Longrightarrow> nat_of_le xs = nat_of_le ys \<longleftrightarrow> xs = ys"
  by (metis nat_to_le_nat_of_le)

lemma nat_to_le_append:
  "nat_to_le (m + n) x = nat_to_le m x @ nat_to_le n (x div 256 ^ m)"
  by (induction m arbitrary: x) (auto simp: div_mult2_eq)

lemma length_to_le_bytes [simp]: "length (to_le_bytes (w :: 'a::len word)) = LENGTH('a) div 8"
  by (simp add: to_le_bytes_def)

lemma pow_256: "(256::nat) ^ n = 2 ^ (8 * n)"
  by (simp add: power_mult)

lemma from_to_le_bytes:
  assumes "8 dvd LENGTH('a)"
  shows "from_le_bytes (to_le_bytes (w :: 'a::len word)) = w"
proof -
  have "unat w < 256 ^ (LENGTH('a) div 8)"
    using assms unsigned_less[of w, where ?'a = nat] by (simp add: pow_256)
  then show ?thesis
    by (simp add: to_le_bytes_def from_le_bytes_def nat_of_le_nat_to_le)
qed

lemma from_to_le_bytes_u32 [simp]: "from_le_bytes (to_le_bytes (w :: u32)) = w"
  by (simp add: from_to_le_bytes)

lemma from_to_le_bytes_u64 [simp]: "from_le_bytes (to_le_bytes (w :: u64)) = w"
  by (simp add: from_to_le_bytes)

lemma to_le_bytes_inject:
  assumes "8 dvd LENGTH('a)"
  shows "to_le_bytes (v :: 'a::len word) = to_le_bytes w \<longleftrightarrow> v = w"
  using from_to_le_bytes[OF assms] by metis

lemma to_from_le_bytes:
  assumes "8 dvd LENGTH('a)" and "length bs = LENGTH('a) div 8"
  shows "to_le_bytes (from_le_bytes bs :: 'a::len word) = bs"
proof -
  have "nat_of_le bs < 2 ^ LENGTH('a)"
    using nat_of_le_bound[of bs] assms by (simp add: pow_256)
  then show ?thesis
    using nat_to_le_nat_of_le[of bs] assms(2)
    by (simp add: to_le_bytes_def from_le_bytes_def unat_of_nat_less)
qed

lemma from_as_slice: "8 dvd LENGTH('a) \<Longrightarrow> from_slice (as_slice (w :: 'a::len word)) = w"
  by (simp add: from_slice_def as_slice_def from_to_le_bytes)

lemma length_as_slice [simp]: "length (as_slice (w :: 'a::len word)) = LENGTH('a) div 8"
  by (simp add: as_slice_def)

lemma as_slice_from_slice:
  assumes "8 dvd LENGTH('a)" and "length bs = LENGTH('a) div 8"
  shows "as_slice (from_slice bs :: 'a::len word) = bs"
  using assms by (simp add: as_slice_def from_slice_def to_from_le_bytes)

lemma as_slice_inject:
  "8 dvd LENGTH('a) \<Longrightarrow> as_slice (v :: 'a::len word) = as_slice w \<longleftrightarrow> v = w"
  by (simp add: as_slice_def to_le_bytes_inject)

section \<open>Iterators\<close>

text \<open>\<^verbatim>\<open>Iterator::max\<close> and \<^verbatim>\<open>slice::chunks_exact\<close> (the remainder is dropped).\<close>

definition iter_max :: "'a::linorder list \<Rightarrow> 'a option" where
  "iter_max xs = (case xs of [] \<Rightarrow> None | y # ys \<Rightarrow> Some (fold max ys y))"

fun chunks_exact :: "usize \<Rightarrow> 'a list \<Rightarrow> 'a list list" where
  "chunks_exact n xs =
     (if n = 0 \<or> length xs < n then [] else take n xs # chunks_exact n (drop n xs))"

declare chunks_exact.simps [simp del]

lemma fold_max_eq: "fold max ys (y :: 'a::linorder) = Max (insert y (set ys))"
  by (metis Max.set_eq_fold list.set(2))

lemma fold_max_bounds:
  fixes y :: "'a::linorder"
  shows "y \<le> fold max ys y" "x \<in> set ys \<Longrightarrow> x \<le> fold max ys y" "fold max ys y \<in> insert y (set ys)"
  using Max_in[of "insert y (set ys)"] unfolding fold_max_eq by auto

lemma iter_max_None_iff [simp]: "iter_max xs = None \<longleftrightarrow> xs = []"
  by (simp add: iter_max_def split: list.splits)

lemma iter_max_SomeD: "iter_max xs = Some m \<Longrightarrow> m \<in> set xs \<and> (\<forall>x \<in> set xs. x \<le> m)"
proof (cases xs)
  case (Cons y ys)
  moreover assume "iter_max xs = Some m"
  ultimately show ?thesis using fold_max_bounds[where y = y and ys = ys] by (auto simp: iter_max_def)
qed (simp add: iter_max_def)

lemma chunks_exact_exact:
  assumes "n dvd length xs" and "0 < n"
  shows "concat (chunks_exact n xs) = xs" and "length (chunks_exact n xs) = length xs div n"
    and "\<forall>c \<in> set (chunks_exact n xs). length c = n"
proof -
  have "concat (chunks_exact n xs) = xs \<and> length (chunks_exact n xs) = length xs div n
    \<and> (\<forall>c \<in> set (chunks_exact n xs). length c = n)"
    using assms
  proof (induction n xs rule: chunks_exact.induct)
    case (1 n xs)
    show ?case
    proof (cases "length xs < n")
      case True
      then have "xs = []" using 1 by (meson dvd_imp_le length_greater_0_conv not_less)
      then show ?thesis using 1 by (simp add: chunks_exact.simps[of n "[]"])
    next
      case False
      moreover have "n dvd length (drop n xs)" using 1 by (simp add: dvd_diff_nat)
      ultimately have IH: "concat (chunks_exact n (drop n xs)) = drop n xs"
          "length (chunks_exact n (drop n xs)) = length (drop n xs) div n"
          "\<forall>c \<in> set (chunks_exact n (drop n xs)). length c = n"
        using 1 by blast+
      have len: "Suc (length (drop n xs) div n) = length xs div n"
        using False 1(3) le_div_geq[of n "length xs"] by (simp only: length_drop not_less)
      have eq: "chunks_exact n xs = take n xs # chunks_exact n (drop n xs)"
        using False 1(3) by (subst chunks_exact.simps) simp
      have "concat (chunks_exact n xs) = xs"
        by (simp only: eq concat.simps IH append_take_drop_id)
      moreover have "length (chunks_exact n xs) = length xs div n"
        by (simp only: eq list.size IH len[symmetric] add_0_right add_Suc_right)
      moreover have "\<forall>c \<in> set (chunks_exact n xs). length c = n"
        using IH(3) False by (metis eq length_take min.absorb2 not_less set_ConsD)
      ultimately show ?thesis by blast
    qed
  qed
  then show "concat (chunks_exact n xs) = xs" "length (chunks_exact n xs) = length xs div n"
    "\<forall>c \<in> set (chunks_exact n xs). length c = n" by auto
qed

lemma chunks_exact_concat:
  assumes "\<forall>c \<in> set cs. length c = n" and "0 < n"
  shows "chunks_exact n (concat cs) = cs"
  using assms(1)
proof (induction cs)
  case Nil
  then show ?case using assms(2) by (simp add: chunks_exact.simps)
next
  case (Cons c cs)
  then show ?case using assms(2) by (subst chunks_exact.simps) simp
qed

text \<open>\<^verbatim>\<open>Read::read_exact\<close> on a slice: the reader is the list of bytes that are left.\<close>

definition read_exact :: "usize \<Rightarrow> bytes \<Rightarrow> (bytes \<times> bytes) res" where
  "read_exact n rest =
     (if n \<le> length rest then Inr (take n rest, drop n rest) else Inl (UnexpectedEof ''failed to fill whole buffer''))"

lemma read_exact_append [simp]: "length a = n \<Longrightarrow> read_exact n (a @ rest) = Inr (a, rest)"
  by (simp add: read_exact_def)

lemma read_exact_Inr_iff: "read_exact n c = Inr (v, rest) \<longleftrightarrow> c = v @ rest \<and> length v = n"
  by (auto simp: read_exact_def append_eq_conv_conj)

lemma length_concat_map_const: "\<forall>x \<in> set xs. length (f x) = n \<Longrightarrow> length (concat (map f xs)) = length xs * n"
  by (induction xs) auto

lemma concat_map_window:
  assumes "\<forall>x \<in> set xs. length (f x) = n" and "i < length xs"
  shows "take n (drop (i * n) (concat (map f xs))) = f (xs ! i)"
  using assms
proof (induction xs arbitrary: i)
  case (Cons x xs)
  then show ?case by (cases i) simp_all
qed simp

end
