(* ===== verification/Bit_Packing.thy ===== *)
theory Bit_Packing
  imports Prelude
begin

text \<open>
  Bit packing of \<^verbatim>\<open>src/crates/logex-storage/src/compression.rs\<close> (\<^verbatim>\<open>bitpack_u32\<close>,
  \<^verbatim>\<open>bitpack_u64\<close>, \<^verbatim>\<open>validate_packed_bits\<close>, \<^verbatim>\<open>bitunpack_u32\<close>, \<^verbatim>\<open>bitunpack_u64\<close>)
  and zigzag coding.  The packers shift values through a word buffer that is
  drained byte by byte; the reference is the number \<open>packed_nat k vs\<close> whose
  base-\<open>2 ^ k\<close> digits are the values, written as little-endian bytes.  Both
  packers are shown equal to the reference once, in the locale
  \<open>bit_packer\<close>, and both unpackers once, in \<open>bit_unpacker\<close>.
\<close>

section \<open>The packers\<close>

text \<open>The inner \<^verbatim>\<open>while buf_bits >= 8\<close> of both packers.\<close>

fun drain :: "'b::len word \<Rightarrow> nat \<Rightarrow> bytes \<Rightarrow> 'b word \<times> nat \<times> bytes" where
  "drain buffer buf_bits out =
     (if 8 \<le> buf_bits
      then drain (drop_bit 8 buffer) (buf_bits - 8) (out @ [ucast buffer])
      else (buffer, buf_bits, out))"

declare drain.simps [simp del]

fun pack_loop_u32 :: "u32 list \<Rightarrow> nat \<Rightarrow> u64 \<Rightarrow> nat \<Rightarrow> bytes \<Rightarrow> u64 \<times> nat \<times> bytes" where
  "pack_loop_u32 [] bits buffer buf_bits out = (buffer, buf_bits, out)"
| "pack_loop_u32 (val # vals) bits buffer buf_bits out =
     (let buffer = buffer OR push_bit buf_bits (ucast val AND (push_bit bits 1 - 1));
          (buffer, buf_bits, out) = drain buffer (buf_bits + bits) out
      in pack_loop_u32 vals bits buffer buf_bits out)"

definition bitpack_u32 :: "u32 list \<Rightarrow> u8 \<Rightarrow> bytes \<Rightarrow> bytes" where
  "bitpack_u32 values bits out =
     (if values = [] \<or> bits = 0 then out
      else let (buffer, buf_bits, out) = pack_loop_u32 values (unat bits) 0 0 out
           in if 0 < buf_bits then out @ [ucast buffer] else out)"

fun pack_loop_u64 :: "u64 list \<Rightarrow> nat \<Rightarrow> u128 \<Rightarrow> nat \<Rightarrow> bytes \<Rightarrow> u128 \<times> nat \<times> bytes" where
  "pack_loop_u64 [] bits buffer buf_bits out = (buffer, buf_bits, out)"
| "pack_loop_u64 (val # vals) bits buffer buf_bits out =
     (let msk = (if 64 \<le> bits then - 1 else push_bit bits 1 - 1);
          buffer = buffer OR push_bit buf_bits (ucast (val AND msk));
          (buffer, buf_bits, out) = drain buffer (buf_bits + bits) out
      in pack_loop_u64 vals bits buffer buf_bits out)"

definition bitpack_u64 :: "u64 list \<Rightarrow> u8 \<Rightarrow> bytes \<Rightarrow> bytes" where
  "bitpack_u64 values bits out =
     (if values = [] \<or> bits = 0 then out
      else let (buffer, buf_bits, out) = pack_loop_u64 values (unat bits) 0 0 out
           in if 0 < buf_bits then out @ [ucast buffer] else out)"

section \<open>The unpackers\<close>

definition validate_packed_bits :: "bytes \<Rightarrow> usize \<Rightarrow> u8 \<Rightarrow> u8 \<Rightarrow> unit res" where
  "validate_packed_bits data count bits width =
     bind_res (ok_or (usize_checked_mul count (unat bits))
                 (InvalidData ''packed bit count overflow'')) (\<lambda>bit_len.
       if bits = 0 \<or> width < bits \<or> length data \<noteq> (bit_len + 7) div 8
          \<or> (bit_len mod 8 \<noteq> 0 \<and> data \<noteq> [] \<and> drop_bit (bit_len mod 8) (last data) \<noteq> 0)
       then Inl (InvalidData ''invalid packed width, length or padding'')
       else Inr ())"

text \<open>
  The window read: the bytes from \<open>byte_pos\<close> on, at most as many as the buffer
  holds, padded with the zeros the buffer starts with.
\<close>

definition read_window :: "nat \<Rightarrow> bytes \<Rightarrow> usize \<Rightarrow> bytes res" where
  "read_window buf_len data byte_pos =
     (let available = min (length data - byte_pos) buf_len
      in bind_res (slice data byte_pos (byte_pos + available))
           (\<lambda>chunk. Inr (chunk @ replicate (buf_len - available) 0)))"

fun unpack_loop_u32 :: "bytes \<Rightarrow> usize \<Rightarrow> nat \<Rightarrow> u64 \<Rightarrow> usize \<Rightarrow> u32 list res" where
  "unpack_loop_u32 data 0 bits msk bit_offset = Inr []"
| "unpack_loop_u32 data (Suc count) bits msk bit_offset =
     bind_res (read_window 8 data (bit_offset div 8)) (\<lambda>buf.
       let word = from_le_bytes buf :: u64;
           value = ucast (drop_bit (bit_offset mod 8) word AND msk)
       in bind_res (unpack_loop_u32 data count bits msk (bit_offset + bits))
            (\<lambda>rest. Inr (value # rest)))"

definition bitunpack_u32 :: "bytes \<Rightarrow> usize \<Rightarrow> u8 \<Rightarrow> u32 list res" where
  "bitunpack_u32 data count bits =
     bind_res (validate_packed_bits data count bits 32) (\<lambda>_.
       if count = 0 then Inr []
       else unpack_loop_u32 data count (unat bits) (push_bit (unat bits) 1 - 1) 0)"

fun unpack_loop_u64 :: "bytes \<Rightarrow> usize \<Rightarrow> nat \<Rightarrow> u128 \<Rightarrow> usize \<Rightarrow> u64 list res" where
  "unpack_loop_u64 data 0 bits msk bit_offset = Inr []"
| "unpack_loop_u64 data (Suc count) bits msk bit_offset =
     bind_res (read_window 16 data (bit_offset div 8)) (\<lambda>buf.
       let word = from_le_bytes buf :: u128;
           value = ucast (drop_bit (bit_offset mod 8) word AND msk)
       in bind_res (unpack_loop_u64 data count bits msk (bit_offset + bits))
            (\<lambda>rest. Inr (value # rest)))"

definition bitunpack_u64 :: "bytes \<Rightarrow> usize \<Rightarrow> u8 \<Rightarrow> u64 list res" where
  "bitunpack_u64 data count bits =
     bind_res (validate_packed_bits data count bits 64) (\<lambda>_.
       if count = 0 then Inr []
       else let msk = (if 64 \<le> unat bits then ucast (- 1 :: u64) else push_bit (unat bits) 1 - 1)
            in unpack_loop_u64 data count (unat bits) msk 0)"

section \<open>Zigzag coding\<close>

text \<open>An \<^verbatim>\<open>i64\<close> is the 64-bit word of its two's complement; \<^verbatim>\<open>>>\<close> on it is arithmetic.\<close>

definition zigzag_encode :: "u64 \<Rightarrow> u64" where
  "zigzag_encode v = push_bit 1 v XOR signed_drop_bit 63 v"

definition zigzag_decode :: "u64 \<Rightarrow> u64" where
  "zigzag_decode v = drop_bit 1 v XOR - (v AND 1)"

section \<open>The reference: digits of one number\<close>

fun packed_nat :: "nat \<Rightarrow> nat list \<Rightarrow> nat" where
  "packed_nat k [] = 0"
| "packed_nat k (v # vs) = v mod 2 ^ k + 2 ^ k * packed_nat k vs"

definition packed_bytes :: "nat \<Rightarrow> nat list \<Rightarrow> bytes" where
  "packed_bytes k vs = nat_to_le ((k * length vs + 7) div 8) (packed_nat k vs)"

definition digits :: "nat \<Rightarrow> nat \<Rightarrow> nat \<Rightarrow> nat list" where
  "digits k count n = map (\<lambda>i. n div 2 ^ (k * i) mod 2 ^ k) [0..<count]"

lemma packed_nat_bound: "packed_nat k vs < 2 ^ (k * length vs)"
proof (induction vs)
  case (Cons v vs)
  let ?p = "packed_nat k vs"
  have "v mod 2 ^ k + 2 ^ k * ?p < 2 ^ k + 2 ^ k * ?p" by simp
  also have "\<dots> = 2 ^ k * Suc ?p" by simp
  also have "\<dots> \<le> 2 ^ k * 2 ^ (k * length vs)"
    using Cons by (intro mult_le_mono2) simp
  finally show ?case by (simp add: power_add)
qed simp

lemma digits_Suc: "digits k (Suc c) n = (n mod 2 ^ k) # digits k c (n div 2 ^ k)"
proof -
  have "[0..<Suc c] = 0 # map Suc [0..<c]"
    by (simp only: map_Suc_upt upt_conv_Cons[of 0 "Suc c"] zero_less_Suc)
  then show ?thesis by (simp add: digits_def power_add div_mult2_eq del: upt_Suc)
qed

lemma digits_packed_nat: "digits k (length vs) (packed_nat k vs) = map (\<lambda>v. v mod 2 ^ k) vs"
  by (induction vs) (auto simp: digits_Suc digits_def[of k 0])

lemma packed_nat_digits: "packed_nat k (digits k c n) = n mod 2 ^ (k * c)"
proof (induction c arbitrary: n)
  case 0
  then show ?case by (simp add: digits_def)
next
  case (Suc c)
  then show ?case
    by (simp add: digits_Suc power_add mod_mult2_eq)
qed

lemma nat_or_push_bit:
  fixes a b :: nat
  assumes "a < 2 ^ n"
  shows "a OR push_bit n b = a + 2 ^ n * b"
proof -
  have "a OR push_bit n b = a + push_bit n b"
  proof (rule disjunctive_add_eq_or [symmetric], rule bit_eqI)
    fix m
    have "bit a m \<Longrightarrow> m < n"
      using assms by (metis bit_take_bit_iff take_bit_nat_eq_self)
    then show "bit (a AND push_bit n b) m = bit (0::nat) m"
      by (auto simp: bit_and_iff bit_push_bit_iff)
  qed
  then show ?thesis by (simp add: push_bit_eq_mult mult.commute)
qed

lemma unat_push_bit:
  fixes b :: "'b::len word"
  assumes "2 ^ n * unat b < 2 ^ LENGTH('b)"
  shows "unat (push_bit n b) = 2 ^ n * unat b"
proof -
  have "unat (push_bit n b) = take_bit LENGTH('b) (push_bit n (unat b))"
    by (rule unsigned_push_bit_eq)
  also have "\<dots> = take_bit LENGTH('b) (2 ^ n * unat b)"
    by (simp add: push_bit_eq_mult mult.commute)
  finally show ?thesis using assms by (simp add: take_bit_nat_eq_self)
qed

lemma unat_or_push_bit:
  fixes a b :: "'b::len word"
  assumes "unat a < 2 ^ n" and "2 ^ n * unat b < 2 ^ LENGTH('b)"
  shows "unat (a OR push_bit n b) = unat a + 2 ^ n * unat b"
proof -
  have "unat (a OR push_bit n b) = unat a OR push_bit n (unat b)"
    using unat_push_bit[OF assms(2)]
    by (simp add: unsigned_or_eq push_bit_eq_mult[where ?'a = nat] mult.commute)
  then show ?thesis
    using assms(1) by (simp only: nat_or_push_bit)
qed

lemma unat_take_bit: "unat (take_bit k (w :: 'b::len word)) = unat w mod 2 ^ k"
  by (simp only: unsigned_take_bit_eq) (simp add: take_bit_eq_mod)

lemma unat_mask_low:
  fixes w :: "'b::len word"
  assumes "k < LENGTH('b)"
  shows "unat (w AND (push_bit k 1 - 1)) = unat w mod 2 ^ k"
proof -
  have "w AND (push_bit k 1 - 1) = take_bit k w"
    by (simp only: take_bit_eq_mask mask_eq_decr_exp push_bit_of_1)
  then show ?thesis by (simp only: unat_take_bit)
qed

lemma ucast_u8_eq: "(ucast (w :: 'b::len word) :: u8) = of_nat (unat w)"
  by simp

lemma unat_drop_bit: "unat (drop_bit k (w :: 'b::len word)) = unat w div 2 ^ k"
  by (simp only: unat_drop_bit_eq) (simp add: drop_bit_eq_div)

lemma drain_eq:
  fixes buffer :: "'b::len word"
  shows "drain buffer m out =
    (drop_bit (8 * (m div 8)) buffer, m mod 8, out @ nat_to_le (m div 8) (unat buffer))"
proof (induction buffer m out rule: drain.induct)
  case (1 buffer m out)
  show ?case
  proof (cases "8 \<le> m")
    case True
    define q where "q = (m - 8) div 8"
    from True have q: "m div 8 = Suc q" and r: "(m - 8) mod 8 = m mod 8"
      by (simp_all add: q_def le_div_geq le_mod_geq)
    have "drain buffer m out = drain (drop_bit 8 buffer) (m - 8) (out @ [ucast buffer])"
      using True by (subst drain.simps) simp
    also have "\<dots> = (drop_bit (8 * q) (drop_bit 8 buffer), (m - 8) mod 8,
        (out @ [ucast buffer]) @ nat_to_le q (unat (drop_bit 8 buffer)))"
      unfolding q_def by (rule 1 [OF True])
    also have "\<dots> = (drop_bit (8 * Suc q) buffer, m mod 8, out @ nat_to_le (Suc q) (unat buffer))"
      by (simp only: r drop_bit_drop_bit mult_Suc_right nat_to_le.simps unat_drop_bit ucast_u8_eq
          append_assoc append.simps)
         (simp add: add.commute)
    finally show ?thesis by (simp only: q)
  next
    case False
    then show ?thesis by (subst drain.simps) simp
  qed
qed

section \<open>Both packers write the reference\<close>

lemma nat_to_le_mod: "nat_to_le n (x mod 256 ^ n) = nat_to_le n x"
  by (metis length_nat_to_le nat_of_le_nat_to_le nat_to_le_nat_of_le)

lemma nat_to_le_split:
  assumes "m = 8 * q + r"
  shows "nat_to_le (q + j) (b + 2 ^ m * p) =
    nat_to_le q b @ nat_to_le j (b div 2 ^ (8 * q) + 2 ^ r * p)"
proof -
  have pow: "2 ^ m * p = 256 ^ q * (2 ^ r * p)"
    using assms by (simp add: power_add pow_256)
  have "nat_to_le q (b + 2 ^ m * p) = nat_to_le q ((b + 2 ^ m * p) mod 256 ^ q)"
    by (simp only: nat_to_le_mod)
  also have "\<dots> = nat_to_le q (b mod 256 ^ q)" by (simp only: pow mod_mult_self2)
  finally have low: "nat_to_le q (b + 2 ^ m * p) = nat_to_le q b" by (simp only: nat_to_le_mod)
  have "(b + 2 ^ m * p) div 256 ^ q = b div 2 ^ (8 * q) + 2 ^ r * p"
    by (simp only: pow) (simp add: pow_256)
  with low show ?thesis by (simp only: nat_to_le_append)
qed

lemma div8_split: "m div 8 + (m mod 8 + y) div 8 = (m + y) div (8::nat)"
proof -
  have "m + y = (m mod 8 + y) + (m div 8) * 8" by simp
  then have "(m + y) div 8 = ((m mod 8 + y) + (m div 8) * 8) div 8" by (rule arg_cong)
  also have "\<dots> = (m mod 8 + y) div 8 + m div 8" by (simp only: div_mult_self1)
  finally show ?thesis by simp
qed

definition pack_finish :: "'b::len word \<times> nat \<times> bytes \<Rightarrow> bytes" where
  "pack_finish s = (case s of (buffer, buf_bits, out) \<Rightarrow>
     if 0 < buf_bits then out @ [ucast buffer] else out)"

locale bit_packer =
  fixes loop :: "'v list \<Rightarrow> nat \<Rightarrow> 'b::len word \<Rightarrow> nat \<Rightarrow> bytes \<Rightarrow> 'b word \<times> nat \<times> bytes"
    and masked :: "'v \<Rightarrow> nat \<Rightarrow> 'b word"
    and val :: "'v \<Rightarrow> nat"
    and max_bits :: nat
  assumes loop_Nil: "loop [] k buf n out = (buf, n, out)"
    and loop_Cons: "loop (v # vs) k buf n out =
      (case drain (buf OR push_bit n (masked v k)) (n + k) out of
         (buf', n', out') \<Rightarrow> loop vs k buf' n' out')"
    and unat_masked: "k \<le> max_bits \<Longrightarrow> unat (masked v k) = val v mod 2 ^ k"
    and room: "max_bits + 7 \<le> LENGTH('b)"
begin

lemma shifted_or:
  assumes "unat buf < 2 ^ n" and "n < 8" and "k \<le> max_bits"
  shows "unat (buf OR push_bit n (masked v k)) = unat buf + 2 ^ n * (val v mod 2 ^ k)"
proof -
  have "2 ^ n * (val v mod 2 ^ k) < 2 ^ n * (2 ^ k :: nat)" by simp
  also have "\<dots> \<le> 2 ^ LENGTH('b)"
    using assms(2,3) room by (simp add: power_add [symmetric])
  finally show ?thesis
    using assms unat_or_push_bit[of buf n "masked v k"] by (simp add: unat_masked)
qed

lemma loop_eq:
  assumes "unat buf < 2 ^ n" and "n < 8" and "k \<le> max_bits"
  shows "pack_finish (loop vs k buf n out) =
    out @ nat_to_le ((n + k * length vs + 7) div 8)
            (unat buf + 2 ^ n * packed_nat k (map val vs))"
  using assms
proof (induction vs arbitrary: buf n out)
  case Nil
  show ?case
  proof (cases "n = 0")
    case True
    with Nil show ?thesis by (simp add: loop_Nil pack_finish_def)
  next
    case False
    with Nil have "(n + 7) div 8 = Suc 0" by linarith
    with False show ?thesis by (simp add: loop_Nil pack_finish_def)
  qed
next
  case (Cons v vs)
  let ?p = "packed_nat k (map val vs)"
  define m where "m = n + k"
  define w where "w = buf OR push_bit n (masked v k)"
  define b where "b = unat buf + 2 ^ n * (val v mod 2 ^ k)"
  have w: "unat w = b"
    unfolding w_def b_def using Cons.prems by (rule shifted_or)
  have "b < 2 ^ n + 2 ^ n * (val v mod 2 ^ k)" using Cons.prems(1) by (simp add: b_def)
  also have "\<dots> = 2 ^ n * Suc (val v mod 2 ^ k)" by simp
  also have "\<dots> \<le> 2 ^ n * 2 ^ k" by (rule mult_le_mono2) (simp add: Suc_leI)
  finally have b: "b < 2 ^ m" by (simp add: m_def power_add)
  have m: "m = 8 * (m div 8) + m mod 8" by simp
  have "(2::nat) ^ m = 2 ^ (8 * (m div 8)) * 2 ^ (m mod 8)"
    by (simp only: power_add [symmetric] m [symmetric])
  then have "unat (drop_bit (8 * (m div 8)) w) < 2 ^ (m mod 8)"
    using b by (simp add: unat_drop_bit w less_mult_imp_div_less mult.commute)
  then have "pack_finish (loop vs k (drop_bit (8 * (m div 8)) w) (m mod 8)
        (out @ nat_to_le (m div 8) b)) =
      (out @ nat_to_le (m div 8) b) @
        nat_to_le ((m mod 8 + k * length vs + 7) div 8)
          (b div 2 ^ (8 * (m div 8)) + 2 ^ (m mod 8) * ?p)"
    using Cons.IH[of "drop_bit (8 * (m div 8)) w" "m mod 8"] Cons.prems(3)
    by (simp add: unat_drop_bit w)
  also have "\<dots> = out @ nat_to_le (m div 8 + (m mod 8 + k * length vs + 7) div 8) (b + 2 ^ m * ?p)"
    by (simp only: nat_to_le_split[OF m] append_assoc)
  also have "m div 8 + (m mod 8 + k * length vs + 7) div 8 = (n + k * length (v # vs) + 7) div 8"
    using div8_split[of m "k * length vs + 7"] by (simp add: m_def add.assoc)
  also have "b + 2 ^ m * ?p = unat buf + 2 ^ n * packed_nat k (map val (v # vs))"
    by (simp add: b_def m_def power_add algebra_simps)
  finally show ?case
    by (simp add: loop_Cons drain_eq w_def [symmetric] w m_def [symmetric])
qed

lemma pack_eq:
  assumes "k \<le> max_bits"
  shows "pack_finish (loop vs k 0 0 out) = out @ packed_bytes k (map val vs)"
  using loop_eq[of 0 0 k vs out] assms by (simp add: packed_bytes_def)

end

lemma unat_ucast_up:
  assumes "LENGTH('a) \<le> LENGTH('b)"
  shows "unat (ucast (w :: 'a::len word) :: 'b::len word) = unat w"
proof -
  have "unat w < 2 ^ LENGTH('b)"
    using assms by (meson less_le_trans one_le_numeral power_increasing unsigned_less)
  then show ?thesis by (simp add: unsigned_ucast_eq take_bit_nat_eq_self)
qed

interpretation pack32: bit_packer pack_loop_u32
  "\<lambda>v k. ucast v AND (push_bit k 1 - 1)" unat 32
  by unfold_locales (auto simp: Let_def unat_mask_low unat_ucast_up simp del: push_bit_of_1)

interpretation pack64: bit_packer pack_loop_u64
  "\<lambda>v k. ucast (v AND (if 64 \<le> k then - 1 else push_bit k 1 - 1))" unat 64
proof unfold_locales
  fix k :: nat and v :: u64
  assume "k \<le> 64"
  show "unat (ucast (v AND (if 64 \<le> k then - 1 else push_bit k 1 - 1)) :: u128) = unat v mod 2 ^ k"
  proof (cases "k = 64")
    case True
    moreover have "unat v < 2 ^ 64" using unsigned_less[of v, where ?'a = nat] by simp
    ultimately show ?thesis by (simp add: unat_ucast_up)
  next
    case False
    with \<open>k \<le> 64\<close> show ?thesis
      by (simp add: unat_ucast_up unat_mask_low del: push_bit_of_1)
  qed
qed (simp_all add: Let_def)

lemma packed_bytes_trivial [simp]: "packed_bytes k [] = []" "packed_bytes 0 vs = []"
  by (simp_all add: packed_bytes_def)

lemma bitpack_u32_eq:
  "unat bits \<le> 32 \<Longrightarrow> bitpack_u32 vs bits out = out @ packed_bytes (unat bits) (map unat vs)"
  using pack32.pack_eq[of "unat bits" vs out]
  by (auto simp: bitpack_u32_def pack_finish_def split: prod.splits)

lemma bitpack_u64_eq:
  "unat bits \<le> 64 \<Longrightarrow> bitpack_u64 vs bits out = out @ packed_bytes (unat bits) (map unat vs)"
  using pack64.pack_eq[of "unat bits" vs out]
  by (auto simp: bitpack_u64_def pack_finish_def split: prod.splits)

section \<open>Both unpackers read the reference\<close>

lemma nat_of_le_drop: "nat_of_le (drop m xs) = nat_of_le xs div 256 ^ m"
proof (induction m arbitrary: xs)
  case (Suc m)
  show ?case
  proof (cases xs)
    case (Cons x ys)
    have "(unat x + 256 * nat_of_le ys) div 256 = nat_of_le ys"
      using unat_u8_less[of x] by simp
    with Suc Cons show ?thesis by (simp add: div_mult2_eq)
  qed simp
qed simp

lemma nat_of_le_take: "nat_of_le (take n xs) = nat_of_le xs mod 256 ^ n"
proof (cases "n \<le> length xs")
  case True
  have "nat_of_le xs = nat_of_le (take n xs) + 256 ^ n * nat_of_le (drop n xs)"
    using nat_of_le_append[of "take n xs" "drop n xs"] True by simp
  moreover have "nat_of_le (take n xs) < 256 ^ n"
    using nat_of_le_bound[of "take n xs"] True by simp
  ultimately show ?thesis by (metis mod_less mod_mult_self2)
next
  case False
  then have "nat_of_le xs < 256 ^ n"
    using nat_of_le_bound[of xs] by (meson less_le_trans nat_le_linear one_le_numeral power_increasing)
  with False show ?thesis by simp
qed

lemma nat_of_le_replicate_0 [simp]: "nat_of_le (replicate n 0) = 0"
  by (induction n) auto

lemma read_window_ok:
  assumes "pos \<le> length data"
  obtains buf where "read_window n data pos = Inr buf"
    and "nat_of_le buf = nat_of_le data div 256 ^ pos mod 256 ^ n"
proof
  let ?a = "min (length data - pos) n"
  have t: "take ?a (drop pos data) = take n (drop pos data)" by (simp add: min_def)
  show "read_window n data pos = Inr (take n (drop pos data) @ replicate (n - ?a) 0)"
    using assms by (simp add: read_window_def Let_def t)
  show "nat_of_le (take n (drop pos data) @ replicate (n - ?a) 0) =
      nat_of_le data div 256 ^ pos mod 256 ^ n"
    by (simp add: nat_of_le_append nat_of_le_take nat_of_le_drop)
qed

lemma window_digit:
  assumes "r + k \<le> 8 * n"
  shows "(x :: nat) mod 256 ^ n div 2 ^ r mod 2 ^ k = x div 2 ^ r mod 2 ^ k"
proof -
  have "take_bit k (drop_bit r (take_bit (8 * n) x)) = take_bit k (drop_bit r x)"
    using assms by (simp add: drop_bit_take_bit)
  then show ?thesis by (simp add: take_bit_eq_mod drop_bit_eq_div pow_256)
qed

locale bit_unpacker =
  fixes loop :: "bytes \<Rightarrow> usize \<Rightarrow> nat \<Rightarrow> 'b::len word \<Rightarrow> usize \<Rightarrow> 'v::len word list res"
    and window :: nat
    and max_bits :: nat
  assumes loop_0: "loop data 0 k msk off = Inr []"
    and loop_Suc: "loop data (Suc c) k msk off =
      bind_res (read_window window data (off div 8)) (\<lambda>buf.
        bind_res (loop data c k msk (off + k)) (\<lambda>rest.
          Inr (ucast (drop_bit (off mod 8) (from_le_bytes buf) AND msk) # rest)))"
    and window: "LENGTH('b) = 8 * window"
    and room: "max_bits + 7 \<le> LENGTH('b)" "max_bits \<le> LENGTH('v)"
begin

lemma loop_eq:
  assumes "off + k * c \<le> 8 * length data" and "k \<le> max_bits"
    and msk: "\<And>w. unat (w AND msk) = unat w mod 2 ^ k"
  shows "loop data c k msk off = Inr (map of_nat (digits k c (nat_of_le data div 2 ^ off)))"
  using assms(1)
proof (induction c arbitrary: off)
  case 0
  then show ?case by (simp add: loop_0 digits_def)
next
  case (Suc c)
  let ?n = "nat_of_le data"
  have rest: "loop data c k msk (off + k) = Inr (map of_nat (digits k c (?n div 2 ^ (off + k))))"
    using Suc by (simp add: algebra_simps)
  have "off div 8 \<le> length data" using Suc.prems by (simp add: div_le_mono mult.commute)
  then obtain buf where buf: "read_window window data (off div 8) = Inr buf"
    and nbuf: "nat_of_le buf = ?n div 256 ^ (off div 8) mod 256 ^ window"
    by (rule read_window_ok)
  let ?w = "from_le_bytes buf :: 'b word"
  have "nat_of_le buf < 2 ^ LENGTH('b)" by (simp add: nbuf window pow_256)
  then have "unat ?w = nat_of_le buf" by (simp add: from_le_bytes_def unat_of_nat_less)
  then have "unat (drop_bit (off mod 8) ?w AND msk) =
      ?n div 256 ^ (off div 8) mod 256 ^ window div 2 ^ (off mod 8) mod 2 ^ k"
    by (simp only: msk unat_drop_bit nbuf)
  also have "\<dots> = ?n div 256 ^ (off div 8) div 2 ^ (off mod 8) mod 2 ^ k"
    using assms(2) room(1) window by (intro window_digit) (simp add: add_mono)
  also have "\<dots> = ?n div 2 ^ off mod 2 ^ k"
    by (simp only: pow_256 div_mult2_eq [symmetric] power_add [symmetric] mult_div_mod_eq)
  finally have "ucast (drop_bit (off mod 8) ?w AND msk) = (of_nat (?n div 2 ^ off mod 2 ^ k) :: 'v word)"
    by (metis of_nat_unat)
  then show ?case
    by (simp add: loop_Suc buf rest digits_Suc div_mult2_eq power_add)
qed

end

lemma nat_of_le_snoc: "nat_of_le (xs @ [b]) = nat_of_le xs + 256 ^ length xs * unat b"
  by (simp add: nat_of_le_append)

lemma padding_iff:
  assumes "length data = (n + 7) div 8"
  shows "(n mod 8 \<noteq> 0 \<and> data \<noteq> [] \<and> drop_bit (n mod 8) (last data) \<noteq> 0)
    \<longleftrightarrow> \<not> nat_of_le data < 2 ^ n"
proof (cases "n mod 8 = 0")
  case True
  with assms have "length data = n div 8" by presburger
  moreover have "8 * (n div 8) = n" using True by presburger
  ultimately have "(256::nat) ^ length data = 2 ^ n" by (simp only: pow_256)
  with True nat_of_le_bound[of data] show ?thesis by simp
next
  case False
  let ?r = "n mod 8" and ?q = "n div 8"
  have "?r < 8" by simp
  with False have "(?r + 7) div 8 = 1" by linarith
  then have len: "length data = Suc ?q" using div8_split[of n 7] assms by simp
  then obtain xs b where data: "data = xs @ [b]" and xs: "length xs = ?q"
    by (cases data rule: rev_exhaust) auto
  have low: "nat_of_le xs < 256 ^ ?q" using nat_of_le_bound[of xs] xs by simp
  have n: "(2::nat) ^ n = 256 ^ ?q * 2 ^ ?r"
    by (simp only: pow_256 power_add [symmetric] mult_div_mod_eq)
  have "nat_of_le data < 2 ^ n \<longleftrightarrow> unat b < 2 ^ ?r"
  proof
    assume "nat_of_le data < 2 ^ n"
    then have "nat_of_le xs + 256 ^ ?q * unat b < 256 ^ ?q * 2 ^ ?r"
      by (simp only: data nat_of_le_snoc xs n)
    then have "256 ^ ?q * unat b < 256 ^ ?q * 2 ^ ?r" by linarith
    then show "unat b < 2 ^ ?r" by simp
  next
    assume "unat b < 2 ^ ?r"
    then have "256 ^ ?q * Suc (unat b) \<le> 256 ^ ?q * 2 ^ ?r" by (intro mult_le_mono2) simp
    then have "256 ^ ?q + 256 ^ ?q * unat b \<le> 256 ^ ?q * 2 ^ ?r" by (simp only: mult_Suc_right)
    with low have "nat_of_le xs + 256 ^ ?q * unat b < 256 ^ ?q * 2 ^ ?r" by linarith
    then show "nat_of_le data < 2 ^ n" by (simp only: data nat_of_le_snoc xs n)
  qed
  also have "\<dots> \<longleftrightarrow> unat b div 2 ^ ?r = 0" by (simp add: div_eq_0_iff)
  also have "\<dots> \<longleftrightarrow> drop_bit ?r b = 0"
    by (simp only: unat_drop_bit [symmetric] unat_eq_0)
  finally show ?thesis using False by (simp add: data)
qed

lemma validate_packed_bits_ok_iff:
  "validate_packed_bits data count bits width = Inr u \<longleftrightarrow>
     count * unat bits < usize_limit \<and> bits \<noteq> 0 \<and> bits \<le> width
     \<and> length data = (unat bits * count + 7) div 8
     \<and> nat_of_le data < 2 ^ (unat bits * count)"
proof (cases "length data = (unat bits * count + 7) div 8")
  case True
  then show ?thesis
    using padding_iff[OF True]
    by (auto simp: validate_packed_bits_def usize_checked_mul_def mult.commute not_less)
next
  case False
  then show ?thesis
    by (auto simp: validate_packed_bits_def usize_checked_mul_def mult.commute)
qed

lemma validate_packed_bits_no_panic: "\<not> panics (validate_packed_bits data count bits width)"
  by (simp add: validate_packed_bits_def panics_bind)

interpretation unpack32: bit_unpacker unpack_loop_u32 8 32
  by unfold_locales (simp_all add: Let_def)

interpretation unpack64: bit_unpacker unpack_loop_u64 16 64
  by unfold_locales (simp_all add: Let_def)

lemma packed_length_covers: "length data = (m + 7) div 8 \<Longrightarrow> m \<le> 8 * length data"
  by simp

lemma bitunpack_u32_eq:
  assumes "validate_packed_bits data count bits 32 = Inr ()"
  shows "bitunpack_u32 data count bits = Inr (map of_nat (digits (unat bits) count (nat_of_le data)))"
proof -
  have b: "unat bits \<le> 32" and l: "unat bits * count \<le> 8 * length data"
    using assms by (auto simp: validate_packed_bits_ok_iff word_le_nat_alt)
  have "unpack_loop_u32 data count (unat bits) (push_bit (unat bits) 1 - 1) 0 =
      Inr (map of_nat (digits (unat bits) count (nat_of_le data div 2 ^ 0)))"
    using l b by (intro unpack32.loop_eq) (simp_all add: unat_mask_low del: push_bit_of_1)
  then show ?thesis using assms by (simp add: bitunpack_u32_def digits_def)
qed

lemma bitunpack_u64_eq:
  assumes "validate_packed_bits data count bits 64 = Inr ()"
  shows "bitunpack_u64 data count bits = Inr (map of_nat (digits (unat bits) count (nat_of_le data)))"
proof -
  let ?m = "(if 64 \<le> unat bits then ucast (- 1 :: u64) else push_bit (unat bits) 1 - 1) :: u128"
  have b: "unat bits \<le> 64" and l: "unat bits * count \<le> 8 * length data"
    using assms by (auto simp: validate_packed_bits_ok_iff word_le_nat_alt)
  have "ucast (- 1 :: u64) = (push_bit 64 1 - 1 :: u128)"
    by (simp add: word_unat_eq_iff unat_ucast_up unat_minus_one_max)
  then have m: "?m = push_bit (unat bits) 1 - 1" using b by (cases "unat bits = 64") auto
  have "unpack_loop_u64 data count (unat bits) ?m 0 =
      Inr (map of_nat (digits (unat bits) count (nat_of_le data div 2 ^ 0)))"
    unfolding m using l b by (intro unpack64.loop_eq) (simp_all add: unat_mask_low del: push_bit_of_1)
  then show ?thesis using assms by (simp add: bitunpack_u64_def digits_def)
qed

section \<open>Round trips\<close>

lemma packed_bytes_valid:
  assumes "length vs * unat bits < usize_limit" and "bits \<noteq> 0" and "bits \<le> width"
  shows "validate_packed_bits (packed_bytes (unat bits) (map unat vs)) (length vs) bits width = Inr ()"
    and "nat_of_le (packed_bytes (unat bits) (map unat vs)) = packed_nat (unat bits) (map unat vs)"
proof -
  let ?k = "unat bits" and ?vs = "map unat vs"
  have "packed_nat ?k ?vs < 2 ^ (?k * length vs)"
    using packed_nat_bound[of ?k ?vs] by simp
  also have "(2::nat) ^ (?k * length vs) \<le> 256 ^ ((?k * length vs + 7) div 8)"
    unfolding pow_256 by (rule power_increasing) auto
  finally show n: "nat_of_le (packed_bytes ?k ?vs) = packed_nat ?k ?vs"
    by (simp add: packed_bytes_def nat_of_le_nat_to_le)
  show "validate_packed_bits (packed_bytes ?k ?vs) (length vs) bits width = Inr ()"
    using assms packed_nat_bound[of ?k ?vs]
    by (simp add: validate_packed_bits_ok_iff n) (simp add: packed_bytes_def)
qed

lemma digits_of_values:
  assumes "\<forall>v \<in> set vs. unat v < 2 ^ k"
  shows "map of_nat (digits k (length vs) (packed_nat k (map unat vs))) = (vs :: 'v::len word list)"
  using digits_packed_nat[of k "map unat vs"] assms by (simp add: map_idI)

lemma bitpack_u32_roundtrip:
  assumes "length vs * unat bits < usize_limit" and "bits \<noteq> 0" and "bits \<le> 32"
    and "\<forall>v \<in> set vs. unat v < 2 ^ unat bits"
  shows "bitunpack_u32 (bitpack_u32 vs bits []) (length vs) bits = Inr vs"
  using packed_bytes_valid[OF assms(1-3)] assms
  by (simp add: bitpack_u32_eq bitunpack_u32_eq word_le_nat_alt digits_of_values)

lemma bitpack_u64_roundtrip:
  assumes "length vs * unat bits < usize_limit" and "bits \<noteq> 0" and "bits \<le> 64"
    and "\<forall>v \<in> set vs. unat v < 2 ^ unat bits"
  shows "bitunpack_u64 (bitpack_u64 vs bits []) (length vs) bits = Inr vs"
  using packed_bytes_valid[OF assms(1-3)] assms
  by (simp add: bitpack_u64_eq bitunpack_u64_eq word_le_nat_alt digits_of_values)

lemma digits_bound: "d \<in> set (digits k c n) \<Longrightarrow> d < 2 ^ k"
  by (auto simp: digits_def)

lemma length_digits [simp]: "length (digits k c n) = c"
  by (simp add: digits_def)

lemma unat_digits:
  assumes "k \<le> LENGTH('v)"
  shows "map unat (map of_nat (digits k c n) :: 'v::len word list) = digits k c n"
proof -
  have "d < 2 ^ LENGTH('v)" if "d \<in> set (digits k c n)" for d
    using digits_bound[OF that] assms by (meson less_le_trans one_le_numeral power_increasing)
  then show ?thesis by (auto intro!: map_idI simp: unat_of_nat_less)
qed

lemma packed_bytes_digits:
  assumes "validate_packed_bits data count bits width = Inr ()"
  shows "packed_bytes (unat bits) (digits (unat bits) count (nat_of_le data)) = data"
  using assms nat_to_le_nat_of_le[of data]
  by (simp add: validate_packed_bits_ok_iff packed_bytes_def packed_nat_digits)

lemma bitunpack_u64_canonical:
  assumes "bitunpack_u64 data count bits = Inr vs"
  shows "bitpack_u64 vs bits [] = data \<and> length vs = count"
proof -
  have v: "validate_packed_bits data count bits 64 = Inr ()"
    using assms by (auto simp: bitunpack_u64_def bind_res_Inr_iff)
  then have b: "unat bits \<le> 64" by (simp add: validate_packed_bits_ok_iff word_le_nat_alt)
  have vs: "vs = map of_nat (digits (unat bits) count (nat_of_le data))"
    using assms bitunpack_u64_eq[OF v] by simp
  then have "map unat vs = digits (unat bits) count (nat_of_le data)"
    using b by (simp only: unat_digits len_of_numeral_defs)
  then show ?thesis using b vs packed_bytes_digits[OF v] by (simp add: bitpack_u64_eq)
qed

lemma bitunpack_u32_canonical:
  assumes "bitunpack_u32 data count bits = Inr vs"
  shows "bitpack_u32 vs bits [] = data \<and> length vs = count"
proof -
  have v: "validate_packed_bits data count bits 32 = Inr ()"
    using assms by (auto simp: bitunpack_u32_def bind_res_Inr_iff)
  then have b: "unat bits \<le> 32" by (simp add: validate_packed_bits_ok_iff word_le_nat_alt)
  have vs: "vs = map of_nat (digits (unat bits) count (nat_of_le data))"
    using assms bitunpack_u32_eq[OF v] by simp
  then have "map unat vs = digits (unat bits) count (nat_of_le data)"
    using b by (simp only: unat_digits len_of_numeral_defs)
  then show ?thesis using b vs packed_bytes_digits[OF v] by (simp add: bitpack_u32_eq)
qed

lemma bitunpack_no_panic:
  "\<not> panics (bitunpack_u32 data count bits)" "\<not> panics (bitunpack_u64 data count bits)"
proof -
  show "\<not> panics (bitunpack_u32 data count bits)"
  proof (cases "validate_packed_bits data count bits 32")
    case (Inl e)
    then show ?thesis using validate_packed_bits_no_panic[of data count bits 32]
      by (simp add: bitunpack_u32_def)
  qed (simp add: bitunpack_u32_eq)
  show "\<not> panics (bitunpack_u64 data count bits)"
  proof (cases "validate_packed_bits data count bits 64")
    case (Inl e)
    then show ?thesis using validate_packed_bits_no_panic[of data count bits 64]
      by (simp add: bitunpack_u64_def)
  qed (simp add: bitunpack_u64_eq)
qed

section \<open>Zigzag is a bijection\<close>

lemma zigzag_encode_eq:
  "zigzag_encode v = (if bit v 63 then NOT (push_bit 1 v) else push_bit 1 v)"
proof -
  have "signed_drop_bit 63 v = (if bit v 63 then - 1 else 0)"
    by (rule bit_word_eqI) (auto simp: bit_signed_drop_bit_iff not_less_eq_eq)
  then show ?thesis by (simp add: zigzag_encode_def)
qed

lemma zigzag_decode_eq:
  "zigzag_decode v = (if bit v 0 then NOT (drop_bit 1 v) else drop_bit 1 v)"
  by (cases "bit v 0") (simp_all add: zigzag_decode_def bit_0 and_one_eq mod_2_eq_odd)

lemma bit_zigzag_encode:
  "bit (zigzag_encode v) n \<longleftrightarrow> n < 64 \<and> (bit v 63 \<noteq> (1 \<le> n \<and> bit v (n - 1)))"
  by (cases "bit v 63")
     (simp_all only: zigzag_encode_eq if_True if_False bit_not_iff bit_push_bit_iff possible_bit_word
        len_of_numeral_defs, auto)

lemma bit_zigzag_decode:
  "bit (zigzag_decode v) n \<longleftrightarrow> n < 64 \<and> (bit v 0 \<noteq> bit v (Suc n))"
  by (cases "bit v 0")
     (simp_all only: zigzag_decode_eq if_True if_False bit_not_iff bit_drop_bit_eq possible_bit_word
        len_of_numeral_defs, auto dest: bit_imp_le_length)

lemma zigzag_decode_encode [simp]: "zigzag_decode (zigzag_encode v) = v"
proof (rule bit_word_eqI)
  fix n
  assume "n < LENGTH(64)"
  then show "bit (zigzag_decode (zigzag_encode v)) n = bit v n"
    by (cases "n = 63") (auto simp: bit_zigzag_decode bit_zigzag_encode)
qed

lemma zigzag_encode_decode [simp]: "zigzag_encode (zigzag_decode v) = v"
proof (rule bit_word_eqI)
  fix n
  assume "n < LENGTH(64)"
  moreover have "\<not> bit v 64" using bit_imp_le_length[of v 64] by auto
  ultimately show "bit (zigzag_encode (zigzag_decode v)) n = bit v n"
    by (cases n) (auto simp: bit_zigzag_decode bit_zigzag_encode)
qed

section \<open>Properties\<close>

lemma bitunpack_u64_values:
  assumes "bitunpack_u64 data count bits = Inr vs"
  shows "count * unat bits < usize_limit \<and> bits \<noteq> 0 \<and> bits \<le> 64 \<and> (\<forall>v \<in> set vs. unat v < 2 ^ unat bits)"
proof -
  have v: "validate_packed_bits data count bits 64 = Inr ()"
    using assms by (auto simp: bitunpack_u64_def bind_res_Inr_iff)
  then have b: "unat bits \<le> 64" by (simp add: validate_packed_bits_ok_iff word_le_nat_alt)
  have "vs = map of_nat (digits (unat bits) count (nat_of_le data))" using assms bitunpack_u64_eq[OF v] by simp
  then have "map unat vs = digits (unat bits) count (nat_of_le data)"
    using unat_digits[where 'v = 64, of "unat bits"] b by simp
  then have "\<forall>v \<in> set vs. unat v < 2 ^ unat bits" using digits_bound by (metis image_eqI list.set_map)
  with v show ?thesis by (simp add: validate_packed_bits_ok_iff)
qed

text \<open>
  C23. Unpacking is the exact inverse of packing: \<^verbatim>\<open>bitunpack_u64\<close> accepts a byte
  string for a row count and width if and only if it is what \<^verbatim>\<open>bitpack_u64\<close>
  writes for that many values of that width, and then returns those values; a
  wrong length, a nonzero padding bit or an unsupported width is refused.
\<close>

theorem bitunpack_u64_iff:
  "bitunpack_u64 data count bits = Inr vs \<longleftrightarrow>
     data = bitpack_u64 vs bits [] \<and> length vs = count \<and> count * unat bits < usize_limit
     \<and> bits \<noteq> 0 \<and> bits \<le> 64 \<and> list_all (\<lambda>v. unat v < 2 ^ unat bits) vs"
  using bitunpack_u64_canonical[of data count bits vs] bitunpack_u64_values[of data count bits vs]
    bitpack_u64_roundtrip[of vs bits]
  by (auto simp: list_all_iff)

end
