(* ===== verification/Codecs.thy ===== *)
theory Codecs
  imports Bit_Packing
begin

text \<open>
  The lightweight column codecs of \<^verbatim>\<open>src/crates/logex-storage/src/compression.rs\<close>:
  dictionary, delta, signed delta and delta-of-delta.  The decoders are the
  ones without a query memory budget (\<^verbatim>\<open>memory = None\<close>), with allocation
  assumed to succeed; each is written with every slice and index of the source,
  so that the absence of panics is a theorem.  The three \<^verbatim>\<open>u64\<close> codecs satisfy
  one contract, the locale \<open>u64_codec\<close>: round trip, exact row count, no
  accepted proper extension, no panic.
\<close>

section \<open>Codec tags\<close>

datatype codec = Codec_None | Dictionary | Delta | Zstd | Lz4 | DeltaOfDelta

definition codec_from_u8 :: "u8 \<Rightarrow> codec option" where
  "codec_from_u8 v =
     (if v = 0 then Some Codec_None else if v = 1 then Some Dictionary
      else if v = 2 then Some Delta else if v = 3 then Some Zstd
      else if v = 4 then Some Lz4 else if v = 5 then Some DeltaOfDelta else None)"

section \<open>Dictionary codec\<close>

fun dict_loop ::
  "bytes list \<Rightarrow> bytes list \<Rightarrow> (bytes \<rightharpoonup> u32) \<Rightarrow> u32 list \<Rightarrow> bytes list \<times> u32 list" where
  "dict_loop [] dict index_map indices = (dict, indices)"
| "dict_loop (val # vals) dict index_map indices =
     (case index_map val of
        Some existing \<Rightarrow> dict_loop vals dict index_map (indices @ [existing])
      | None \<Rightarrow>
          let idx = of_nat (length dict)
          in dict_loop vals (dict @ [val]) (index_map(val \<mapsto> idx)) (indices @ [idx]))"

definition encode_dictionary_parts :: "bytes list \<Rightarrow> usize \<Rightarrow> u32 list \<Rightarrow> bytes" where
  "encode_dictionary_parts dict item_size indices =
     (let dict_size = of_nat (length dict) :: u32;
          bits_needed = (if dict_size \<le> 1 then 1 else 32 - of_nat (leading_zeros (dict_size - 1))) :: u8;
          out = to_le_bytes dict_size @ to_le_bytes (of_nat item_size :: u32) @ concat dict @ [bits_needed]
      in bitpack_u32 indices bits_needed out)"

definition dict_encode :: "bytes list \<Rightarrow> usize \<Rightarrow> bytes" where
  "dict_encode values item_size =
     (let (dict, indices) = dict_loop values [] Map.empty []
      in encode_dictionary_parts dict item_size indices)"

text \<open>\<^verbatim>\<open>raw_values.len() / item_size\<close> panics on a zero item size.\<close>

definition dict_encode_raw :: "bytes \<Rightarrow> usize \<Rightarrow> bytes res" where
  "dict_encode_raw raw_values item_size =
     (if item_size = 0 then Inl (Panic ''attempt to divide by zero'')
      else let (dict, indices) = dict_loop (chunks_exact item_size raw_values) [] Map.empty []
           in Inr (encode_dictionary_parts dict item_size indices))"

fun dict_copy :: "bytes \<Rightarrow> usize \<Rightarrow> u32 list \<Rightarrow> bytes res" where
  "dict_copy dict_bytes item_size [] = Inr []"
| "dict_copy dict_bytes item_size (idx # indices) =
     (let offset = unat idx * item_size mod usize_limit
      in bind_res (slice dict_bytes offset (offset + item_size)) (\<lambda>entry.
           bind_res (dict_copy dict_bytes item_size indices) (\<lambda>rest. Inr (entry @ rest))))"

definition dict_decode :: "bytes \<Rightarrow> usize \<Rightarrow> usize \<Rightarrow> bytes res" where
  "dict_decode data row_count item_size =
     bind_res (ensure (8 \<le> length data) (InvalidData ''dict too short'')) (\<lambda>_.
     bind_res (slice data 0 4) (\<lambda>dict_size_bytes.
     bind_res (slice data 4 8) (\<lambda>item_size_bytes.
     let dict_size = unat (from_le_bytes dict_size_bytes :: u32);
         stored_item_size = unat (from_le_bytes item_size_bytes :: u32)
     in bind_res (ensure (stored_item_size = item_size) (InvalidData ''dict item size mismatch'')) (\<lambda>_.
     bind_res (ok_or (Option.bind (usize_checked_mul dict_size item_size) (\<lambda>n. usize_checked_add n 8))
                 (InvalidData ''dictionary size overflow'')) (\<lambda>dict_end.
     bind_res (ensure (dict_end < length data) (InvalidData ''dict data truncated'')) (\<lambda>_.
     bind_res (slice data 8 dict_end) (\<lambda>dict_bytes.
     bind_res (index data dict_end) (\<lambda>bits_needed.
     bind_res (slice_from data (dict_end + 1)) (\<lambda>packed.
     bind_res (bitunpack_u32 packed row_count bits_needed) (\<lambda>indices.
     bind_res (ensure (case iter_max indices of None \<Rightarrow> True | Some max_index \<Rightarrow> unat max_index < dict_size)
                 (InvalidData ''dictionary index is out of bounds'')) (\<lambda>_.
     bind_res (ok_or (usize_checked_mul row_count item_size)
                 (InvalidData ''dictionary output size overflow'')) (\<lambda>output_len.
     dict_copy dict_bytes item_size indices))))))))))))"

section \<open>Delta codecs\<close>

text \<open>The width all delta encoders choose: \<^verbatim>\<open>64 - max.leading_zeros() as u8\<close>, at least one.\<close>

definition delta_bits :: "u64 list \<Rightarrow> u8" where
  "delta_bits deltas =
     (let max_delta = (case iter_max deltas of None \<Rightarrow> 0 | Some m \<Rightarrow> m)
      in if max_delta = 0 then 1 else 64 - of_nat (leading_zeros max_delta))"

fun delta_loop :: "u64 \<Rightarrow> u64 list \<Rightarrow> u64 list" where
  "delta_loop prev [] = []"
| "delta_loop prev (v # vs) = (v - prev) # delta_loop v vs"

definition delta_encode :: "u64 list \<Rightarrow> bytes" where
  "delta_encode values =
     (case values of
        [] \<Rightarrow> []
      | base # rest \<Rightarrow>
          let deltas = delta_loop base rest; bits = delta_bits deltas
          in bitpack_u64 deltas bits (to_le_bytes base @ [bits]))"

fun undelta_loop :: "u64 \<Rightarrow> u64 list \<Rightarrow> u64 list" where
  "undelta_loop prev [] = []"
| "undelta_loop prev (d # ds) = (prev + d) # undelta_loop (prev + d) ds"

definition delta_decode :: "bytes \<Rightarrow> usize \<Rightarrow> u64 list res" where
  "delta_decode data row_count =
     (if row_count = 0
      then if data = [] then Inr [] else Inl (InvalidData ''nonempty encoding for zero rows'')
      else if length data < 9 then Inl (InvalidData ''delta data too short'')
      else
        bind_res (slice data 0 8) (\<lambda>base_bytes.
        let base = from_le_bytes base_bytes
        in bind_res (index data 8) (\<lambda>bits.
        bind_res (slice_from data 9) (\<lambda>packed.
        bind_res (bitunpack_u64 packed (row_count - 1) bits) (\<lambda>deltas.
        Inr (base # undelta_loop base deltas))))))"

fun signed_delta_loop :: "u64 \<Rightarrow> u64 list \<Rightarrow> u64 list" where
  "signed_delta_loop prev [] = []"
| "signed_delta_loop prev (v # vs) = zigzag_encode (v - prev) # signed_delta_loop v vs"

definition signed_delta_encode :: "u64 list \<Rightarrow> bytes" where
  "signed_delta_encode values =
     (case values of
        [] \<Rightarrow> []
      | base # rest \<Rightarrow>
          let deltas = signed_delta_loop base rest; bits = delta_bits deltas
          in bitpack_u64 deltas bits (to_le_bytes base @ [bits]))"

fun signed_undelta_loop :: "u64 \<Rightarrow> u64 list \<Rightarrow> u64 list" where
  "signed_undelta_loop prev [] = []"
| "signed_undelta_loop prev (delta # deltas) =
     (let prev = prev + zigzag_decode delta in prev # signed_undelta_loop prev deltas)"

definition signed_delta_decode :: "bytes \<Rightarrow> usize \<Rightarrow> u64 list res" where
  "signed_delta_decode data row_count =
     (if row_count = 0
      then if data = [] then Inr [] else Inl (InvalidData ''nonempty encoding for zero rows'')
      else if length data < 9 then Inl (InvalidData ''signed delta data too short'')
      else
        bind_res (slice data 0 8) (\<lambda>base_bytes.
        let base = from_le_bytes base_bytes
        in bind_res (index data 8) (\<lambda>bits.
        bind_res (slice_from data 9) (\<lambda>packed.
        bind_res (bitunpack_u64 packed (row_count - 1) bits) (\<lambda>deltas.
        Inr (base # signed_undelta_loop base deltas))))))"

fun dod_loop :: "u64 \<Rightarrow> u64 \<Rightarrow> u64 list \<Rightarrow> u64 list" where
  "dod_loop prev prev_delta [] = []"
| "dod_loop prev prev_delta (v # vs) =
     (let delta = v - prev in (delta - prev_delta) # dod_loop v delta vs)"

definition delta_of_delta_encode :: "u64 list \<Rightarrow> bytes" where
  "delta_of_delta_encode values =
     (case values of
        [] \<Rightarrow> []
      | [v] \<Rightarrow> to_le_bytes v
      | base # second # rest \<Rightarrow>
          let first_delta = second - base;
              zigzag = map zigzag_encode (dod_loop second first_delta rest);
              bits = delta_bits zigzag
          in bitpack_u64 zigzag bits (to_le_bytes base @ to_le_bytes first_delta @ [bits]))"

fun undod_loop :: "u64 \<Rightarrow> u64 \<Rightarrow> u64 list \<Rightarrow> u64 list" where
  "undod_loop prev_val prev_delta [] = []"
| "undod_loop prev_val prev_delta (encoded_delta # rest) =
     (let delta = prev_delta + zigzag_decode encoded_delta;
          prev_val = prev_val + delta
      in prev_val # undod_loop prev_val delta rest)"

definition delta_of_delta_decode :: "bytes \<Rightarrow> usize \<Rightarrow> u64 list res" where
  "delta_of_delta_decode data row_count =
     (if row_count = 0
      then if data = [] then Inr [] else Inl (InvalidData ''nonempty encoding for zero rows'')
      else if length data < 8 then Inl (InvalidData ''dod data too short'')
      else
        bind_res (slice data 0 8) (\<lambda>base_bytes.
        let base = from_le_bytes base_bytes
        in if row_count = 1
           then if length data = 8 then Inr [base]
                else Inl (InvalidData ''timestamp singleton has trailing bytes'')
           else if length data < 17 then Inl (InvalidData ''dod data too short for first_delta'')
           else
             bind_res (slice data 8 16) (\<lambda>delta_bytes.
             let first_delta = from_le_bytes delta_bytes
             in bind_res (index data 16) (\<lambda>bits.
             bind_res (slice_from data 17) (\<lambda>packed.
             bind_res (bitunpack_u64 packed (row_count - 2) bits) (\<lambda>zigzag.
             let prev_val = base + first_delta
             in Inr (base # prev_val # undod_loop prev_val first_delta zigzag)))))))"

section \<open>Widths\<close>

lemma unat_width:
  assumes "m \<noteq> 0" and "LENGTH('a) \<le> 128"
  shows "unat (of_nat LENGTH('a) - of_nat (leading_zeros (m :: 'a::len word)) :: u8) = bit_len (unat m)"
proof -
  have *: "LENGTH('a) < 2 ^ LENGTH(8)" "leading_zeros m < 2 ^ LENGTH(8)"
    using assms(2) leading_zeros_le[of m] by simp_all
  have "of_nat (leading_zeros m) \<le> (of_nat LENGTH('a) :: u8)"
    using leading_zeros_le[of m] * by (simp add: word_le_nat_alt unat_of_nat_less)
  then have "unat (of_nat LENGTH('a) - of_nat (leading_zeros m) :: u8) = LENGTH('a) - leading_zeros m"
    using * by (simp add: unat_sub unat_of_nat_less)
  then show ?thesis by simp
qed

lemma delta_bits_bounds:
  shows "delta_bits ds \<noteq> 0" and "unat (delta_bits ds) \<le> 64"
    and "\<forall>d \<in> set ds. unat d < 2 ^ unat (delta_bits ds)"
proof -
  define m where "m = (case iter_max ds of None \<Rightarrow> 0 | Some m \<Rightarrow> m)"
  have le: "unat d \<le> unat m" if "d \<in> set ds" for d
    using that iter_max_SomeD[of ds] by (auto simp: m_def word_le_nat_alt split: option.splits)
  have bits: "delta_bits ds = (if m = 0 then 1 else 64 - of_nat (leading_zeros m))"
    by (simp add: delta_bits_def m_def Let_def)
  have un: "unat (delta_bits ds) = (if m = 0 then 1 else bit_len (unat m))"
    using unat_width[of m] by (simp add: bits)
  show "unat (delta_bits ds) \<le> 64"
    using bit_len_word_le[of m] by (simp add: un)
  have "0 < unat (delta_bits ds)"
    using un by (simp add: unat_gt_0)
  then show "delta_bits ds \<noteq> 0" by (metis less_irrefl unat_0)
  have "unat m < 2 ^ unat (delta_bits ds)"
    using bit_len_upper[of "unat m"] by (simp add: un)
  with le show "\<forall>d \<in> set ds. unat d < 2 ^ unat (delta_bits ds)"
    using le_less_trans by blast
qed

lemma delta_payload_roundtrip:
  assumes "length ds * 64 < usize_limit"
  shows "bitunpack_u64 (bitpack_u64 ds (delta_bits ds) []) (length ds) (delta_bits ds) = Inr ds"
proof (rule bitpack_u64_roundtrip)
  show "length ds * unat (delta_bits ds) < usize_limit"
    using assms delta_bits_bounds(2)[of ds] by (meson le_less_trans mult_le_mono2)
  show "delta_bits ds \<le> 64" using delta_bits_bounds(2)[of ds] by (simp add: word_le_nat_alt)
qed (rule delta_bits_bounds)+

lemma bitpack_u64_append:
  "unat bits \<le> 64 \<Longrightarrow> bitpack_u64 ds bits out = out @ bitpack_u64 ds bits []"
  by (simp add: bitpack_u64_eq)

lemma bitunpack_u64_length:
  "bitunpack_u64 data n bits = Inr vs \<Longrightarrow> length vs = n"
  using bitunpack_u64_canonical by blast

lemma bitunpack_u64_exact:
  assumes "bitunpack_u64 data n bits = Inr vs" and "bitunpack_u64 (data @ ext) n bits = Inr vs'"
  shows "ext = []"
  using assms by (auto simp: bitunpack_u64_def bind_res_Inr_iff validate_packed_bits_ok_iff)

section \<open>The contract of the \<^verbatim>\<open>u64\<close> codecs\<close>

locale u64_codec =
  fixes encode :: "u64 list \<Rightarrow> bytes" and decode :: "bytes \<Rightarrow> usize \<Rightarrow> u64 list res"
  assumes round_trip: "length vs * 64 < usize_limit \<Longrightarrow> decode (encode vs) (length vs) = Inr vs"
    and row_count: "decode data n = Inr vs \<Longrightarrow> length vs = n"
    and exact: "decode data n = Inr vs \<Longrightarrow> decode (data @ ext) n = Inr vs' \<Longrightarrow> ext = []"
    and no_panic: "\<not> panics (decode data n)"
begin

lemma encode_injective:
  assumes "length vs = length ws" and "length vs * 64 < usize_limit" and "encode vs = encode ws"
  shows "vs = ws"
  using assms round_trip sum.inject(2) by metis

lemma truncated_rejected:
  assumes "length vs * 64 < usize_limit" and "k < length (encode vs)"
  shows "\<exists>e. decode (take k (encode vs)) (length vs) = Inl e \<and> \<not> is_panic e"
proof (cases "decode (take k (encode vs)) (length vs)")
  case (Inl e)
  then show ?thesis using no_panic[of "take k (encode vs)" "length vs"] by auto
next
  case (Inr ws)
  have "drop k (encode vs) = []"
    using exact[OF Inr, of "drop k (encode vs)" vs] round_trip[OF assms(1)] by simp
  with assms(2) show ?thesis by simp
qed

lemma trailing_rejected:
  assumes "length vs * 64 < usize_limit" and "ext \<noteq> []"
  shows "\<exists>e. decode (encode vs @ ext) (length vs) = Inl e \<and> \<not> is_panic e"
proof (cases "decode (encode vs @ ext) (length vs)")
  case (Inl e)
  then show ?thesis using no_panic[of "encode vs @ ext" "length vs"] by auto
next
  case (Inr ws)
  then show ?thesis using exact[OF round_trip[OF assms(1)] Inr] assms(2) by simp
qed

end

section \<open>The delta codecs satisfy the contract\<close>

lemma undelta_delta [simp]: "undelta_loop prev (delta_loop prev vs) = vs"
  by (induction vs arbitrary: prev) auto

lemma signed_undelta_signed_delta [simp]: "signed_undelta_loop prev (signed_delta_loop prev vs) = vs"
  by (induction vs arbitrary: prev) (auto simp: Let_def)

lemma undod_dod [simp]: "undod_loop prev delta (map zigzag_encode (dod_loop prev delta vs)) = vs"
  by (induction vs arbitrary: prev delta) (auto simp: Let_def)

lemma delta_loop_lengths [simp]:
  "length (delta_loop prev vs) = length vs"
  "length (signed_delta_loop prev vs) = length vs"
  "length (dod_loop prev delta vs) = length vs"
  "length (undelta_loop prev ds) = length ds"
  "length (signed_undelta_loop prev ds) = length ds"
  "length (undod_loop prev delta ds) = length ds"
       apply (induction vs arbitrary: prev; simp)
      apply (induction vs arbitrary: prev; simp)
     apply (induction vs arbitrary: prev delta; simp add: Let_def)
    apply (induction ds arbitrary: prev; simp)
   apply (induction ds arbitrary: prev; simp add: Let_def)
  apply (induction ds arbitrary: prev delta; simp add: Let_def)
  done

lemma delta_decode_Inr_iff:
  "delta_decode data n = Inr vs \<longleftrightarrow>
     (if n = 0 then data = [] \<and> vs = []
      else 9 \<le> length data \<and> (\<exists>ds. bitunpack_u64 (drop 9 data) (n - 1) (data ! 8) = Inr ds
             \<and> vs = from_le_bytes (take 8 data) # undelta_loop (from_le_bytes (take 8 data)) ds))"
  by (auto simp: delta_decode_def bind_res_Inr_iff Let_def)

lemma signed_delta_decode_Inr_iff:
  "signed_delta_decode data n = Inr vs \<longleftrightarrow>
     (if n = 0 then data = [] \<and> vs = []
      else 9 \<le> length data \<and> (\<exists>ds. bitunpack_u64 (drop 9 data) (n - 1) (data ! 8) = Inr ds
             \<and> vs = from_le_bytes (take 8 data) # signed_undelta_loop (from_le_bytes (take 8 data)) ds))"
  by (auto simp: signed_delta_decode_def bind_res_Inr_iff Let_def)

lemma delta_of_delta_decode_Inr_iff:
  "delta_of_delta_decode data n = Inr vs \<longleftrightarrow>
     (if n = 0 then data = [] \<and> vs = []
      else if n = 1 then length data = 8 \<and> vs = [from_le_bytes data]
      else 17 \<le> length data \<and> (\<exists>ds. bitunpack_u64 (drop 17 data) (n - 2) (data ! 16) = Inr ds
             \<and> vs = (let base = from_le_bytes (take 8 data); delta = from_le_bytes (take 8 (drop 8 data))
                    in base # (base + delta) # undod_loop (base + delta) delta ds)))"
  by (auto simp: delta_of_delta_decode_def bind_res_Inr_iff Let_def)

lemmas delta_decode_iffs =
  delta_decode_Inr_iff signed_delta_decode_Inr_iff delta_of_delta_decode_Inr_iff

text \<open>A nine-byte head followed by an exact payload has no accepted proper extension.\<close>

lemma framed_exact:
  assumes "k < length data" and "bitunpack_u64 (drop (Suc k) data) m (data ! k) = Inr ds"
    and "bitunpack_u64 (drop (Suc k) (data @ ext)) m ((data @ ext) ! k) = Inr ds'"
  shows "ext = []"
proof -
  have "bitunpack_u64 (drop (Suc k) data @ ext) m (data ! k) = Inr ds'"
    using assms(1,3) by (simp add: nth_append)
  with assms(2) show ?thesis by (rule bitunpack_u64_exact)
qed

lemma framed_delta_roundtrip:
  assumes "length ds * 64 < usize_limit" and "length hdr = k"
    and "data = bitpack_u64 ds (delta_bits ds) (hdr @ [delta_bits ds])"
  shows "k < length data" and "take k data = hdr"
    and "bitunpack_u64 (drop (Suc k) data) (length ds) (data ! k) = Inr ds"
proof -
  have data: "data = hdr @ [delta_bits ds] @ bitpack_u64 ds (delta_bits ds) []"
    using bitpack_u64_append[OF delta_bits_bounds(2), of ds ds "hdr @ [delta_bits ds]"] assms(3) by simp
  show "k < length data" "take k data = hdr" using data assms(2) by simp_all
  show "bitunpack_u64 (drop (Suc k) data) (length ds) (data ! k) = Inr ds"
    using delta_payload_roundtrip[OF assms(1)] assms(2) by (simp add: data nth_append)
qed

interpretation delta: u64_codec delta_encode delta_decode
proof
  fix vs :: "u64 list"
  assume len: "length vs * 64 < usize_limit"
  show "delta_decode (delta_encode vs) (length vs) = Inr vs"
  proof (cases vs)
    case (Cons base rest)
    let ?ds = "delta_loop base rest"
    from len Cons have "length ?ds * 64 < usize_limit" by simp
    from framed_delta_roundtrip[OF this _ refl, of "to_le_bytes base" 8] Cons show ?thesis
      by (simp add: delta_decode_Inr_iff delta_encode_def Let_def)
  qed (simp add: delta_decode_Inr_iff delta_encode_def)
next
  fix data n vs ext vs'
  assume "delta_decode data n = Inr vs" "delta_decode (data @ ext) n = Inr vs'"
  then show "ext = []"
    using framed_exact[of 8 data "n - 1" _ ext] by (auto simp: delta_decode_Inr_iff split: if_splits)
next
  fix data n vs
  assume "delta_decode data n = Inr vs"
  then show "length vs = n"
    by (auto simp: delta_decode_Inr_iff dest: bitunpack_u64_length split: if_splits)
next
  fix data n
  show "\<not> panics (delta_decode data n)"
    using bitunpack_no_panic by (auto simp: delta_decode_def panics_bind Let_def)
qed

interpretation signed_delta: u64_codec signed_delta_encode signed_delta_decode
proof
  fix vs :: "u64 list"
  assume len: "length vs * 64 < usize_limit"
  show "signed_delta_decode (signed_delta_encode vs) (length vs) = Inr vs"
  proof (cases vs)
    case (Cons base rest)
    let ?ds = "signed_delta_loop base rest"
    from len Cons have "length ?ds * 64 < usize_limit" by simp
    from framed_delta_roundtrip[OF this _ refl, of "to_le_bytes base" 8] Cons show ?thesis
      by (simp add: signed_delta_decode_Inr_iff signed_delta_encode_def Let_def)
  qed (simp add: signed_delta_decode_Inr_iff signed_delta_encode_def)
next
  fix data n vs ext vs'
  assume "signed_delta_decode data n = Inr vs" "signed_delta_decode (data @ ext) n = Inr vs'"
  then show "ext = []"
    using framed_exact[of 8 data "n - 1" _ ext] by (auto simp: signed_delta_decode_Inr_iff split: if_splits)
next
  fix data n vs
  assume "signed_delta_decode data n = Inr vs"
  then show "length vs = n"
    by (auto simp: signed_delta_decode_Inr_iff dest: bitunpack_u64_length split: if_splits)
next
  fix data n
  show "\<not> panics (signed_delta_decode data n)"
    using bitunpack_no_panic by (auto simp: signed_delta_decode_def panics_bind Let_def)
qed

interpretation dod: u64_codec delta_of_delta_encode delta_of_delta_decode
proof
  fix vs :: "u64 list"
  assume len: "length vs * 64 < usize_limit"
  consider "vs = []" | v where "vs = [v]" | base second rest where "vs = base # second # rest"
    by (metis remdups_adj.cases)
  then show "delta_of_delta_decode (delta_of_delta_encode vs) (length vs) = Inr vs"
  proof cases
    case 3
    let ?ds = "map zigzag_encode (dod_loop second (second - base) rest)"
    from len 3 have "length ?ds * 64 < usize_limit" by simp
    from framed_delta_roundtrip[OF this _ refl, of "to_le_bytes base @ to_le_bytes (second - base)" 16] 3
    show ?thesis
      by (auto simp: delta_of_delta_decode_Inr_iff delta_of_delta_encode_def Let_def take_add[of 8 8, simplified])
  qed (simp_all add: delta_of_delta_decode_Inr_iff delta_of_delta_encode_def)
next
  fix data n vs ext vs'
  assume "delta_of_delta_decode data n = Inr vs" "delta_of_delta_decode (data @ ext) n = Inr vs'"
  then show "ext = []"
    using framed_exact[of 16 data "n - 2" _ ext]
    by (auto simp: delta_of_delta_decode_Inr_iff split: if_splits)
next
  fix data n vs
  assume "delta_of_delta_decode data n = Inr vs"
  then show "length vs = n"
    by (auto simp: delta_of_delta_decode_Inr_iff Let_def dest: bitunpack_u64_length split: if_splits)
next
  fix data n
  show "\<not> panics (delta_of_delta_decode data n)"
    using bitunpack_no_panic by (auto simp: delta_of_delta_decode_def panics_bind Let_def)
qed

section \<open>The dictionary codec\<close>

text \<open>
  The table under construction: the map inverts the dictionary, whose indices
  fit 32 bits as long as the number of values does.
\<close>

definition dict_inv :: "bytes list \<Rightarrow> (bytes \<rightharpoonup> u32) \<Rightarrow> bool" where
  "dict_inv dict index_map \<longleftrightarrow> distinct dict
     \<and> (\<forall>v i. index_map v = Some i \<longrightarrow> unat i < length dict \<and> dict ! unat i = v)
     \<and> (\<forall>v. index_map v = None \<longrightarrow> v \<notin> set dict)"

lemma dict_inv_insert:
  assumes "dict_inv dict m" and "m v = None" and "length dict < 2 ^ 32"
  shows "dict_inv (dict @ [v]) (m(v \<mapsto> of_nat (length dict)))"
  using assms by (auto simp: dict_inv_def nth_append unat_of_nat_less less_Suc_eq)

lemma dict_loop_spec:
  assumes "dict_loop vs dict m idx = (dict', idx')" and "dict_inv dict m"
    and "length dict + length vs \<le> 2 ^ 32" and "\<forall>i \<in> set idx. unat i < length dict"
  shows "\<exists>new. idx' = idx @ new \<and> map (\<lambda>i. dict' ! unat i) new = vs
    \<and> (\<forall>i \<in> set idx'. unat i < length dict')
    \<and> (\<exists>more. dict' = dict @ more) \<and> distinct dict' \<and> set dict' = set dict \<union> set vs
    \<and> length dict' \<le> length dict + length vs"
  using assms
proof (induction vs dict m idx rule: dict_loop.induct)
  case (1 dict m idx)
  then show ?case by (auto simp: dict_inv_def)
next
  case (2 v vs dict m idx)
  show ?case
  proof (cases "m v")
    case None
    have i: "unat (of_nat (length dict) :: u32) = length dict"
      using 2(4,5) by (simp add: unat_of_nat_less)
    have "\<exists>new. idx' = (idx @ [of_nat (length dict)]) @ new \<and> map (\<lambda>i. dict' ! unat i) new = vs
      \<and> (\<forall>i \<in> set idx'. unat i < length dict')
      \<and> (\<exists>more. dict' = (dict @ [v]) @ more) \<and> distinct dict' \<and> set dict' = set (dict @ [v]) \<union> set vs
      \<and> length dict' \<le> length (dict @ [v]) + length vs"
    proof (rule "2.IH"(1)[OF None refl])
      show "dict_loop vs (dict @ [v]) (m(v \<mapsto> of_nat (length dict))) (idx @ [of_nat (length dict)]) = (dict', idx')"
        using 2(3) None by (simp add: Let_def)
      show "dict_inv (dict @ [v]) (m(v \<mapsto> of_nat (length dict)))"
        using 2(4,5) None by (intro dict_inv_insert) auto
      show "\<forall>j \<in> set (idx @ [of_nat (length dict)]). unat j < length (dict @ [v])"
        using 2(6) i by auto
    qed (use 2(5) in simp)
    with i show ?thesis by (fastforce simp: nth_append)
  next
    case (Some e)
    have e: "unat e < length dict" "dict ! unat e = v"
      using 2(4) Some by (auto simp: dict_inv_def)
    have "\<exists>new. idx' = (idx @ [e]) @ new \<and> map (\<lambda>i. dict' ! unat i) new = vs
      \<and> (\<forall>i \<in> set idx'. unat i < length dict')
      \<and> (\<exists>more. dict' = dict @ more) \<and> distinct dict' \<and> set dict' = set dict \<union> set vs
      \<and> length dict' \<le> length dict + length vs"
      using "2.IH"(2)[OF Some] 2(3-6) Some e by simp
    with e show ?thesis by (fastforce simp: nth_append)
  qed
qed

lemma dict_loop_correct:
  assumes "dict_loop vs [] Map.empty [] = (dict, indices)" and "length vs \<le> 2 ^ 32"
  shows "map (\<lambda>i. dict ! unat i) indices = vs" and "\<forall>i \<in> set indices. unat i < length dict"
    and "distinct dict" and "set dict = set vs" and "length dict \<le> length vs"
    and "length indices = length vs"
proof -
  have *: "map (\<lambda>i. dict ! unat i) indices = vs \<and> (\<forall>i \<in> set indices. unat i < length dict)
    \<and> distinct dict \<and> set dict = set vs \<and> length dict \<le> length vs"
    using dict_loop_spec[OF assms(1)] assms(2) by (auto simp: dict_inv_def)
  then show "map (\<lambda>i. dict ! unat i) indices = vs" "\<forall>i \<in> set indices. unat i < length dict"
    "distinct dict" "set dict = set vs" "length dict \<le> length vs" by auto
  from * show "length indices = length vs" by (metis length_map)
qed

definition dict_bits :: "u32 \<Rightarrow> u8" where
  "dict_bits dict_size = (if dict_size \<le> 1 then 1 else 32 - of_nat (leading_zeros (dict_size - 1)))"

lemma dict_bits_bounds:
  shows "dict_bits n \<noteq> 0" and "unat (dict_bits n) \<le> 32" and "i < unat n \<Longrightarrow> i < 2 ^ unat (dict_bits n)"
proof -
  have un: "unat (dict_bits n) = (if n \<le> 1 then 1 else bit_len (unat n - 1))"
  proof (cases "n \<le> 1")
    case False
    then have "unat (n - 1) = unat n - 1" "n - 1 \<noteq> 0"
      by (auto simp: unat_sub word_le_nat_alt not_le word_less_nat_alt)
    then show ?thesis using unat_width[of "n - 1"] False by (simp add: dict_bits_def)
  qed (simp add: dict_bits_def)
  show "unat (dict_bits n) \<le> 32"
    using bit_len_le[of "unat n - 1" 32] unsigned_less[of n, where ?'a = nat] by (simp add: un)
  have "0 < unat (dict_bits n)"
    by (auto simp: un word_le_nat_alt)
  then show "dict_bits n \<noteq> 0" by (metis less_irrefl unat_0)
  show "i < 2 ^ unat (dict_bits n)" if "i < unat n"
    using that bit_len_upper[of "unat n - 1"] by (auto simp: un word_le_nat_alt)
qed

lemma encode_dictionary_parts_eq:
  "encode_dictionary_parts dict item_size indices =
     to_le_bytes (of_nat (length dict) :: u32) @ to_le_bytes (of_nat item_size :: u32) @ concat dict
     @ dict_bits (of_nat (length dict)) # bitpack_u32 indices (dict_bits (of_nat (length dict))) []"
  using dict_bits_bounds(2)[of "of_nat (length dict)"]
  by (simp add: encode_dictionary_parts_def Let_def flip: dict_bits_def) (simp add: bitpack_u32_eq)

lemma dict_copy_eq:
  assumes "\<forall>i \<in> set indices. unat i < n" and "length dict_bytes = n * sz" and "n * sz < usize_limit"
  shows "dict_copy dict_bytes sz indices =
    Inr (concat (map (\<lambda>i. take sz (drop (unat i * sz) dict_bytes)) indices))"
  using assms(1)
proof (induction indices)
  case (Cons i indices)
  have "unat i * sz + sz \<le> n * sz"
    using Cons.prems mult_le_mono1[of "Suc (unat i)" n sz] by simp
  with Cons assms(2,3) show ?case by (simp add: Let_def)
qed simp

lemma dict_copy_table:
  assumes "\<forall>i \<in> set indices. unat i < k" and "k * sz + 8 < usize_limit" and "k * sz + 8 < length data"
  shows "dict_copy (take (k * sz) (drop 8 data)) sz indices =
    Inr (concat (map (\<lambda>i. take sz (drop (unat i * sz) (take (k * sz) (drop 8 data)))) indices))"
  using assms by (intro dict_copy_eq[where n = k]) auto

lemma take_drop_concat:
  assumes "\<forall>e \<in> set dict. length e = sz" and "i < length dict"
  shows "take sz (drop (i * sz) (concat dict)) = dict ! i"
  using assms
proof (induction dict arbitrary: i)
  case (Cons e dict)
  then show ?case by (cases i) auto
qed simp

lemma length_concat_uniform: "\<forall>e \<in> set xs. length e = sz \<Longrightarrow> length (concat xs) = length xs * sz"
  by (induction xs) auto

lemma iter_max_bound_iff:
  "(case iter_max xs of None \<Rightarrow> True | Some m \<Rightarrow> unat m < n) \<longleftrightarrow> (\<forall>x \<in> set xs. unat x < n)"
  using iter_max_SomeD[of xs] by (auto simp: word_le_nat_alt split: option.splits dest: le_less_trans)

lemma dict_decode_Inr_iff:
  "dict_decode data n sz = Inr out \<longleftrightarrow>
     (let k = unat (from_le_bytes (take 4 data) :: u32); e = k * sz + 8 in
      8 \<le> length data \<and> unat (from_le_bytes (take 4 (drop 4 data)) :: u32) = sz
      \<and> e < usize_limit \<and> e < length data \<and> n * sz < usize_limit
      \<and> (\<exists>indices. bitunpack_u32 (drop (e + 1) data) n (data ! e) = Inr indices
           \<and> (\<forall>i \<in> set indices. unat i < k)
           \<and> out = concat (map (\<lambda>i. take sz (drop (unat i * sz) (take (k * sz) (drop 8 data)))) indices)))"
  unfolding dict_decode_def iter_max_bound_iff
  by (auto simp: bind_res_Inr_iff Let_def usize_checked_mul_Some_iff usize_checked_add_Some_iff
      Option.bind_eq_Some_conv dict_copy_table)

lemma dict_decode_no_panic: "\<not> panics (dict_decode data n sz)"
  using bitunpack_no_panic(1) unfolding dict_decode_def iter_max_bound_iff
  by (auto simp: panics_bind bind_res_Inr_iff Let_def usize_checked_mul_Some_iff usize_checked_add_Some_iff
      Option.bind_eq_Some_conv dict_copy_table)

lemma bitunpack_u32_exact:
  assumes "bitunpack_u32 data n bits = Inr vs" and "bitunpack_u32 (data @ ext) n bits = Inr vs'"
  shows "ext = []"
  using assms by (auto simp: bitunpack_u32_def bind_res_Inr_iff validate_packed_bits_ok_iff)

lemma dict_decode_exact:
  assumes "dict_decode data n sz = Inr out" and "dict_decode (data @ ext) n sz = Inr out'"
  shows "ext = []"
proof -
  define e where "e = unat (from_le_bytes (take 4 data) :: u32) * sz + 8"
  have len: "8 \<le> length data" "e < length data"
    and 1: "\<exists>vs. bitunpack_u32 (drop (e + 1) data) n (data ! e) = Inr vs"
    using assms(1) by (auto simp: dict_decode_Inr_iff Let_def e_def)
  have "take 4 (data @ ext) = take 4 data" using len by simp
  then have "\<exists>vs. bitunpack_u32 (drop (e + 1) (data @ ext)) n ((data @ ext) ! e) = Inr vs"
    using assms(2) unfolding dict_decode_Inr_iff Let_def e_def by auto
  with 1 len show ?thesis
    by (auto simp: nth_append dest: bitunpack_u32_exact)
qed

lemma dict_decode_length:
  assumes "dict_decode data n sz = Inr out"
  shows "length out = n * sz"
proof -
  define k where "k = unat (from_le_bytes (take 4 data) :: u32)"
  obtain indices where *: "k * sz + 8 < length data"
      "bitunpack_u32 (drop (k * sz + 8 + 1) data) n (data ! (k * sz + 8)) = Inr indices"
      "\<forall>i \<in> set indices. unat i < k"
      "out = concat (map (\<lambda>i. take sz (drop (unat i * sz) (take (k * sz) (drop 8 data)))) indices)"
    using assms by (auto simp: dict_decode_Inr_iff Let_def k_def)
  have "length (take sz (drop (unat i * sz) (take (k * sz) (drop 8 data)))) = sz" if "i \<in> set indices" for i
    using that *(1,3) mult_le_mono1[of "Suc (unat i)" k sz] by auto
  then have "length out = length indices * sz"
    using length_concat_uniform[of "map (\<lambda>i. take sz (drop (unat i * sz) (take (k * sz) (drop 8 data)))) indices" sz]
    by (simp add: *(4))
  then show ?thesis using bitunpack_u32_canonical[OF *(2)] by simp
qed

lemma dict_encode_decode:
  assumes "\<forall>v \<in> set vs. length v = sz" and "length vs < 2 ^ 32" and "sz < 2 ^ 32"
  shows "dict_decode (dict_encode vs sz) (length vs) sz = Inr (concat vs)"
proof -
  obtain dict indices where loop: "dict_loop vs [] Map.empty [] = (dict, indices)" by fastforce
  note d = dict_loop_correct[OF loop]
  let ?n = "length dict" let ?bits = "dict_bits (of_nat ?n)"
  let ?data = "dict_encode vs sz"
  have data: "?data = to_le_bytes (of_nat ?n :: u32) @ to_le_bytes (of_nat sz :: u32) @ concat dict
      @ ?bits # bitpack_u32 indices ?bits []"
    by (simp add: dict_encode_def loop encode_dictionary_parts_eq)
  have n: "?n < 2 ^ 32" "unat (of_nat ?n :: u32) = ?n" and z: "unat (of_nat sz :: u32) = sz"
    using d(5) assms(2,3) by (simp_all add: unat_of_nat_less)
  have uni: "\<forall>e \<in> set dict. length e = sz" using d(4) assms(1,2) by simp
  have mul: "a * b \<le> (2 ^ 32 - 1) * (2 ^ 32 - 1)" if "a < 2 ^ 32" "b < 2 ^ 32" for a b :: nat
    using that by (intro mult_le_mono) auto
  have len: "length (concat dict) = ?n * sz" using uni by (rule length_concat_uniform)
  have lim: "?n * sz + 8 < usize_limit" "length vs * sz < usize_limit"
    using mul[OF n(1) assms(3)] mul[OF assms(2,3)] by (simp_all add: usize_limit_def)
  have "bitunpack_u32 (bitpack_u32 indices ?bits []) (length vs) ?bits = Inr indices"
  proof -
    have "length indices * unat ?bits \<le> (2 ^ 32 - 1) * 32"
      using d(6) assms(2) dict_bits_bounds(2)[of "of_nat ?n"] by (intro mult_le_mono) auto
    moreover have "\<forall>i \<in> set indices. unat i < 2 ^ unat ?bits"
      using d(2) assms(2) n(2) dict_bits_bounds(3) by auto
    ultimately show ?thesis
      using bitpack_u32_roundtrip[of indices ?bits] dict_bits_bounds[of "of_nat ?n"] d(6) assms(2)
      by (simp add: usize_limit_def word_le_nat_alt)
  qed
  moreover have "concat (map (\<lambda>i. take sz (drop (unat i * sz) (concat dict))) indices) = concat vs"
  proof -
    have "map (\<lambda>i. take sz (drop (unat i * sz) (concat dict))) indices = map (\<lambda>i. dict ! unat i) indices"
      using d(2) assms(2) take_drop_concat[OF uni] by simp
    then show ?thesis by (simp only: d(1)[OF less_imp_le[OF assms(2)]])
  qed
  ultimately show ?thesis
    using lim n(2) z len d(2) assms(2)
    by (auto simp: dict_decode_Inr_iff data Let_def nth_append)
qed

section \<open>Properties\<close>

text \<open>
  C24. The dictionary codec restores the concatenation of the values it encoded,
  for up to \<open>2 ^ 32 - 1\<close> values of any one size.
\<close>

theorem dict_roundtrip:
  assumes "\<forall>v \<in> set vs. length v = item_size" and "length vs < 2 ^ 32" and "item_size < 2 ^ 32"
  shows "dict_decode (dict_encode vs item_size) (length vs) item_size = Inr (concat vs)"
  by (rule dict_encode_decode[OF assms])

theorem dict_roundtrip_witness:
  "dict_decode (dict_encode [[1, 2], [3, 4], [1, 2]] 2) (length [[1, 2], [3, 4], [1, 2 :: u8]]) 2
     = Inr (concat [[1, 2], [3, 4], [1, 2]])"
  by (rule dict_roundtrip) simp_all

text \<open>
  C25. No proper prefix and no proper extension of an encoding by the delta, signed
  delta or delta-of-delta codec is accepted at its row count: a truncated or
  padded column page is an error, never other values and never a panic.
\<close>

theorem u64_codecs_reject_resized:
  assumes "length vs * 64 < usize_limit" and "ext \<noteq> []"
  shows "(k < length (delta_encode vs) \<longrightarrow>
        (\<exists>e. delta_decode (take k (delta_encode vs)) (length vs) = Inl e \<and> \<not> is_panic e))
    \<and> (k < length (signed_delta_encode vs) \<longrightarrow>
        (\<exists>e. signed_delta_decode (take k (signed_delta_encode vs)) (length vs) = Inl e \<and> \<not> is_panic e))
    \<and> (k < length (delta_of_delta_encode vs) \<longrightarrow>
        (\<exists>e. delta_of_delta_decode (take k (delta_of_delta_encode vs)) (length vs) = Inl e \<and> \<not> is_panic e))
    \<and> (\<exists>e. delta_decode (delta_encode vs @ ext) (length vs) = Inl e \<and> \<not> is_panic e)
    \<and> (\<exists>e. signed_delta_decode (signed_delta_encode vs @ ext) (length vs) = Inl e \<and> \<not> is_panic e)
    \<and> (\<exists>e. delta_of_delta_decode (delta_of_delta_encode vs @ ext) (length vs) = Inl e \<and> \<not> is_panic e)"
  using delta.truncated_rejected[OF assms(1)] signed_delta.truncated_rejected[OF assms(1)]
    dod.truncated_rejected[OF assms(1)] delta.trailing_rejected[OF assms] signed_delta.trailing_rejected[OF assms]
    dod.trailing_rejected[OF assms]
  by blast

theorem u64_codecs_reject_resized_witness:
  "\<exists>e. delta_of_delta_decode (delta_of_delta_encode [1, 2, 4] @ [0]) (length [1, 2, 4 :: u64]) = Inl e \<and> \<not> is_panic e"
  using u64_codecs_reject_resized[of "[1, 2, 4]" "[0]" 0] by (simp add: usize_limit_def)

end
