(* ===== verification/Pages.thy ===== *)
theory Pages
  imports Codecs
begin

text \<open>
  Column pages of \<^verbatim>\<open>src/crates/logex-storage/src/page.rs\<close>, with the bounded
  zstd and LZ4 wrappers of \<^verbatim>\<open>compression.rs\<close>: the page index, fixed-width,
  \<^verbatim>\<open>u64\<close>, \<^verbatim>\<open>u32\<close>, \<^verbatim>\<open>u8\<close> and variable-width pages, the two adaptive
  formats, and the borrowed view that validates a variable-width page before
  any payload is copied.  The decoders are the ones without a memory budget.
  The zstd and LZ4 libraries are the parameter \<open>compressors\<close>; what the code
  relies on is the predicate \<open>compression_laws\<close>.
\<close>

section \<open>The compression libraries\<close>

text \<open>
  \<^verbatim>\<open>zstd::encode_all\<close>, \<^verbatim>\<open>zstd::bulk::Decompressor::decompress_to_buffer\<close> with the
  capacity of the output, \<^verbatim>\<open>Decompressor::upper_bound\<close>,
  \<^verbatim>\<open>lz4_flex::compress_prepend_size\<close> and \<^verbatim>\<open>lz4_flex::block::decompress_into\<close>
  with the size of the output (its result is the part of the output written).
\<close>

record compressors =
  zstd_encode_all :: "bytes \<Rightarrow> int \<Rightarrow> bytes res"
  zstd_decompress_to_buffer :: "bytes \<Rightarrow> usize \<Rightarrow> bytes res"
  zstd_upper_bound :: "bytes \<Rightarrow> usize option"
  lz4_compress_prepend_size :: "bytes \<Rightarrow> bytes"
  lz4_decompress_into :: "bytes \<Rightarrow> usize \<Rightarrow> bytes res"

definition zstd_laws :: "compressors \<Rightarrow> bool" where
  "zstd_laws cx \<longleftrightarrow>
     (\<forall>d level z. zstd_encode_all cx d level = Inr z \<longrightarrow>
        (\<forall>cap. length d \<le> cap \<longrightarrow> zstd_decompress_to_buffer cx z cap = Inr d)
        \<and> (\<forall>u. zstd_upper_bound cx z = Some u \<longrightarrow> length d \<le> u))
     \<and> (\<forall>z cap d. zstd_decompress_to_buffer cx z cap = Inr d \<longrightarrow> length d \<le> cap)
     \<and> (\<forall>d level. \<not> panics (zstd_encode_all cx d level))
     \<and> (\<forall>z cap. \<not> panics (zstd_decompress_to_buffer cx z cap))"

definition lz4_laws :: "compressors \<Rightarrow> bool" where
  "lz4_laws cx \<longleftrightarrow>
     (\<forall>d. length d < 2 ^ 32 \<longrightarrow> (\<exists>body. lz4_compress_prepend_size cx d = to_le_bytes (of_nat (length d) :: u32) @ body
        \<and> lz4_decompress_into cx body (length d) = Inr d))
     \<and> (\<forall>z n d. lz4_decompress_into cx z n = Inr d \<longrightarrow> length d \<le> n)
     \<and> (\<forall>z n. \<not> panics (lz4_decompress_into cx z n))"

definition zstd_compress :: "compressors \<Rightarrow> bytes \<Rightarrow> bytes res" where
  "zstd_compress cx data = zstd_encode_all cx data 1"

definition zstd_compress_level :: "compressors \<Rightarrow> bytes \<Rightarrow> int \<Rightarrow> bytes res" where
  "zstd_compress_level cx data level = zstd_encode_all cx data level"

definition zstd_output_capacity :: "compressors \<Rightarrow> bytes \<Rightarrow> usize \<Rightarrow> usize" where
  "zstd_output_capacity cx data limit =
     min (case zstd_upper_bound cx data of None \<Rightarrow> limit | Some u \<Rightarrow> u) limit"

definition zstd_decompress_bounded :: "compressors \<Rightarrow> bytes \<Rightarrow> usize \<Rightarrow> bytes res" where
  "zstd_decompress_bounded cx data limit =
     zstd_decompress_to_buffer cx data (zstd_output_capacity cx data limit)"

definition lz4_output_capacity :: "bytes \<Rightarrow> usize \<Rightarrow> usize res" where
  "lz4_output_capacity data limit =
     bind_res (ensure (4 \<le> length data) (InvalidData ''truncated LZ4 size'')) (\<lambda>_.
     let size = unat (from_le_bytes (take 4 data) :: u32)
     in if limit < size then Inl (InvalidData ''decoded page exceeds its byte budget'') else Inr size)"

definition lz4_decompress_bounded :: "compressors \<Rightarrow> bytes \<Rightarrow> usize \<Rightarrow> bytes res" where
  "lz4_decompress_bounded cx data limit =
     bind_res (lz4_output_capacity data limit) (\<lambda>size.
     bind_res (slice_from data 4) (\<lambda>body. lz4_decompress_into cx body size))"

definition lz4_compress :: "compressors \<Rightarrow> bytes \<Rightarrow> bytes" where
  "lz4_compress cx data = lz4_compress_prepend_size cx data"

datatype compression_codec =
    CC_None | CC_Delta | CC_DeltaZigZag | CC_DeltaOfDelta | CC_Dictionary | CC_Zstd | CC_Lz4
  | CC_AdaptiveFixed | CC_AdaptiveBytes

section \<open>The page index\<close>

definition PAGE_INDEX_MAGIC :: bytes where
  "PAGE_INDEX_MAGIC = [0x4C, 0x58, 0x50, 0x49]"

definition PAGE_INDEX_VERSION :: u32 where
  "PAGE_INDEX_VERSION = 1"

definition PAGE_INDEX_HEADER_BYTES :: usize where
  "PAGE_INDEX_HEADER_BYTES = 12"

definition PAGE_INDEX_ENTRY_BYTES :: usize where
  "PAGE_INDEX_ENTRY_BYTES = 24"

definition MAX_PAGE_ROWS :: usize where
  "MAX_PAGE_ROWS = 16384"

record page_index_entry =
  pe_first_row :: u64
  pe_row_count :: u32
  pe_offset :: u64
  pe_encoded_len :: u32

definition write_page_index_entry :: "page_index_entry \<Rightarrow> bytes" where
  "write_page_index_entry entry =
     to_le_bytes (pe_first_row entry) @ to_le_bytes (pe_row_count entry)
     @ to_le_bytes (pe_offset entry) @ to_le_bytes (pe_encoded_len entry)"

definition write_page_index :: "page_index_entry list \<Rightarrow> bytes" where
  "write_page_index entries =
     PAGE_INDEX_MAGIC @ to_le_bytes PAGE_INDEX_VERSION @ to_le_bytes (of_nat (length entries) :: u32)
     @ concat (map write_page_index_entry entries)"

definition frame_page_index :: "bytes \<Rightarrow> bytes res" where
  "frame_page_index entries =
     bind_res (ensure (length entries mod PAGE_INDEX_ENTRY_BYTES = 0)
                 (InvalidData ''unaligned page index entries'')) (\<lambda>_.
     bind_res (ok_or (try_u32 (length entries div PAGE_INDEX_ENTRY_BYTES))
                 (InvalidData ''page index count overflow'')) (\<lambda>count.
     Inr (PAGE_INDEX_MAGIC @ to_le_bytes PAGE_INDEX_VERSION @ to_le_bytes count @ entries)))"

fun read_page_index_loop :: "bytes \<Rightarrow> nat \<Rightarrow> usize \<Rightarrow> page_index_entry list res" where
  "read_page_index_loop data 0 cursor = Inr []"
| "read_page_index_loop data (Suc count) cursor =
     bind_res (slice data cursor (cursor + 8)) (\<lambda>first_row.
     bind_res (slice data (cursor + 8) (cursor + 12)) (\<lambda>row_count.
     bind_res (slice data (cursor + 12) (cursor + 20)) (\<lambda>offset.
     bind_res (slice data (cursor + 20) (cursor + 24)) (\<lambda>encoded_len.
     bind_res (read_page_index_loop data count (cursor + 24)) (\<lambda>entries.
     Inr (\<lparr>pe_first_row = from_le_bytes first_row, pe_row_count = from_le_bytes row_count,
           pe_offset = from_le_bytes offset, pe_encoded_len = from_le_bytes encoded_len\<rparr> # entries))))))"

definition read_page_index :: "bytes \<Rightarrow> page_index_entry list res" where
  "read_page_index data =
     (if length data < 12 then Inl (InvalidData ''invalid page index header'')
      else
        bind_res (slice data 0 4) (\<lambda>magic.
        if magic \<noteq> PAGE_INDEX_MAGIC then Inl (InvalidData ''invalid page index header'')
        else
          bind_res (slice data 4 8) (\<lambda>version.
          bind_res (ensure (from_le_bytes version = PAGE_INDEX_VERSION)
                      (InvalidData ''unsupported page index version'')) (\<lambda>_.
          bind_res (slice data 8 12) (\<lambda>count_bytes.
          let count = unat (from_le_bytes count_bytes :: u32)
          in bind_res (ok_or (Option.bind (usize_checked_mul count PAGE_INDEX_ENTRY_BYTES)
                                (\<lambda>n. usize_checked_add n PAGE_INDEX_HEADER_BYTES))
                         (InvalidData ''page index size overflow'')) (\<lambda>expected.
             bind_res (ensure (length data = expected) (InvalidData ''page index length mismatch'')) (\<lambda>_.
             read_page_index_loop data count 12)))))))"

section \<open>Fixed-width pages\<close>

definition ZSTD_STORAGE_LEVEL :: int where
  "ZSTD_STORAGE_LEVEL = 1"

definition usize_saturating_mul :: "usize \<Rightarrow> usize \<Rightarrow> usize" where
  "usize_saturating_mul a b = min (a * b) (usize_limit - 1)"

definition decoded_fixed_len :: "usize \<Rightarrow> usize \<Rightarrow> usize res" where
  "decoded_fixed_len rows width =
     ok_or (usize_checked_mul rows width) (InvalidData ''fixed page size overflow'')"

definition decode_plain_fixed_width_page :: "bytes \<Rightarrow> usize \<Rightarrow> bytes res" where
  "decode_plain_fixed_width_page encoded expected =
     (if length encoded \<noteq> expected
      then Inl (InvalidData ''decoded fixed-width page has unexpected length'') else Inr encoded)"

text \<open>
  The adaptive format tries the dictionary first and otherwise keeps the
  shortest of the candidates; the sort is stable, so an earlier candidate wins
  a tie.  \<open>low20_tails\<close> is the collection of the low twenty bytes of 32-byte
  values whose high twelve bytes are all zero.
\<close>

definition low20_tails :: "bytes \<Rightarrow> usize \<Rightarrow> bytes option" where
  "low20_tails raw_values item_size =
     (let values_32 = chunks_exact 32 raw_values
      in if item_size = 32 \<and> length raw_values mod 32 = 0
            \<and> list_all (\<lambda>chunk. take 12 chunk = replicate 12 0) values_32
         then Some (concat (map (drop 12) values_32)) else None)"

definition encode_adaptive_fixed_width_page :: "compressors \<Rightarrow> bytes \<Rightarrow> usize \<Rightarrow> bytes res" where
  "encode_adaptive_fixed_width_page cx raw_values item_size =
     bind_res (dict_encode_raw raw_values item_size) (\<lambda>dictionary.
     if usize_saturating_mul (length dictionary) 4 \<le> usize_saturating_mul (length raw_values) 3
     then Inr (1 # dictionary)
     else
       bind_res (zstd_compress_level cx raw_values ZSTD_STORAGE_LEVEL) (\<lambda>zstd.
       let candidates = [(0 :: u8, raw_values), (1, dictionary), (2, zstd)]
       in bind_res
            (case low20_tails raw_values item_size of
               None \<Rightarrow> Inr candidates
             | Some tails \<Rightarrow>
                 bind_res (zstd_compress_level cx tails ZSTD_STORAGE_LEVEL)
                   (\<lambda>low20. Inr (candidates @ [(3, low20)]))) (\<lambda>candidates.
          bind_res (index (sort_key (\<lambda>(_, data). length data) candidates) 0) (\<lambda>(tag, payload).
          Inr (tag # payload)))))"

definition decode_b256_low20_page :: "compressors \<Rightarrow> bytes \<Rightarrow> usize \<Rightarrow> usize \<Rightarrow> bytes res" where
  "decode_b256_low20_page cx payload row_count item_size =
     bind_res (ensure (item_size = 32)
                 (InvalidData ''low20 adaptive page can only decode 32-byte values'')) (\<lambda>_.
     bind_res (decoded_fixed_len row_count 20) (\<lambda>tail_len.
     bind_res (zstd_decompress_bounded cx payload tail_len) (\<lambda>tails.
     bind_res (ensure (length tails = tail_len)
                 (InvalidData ''low20 adaptive page has unexpected length'')) (\<lambda>_.
     bind_res (decoded_fixed_len row_count 32) (\<lambda>_.
     Inr (concat (map (\<lambda>tail. replicate 12 0 @ tail) (chunks_exact 20 tails))))))))"

definition decode_adaptive_fixed_width_page :: "compressors \<Rightarrow> bytes \<Rightarrow> usize \<Rightarrow> usize \<Rightarrow> bytes res" where
  "decode_adaptive_fixed_width_page cx encoded row_count item_size =
     (case encoded of
        [] \<Rightarrow> Inl (InvalidData ''adaptive page is empty'')
      | tag # payload \<Rightarrow>
          if tag = 0 then
            bind_res (decoded_fixed_len row_count item_size) (decode_plain_fixed_width_page payload)
          else if tag = 1 then dict_decode payload row_count item_size
          else if tag = 2 then
            bind_res (decoded_fixed_len row_count item_size) (zstd_decompress_bounded cx payload)
          else if tag = 3 then decode_b256_low20_page cx payload row_count item_size
          else Inl (InvalidData ''unsupported adaptive fixed-width tag''))"

definition encode_fixed_width_page ::
  "compressors \<Rightarrow> bytes \<Rightarrow> usize \<Rightarrow> compression_codec \<Rightarrow> bytes res" where
  "encode_fixed_width_page cx raw_values item_size codec =
     (if item_size = 0 \<or> length raw_values mod item_size \<noteq> 0
      then Inl (InvalidInput ''fixed-width page has invalid item size'')
      else case codec of
        CC_None \<Rightarrow> Inr raw_values
      | CC_Dictionary \<Rightarrow> dict_encode_raw raw_values item_size
      | CC_Zstd \<Rightarrow> zstd_compress cx raw_values
      | CC_Lz4 \<Rightarrow> Inr (lz4_compress cx raw_values)
      | CC_AdaptiveFixed \<Rightarrow> encode_adaptive_fixed_width_page cx raw_values item_size
      | _ \<Rightarrow> Inl (InvalidInput ''unsupported fixed-width codec''))"

definition decode_fixed_width_page ::
  "compressors \<Rightarrow> bytes \<Rightarrow> usize \<Rightarrow> usize \<Rightarrow> compression_codec \<Rightarrow> bytes res" where
  "decode_fixed_width_page cx encoded row_count item_size codec =
     bind_res (decoded_fixed_len row_count item_size) (\<lambda>expected.
     bind_res
       (case codec of
          CC_None \<Rightarrow> decode_plain_fixed_width_page encoded expected
        | CC_Dictionary \<Rightarrow> dict_decode encoded row_count item_size
        | CC_Zstd \<Rightarrow> zstd_decompress_bounded cx encoded expected
        | CC_Lz4 \<Rightarrow> lz4_decompress_bounded cx encoded expected
        | CC_AdaptiveFixed \<Rightarrow> decode_adaptive_fixed_width_page cx encoded row_count item_size
        | _ \<Rightarrow> Inl (InvalidInput ''unsupported fixed-width codec'')) (\<lambda>raw.
     if length raw \<noteq> expected
     then Inl (InvalidData ''decoded fixed-width page has unexpected length'') else Inr raw))"

section \<open>Scalar pages\<close>

definition decode_plain_u64_page :: "bytes \<Rightarrow> usize \<Rightarrow> u64 list res" where
  "decode_plain_u64_page raw row_count =
     bind_res (decoded_fixed_len row_count 8) (\<lambda>expected.
     if length raw \<noteq> expected then Inl (InvalidData ''decoded u64 page has unexpected length'')
     else Inr (map from_le_bytes (chunks_exact 8 raw)))"

definition decode_plain_u32_page :: "bytes \<Rightarrow> usize \<Rightarrow> u32 list res" where
  "decode_plain_u32_page raw row_count =
     bind_res (decoded_fixed_len row_count 4) (\<lambda>expected.
     if length raw \<noteq> expected then Inl (InvalidData ''decoded u32 page has unexpected length'')
     else Inr (map from_le_bytes (chunks_exact 4 raw)))"

definition encode_u64_page :: "compressors \<Rightarrow> u64 list \<Rightarrow> compression_codec \<Rightarrow> bytes res" where
  "encode_u64_page cx values codec =
     (let raw = concat (map to_le_bytes values)
      in case codec of
           CC_None \<Rightarrow> Inr raw
         | CC_Delta \<Rightarrow> Inr (delta_encode values)
         | CC_DeltaZigZag \<Rightarrow> Inr (signed_delta_encode values)
         | CC_DeltaOfDelta \<Rightarrow> Inr (delta_of_delta_encode values)
         | CC_Zstd \<Rightarrow> zstd_compress cx raw
         | CC_Lz4 \<Rightarrow> Inr (lz4_compress cx raw)
         | _ \<Rightarrow> Inl (InvalidInput ''unsupported u64 codec''))"

definition decode_u64_page :: "compressors \<Rightarrow> bytes \<Rightarrow> usize \<Rightarrow> compression_codec \<Rightarrow> u64 list res" where
  "decode_u64_page cx encoded row_count codec =
     (case codec of
        CC_None \<Rightarrow> decode_plain_u64_page encoded row_count
      | CC_Delta \<Rightarrow> delta_decode encoded row_count
      | CC_DeltaZigZag \<Rightarrow> signed_delta_decode encoded row_count
      | CC_DeltaOfDelta \<Rightarrow> delta_of_delta_decode encoded row_count
      | CC_Zstd \<Rightarrow>
          bind_res (decoded_fixed_len row_count 8) (\<lambda>limit.
          bind_res (zstd_decompress_bounded cx encoded limit) (\<lambda>raw. decode_plain_u64_page raw row_count))
      | CC_Lz4 \<Rightarrow>
          bind_res (decoded_fixed_len row_count 8) (\<lambda>limit.
          bind_res (lz4_decompress_bounded cx encoded limit) (\<lambda>raw. decode_plain_u64_page raw row_count))
      | _ \<Rightarrow> Inl (InvalidInput ''unsupported u64 codec''))"

definition encode_u32_page :: "compressors \<Rightarrow> u32 list \<Rightarrow> compression_codec \<Rightarrow> bytes res" where
  "encode_u32_page cx values codec =
     (let raw = concat (map to_le_bytes values)
      in case codec of
           CC_None \<Rightarrow> Inr raw
         | CC_Zstd \<Rightarrow> zstd_compress cx raw
         | CC_Lz4 \<Rightarrow> Inr (lz4_compress cx raw)
         | _ \<Rightarrow> Inl (InvalidInput ''unsupported u32 codec''))"

definition decode_u32_page :: "compressors \<Rightarrow> bytes \<Rightarrow> usize \<Rightarrow> compression_codec \<Rightarrow> u32 list res" where
  "decode_u32_page cx encoded row_count codec =
     (case codec of
        CC_None \<Rightarrow> decode_plain_u32_page encoded row_count
      | CC_Zstd \<Rightarrow>
          bind_res (decoded_fixed_len row_count 4) (\<lambda>limit.
          bind_res (zstd_decompress_bounded cx encoded limit) (\<lambda>raw. decode_plain_u32_page raw row_count))
      | CC_Lz4 \<Rightarrow>
          bind_res (decoded_fixed_len row_count 4) (\<lambda>limit.
          bind_res (lz4_decompress_bounded cx encoded limit) (\<lambda>raw. decode_plain_u32_page raw row_count))
      | _ \<Rightarrow> Inl (InvalidInput ''unsupported u32 codec''))"

definition encode_u8_page :: "compressors \<Rightarrow> bytes \<Rightarrow> compression_codec \<Rightarrow> bytes res" where
  "encode_u8_page cx values codec =
     (case codec of
        CC_None \<Rightarrow> Inr values
      | CC_Dictionary \<Rightarrow> dict_encode_raw values 1
      | CC_Zstd \<Rightarrow> zstd_compress cx values
      | CC_Lz4 \<Rightarrow> Inr (lz4_compress cx values)
      | _ \<Rightarrow> Inl (InvalidInput ''unsupported u8 codec''))"

definition decode_u8_page :: "compressors \<Rightarrow> bytes \<Rightarrow> usize \<Rightarrow> compression_codec \<Rightarrow> bytes res" where
  "decode_u8_page cx encoded row_count codec =
     bind_res
       (case codec of
          CC_None \<Rightarrow> decode_plain_fixed_width_page encoded row_count
        | CC_Dictionary \<Rightarrow> dict_decode encoded row_count 1
        | CC_Zstd \<Rightarrow> bind_res (decoded_fixed_len row_count 1) (zstd_decompress_bounded cx encoded)
        | CC_Lz4 \<Rightarrow> bind_res (decoded_fixed_len row_count 1) (lz4_decompress_bounded cx encoded)
        | _ \<Rightarrow> Inl (InvalidInput ''unsupported u8 codec'')) (\<lambda>raw.
     if length raw \<noteq> row_count then Inl (InvalidData ''decoded u8 page has unexpected length'')
     else Inr raw)"

section \<open>Variable-width pages\<close>

fun offsets_loop :: "'a::len word \<Rightarrow> bytes list \<Rightarrow> 'a word list" where
  "offsets_loop offset [] = []"
| "offsets_loop offset (value # values) =
     (let offset = offset + of_nat (length value) in offset # offsets_loop offset values)"

definition encode_var_bytes_raw_u64 :: "bytes list \<Rightarrow> bytes" where
  "encode_var_bytes_raw_u64 values =
     to_le_bytes (of_nat (length values) :: u32) @ to_le_bytes (0 :: u64)
     @ concat (map to_le_bytes (offsets_loop (0 :: u64) values)) @ concat values"

definition encode_var_bytes_raw_u32 :: "bytes list \<Rightarrow> bytes" where
  "encode_var_bytes_raw_u32 values =
     to_le_bytes (of_nat (length values) :: u32) @ to_le_bytes (0 :: u32)
     @ concat (map to_le_bytes (offsets_loop (0 :: u32) values)) @ concat values"

fun total_len_loop :: "u64 \<Rightarrow> bytes list \<Rightarrow> u64 option" where
  "total_len_loop acc [] = Some acc"
| "total_len_loop acc (value # values) =
     Option.bind (checked_add acc (of_nat (length value))) (\<lambda>acc. total_len_loop acc values)"

definition encode_adaptive_var_bytes_page :: "compressors \<Rightarrow> bytes list \<Rightarrow> bytes res" where
  "encode_adaptive_var_bytes_page cx values =
     bind_res (ok_or (total_len_loop 0 values) (InvalidInput ''bytes page is too large'')) (\<lambda>total_len.
     if 0xFFFFFFFF < total_len
     then bind_res (zstd_compress_level cx (encode_var_bytes_raw_u64 values) ZSTD_STORAGE_LEVEL)
            (\<lambda>compressed. Inr (0 # compressed))
     else bind_res (zstd_compress_level cx (encode_var_bytes_raw_u32 values) ZSTD_STORAGE_LEVEL)
            (\<lambda>compressed. Inr (1 # compressed)))"

definition encode_var_bytes_page :: "compressors \<Rightarrow> bytes list \<Rightarrow> compression_codec \<Rightarrow> bytes res" where
  "encode_var_bytes_page cx values codec =
     (case codec of
        CC_AdaptiveBytes \<Rightarrow> encode_adaptive_var_bytes_page cx values
      | CC_None \<Rightarrow> Inr (encode_var_bytes_raw_u64 values)
      | CC_Zstd \<Rightarrow> zstd_compress cx (encode_var_bytes_raw_u64 values)
      | CC_Lz4 \<Rightarrow> Inr (lz4_compress cx (encode_var_bytes_raw_u64 values))
      | _ \<Rightarrow> Inl (InvalidInput ''unsupported bytes codec''))"

record borrowed_var_bytes =
  bv_offsets :: bytes
  bv_blob :: bytes
  bv_row_count :: usize
  bv_narrow :: bool

definition encoded_offset :: "borrowed_var_bytes \<Rightarrow> usize \<Rightarrow> u64 res" where
  "encoded_offset page row =
     (if bv_narrow page
      then bind_res (index (chunks_exact 4 (bv_offsets page)) row)
             (\<lambda>b. Inr (ucast (from_le_bytes b :: u32)))
      else bind_res (index (chunks_exact 8 (bv_offsets page)) row) (\<lambda>b. Inr (from_le_bytes b)))"

fun parse_loop :: "borrowed_var_bytes \<Rightarrow> usize list \<Rightarrow> u64 \<Rightarrow> u64 res" where
  "parse_loop page [] previous = Inr previous"
| "parse_loop page (row # rows) previous =
     bind_res (encoded_offset page row) (\<lambda>offset.
     if (row = 0 \<and> offset \<noteq> 0) \<or> offset < previous \<or> of_nat (length (bv_blob page)) < offset
     then Inl (InvalidData ''bytes page offset is out of bounds'')
     else parse_loop page rows offset)"

definition parse_var_bytes :: "bytes \<Rightarrow> bool \<Rightarrow> usize option \<Rightarrow> borrowed_var_bytes res" where
  "parse_var_bytes raw narrow expected_rows =
     bind_res (ensure (4 \<le> length raw) (InvalidData ''bytes page is truncated'')) (\<lambda>_.
     let row_count = unat (from_le_bytes (take 4 raw) :: u32)
     in bind_res (ensure (case expected_rows of None \<Rightarrow> True | Some expected \<Rightarrow> row_count = expected)
                    (InvalidData ''decoded bytes page has an unexpected row count'')) (\<lambda>_.
     let width = (if narrow then 4 else 8)
     in bind_res (ok_or (case Option.bind (Option.bind (usize_checked_add row_count 1)
                                 (\<lambda>count. usize_checked_mul count width))
                               (\<lambda>bytes. usize_checked_add bytes 4) of
                           None \<Rightarrow> None
                         | Some blob_end \<Rightarrow> if blob_end \<le> length raw then Some blob_end else None)
                    (InvalidData ''bytes page offsets are truncated'')) (\<lambda>blob_start.
     bind_res (slice raw 4 blob_start) (\<lambda>offsets.
     bind_res (slice_from raw blob_start) (\<lambda>blob.
     let page = \<lparr>bv_offsets = offsets, bv_blob = blob, bv_row_count = row_count, bv_narrow = narrow\<rparr>
     in bind_res (parse_loop page [0..<row_count + 1] 0) (\<lambda>previous.
     if previous \<noteq> of_nat (length blob)
     then Inl (InvalidData ''bytes page offsets do not cover its exact payload'')
     else Inr page))))))"

definition var_row :: "borrowed_var_bytes \<Rightarrow> usize \<Rightarrow> bytes res" where
  "var_row page row =
     bind_res (encoded_offset page row) (\<lambda>start.
     bind_res (encoded_offset page (row + 1)) (\<lambda>end.
     slice (bv_blob page) (unat start) (unat end)))"

fun var_rows :: "borrowed_var_bytes \<Rightarrow> usize list \<Rightarrow> bytes list res" where
  "var_rows page [] = Inr []"
| "var_rows page (row # rows) =
     bind_res (var_row page row) (\<lambda>value.
     bind_res (var_rows page rows) (\<lambda>values. Inr (value # values)))"

text \<open>\<^verbatim>\<open>materialize\<close> without a budget: independently owned copies of the selected rows.\<close>

definition materialize :: "borrowed_var_bytes \<Rightarrow> usize list option \<Rightarrow> bytes list res" where
  "materialize page selection =
     bind_res (ensure (case selection of None \<Rightarrow> True
                         | Some rows \<Rightarrow> \<not> list_ex (\<lambda>row. bv_row_count page \<le> row) rows)
                 (InvalidData ''bytes page selection is out of bounds'')) (\<lambda>_.
     var_rows page (case selection of None \<Rightarrow> [0..<bv_row_count page] | Some rows \<Rightarrow> rows))"

fun data_bytes_loop :: "usize \<Rightarrow> u32 list \<Rightarrow> usize option" where
  "data_bytes_loop acc [] = Some acc"
| "data_bytes_loop acc (len # lens) =
     Option.bind (usize_checked_add acc (unat len)) (\<lambda>acc. data_bytes_loop acc lens)"

definition raw_len :: "u32 list \<Rightarrow> usize \<Rightarrow> usize \<Rightarrow> usize res" where
  "raw_len data_lengths data_bytes offset_width =
     ok_or (Option.bind (Option.bind (Option.bind (usize_checked_add (length data_lengths) 1)
                 (\<lambda>n. usize_checked_mul n offset_width))
               (\<lambda>n. usize_checked_add n 4))
             (\<lambda>n. usize_checked_add n data_bytes))
       (InvalidData ''bytes page budget overflow'')"

fun lengths_differ :: "borrowed_var_bytes \<Rightarrow> usize \<Rightarrow> u32 list \<Rightarrow> bool res" where
  "lengths_differ page row [] = Inr False"
| "lengths_differ page row (expected # rest) =
     bind_res (var_row page row) (\<lambda>value.
     if length value \<noteq> unat expected then Inr True else lengths_differ page (Suc row) rest)"

text \<open>
  \<^verbatim>\<open>decode_var_bytes_page_selected_accounted\<close> in three parts: \<open>var_raw\<close> is the
  decompressed page with its offset width, \<open>var_check\<close> its validation against
  the row lengths, and the last line materializes the selection.
\<close>

definition var_raw ::
  "compressors \<Rightarrow> bytes \<Rightarrow> compression_codec \<Rightarrow> u32 list \<Rightarrow> usize \<Rightarrow> (bytes \<times> bool) res" where
  "var_raw cx encoded codec data_lengths data_bytes =
     (case codec of
          CC_AdaptiveBytes \<Rightarrow>
            (case encoded of
               [] \<Rightarrow> Inl (InvalidData ''empty adaptive page'')
             | tag # payload \<Rightarrow>
                 if tag = 0 then
                   bind_res (raw_len data_lengths data_bytes 8) (\<lambda>limit.
                   bind_res (zstd_decompress_bounded cx payload limit) (\<lambda>raw. Inr (raw, False)))
                 else if tag = 1 then
                   bind_res (raw_len data_lengths data_bytes 4) (\<lambda>limit.
                   bind_res (zstd_decompress_bounded cx payload limit) (\<lambda>raw. Inr (raw, True)))
                 else Inl (InvalidData ''invalid adaptive bytes tag''))
        | CC_Zstd \<Rightarrow>
            bind_res (raw_len data_lengths data_bytes 8) (\<lambda>limit.
            bind_res (zstd_decompress_bounded cx encoded limit) (\<lambda>raw. Inr (raw, False)))
        | CC_Lz4 \<Rightarrow>
            bind_res (raw_len data_lengths data_bytes 8) (\<lambda>limit.
            bind_res (lz4_decompress_bounded cx encoded limit) (\<lambda>raw. Inr (raw, False)))
        | CC_None \<Rightarrow>
            bind_res (raw_len data_lengths data_bytes 8) (\<lambda>limit.
            if length encoded = limit then Inr (encoded, False)
            else Inl (InvalidData ''invalid or oversized bytes page''))
        | _ \<Rightarrow> Inl (InvalidData ''invalid or oversized bytes page''))"

definition var_check :: "bytes \<Rightarrow> bool \<Rightarrow> u32 list \<Rightarrow> usize \<Rightarrow> borrowed_var_bytes res" where
  "var_check raw narrow data_lengths data_bytes =
     bind_res (raw_len data_lengths data_bytes (if narrow then 4 else 8)) (\<lambda>expected.
     bind_res (ensure (length raw = expected)
                 (InvalidData ''decoded bytes page has an unexpected length'')) (\<lambda>_.
     bind_res (parse_var_bytes raw narrow (Some (length data_lengths))) (\<lambda>page.
     bind_res (lengths_differ page 0 data_lengths) (\<lambda>differ.
     bind_res (ensure (\<not> differ)
                 (InvalidData ''decoded bytes page differs from its row-length metadata'')) (\<lambda>_.
     Inr page)))))"

definition load_var_page ::
  "compressors \<Rightarrow> bytes \<Rightarrow> compression_codec \<Rightarrow> u32 list \<Rightarrow> borrowed_var_bytes res" where
  "load_var_page cx encoded codec data_lengths =
     bind_res (ok_or (data_bytes_loop 0 data_lengths) (InvalidData ''bytes page budget overflow'')) (\<lambda>data_bytes.
     bind_res (var_raw cx encoded codec data_lengths data_bytes) (\<lambda>(raw, narrow).
     var_check raw narrow data_lengths data_bytes))"

definition decode_var_bytes_page_selected ::
  "compressors \<Rightarrow> bytes \<Rightarrow> compression_codec \<Rightarrow> u32 list \<Rightarrow> usize list option \<Rightarrow> bytes list res" where
  "decode_var_bytes_page_selected cx encoded codec data_lengths selection =
     bind_res (load_var_page cx encoded codec data_lengths) (\<lambda>page. materialize page selection)"

definition decode_var_bytes_page_bounded ::
  "compressors \<Rightarrow> bytes \<Rightarrow> compression_codec \<Rightarrow> u32 list \<Rightarrow> bytes list res" where
  "decode_var_bytes_page_bounded cx encoded codec data_lengths =
     decode_var_bytes_page_selected cx encoded codec data_lengths None"

section \<open>The page index is a bijection\<close>

lemma take_drop_append: "take m (drop k xs) @ drop (k + m) xs = drop k xs"
  by (metis append_take_drop_id drop_drop add.commute)

lemma length_write_page_index_entry [simp]: "length (write_page_index_entry e) = 24"
  by (simp add: write_page_index_entry_def)

lemma length_concat_entries [simp]: "length (concat (map write_page_index_entry es)) = 24 * length es"
  by (induction es) auto

lemma read_page_index_entry:
  assumes "cursor + 24 \<le> length data"
  shows "read_page_index_loop data (Suc n) cursor =
    bind_res (read_page_index_loop data n (cursor + 24)) (\<lambda>es.
      Inr (\<lparr>pe_first_row = from_le_bytes (take 8 (drop cursor data)),
            pe_row_count = from_le_bytes (take 4 (drop (cursor + 8) data)),
            pe_offset = from_le_bytes (take 8 (drop (cursor + 12) data)),
            pe_encoded_len = from_le_bytes (take 4 (drop (cursor + 20) data))\<rparr> # es))"
  using assms by (simp add: add.commute)

declare read_page_index_loop.simps(2) [simp del]

lemma read_entries_written:
  assumes "drop cursor data = concat (map write_page_index_entry es)" and "cursor \<le> length data"
  shows "read_page_index_loop data (length es) cursor = Inr es"
  using assms
proof (induction es arbitrary: cursor)
  case (Cons e es)
  have len: "length data = cursor + 24 * length (e # es)"
    using arg_cong[OF Cons.prems(1), of length] Cons.prems(2) by simp
  have d: "drop (cursor + k) data = drop k (concat (map write_page_index_entry (e # es)))" for k
    using Cons.prems(1) by (metis add.commute drop_drop)
  have "drop (cursor + 24) data = concat (map write_page_index_entry es)"
    by (simp add: d)
  then have IH: "read_page_index_loop data (length es) (cursor + 24) = Inr es"
    using Cons.IH len by simp
  show ?case
    using len IH d[of 0] by (simp add: read_page_index_entry d) (simp add: write_page_index_entry_def)
qed simp

lemma written_entries_read:
  assumes "read_page_index_loop data n cursor = Inr es" and "length data = cursor + 24 * n"
  shows "length es = n \<and> concat (map write_page_index_entry es) = drop cursor data"
  using assms
proof (induction n arbitrary: cursor es)
  case (Suc n)
  let ?e = "\<lparr>pe_first_row = from_le_bytes (take 8 (drop cursor data)),
            pe_row_count = from_le_bytes (take 4 (drop (cursor + 8) data)),
            pe_offset = from_le_bytes (take 8 (drop (cursor + 12) data)),
            pe_encoded_len = from_le_bytes (take 4 (drop (cursor + 20) data))\<rparr>"
  obtain rest where rest: "read_page_index_loop data n (cursor + 24) = Inr rest" and es: "es = ?e # rest"
    using Suc.prems by (auto simp: read_page_index_entry bind_res_Inr_iff)
  have d: "drop (cursor + k) data = drop k (drop cursor data)" for k
    by (simp add: add.commute)
  have split: "xs = take 8 xs @ take 4 (drop 8 xs) @ take 8 (drop 12 xs) @ take 4 (drop 20 xs) @ drop 24 xs"
    for xs :: bytes
    using take_drop_append[of 4 20 xs] take_drop_append[of 8 12 xs] take_drop_append[of 4 8 xs] by simp
  have "write_page_index_entry ?e @ drop 24 (drop cursor data) = drop cursor data"
    unfolding write_page_index_entry_def d using Suc.prems(2) split[of "drop cursor data"]
    by (simp add: to_from_le_bytes)
  moreover have "length rest = n \<and> concat (map write_page_index_entry rest) = drop 24 (drop cursor data)"
    using Suc.IH[OF rest] Suc.prems(2) by (simp add: add.commute)
  ultimately show ?case by (simp add: es)
qed simp

lemma PAGE_INDEX_MAGIC_length [simp]: "length PAGE_INDEX_MAGIC = 4"
  by (simp add: PAGE_INDEX_MAGIC_def)

lemma read_page_index_Inr_iff:
  "read_page_index data = Inr es \<longleftrightarrow>
     12 \<le> length data \<and> take 4 data = PAGE_INDEX_MAGIC
     \<and> from_le_bytes (take 4 (drop 4 data)) = PAGE_INDEX_VERSION
     \<and> length data = 12 + 24 * unat (from_le_bytes (take 4 (drop 8 data)) :: u32)
     \<and> length data < usize_limit
     \<and> read_page_index_loop data (unat (from_le_bytes (take 4 (drop 8 data)) :: u32)) 12 = Inr es"
proof (cases "12 \<le> length data")
  case True
  define n where "n = unat (from_le_bytes (take 4 (drop 8 data)) :: u32)"
  show ?thesis
    unfolding n_def[symmetric] using True
    by (simp add: read_page_index_def bind_res_Inr_iff Let_def usize_checked_mul_Some_iff
        usize_checked_add_Some_iff Option.bind_eq_Some_conv PAGE_INDEX_ENTRY_BYTES_def
        PAGE_INDEX_HEADER_BYTES_def flip: n_def)
      (metis add.commute add_lessD1 mult.commute)
qed (simp add: read_page_index_def)

lemma read_write_page_index:
  assumes "length es < 2 ^ 32"
  shows "read_page_index (write_page_index es) = Inr es"
proof -
  have n: "unat (of_nat (length es) :: u32) = length es" using assms by (simp add: unat_of_nat_less)
  have "24 * length es + 12 < usize_limit" using assms by (simp add: usize_limit_def)
  moreover have "read_page_index_loop (write_page_index es) (length es) 12 = Inr es"
    by (rule read_entries_written) (simp_all add: write_page_index_def)
  ultimately show ?thesis
    using n by (simp add: read_page_index_Inr_iff) (simp add: write_page_index_def)
qed

lemma write_read_page_index:
  assumes "read_page_index data = Inr es"
  shows "write_page_index es = data"
proof -
  let ?n = "from_le_bytes (take 4 (drop 8 data)) :: u32"
  have *: "12 \<le> length data" "take 4 data = PAGE_INDEX_MAGIC"
      "from_le_bytes (take 4 (drop 4 data)) = PAGE_INDEX_VERSION"
      "length data = 12 + 24 * unat ?n" "read_page_index_loop data (unat ?n) 12 = Inr es"
    using assms unfolding read_page_index_Inr_iff by blast+
  have es: "length es = unat ?n" "concat (map write_page_index_entry es) = drop 12 data"
    using written_entries_read[OF *(5,4)] by auto
  have v: "to_le_bytes PAGE_INDEX_VERSION = take 4 (drop 4 data)"
    using *(1) by (subst *(3)[symmetric]) (simp add: to_from_le_bytes)
  have n: "to_le_bytes (of_nat (length es) :: u32) = take 4 (drop 8 data)"
    using *(1) by (simp add: es to_from_le_bytes)
  have "take 4 data @ take 4 (drop 4 data) @ take 4 (drop 8 data) @ drop 12 data = data"
    using take_drop_append[of 4 8 data] take_drop_append[of 4 4 data] by simp
  then show ?thesis by (simp only: write_page_index_def v n es(2) *(2)[symmetric])
qed

lemma read_page_index_loop_no_panic:
  "length data = cursor + 24 * n \<Longrightarrow> \<not> panics (read_page_index_loop data n cursor)"
proof (induction n arbitrary: cursor)
  case (Suc n)
  from Suc.IH[of "cursor + 24"] Suc.prems show ?case by (simp add: read_page_index_entry panics_bind)
qed simp

lemma read_page_index_no_panic: "\<not> panics (read_page_index data)"
proof (cases "12 \<le> length data")
  case True
  define n where "n = unat (from_le_bytes (take 4 (drop 8 data)) :: u32)"
  show ?thesis
    using True read_page_index_loop_no_panic[of data 12 n]
    by (auto simp: read_page_index_def panics_bind Let_def usize_checked_mul_Some_iff bind_res_Inr_iff
        usize_checked_add_Some_iff Option.bind_eq_Some_conv PAGE_INDEX_ENTRY_BYTES_def
        PAGE_INDEX_HEADER_BYTES_def simp flip: n_def)
qed (simp add: read_page_index_def)

lemma frame_page_index_written:
  "length es < 2 ^ 32 \<Longrightarrow> frame_page_index (concat (map write_page_index_entry es)) = Inr (write_page_index es)"
  by (simp add: frame_page_index_def PAGE_INDEX_ENTRY_BYTES_def try_u32_def write_page_index_def)

section \<open>Bounded decompression\<close>

lemma zstd_lawsD:
  assumes "zstd_laws cx"
  shows "zstd_encode_all cx d level = Inr z \<Longrightarrow> length d \<le> cap \<Longrightarrow> zstd_decompress_to_buffer cx z cap = Inr d"
    and "zstd_encode_all cx d level = Inr z \<Longrightarrow> zstd_upper_bound cx z = Some u \<Longrightarrow> length d \<le> u"
    and "zstd_decompress_to_buffer cx z' cap' = Inr d' \<Longrightarrow> length d' \<le> cap'"
    and "\<not> panics (zstd_encode_all cx d level)" and "\<not> panics (zstd_decompress_to_buffer cx z' cap')"
  using assms unfolding zstd_laws_def by blast+

lemma lz4_lawsD:
  assumes "lz4_laws cx"
  shows "length d < 2 ^ 32 \<Longrightarrow> \<exists>body. lz4_compress_prepend_size cx d = to_le_bytes (of_nat (length d) :: u32) @ body
      \<and> lz4_decompress_into cx body (length d) = Inr d"
    and "lz4_decompress_into cx z n = Inr d' \<Longrightarrow> length d' \<le> n" and "\<not> panics (lz4_decompress_into cx z n)"
  using assms unfolding lz4_laws_def by blast+

lemma zstd_bounded_roundtrip:
  assumes "zstd_laws cx" and "zstd_encode_all cx d level = Inr z" and "length d \<le> limit"
  shows "zstd_decompress_bounded cx z limit = Inr d"
proof -
  have "length d \<le> zstd_output_capacity cx z limit"
    using zstd_lawsD(2)[OF assms(1,2)] assms(3) by (simp add: zstd_output_capacity_def split: option.splits)
  then show ?thesis using zstd_lawsD(1)[OF assms(1,2)] by (simp add: zstd_decompress_bounded_def)
qed

lemma zstd_bounded_length:
  assumes "zstd_laws cx" and "zstd_decompress_bounded cx z limit = Inr d"
  shows "length d \<le> limit"
  using zstd_lawsD(3)[OF assms(1) assms(2)[unfolded zstd_decompress_bounded_def]]
  by (simp add: zstd_output_capacity_def)

lemma zstd_bounded_no_panic: "zstd_laws cx \<Longrightarrow> \<not> panics (zstd_decompress_bounded cx z limit)"
  unfolding zstd_decompress_bounded_def by (rule zstd_lawsD(5))

lemma lz4_bounded_roundtrip:
  assumes "lz4_laws cx" and "length d < 2 ^ 32" and "length d \<le> limit"
  shows "lz4_decompress_bounded cx (lz4_compress cx d) limit = Inr d"
proof -
  obtain body where "lz4_compress_prepend_size cx d = to_le_bytes (of_nat (length d) :: u32) @ body"
      "lz4_decompress_into cx body (length d) = Inr d"
    using lz4_lawsD(1)[OF assms(1,2)] by blast
  then show ?thesis
    using assms(2,3)
    by (simp add: lz4_decompress_bounded_def lz4_compress_def lz4_output_capacity_def Let_def unat_of_nat_less)
qed

lemma lz4_output_capacity_Inr_iff:
  "lz4_output_capacity z limit = Inr sz \<longleftrightarrow>
     4 \<le> length z \<and> sz = unat (from_le_bytes (take 4 z) :: u32) \<and> sz \<le> limit"
  by (auto simp: lz4_output_capacity_def bind_res_Inr_iff Let_def)

lemma lz4_bounded_length:
  assumes "lz4_laws cx" and "lz4_decompress_bounded cx z limit = Inr d"
  shows "length d \<le> limit"
proof -
  obtain sz where "lz4_output_capacity z limit = Inr sz" "lz4_decompress_into cx (drop 4 z) sz = Inr d"
    using assms(2) by (auto simp: lz4_decompress_bounded_def lz4_output_capacity_Inr_iff bind_res_Inr_iff)
  then show ?thesis
    using lz4_lawsD(2)[OF assms(1)] by (fastforce simp: lz4_output_capacity_Inr_iff)
qed

lemma lz4_bounded_no_panic: "lz4_laws cx \<Longrightarrow> \<not> panics (lz4_decompress_bounded cx z limit)"
  by (auto simp: lz4_decompress_bounded_def lz4_output_capacity_def panics_bind bind_res_Inr_iff Let_def
      lz4_lawsD(3))

lemmas bounded_roundtrip = zstd_bounded_roundtrip lz4_bounded_roundtrip
lemmas bounded_no_panic = zstd_bounded_no_panic lz4_bounded_no_panic

section \<open>Scalar pages\<close>

lemma length_concat_le_bytes [simp]:
  "length (concat (map to_le_bytes (vs :: 'a::len word list))) = length vs * (LENGTH('a) div 8)"
  by (induction vs) auto

lemma decoded_fixed_len_Inr_iff [simp]:
  "decoded_fixed_len n w = Inr k \<longleftrightarrow> k = n * w \<and> n * w < usize_limit"
  by (auto simp: decoded_fixed_len_def usize_checked_mul_Some_iff)

lemma decoded_fixed_len_small [simp]: "n * w < usize_limit \<Longrightarrow> decoded_fixed_len n w = Inr (n * w)"
  by simp

lemma decoded_fixed_len_no_panic [simp]: "\<not> panics (decoded_fixed_len n w)"
  by (simp add: decoded_fixed_len_def)

lemma plain_u64_roundtrip:
  assumes "length vs * 8 < usize_limit"
  shows "decode_plain_u64_page (concat (map to_le_bytes vs)) (length vs) = Inr vs"
  using assms by (simp add: decode_plain_u64_page_def chunks_exact_concat map_idI)

lemma plain_u32_roundtrip:
  assumes "length vs * 4 < usize_limit"
  shows "decode_plain_u32_page (concat (map to_le_bytes vs)) (length vs) = Inr vs"
  using assms by (simp add: decode_plain_u32_page_def chunks_exact_concat map_idI)

lemma page_limits:
  assumes "n \<le> MAX_PAGE_ROWS" and "w \<le> 64"
  shows "n * w < usize_limit" and "n * w < 2 ^ 32" and "n < 2 ^ 32"
proof -
  have "n * w \<le> 16384 * 64" using assms by (intro mult_le_mono) (auto simp: MAX_PAGE_ROWS_def)
  then show "n * w < usize_limit" "n * w < 2 ^ 32" by (simp_all add: usize_limit_def)
  show "n < 2 ^ 32" using assms(1) by (simp add: MAX_PAGE_ROWS_def)
qed

lemma u64_page_roundtrip_helper:
  assumes "zstd_laws cx" and "lz4_laws cx" and "length vs \<le> MAX_PAGE_ROWS"
    and "encode_u64_page cx vs codec = Inr data"
  shows "decode_u64_page cx data (length vs) codec = Inr vs"
proof -
  note lim = page_limits[OF assms(3)]
  have z: "zstd_decompress_bounded cx z (length vs * 8) = Inr (concat (map to_le_bytes vs))"
    if "zstd_compress cx (concat (map to_le_bytes vs)) = Inr z" for z
    using that assms(1) by (intro zstd_bounded_roundtrip[of _ _ 1]) (auto simp: zstd_compress_def)
  have l: "lz4_decompress_bounded cx (lz4_compress cx (concat (map to_le_bytes vs))) (length vs * 8)
      = Inr (concat (map to_le_bytes vs))"
    using assms(2) lim[of 8] by (intro lz4_bounded_roundtrip) auto
  show ?thesis
    using assms(4) lim[of 8] lim[of 64] z l
      delta.round_trip[of vs] signed_delta.round_trip[of vs] dod.round_trip[of vs] plain_u64_roundtrip[of vs]
    by (cases codec) (auto simp: encode_u64_page_def decode_u64_page_def Let_def)
qed

lemma decode_u64_page_rows:
  assumes "decode_u64_page cx data n codec = Inr vs"
  shows "length vs = n"
proof -
  have "length vs = n" if "decode_plain_u64_page raw n = Inr vs" for raw
    using that chunks_exact_exact(2)[of 8 raw]
    by (auto simp: decode_plain_u64_page_def bind_res_Inr_iff split: if_splits)
  then show ?thesis
    using assms delta.row_count signed_delta.row_count dod.row_count
    by (cases codec) (auto simp: decode_u64_page_def bind_res_Inr_iff)
qed

lemma decode_u64_page_no_panic:
  assumes "zstd_laws cx" and "lz4_laws cx"
  shows "\<not> panics (decode_u64_page cx data n codec)"
  using bounded_no_panic assms delta.no_panic signed_delta.no_panic dod.no_panic
  by (cases codec) (auto simp: decode_u64_page_def decode_plain_u64_page_def panics_bind)

lemma u32_page_roundtrip_helper:
  assumes "zstd_laws cx" and "lz4_laws cx" and "length vs \<le> MAX_PAGE_ROWS"
    and "encode_u32_page cx vs codec = Inr data"
  shows "decode_u32_page cx data (length vs) codec = Inr vs"
proof -
  note lim = page_limits[OF assms(3)]
  have z: "zstd_decompress_bounded cx z (length vs * 4) = Inr (concat (map to_le_bytes vs))"
    if "zstd_compress cx (concat (map to_le_bytes vs)) = Inr z" for z
    using that assms(1) by (intro zstd_bounded_roundtrip[of _ _ 1]) (auto simp: zstd_compress_def)
  have l: "lz4_decompress_bounded cx (lz4_compress cx (concat (map to_le_bytes vs))) (length vs * 4)
      = Inr (concat (map to_le_bytes vs))"
    using assms(2) lim[of 4] by (intro lz4_bounded_roundtrip) auto
  show ?thesis
    using assms(4) lim[of 4] z l plain_u32_roundtrip[of vs]
    by (cases codec) (auto simp: encode_u32_page_def decode_u32_page_def Let_def)
qed

section \<open>Fixed-width pages\<close>

lemma dict_encode_raw_eq:
  "0 < sz \<Longrightarrow> dict_encode_raw raw sz = Inr (dict_encode (chunks_exact sz raw) sz)"
  by (simp add: dict_encode_raw_def dict_encode_def split: prod.splits)

lemma dict_raw_roundtrip:
  assumes "0 < sz" and "sz < 2 ^ 32" and "sz dvd length raw" and "length raw < 2 ^ 32"
    and "dict_encode_raw raw sz = Inr data"
  shows "dict_decode data (length raw div sz) sz = Inr raw"
proof -
  note c = chunks_exact_exact[OF assms(3,1)]
  have "length (chunks_exact sz raw) < 2 ^ 32"
    using c(2) assms(4) by (metis div_le_dividend le_less_trans)
  then have "dict_decode (dict_encode (chunks_exact sz raw) sz) (length (chunks_exact sz raw)) sz
      = Inr (concat (chunks_exact sz raw))"
    using c(3) assms(2) by (intro dict_encode_decode)
  with c assms(1,5) show ?thesis by (simp only: dict_encode_raw_eq sum.inject)
qed

lemma low20_tails_roundtrip:
  assumes "low20_tails raw sz = Some tails"
  shows "sz = 32" and "32 dvd length raw" and "length tails = length raw div 32 * 20"
    and "concat (map (\<lambda>tail. replicate 12 0 @ tail) (chunks_exact 20 tails)) = raw"
proof -
  let ?cs = "chunks_exact 32 raw"
  have *: "sz = 32" "32 dvd length raw" "\<forall>c \<in> set ?cs. take 12 c = replicate 12 0"
      "tails = concat (map (drop 12) ?cs)"
    using assms by (auto simp: low20_tails_def Let_def list_all_iff mod_0_imp_dvd split: if_splits)
  show "sz = 32" "32 dvd length raw" by fact+
  note c = chunks_exact_exact[OF *(2)]
  have u: "\<forall>t \<in> set (map (drop 12) ?cs). length t = 20" using c by auto
  show "length tails = length raw div 32 * 20"
    using length_concat_uniform[OF u] c(2) by (simp only: *(4) length_map)
  have "chunks_exact 20 tails = map (drop 12) ?cs"
    using chunks_exact_concat[OF u] by (simp only: *(4))
  moreover have "map (\<lambda>tail. replicate 12 0 @ tail) (map (drop 12) ?cs) = ?cs"
  proof -
    have "replicate 12 0 @ drop 12 c = c" if "c \<in> set ?cs" for c
      using *(3) that append_take_drop_id[of 12 c] by simp
    then show ?thesis by (simp add: map_idI)
  qed
  ultimately show "concat (map (\<lambda>tail. replicate 12 0 @ tail) (chunks_exact 20 tails)) = raw"
    using c(1) by simp
qed

text \<open>What the adaptive encoder may choose, and that its choice is a shortest candidate.\<close>

definition adaptive_choice :: "compressors \<Rightarrow> bytes \<Rightarrow> usize \<Rightarrow> u8 \<Rightarrow> bytes \<Rightarrow> bool" where
  "adaptive_choice cx raw sz tag payload \<longleftrightarrow>
     tag = 0 \<and> payload = raw
     \<or> tag = 1 \<and> dict_encode_raw raw sz = Inr payload
     \<or> tag = 2 \<and> zstd_encode_all cx raw ZSTD_STORAGE_LEVEL = Inr payload
     \<or> tag = 3 \<and> (\<exists>tails. low20_tails raw sz = Some tails
                   \<and> zstd_encode_all cx tails ZSTD_STORAGE_LEVEL = Inr payload)"

lemma hd_sort_key:
  assumes "xs \<noteq> []"
  shows "sort_key f xs ! 0 \<in> set xs" and "x \<in> set xs \<Longrightarrow> f (sort_key f xs ! 0) \<le> f x"
proof -
  have "sort_key f xs \<noteq> []" using assms by (metis length_0_conv length_sort)
  then obtain y ys where ys: "sort_key f xs = y # ys" by (meson neq_Nil_conv)
  then show "sort_key f xs ! 0 \<in> set xs" by (metis list.set_intros(1) nth_Cons_0 set_sort)
  have "sorted (map f (y # ys))" using sorted_sort_key[of f xs] ys by simp
  moreover have "x \<in> set (y # ys)" if "x \<in> set xs" using that ys by (metis set_sort)
  ultimately show "f (sort_key f xs ! 0) \<le> f x" if "x \<in> set xs" using that ys by auto
qed

lemma encode_adaptive_choice:
  assumes "encode_adaptive_fixed_width_page cx raw sz = Inr enc"
  obtains tag payload where "enc = tag # payload" and "adaptive_choice cx raw sz tag payload"
    and "length raw * 4 < usize_limit \<longrightarrow> length payload \<le> length raw"
proof -
  obtain dictionary where d: "dict_encode_raw raw sz = Inr dictionary"
    using assms by (auto simp: encode_adaptive_fixed_width_page_def)
  show thesis
  proof (cases "usize_saturating_mul (length dictionary) 4 \<le> usize_saturating_mul (length raw) 3")
    case True
    then have "length raw * 4 < usize_limit \<longrightarrow> length dictionary \<le> length raw"
      by (auto simp: usize_saturating_mul_def usize_limit_def min_def split: if_splits)
    with True assms d show thesis
      by (intro that[of 1 dictionary]) (auto simp: encode_adaptive_fixed_width_page_def adaptive_choice_def)
  next
    case False
    define key :: "u8 \<times> bytes \<Rightarrow> nat" where "key = (\<lambda>(_, data). length data)"
    let ?plain = "\<lambda>zstd. [(0, raw), (1, dictionary), (2, zstd)] :: (u8 \<times> bytes) list"
    let ?cands = "\<lambda>zstd. case low20_tails raw sz of None \<Rightarrow> Inr (?plain zstd)
        | Some tails \<Rightarrow> bind_res (zstd_compress_level cx tails ZSTD_STORAGE_LEVEL)
            (\<lambda>low20. Inr (?plain zstd @ [(3, low20)]))"
    let ?pick = "\<lambda>cs. bind_res (index (sort_key key cs) 0) (\<lambda>(tag, payload). Inr (tag # payload))"
    have "bind_res (zstd_compress_level cx raw ZSTD_STORAGE_LEVEL) (\<lambda>zstd. bind_res (?cands zstd) ?pick) = Inr enc"
      using assms d False
      by (simp only: encode_adaptive_fixed_width_page_def bind_res_simps if_False Let_def key_def)
    then obtain zstd where z: "zstd_compress_level cx raw ZSTD_STORAGE_LEVEL = Inr zstd"
      and picked: "bind_res (?cands zstd) ?pick = Inr enc" by (rule bind_res_InrE)
    from picked obtain cs where cs: "?cands zstd = Inr cs" and pick: "?pick cs = Inr enc"
      by (rule bind_res_InrE)
    have enc: "enc = fst (sort_key key cs ! 0) # snd (sort_key key cs ! 0)" "cs \<noteq> []"
      using pick by (auto simp: bind_res_Inr_iff index_def split: if_splits prod.splits)
    have mem: "(0, raw) \<in> set cs" "\<forall>(t, p) \<in> set cs. adaptive_choice cx raw sz t p"
      using cs z d by (auto simp: adaptive_choice_def zstd_compress_level_def split: option.splits)
    have "key (sort_key key cs ! 0) \<le> key (0, raw)" by (rule hd_sort_key(2)[OF enc(2) mem(1)])
    then have "length (snd (sort_key key cs ! 0)) \<le> length raw"
      by (simp add: key_def case_prod_unfold)
    then show thesis
      using that[of "fst (sort_key key cs ! 0)" "snd (sort_key key cs ! 0)"] enc(1)
        hd_sort_key(1)[OF enc(2), of key] mem(2) by auto
  qed
qed

lemma adaptive_choice_decode:
  assumes "zstd_laws cx" and "adaptive_choice cx raw sz tag payload"
    and "0 < sz" and "sz < 2 ^ 32" and "sz dvd length raw" and "length raw < 2 ^ 32"
  shows "decode_adaptive_fixed_width_page cx (tag # payload) (length raw div sz) sz = Inr raw"
proof -
  have n: "length raw div sz * sz = length raw" using assms(5) by simp
  have lim: "length raw div sz * sz < usize_limit" "length raw < usize_limit"
    using assms(6) n by (auto simp: usize_limit_def)
  from assms(2) consider "tag = 0" "payload = raw" | "tag = 1" "dict_encode_raw raw sz = Inr payload"
    | "tag = 2" "zstd_encode_all cx raw ZSTD_STORAGE_LEVEL = Inr payload"
    | tails where "tag = 3" "low20_tails raw sz = Some tails"
        "zstd_encode_all cx tails ZSTD_STORAGE_LEVEL = Inr payload"
    unfolding adaptive_choice_def by blast
  then show ?thesis
  proof cases
    case 1
    then show ?thesis
      using lim n by (simp add: decode_adaptive_fixed_width_page_def decode_plain_fixed_width_page_def)
  next
    case 2
    then show ?thesis
      using dict_raw_roundtrip[OF assms(3-6)] by (simp add: decode_adaptive_fixed_width_page_def)
  next
    case 3
    then show ?thesis
      using zstd_bounded_roundtrip[OF assms(1), of raw _ payload] lim n
      by (simp add: decode_adaptive_fixed_width_page_def)
  next
    case 4
    note t = low20_tails_roundtrip[OF 4(2)]
    have "length raw div 32 * 20 < usize_limit" "length raw div 32 * 32 < usize_limit"
      using lim(2) by (simp_all add: usize_limit_def)
    moreover have "zstd_decompress_bounded cx payload (length raw div 32 * 20) = Inr tails"
      using zstd_bounded_roundtrip[OF assms(1) 4(3)] t(3) by simp
    ultimately show ?thesis
      using 4(1) t
      by (simp add: decode_adaptive_fixed_width_page_def decode_b256_low20_page_def)
  qed
qed

lemma fixed_page_roundtrip_helper:
  assumes "zstd_laws cx" and "lz4_laws cx" and "length raw < 2 ^ 32" and "sz < 2 ^ 32"
    and "encode_fixed_width_page cx raw sz codec = Inr enc"
  shows "decode_fixed_width_page cx enc (length raw div sz) sz codec = Inr raw"
proof -
  have sz: "0 < sz" "sz dvd length raw" using assms(5) by (auto simp: encode_fixed_width_page_def split: if_splits)
  have n: "length raw div sz * sz = length raw" using sz(2) by simp
  have lim: "length raw div sz * sz < usize_limit"
    using assms(3) n by (auto simp: usize_limit_def)
  have z: "zstd_decompress_bounded cx enc (length raw) = Inr raw" if "zstd_compress cx raw = Inr enc"
    using that zstd_bounded_roundtrip[OF assms(1), of raw 1 enc] by (simp add: zstd_compress_def)
  have a: "decode_adaptive_fixed_width_page cx enc (length raw div sz) sz = Inr raw"
    if "encode_adaptive_fixed_width_page cx raw sz = Inr enc"
    using encode_adaptive_choice[OF that] adaptive_choice_decode[OF assms(1) _ sz(1) assms(4) sz(2) assms(3)]
    by metis
  show ?thesis
    using assms(5) sz lim n z a lz4_bounded_roundtrip[OF assms(2,3), of "length raw"]
      dict_raw_roundtrip[OF sz(1) assms(4) sz(2) assms(3)]
    by (cases codec)
       (auto simp: encode_fixed_width_page_def decode_fixed_width_page_def decode_plain_fixed_width_page_def)
qed

lemma u8_page_roundtrip_helper:
  assumes "zstd_laws cx" and "lz4_laws cx" and "length vs < 2 ^ 32"
    and "encode_u8_page cx vs codec = Inr enc"
  shows "decode_u8_page cx enc (length vs) codec = Inr vs"
proof -
  have lim: "length vs < usize_limit" using assms(3) by (simp add: usize_limit_def)
  have z: "zstd_decompress_bounded cx enc (length vs) = Inr vs" if "zstd_compress cx vs = Inr enc"
    using that zstd_bounded_roundtrip[OF assms(1), of vs 1 enc] by (simp add: zstd_compress_def)
  show ?thesis
    using assms(4) lim z lz4_bounded_roundtrip[OF assms(2,3), of "length vs"]
      dict_raw_roundtrip[of 1 vs enc] assms(3)
    by (cases codec) (auto simp: encode_u8_page_def decode_u8_page_def decode_plain_fixed_width_page_def)
qed

lemma decode_fixed_width_page_length:
  "decode_fixed_width_page cx enc n sz codec = Inr raw \<Longrightarrow> length raw = n * sz"
  by (auto simp: decode_fixed_width_page_def bind_res_Inr_iff split: if_splits)

lemma decode_fixed_width_page_no_panic:
  assumes "zstd_laws cx" and "lz4_laws cx"
  shows "\<not> panics (decode_fixed_width_page cx enc n sz codec)"
proof -
  have "\<not> panics (decode_b256_low20_page cx p n sz)" for p
    using bounded_no_panic assms by (auto simp: decode_b256_low20_page_def panics_bind)
  then have "\<not> panics (decode_adaptive_fixed_width_page cx enc n sz)"
    using bounded_no_panic assms dict_decode_no_panic
    by (auto simp: decode_adaptive_fixed_width_page_def decode_plain_fixed_width_page_def panics_bind
        split: list.splits)
  then show ?thesis
    using bounded_no_panic assms dict_decode_no_panic
    by (cases codec) (auto simp: decode_fixed_width_page_def decode_plain_fixed_width_page_def panics_bind)
qed

section \<open>Variable-width pages\<close>

definition page_offsets :: "borrowed_var_bytes \<Rightarrow> u64 list" where
  "page_offsets page =
     (if bv_narrow page then map (\<lambda>b. ucast (from_le_bytes b :: u32)) (chunks_exact 4 (bv_offsets page))
      else map from_le_bytes (chunks_exact 8 (bv_offsets page)))"

definition page_values :: "borrowed_var_bytes \<Rightarrow> bytes list" where
  "page_values page =
     map (\<lambda>i. take (unat (page_offsets page ! Suc i) - unat (page_offsets page ! i))
                 (drop (unat (page_offsets page ! i)) (bv_blob page))) [0..<bv_row_count page]"

definition page_ok :: "borrowed_var_bytes \<Rightarrow> bool" where
  "page_ok page \<longleftrightarrow>
     length (page_offsets page) = Suc (bv_row_count page) \<and> page_offsets page ! 0 = 0
     \<and> sorted (page_offsets page) \<and> unat (last (page_offsets page)) = length (bv_blob page)"

lemma encoded_offset_eq:
  "encoded_offset page row =
     (if row < length (page_offsets page) then Inr (page_offsets page ! row)
      else Inl (Panic ''index out of bounds''))"
  by (simp add: encoded_offset_def page_offsets_def index_def)

lemma parse_loop_offsets:
  assumes "map (encoded_offset page) rows = map Inr os"
  shows "parse_loop page rows previous = Inr final \<longleftrightarrow>
    sorted (previous # os) \<and> (\<forall>off \<in> set os. off \<le> of_nat (length (bv_blob page)))
    \<and> (\<forall>(r, off) \<in> set (zip rows os). r = 0 \<longrightarrow> off = 0) \<and> final = last (previous # os)"
  using assms
proof (induction rows arbitrary: os previous)
  case (Cons row rows)
  then obtain off os' where os: "os = off # os'" "encoded_offset page row = Inr off"
      "map (encoded_offset page) rows = map Inr os'" by (cases os) auto
  show ?case
    using Cons.IH[OF os(3), of off] by (auto simp: os(1,2) not_less intro: order_trans)
qed auto

lemma parse_loop_no_panic:
  assumes "map (encoded_offset page) rows = map Inr os"
  shows "\<not> panics (parse_loop page rows previous)"
  using assms
proof (induction rows arbitrary: os previous)
  case (Cons row rows)
  then obtain off os' where "encoded_offset page row = Inr off" "map (encoded_offset page) rows = map Inr os'"
    by (cases os) auto
  with Cons.IH[of os'] show ?case by auto
qed simp

lemma all_offsets:
  "length (page_offsets page) = n \<Longrightarrow> map (encoded_offset page) [0..<n] = map Inr (page_offsets page)"
  by (rule nth_equalityI) (auto simp: encoded_offset_eq)

lemma var_row_ok:
  assumes "page_ok page" and "row < bv_row_count page"
  shows "var_row page row = Inr (page_values page ! row)"
proof -
  let ?o = "page_offsets page"
  have len: "length ?o = Suc (bv_row_count page)" and s: "sorted ?o"
    and l: "unat (?o ! bv_row_count page) = length (bv_blob page)"
    using assms(1) last_conv_nth[of ?o] by (force simp: page_ok_def)+
  have "unat (?o ! row) \<le> unat (?o ! Suc row)" "unat (?o ! Suc row) \<le> length (bv_blob page)"
    using sorted_nth_mono[OF s, of row "Suc row"] sorted_nth_mono[OF s, of "Suc row" "bv_row_count page"]
      assms(2) len l by (simp_all add: word_le_nat_alt)
  then show ?thesis
    using assms(2) len by (simp add: var_row_def encoded_offset_eq page_values_def)
qed

lemma var_rows_ok:
  assumes "page_ok page" and "\<forall>row \<in> set rows. row < bv_row_count page"
  shows "var_rows page rows = Inr (map (\<lambda>row. page_values page ! row) rows)"
  using assms(2) by (induction rows) (simp_all add: var_row_ok[OF assms(1)])

lemma length_page_values [simp]: "length (page_values page) = bv_row_count page"
  by (simp add: page_values_def)

lemma materialize_ok:
  assumes "page_ok page"
  shows "materialize page None = Inr (page_values page)"
    and "materialize page (Some rows) =
      (if \<forall>row \<in> set rows. row < bv_row_count page then Inr (map (\<lambda>row. page_values page ! row) rows)
       else Inl (InvalidData ''bytes page selection is out of bounds''))"
proof -
  have "map ((!) (page_values page)) [0..<bv_row_count page] = page_values page"
    by (metis length_page_values map_nth)
  then show "materialize page None = Inr (page_values page)"
    by (simp add: materialize_def var_rows_ok[OF assms])
  show "materialize page (Some rows) =
      (if \<forall>row \<in> set rows. row < bv_row_count page then Inr (map (\<lambda>row. page_values page ! row) rows)
       else Inl (InvalidData ''bytes page selection is out of bounds''))"
    using var_rows_ok[OF assms, of rows]
    by (auto simp: materialize_def list_ex_iff ensure_def not_le)
qed

lemma lengths_differ_ok:
  assumes "page_ok page" and "row + length lens = bv_row_count page"
  shows "lengths_differ page row lens = Inr (map length (drop row (page_values page)) \<noteq> map unat lens)"
  using assms(2)
proof (induction lens arbitrary: row)
  case (Cons len lens)
  then have "row < bv_row_count page" by simp
  moreover from this have "drop row (page_values page) = page_values page ! row # drop (Suc row) (page_values page)"
    by (simp add: Cons_nth_drop_Suc)
  ultimately show ?case using Cons by (simp add: var_row_ok[OF assms(1)])
qed simp

text \<open>The frame of a raw variable-width page: row count, offsets, payload.\<close>

definition var_frame :: "bytes \<Rightarrow> bool \<Rightarrow> borrowed_var_bytes" where
  "var_frame raw narrow =
     (let n = unat (from_le_bytes (take 4 raw) :: u32); w = (if narrow then 4 else 8)
      in \<lparr>bv_offsets = take (Suc n * w) (drop 4 raw), bv_blob = drop (Suc n * w + 4) raw,
          bv_row_count = n, bv_narrow = narrow\<rparr>)"

lemma var_frame_offsets:
  assumes "Suc (bv_row_count (var_frame raw narrow)) * (if narrow then 4 else 8) + 4 \<le> length raw"
  shows "length (page_offsets (var_frame raw narrow)) = Suc (bv_row_count (var_frame raw narrow))"
proof -
  define n where "n = unat (from_le_bytes (take 4 raw) :: u32)"
  define w :: nat where "w = (if narrow then 4 else 8)"
  have len: "length (take (Suc n * w) (drop 4 raw)) = Suc n * w"
    using assms by (simp add: var_frame_def Let_def n_def w_def del: mult_Suc)
  have "length (chunks_exact w (take (Suc n * w) (drop 4 raw))) = Suc n * w div w"
    using chunks_exact_exact(2)[of w "take (Suc n * w) (drop 4 raw)"] len
    by (simp add: w_def del: mult_Suc)
  then show ?thesis
    by (simp add: page_offsets_def var_frame_def Let_def n_def w_def split: if_splits del: mult_Suc)
qed

lemma sorted_le_last: "sorted xs \<Longrightarrow> x \<in> set xs \<Longrightarrow> x \<le> last xs"
  by (induction xs) auto

lemma var_blob_start:
  assumes "m < usize_limit" and "0 < w"
  shows "(case Option.bind (Option.bind (usize_checked_add n 1) (\<lambda>count. usize_checked_mul count w))
            (\<lambda>bytes. usize_checked_add bytes 4) of
          None \<Rightarrow> None | Some blob_end \<Rightarrow> if blob_end \<le> m then Some blob_end else None)
        = (if Suc n * w + 4 \<le> m then Some (Suc n * w + 4) else None)"
proof -
  have "Suc n \<le> Suc n * w" using assms(2) by (cases w) auto
  then have "Suc n < usize_limit" if "Suc n * w + 4 \<le> m" using that assms(1) by linarith
  then show ?thesis
    using assms(1) by (auto simp: usize_checked_add_def usize_checked_mul_def simp del: mult_Suc)
qed

lemma parse_var_bytes_unfold:
  fixes raw narrow
  defines "p \<equiv> var_frame raw narrow" and "w \<equiv> (if narrow then 4 else 8) :: nat"
  assumes "length raw < usize_limit" and "4 \<le> length raw"
    and "case expected of None \<Rightarrow> True | Some e \<Rightarrow> bv_row_count p = e"
    and "Suc (bv_row_count p) * w + 4 \<le> length raw"
  shows "parse_var_bytes raw narrow expected =
    bind_res (parse_loop p [0..<Suc (bv_row_count p)] 0) (\<lambda>previous.
      if previous \<noteq> of_nat (length (bv_blob p))
      then Inl (InvalidData ''bytes page offsets do not cover its exact payload'') else Inr p)"
proof -
  have n: "unat (from_le_bytes (take 4 raw) :: u32) = bv_row_count p"
    by (simp add: p_def var_frame_def Let_def)
  have blob: "drop (Suc (bv_row_count p) * w + 4) raw = bv_blob p"
    by (simp add: p_def var_frame_def Let_def w_def)
  have page: "\<lparr>bv_offsets = take (Suc (bv_row_count p) * w) (drop 4 raw), bv_blob = bv_blob p,
      bv_row_count = bv_row_count p, bv_narrow = narrow\<rparr> = p"
    by (simp add: p_def var_frame_def Let_def w_def)
  have "0 < w" by (simp add: w_def)
  from var_blob_start[OF assms(3) this] show ?thesis
    unfolding parse_var_bytes_def Let_def n w_def[symmetric]
    using assms(4-6) page by (simp add: blob del: mult_Suc upt_Suc cong: if_cong)
qed

lemma parse_var_bytes_fail:
  assumes "length raw < usize_limit"
    and "\<not> (4 \<le> length raw \<and> (case expected of None \<Rightarrow> True | Some e \<Rightarrow> bv_row_count (var_frame raw narrow) = e)
      \<and> Suc (bv_row_count (var_frame raw narrow)) * (if narrow then 4 else 8) + 4 \<le> length raw)"
  shows "\<exists>e. parse_var_bytes raw narrow expected = Inl e \<and> \<not> is_panic e"
proof -
  define w :: nat where "w = (if narrow then 4 else 8)"
  have n: "unat (from_le_bytes (take 4 raw) :: u32) = bv_row_count (var_frame raw narrow)"
    by (simp add: var_frame_def Let_def)
  have "0 < w" by (simp add: w_def)
  from var_blob_start[OF assms(1) this] show ?thesis
    using assms(2) unfolding parse_var_bytes_def Let_def n w_def[symmetric]
    by (cases "4 \<le> length raw"; cases expected; cases "Some (bv_row_count (var_frame raw narrow)) = expected")
       (auto simp del: mult_Suc)
qed

lemma parse_loop_page_ok:
  fixes raw narrow
  defines "p \<equiv> var_frame raw narrow"
  assumes "length raw < usize_limit" and "length (page_offsets p) = Suc (bv_row_count p)"
  shows "parse_loop p [0..<Suc (bv_row_count p)] 0 = Inr (of_nat (length (bv_blob p))) \<longleftrightarrow> page_ok p"
proof -
  obtain o0 os where os: "page_offsets p = o0 # os" using assms(3) by (cases "page_offsets p") auto
  have L: "length (bv_blob p) < 2 ^ 64"
    using assms(2) by (simp add: p_def var_frame_def Let_def usize_limit_def)
  have "[0..<Suc (bv_row_count p)] = 0 # [1..<Suc (bv_row_count p)]"
    by (simp add: upt_conv_Cons del: upt_Suc)
  then have z: "(\<forall>(r, off) \<in> set (zip [0..<Suc (bv_row_count p)] (page_offsets p)). r = 0 \<longrightarrow> off = 0) \<longleftrightarrow> o0 = 0"
    by (auto simp: os simp del: upt_Suc dest: set_zip_leftD)
  have "parse_loop p [0..<Suc (bv_row_count p)] 0 = Inr (of_nat (length (bv_blob p)))
      \<longleftrightarrow> sorted (page_offsets p) \<and> o0 = 0 \<and> last (page_offsets p) = of_nat (length (bv_blob p))
        \<and> (\<forall>off \<in> set (page_offsets p). off \<le> of_nat (length (bv_blob p)))"
    unfolding parse_loop_offsets[OF all_offsets[OF assms(3)]] z by (auto simp: os)
  also have "\<dots> \<longleftrightarrow> sorted (page_offsets p) \<and> o0 = 0 \<and> last (page_offsets p) = of_nat (length (bv_blob p))"
    using sorted_le_last[of "page_offsets p"] by auto
  also have "\<dots> \<longleftrightarrow> page_ok p"
    using assms(3) L by (auto simp: page_ok_def os word_unat_eq_iff unat_of_nat_less)
  finally show ?thesis .
qed

lemma parse_var_bytes_Inr_iff:
  assumes "length raw < usize_limit"
  shows "parse_var_bytes raw narrow expected = Inr page \<longleftrightarrow>
    4 \<le> length raw \<and> (case expected of None \<Rightarrow> True | Some e \<Rightarrow> bv_row_count (var_frame raw narrow) = e)
    \<and> Suc (bv_row_count (var_frame raw narrow)) * (if narrow then 4 else 8) + 4 \<le> length raw
    \<and> page = var_frame raw narrow \<and> page_ok page" (is "_ \<longleftrightarrow> ?r")
proof (cases "4 \<le> length raw \<and> (case expected of None \<Rightarrow> True | Some e \<Rightarrow> bv_row_count (var_frame raw narrow) = e)
      \<and> Suc (bv_row_count (var_frame raw narrow)) * (if narrow then 4 else 8) + 4 \<le> length raw")
  case True
  then have u: "parse_var_bytes raw narrow expected =
    bind_res (parse_loop (var_frame raw narrow) [0..<Suc (bv_row_count (var_frame raw narrow))] 0) (\<lambda>previous.
      if previous \<noteq> of_nat (length (bv_blob (var_frame raw narrow)))
      then Inl (InvalidData ''bytes page offsets do not cover its exact payload'')
      else Inr (var_frame raw narrow))"
    using assms by (intro parse_var_bytes_unfold) blast+
  have "length (page_offsets (var_frame raw narrow)) = Suc (bv_row_count (var_frame raw narrow))"
    using True by (intro var_frame_offsets) blast
  from parse_loop_page_ok[OF assms this] True show ?thesis
    unfolding u by (auto simp: bind_res_Inr_iff simp del: upt_Suc mult_Suc split: if_splits)
next
  case False
  then show ?thesis using parse_var_bytes_fail[OF assms, of narrow expected] by force
qed

lemma parse_var_bytes_no_panic:
  assumes "length raw < usize_limit"
  shows "\<not> panics (parse_var_bytes raw narrow expected)"
proof (cases "4 \<le> length raw \<and> (case expected of None \<Rightarrow> True | Some e \<Rightarrow> bv_row_count (var_frame raw narrow) = e)
      \<and> Suc (bv_row_count (var_frame raw narrow)) * (if narrow then 4 else 8) + 4 \<le> length raw")
  case True
  then have "length (page_offsets (var_frame raw narrow)) = Suc (bv_row_count (var_frame raw narrow))"
    by (intro var_frame_offsets) blast
  with True show ?thesis
    using parse_loop_no_panic[OF all_offsets]
    by (subst parse_var_bytes_unfold[OF assms]) (auto simp: panics_bind simp del: upt_Suc)
next
  case False
  then show ?thesis using parse_var_bytes_fail[OF assms, of narrow expected] by force
qed

subsection \<open>What the encoder writes\<close>

definition prefix_len :: "bytes list \<Rightarrow> nat \<Rightarrow> nat" where
  "prefix_len vs i = length (concat (take i vs))"

lemma prefix_len_mono: "i \<le> j \<Longrightarrow> prefix_len vs i \<le> prefix_len vs j"
proof (induction vs arbitrary: i j)
  case (Cons v vs)
  then show ?case by (cases i; cases j) (auto simp: prefix_len_def)
qed (simp add: prefix_len_def)

lemma prefix_len_row:
  "i < length vs \<Longrightarrow>
     take (prefix_len vs (Suc i) - prefix_len vs i) (drop (prefix_len vs i) (concat vs)) = vs ! i"
proof (induction vs arbitrary: i)
  case (Cons v vs)
  then show ?case by (cases i) (auto simp: prefix_len_def)
qed simp

lemma offsets_loop_eq:
  "of_nat a # offsets_loop (of_nat a) vs = map (\<lambda>i. of_nat (a + prefix_len vs i)) [0..<Suc (length vs)]"
proof (induction vs arbitrary: a)
  case (Cons v vs)
  have "map (\<lambda>i. of_nat (a + prefix_len (v # vs) i)) [0..<Suc (Suc (length vs))] =
      of_nat a # map (\<lambda>i. of_nat (a + length v + prefix_len vs i) :: 'a word) [0..<Suc (length vs)]"
    by (simp only: upt_conv_Cons[of 0] zero_less_Suc list.map map_Suc_upt[symmetric] map_map)
       (simp add: prefix_len_def comp_def algebra_simps)
  then show ?case
    using Cons[of "a + length v"] by (simp add: Let_def algebra_simps del: upt_Suc)
qed (simp add: prefix_len_def)

lemma page_values_intro:
  assumes "bv_row_count p = length vs" and "bv_blob p = concat vs" and "length (concat vs) < 2 ^ 64"
    and "page_offsets p = map (\<lambda>i. of_nat (prefix_len vs i)) [0..<Suc (length vs)]"
  shows "page_ok p" and "page_values p = vs"
proof -
  have "prefix_len vs i < 2 ^ 64" if "i \<le> length vs" for i
    using prefix_len_mono[OF that, of vs] assms(3) by (simp add: prefix_len_def)
  then have u: "unat (page_offsets p ! i) = prefix_len vs i" if "i \<le> length vs" for i
    using that by (simp add: assms(4) unat_of_nat_less del: upt_Suc)
  have "sorted (page_offsets p)"
    unfolding sorted_iff_nth_mono
    using u prefix_len_mono by (auto simp: word_le_nat_alt assms(4) simp del: upt_Suc)
  moreover have "page_offsets p ! 0 = 0" using u[of 0] by (simp add: prefix_len_def unat_eq_0)
  moreover have "unat (last (page_offsets p)) = length (concat vs)"
    using u[of "length vs"] last_conv_nth[of "page_offsets p"] by (simp add: assms(4) prefix_len_def)
  ultimately show "page_ok p" by (simp add: page_ok_def assms(1,2)) (simp add: assms(4))
  show "page_values p = vs"
    by (rule nth_equalityI)
       (simp_all add: page_values_def assms(1) u Suc_leI assms(2) prefix_len_row)
qed

lemma var_frame_encoded:
  assumes "n < 2 ^ 32" and "length ob = Suc n * (if narrow then 4 else 8)"
  shows "var_frame (to_le_bytes (of_nat n :: u32) @ ob @ blob) narrow =
    \<lparr>bv_offsets = ob, bv_blob = blob, bv_row_count = n, bv_narrow = narrow\<rparr>"
proof -
  have "unat (from_le_bytes (take 4 (to_le_bytes (of_nat n :: u32) @ ob @ blob)) :: u32) = n"
    using assms(1) by (simp add: unat_of_nat_less)
  then show ?thesis using assms(2) by (simp add: var_frame_def Let_def del: mult_Suc)
qed

lemma offsets_zero: "0 # offsets_loop 0 vs = map (\<lambda>i. of_nat (prefix_len vs i)) [0..<Suc (length vs)]"
  using offsets_loop_eq[of 0 vs] by simp

lemma length_offsets_loop [simp]: "length (offsets_loop off vs) = length vs"
  by (induction vs arbitrary: off) (auto simp: Let_def)

lemma encoded_frame_u64:
  assumes "length vs < 2 ^ 32" and "length (concat vs) < 2 ^ 64"
  shows "page_ok (var_frame (encode_var_bytes_raw_u64 vs) False)"
    and "page_values (var_frame (encode_var_bytes_raw_u64 vs) False) = vs"
    and "bv_row_count (var_frame (encode_var_bytes_raw_u64 vs) False) = length vs"
proof -
  let ?os = "0 # offsets_loop (0 :: u64) vs"
  let ?p = "\<lparr>bv_offsets = concat (map to_le_bytes ?os), bv_blob = concat vs, bv_row_count = length vs,
    bv_narrow = False\<rparr>"
  have "var_frame (encode_var_bytes_raw_u64 vs) False = ?p"
    using var_frame_encoded[OF assms(1), of "concat (map to_le_bytes ?os)" False "concat vs"]
    by (simp add: encode_var_bytes_raw_u64_def)
  moreover have "page_offsets ?p = map (\<lambda>i. of_nat (prefix_len vs i)) [0..<Suc (length vs)]"
    using chunks_exact_concat[of "map to_le_bytes ?os" 8]
    by (simp only: offsets_zero[symmetric]) (simp add: page_offsets_def map_idI)
  from page_values_intro[OF _ _ assms(2) this] have "page_ok ?p \<and> page_values ?p = vs" by simp
  ultimately show "page_ok (var_frame (encode_var_bytes_raw_u64 vs) False)"
    "page_values (var_frame (encode_var_bytes_raw_u64 vs) False) = vs"
    "bv_row_count (var_frame (encode_var_bytes_raw_u64 vs) False) = length vs" by simp_all
qed

lemma encoded_frame_u32:
  assumes "length vs < 2 ^ 32" and "length (concat vs) < 2 ^ 32"
  shows "page_ok (var_frame (encode_var_bytes_raw_u32 vs) True)"
    and "page_values (var_frame (encode_var_bytes_raw_u32 vs) True) = vs"
    and "bv_row_count (var_frame (encode_var_bytes_raw_u32 vs) True) = length vs"
proof -
  let ?os = "0 # offsets_loop (0 :: u32) vs"
  let ?p = "\<lparr>bv_offsets = concat (map to_le_bytes ?os), bv_blob = concat vs, bv_row_count = length vs,
    bv_narrow = True\<rparr>"
  have "var_frame (encode_var_bytes_raw_u32 vs) True = ?p"
    using var_frame_encoded[OF assms(1), of "concat (map to_le_bytes ?os)" True "concat vs"]
    by (simp add: encode_var_bytes_raw_u32_def)
  moreover have "page_offsets ?p = map (\<lambda>i. of_nat (prefix_len vs i)) [0..<Suc (length vs)]"
  proof -
    have "ucast (of_nat (prefix_len vs i) :: u32) = (of_nat (prefix_len vs i) :: u64)" if "i \<le> length vs" for i
      using prefix_len_mono[OF that, of vs] assms(2)
      by (simp add: word_unat_eq_iff unat_ucast_up unat_of_nat_less prefix_len_def)
    then have "map ucast ?os = map (\<lambda>i. of_nat (prefix_len vs i) :: u64) [0..<Suc (length vs)]"
      by (simp only: offsets_zero map_map) (simp del: upt_Suc)
    moreover have "page_offsets ?p = map ucast ?os"
      using chunks_exact_concat[of "map to_le_bytes ?os" 4] by (simp add: page_offsets_def)
    ultimately show ?thesis by simp
  qed
  from page_values_intro[OF _ _ _ this] assms(2) have "page_ok ?p \<and> page_values ?p = vs" by simp
  ultimately show "page_ok (var_frame (encode_var_bytes_raw_u32 vs) True)"
    "page_values (var_frame (encode_var_bytes_raw_u32 vs) True) = vs"
    "bv_row_count (var_frame (encode_var_bytes_raw_u32 vs) True) = length vs" by simp_all
qed

subsection \<open>Loading a page\<close>

lemma data_bytes_loop_Some_iff:
  assumes "acc < usize_limit"
  shows "data_bytes_loop acc lens = Some n \<longleftrightarrow> n = acc + sum_list (map unat lens) \<and> n < usize_limit"
  using assms
proof (induction lens arbitrary: acc)
  case (Cons len lens)
  then show ?case by (auto simp: usize_checked_add_def)
qed auto

lemma raw_len_Inr_iff:
  assumes "0 < w"
  shows "raw_len lens db w = Inr n \<longleftrightarrow> n = Suc (length lens) * w + 4 + db \<and> n < usize_limit"
proof -
  have "Suc (length lens) \<le> Suc (length lens) * w" using assms by (cases w) auto
  then have "Suc (length lens) < usize_limit" if "Suc (length lens) * w + 4 + db < usize_limit"
    using that by linarith
  then show ?thesis
    by (auto simp: raw_len_def Option.bind_eq_Some_conv usize_checked_add_Some_iff usize_checked_mul_Some_iff
        simp del: mult_Suc)
qed

lemma raw_len_no_panic: "\<not> panics (raw_len lens db w)"
  by (simp add: raw_len_def)

lemma var_raw_no_panic:
  assumes "zstd_laws cx" and "lz4_laws cx"
  shows "\<not> panics (var_raw cx encoded codec lens db)"
  using zstd_bounded_no_panic[OF assms(1)] lz4_bounded_no_panic[OF assms(2)] raw_len_no_panic
  by (cases codec) (auto simp: var_raw_def panics_bind split: list.splits)

lemma var_check_no_panic: "\<not> panics (var_check raw narrow lens db)"
proof -
  have "\<not> panics (lengths_differ page 0 lens)"
    if "parse_var_bytes raw narrow (Some (length lens)) = Inr page" "length raw < usize_limit" for page
  proof -
    have "page_ok page" "bv_row_count page = length lens"
      using that parse_var_bytes_Inr_iff[OF that(2), of narrow "Some (length lens)" page] by auto
    then show ?thesis by (simp add: lengths_differ_ok)
  qed
  then show ?thesis
    using parse_var_bytes_no_panic[of raw] raw_len_no_panic
    by (auto simp: var_check_def panics_bind raw_len_Inr_iff simp del: mult_Suc)
qed

lemma load_var_page_no_panic:
  "zstd_laws cx \<Longrightarrow> lz4_laws cx \<Longrightarrow> \<not> panics (load_var_page cx encoded codec lens)"
  using var_raw_no_panic var_check_no_panic by (auto simp: load_var_page_def panics_bind)

lemma var_check_Inr_iff:
  "var_check raw narrow lens db = Inr page \<longleftrightarrow>
     length raw = Suc (length lens) * (if narrow then 4 else 8) + 4 + db \<and> length raw < usize_limit
     \<and> page = var_frame raw narrow \<and> bv_row_count page = length lens \<and> page_ok page
     \<and> map length (page_values page) = map unat lens" (is "?l \<longleftrightarrow> ?r")
proof
  assume ?l
  then obtain differ where *: "length raw = Suc (length lens) * (if narrow then 4 else 8) + 4 + db"
      "length raw < usize_limit" "parse_var_bytes raw narrow (Some (length lens)) = Inr page"
      "lengths_differ page 0 lens = Inr differ" "\<not> differ"
    by (auto simp: var_check_def bind_res_Inr_iff raw_len_Inr_iff simp del: mult_Suc)
  moreover from this have "page = var_frame raw narrow" "bv_row_count page = length lens" "page_ok page"
    using parse_var_bytes_Inr_iff[of raw narrow "Some (length lens)" page] by auto
  ultimately show ?r using lengths_differ_ok[of page 0 lens] by simp
next
  assume r: ?r
  then have "parse_var_bytes raw narrow (Some (length lens)) = Inr page"
    using parse_var_bytes_Inr_iff[of raw narrow "Some (length lens)" page] by auto
  moreover from r have "page_ok page" "bv_row_count page = length lens"
      "map length (page_values page) = map unat lens" by blast+
  then have "lengths_differ page 0 lens = Inr False"
    using lengths_differ_ok[of page 0 lens] by simp
  ultimately show ?l
    using r by (auto simp: var_check_def bind_res_Inr_iff raw_len_Inr_iff simp del: mult_Suc)
qed

lemma load_var_page_ok:
  assumes "load_var_page cx encoded codec lens = Inr page"
  shows "page_ok page" and "bv_row_count page = length lens"
    and "map length (page_values page) = map unat lens"
  using assms by (auto simp: load_var_page_def bind_res_Inr_iff var_check_Inr_iff)

lemma sum_list_lengths:
  assumes "\<forall>v \<in> set vs. length v < 2 ^ 32"
  shows "sum_list (map unat (map (\<lambda>v. of_nat (length v) :: u32) vs)) = length (concat vs)"
    and "map unat (map (\<lambda>v. of_nat (length v) :: u32) vs) = map length vs"
  using assms by (induction vs) (simp_all add: unat_of_nat_less)

lemma concat_length_bound:
  "length vs \<le> MAX_PAGE_ROWS \<Longrightarrow> \<forall>v \<in> set vs. length v < 2 ^ 32 \<Longrightarrow> length (concat vs) \<le> 16384 * 2 ^ 32"
proof -
  assume *: "length vs \<le> MAX_PAGE_ROWS" "\<forall>v \<in> set vs. length v < 2 ^ 32"
  have "sum_list (map length vs) \<le> length vs * 2 ^ 32"
    using *(2) by (induction vs) auto
  also have "\<dots> \<le> 16384 * 2 ^ 32" using *(1) by (intro mult_le_mono1) (simp add: MAX_PAGE_ROWS_def)
  finally show ?thesis by (simp add: length_concat)
qed

lemma total_len_loop_eq:
  assumes "unat acc + length (concat vs) < 2 ^ 64"
  shows "\<exists>t. total_len_loop acc vs = Some t \<and> unat t = unat acc + length (concat vs)"
  using assms
proof (induction vs arbitrary: acc)
  case (Cons v vs)
  have v: "unat (of_nat (length v) :: u64) = length v" using Cons.prems by (simp add: unat_of_nat_less)
  with Cons.prems obtain a where a: "checked_add acc (of_nat (length v)) = Some a" "unat a = unat acc + length v"
    by (auto simp: checked_add_def unat_word_ariths)
  with Cons.IH[of a] Cons.prems show ?case by (auto simp: add.assoc)
qed simp

lemma length_var_raw:
  "length (encode_var_bytes_raw_u64 vs) = Suc (length vs) * 8 + 4 + length (concat vs)"
  "length (encode_var_bytes_raw_u32 vs) = Suc (length vs) * 4 + 4 + length (concat vs)"
  by (simp_all add: encode_var_bytes_raw_u64_def encode_var_bytes_raw_u32_def)

lemma var_page_roundtrip_helper:
  fixes vs :: "bytes list"
  defines "lens \<equiv> map (\<lambda>v. of_nat (length v)) vs"
  assumes "zstd_laws cx" and "lz4_laws cx" and "length vs \<le> MAX_PAGE_ROWS" and "\<forall>v \<in> set vs. length v < 2 ^ 32"
    and "codec = CC_Lz4 \<longrightarrow> length (encode_var_bytes_raw_u64 vs) < 2 ^ 32"
    and "encode_var_bytes_page cx vs codec = Inr enc"
  shows "\<exists>page. load_var_page cx enc codec lens = Inr page \<and> page_values page = vs"
proof -
  let ?wide = "encode_var_bytes_raw_u64 vs" and ?thin = "encode_var_bytes_raw_u32 vs"
  let ?db = "length (concat vs)"
  have bound: "?db \<le> 16384 * 2 ^ 32" by (rule concat_length_bound[OF assms(4,5)])
  have n: "length vs \<le> 16384" using assms(4) by (simp add: MAX_PAGE_ROWS_def)
  have lens: "length lens = length vs" "map unat lens = map length vs" "sum_list (map unat lens) = ?db"
    using sum_list_lengths[OF assms(5)] by (simp_all add: lens_def)
  have db: "data_bytes_loop 0 lens = Some ?db"
    using bound lens by (simp add: data_bytes_loop_Some_iff usize_limit_def)
  have rl: "raw_len lens ?db 8 = Inr (length ?wide)" "raw_len lens ?db 4 = Inr (length ?thin)"
    "length ?wide < usize_limit" "length ?thin < usize_limit"
    using bound n by (simp_all add: raw_len_Inr_iff lens length_var_raw usize_limit_def)
  have z: "zstd_decompress_bounded cx z (length d) = Inr d" if "zstd_encode_all cx d 1 = Inr z" for d z
    using zstd_bounded_roundtrip[OF assms(2) that] by simp
  have wide: "var_check ?wide False lens ?db = Inr (var_frame ?wide False)"
    using encoded_frame_u64[of vs] bound n rl(3) lens by (simp add: var_check_Inr_iff length_var_raw)
  have thin: "var_check ?thin True lens ?db = Inr (var_frame ?thin True)" if "?db < 2 ^ 32"
    using encoded_frame_u32[of vs] that n rl(4) lens by (simp add: var_check_Inr_iff length_var_raw)
  obtain t where t: "total_len_loop 0 vs = Some t" "unat t = ?db"
    using total_len_loop_eq[of 0 vs] bound by auto
  have "\<exists>narrow. var_raw cx enc codec lens ?db = Inr (if narrow then ?thin else ?wide, narrow)
      \<and> (narrow \<longrightarrow> ?db < 2 ^ 32)"
  proof (cases codec)
    case CC_None
    with assms(7) rl have "var_raw cx enc codec lens ?db = Inr (?wide, False)"
      by (simp add: var_raw_def encode_var_bytes_page_def)
    then show ?thesis by (intro exI[of _ False]) simp
  next
    case CC_Zstd
    with assms(7) rl z have "var_raw cx enc codec lens ?db = Inr (?wide, False)"
      by (simp add: var_raw_def encode_var_bytes_page_def zstd_compress_def)
    then show ?thesis by (intro exI[of _ False]) simp
  next
    case CC_Lz4
    with assms(6,7) rl have "var_raw cx enc codec lens ?db = Inr (?wide, False)"
      using lz4_bounded_roundtrip[OF assms(3), of ?wide]
      by (auto simp: var_raw_def encode_var_bytes_page_def)
    then show ?thesis by (intro exI[of _ False]) simp
  next
    case CC_AdaptiveBytes
    show ?thesis
    proof (cases "0xFFFFFFFF < t")
      case True
      with CC_AdaptiveBytes assms(7) rl z t(1) have "var_raw cx enc codec lens ?db = Inr (?wide, False)"
        by (auto simp: var_raw_def encode_var_bytes_page_def encode_adaptive_var_bytes_page_def
            zstd_compress_level_def ZSTD_STORAGE_LEVEL_def bind_res_Inr_iff)
      then show ?thesis by (intro exI[of _ False]) simp
    next
      case False
      then have "?db < 2 ^ 32" using t(2) by (simp add: word_less_nat_alt)
      moreover from False CC_AdaptiveBytes assms(7) rl z t(1)
      have "var_raw cx enc codec lens ?db = Inr (?thin, True)"
        by (auto simp: var_raw_def encode_var_bytes_page_def encode_adaptive_var_bytes_page_def
            zstd_compress_level_def ZSTD_STORAGE_LEVEL_def bind_res_Inr_iff)
      ultimately show ?thesis by (intro exI[of _ True]) simp
    qed
  qed (use assms(7) in \<open>simp_all add: encode_var_bytes_page_def\<close>)
  then obtain narrow where raw: "var_raw cx enc codec lens ?db = Inr (if narrow then ?thin else ?wide, narrow)"
    and "narrow \<longrightarrow> ?db < 2 ^ 32" by blast
  then have "load_var_page cx enc codec lens =
      Inr (if narrow then var_frame ?thin True else var_frame ?wide False)"
    using db wide thin by (simp add: load_var_page_def)
  then show ?thesis
    using encoded_frame_u64(2)[of vs] encoded_frame_u32(2)[of vs] bound n \<open>narrow \<longrightarrow> _\<close> by (cases narrow) auto
qed

section \<open>Properties\<close>

text \<open>
  C16. Whatever \<^verbatim>\<open>encode_u64_page\<close> writes for at most \<^verbatim>\<open>MAX_PAGE_ROWS\<close> values
  under any codec, \<^verbatim>\<open>decode_u64_page\<close> reads back with the same row count.
\<close>

theorem u64_page_roundtrip:
  assumes "zstd_laws cx" and "lz4_laws cx" and "length vs \<le> MAX_PAGE_ROWS"
    and "encode_u64_page cx vs codec = Inr data"
  shows "decode_u64_page cx data (length vs) codec = Inr vs"
  by (rule u64_page_roundtrip_helper[OF assms])

text \<open>A stored (uncompressed) instance of the two libraries satisfies the laws.\<close>

definition stored :: compressors where
  "stored = \<lparr>zstd_encode_all = (\<lambda>d level. Inr d),
     zstd_decompress_to_buffer = (\<lambda>z cap. if length z \<le> cap then Inr z else Inl (OtherError ''small'')),
     zstd_upper_bound = (\<lambda>z. Some (length z)),
     lz4_compress_prepend_size = (\<lambda>d. to_le_bytes (of_nat (length d) :: u32) @ d),
     lz4_decompress_into = (\<lambda>z n. if length z \<le> n then Inr z else Inl (OtherError ''small''))\<rparr>"

lemma stored_laws: "zstd_laws stored" "lz4_laws stored"
  by (auto simp: zstd_laws_def lz4_laws_def stored_def)

lemma stored_u64: "encode_u64_page stored [5, 9, 8] CC_DeltaOfDelta = Inr (delta_of_delta_encode [5, 9, 8])"
  by (simp add: encode_u64_page_def)

theorem u64_page_roundtrip_witness:
  "decode_u64_page stored (delta_of_delta_encode [5, 9, 8]) (length [5, 9, 8 :: u64]) CC_DeltaOfDelta = Inr [5, 9, 8]"
  by (rule u64_page_roundtrip[OF stored_laws _ stored_u64]) (simp add: MAX_PAGE_ROWS_def)

text \<open>
  C17. Fixed-width pages (addresses, topics, hashes) survive every codec they may
  be written with: plain, dictionary, zstd, LZ4 and the adaptive format with all
  four of its representations, the zero-prefixed 32-byte one included.
\<close>

theorem fixed_page_roundtrip:
  assumes "zstd_laws cx" and "lz4_laws cx" and "length raw < 2 ^ 32" and "item_size < 2 ^ 32"
    and "encode_fixed_width_page cx raw item_size codec = Inr enc"
  shows "decode_fixed_width_page cx enc (length raw div item_size) item_size codec = Inr raw"
  by (rule fixed_page_roundtrip_helper[OF assms])

lemma stored_fixed:
  "encode_fixed_width_page stored (replicate 64 7) 32 CC_Dictionary = Inr (dict_encode (chunks_exact 32 (replicate 64 7)) 32)"
  by (simp add: encode_fixed_width_page_def dict_encode_raw_eq)

theorem fixed_page_roundtrip_witness:
  "decode_fixed_width_page stored (dict_encode (chunks_exact 32 (replicate 64 7)) 32)
     (length (replicate 64 (7 :: u8)) div 32) 32 CC_Dictionary = Inr (replicate 64 7)"
  by (rule fixed_page_roundtrip[OF stored_laws _ _ stored_fixed]) simp_all

text \<open>
  C22. The adaptive encoder never expands a page by more than its one-byte tag:
  its payload is at most as long as the raw values.
\<close>

theorem adaptive_page_no_expansion:
  assumes "length raw * 4 < usize_limit"
    and "encode_adaptive_fixed_width_page cx raw item_size = Inr enc"
  shows "length enc \<le> length raw + 1"
  using encode_adaptive_choice[OF assms(2)] assms(1) by (metis Suc_eq_plus1 Suc_le_mono length_Cons)

lemma stored_adaptive: "\<exists>enc. encode_adaptive_fixed_width_page stored [3, 4] 2 = Inr enc"
proof -
  obtain d where d: "dict_encode_raw [3, 4] 2 = Inr d" using dict_encode_raw_eq[of 2 "[3, 4]"] by simp
  have "(0 :: nat) < length (sort_key (\<lambda>(_, data). length data) [(0 :: u8, [3, 4]), (1, d), (2, [3, 4])])" by simp
  then show ?thesis
    by (simp add: encode_adaptive_fixed_width_page_def d zstd_compress_level_def stored_def low20_tails_def
        Let_def index_ok split: prod.splits del: sort_key_simps cong: if_cong)
qed

theorem adaptive_page_no_expansion_witness:
  "\<exists>enc. encode_adaptive_fixed_width_page stored [3, 4] 2 = Inr enc \<and> length enc \<le> length [3, 4 :: u8] + 1"
  using stored_adaptive adaptive_page_no_expansion[of "[3, 4]" stored 2] by (auto simp: usize_limit_def)

text \<open>
  C18. Variable-width pages (log data) survive every codec they may be written
  with, the adaptive format with narrow or wide offsets included: decoding
  against the companion lengths gives the values back.
\<close>

theorem var_page_roundtrip:
  assumes "zstd_laws cx" and "lz4_laws cx" and "length vs \<le> MAX_PAGE_ROWS" and "\<forall>v \<in> set vs. length v < 2 ^ 32"
    and "codec = CC_Lz4 \<longrightarrow> length (encode_var_bytes_raw_u64 vs) < 2 ^ 32"
    and "encode_var_bytes_page cx vs codec = Inr enc"
  shows "decode_var_bytes_page_bounded cx enc codec (map (\<lambda>v. of_nat (length v)) vs) = Inr vs"
  using var_page_roundtrip_helper[OF assms] load_var_page_ok(1)
  by (auto simp: decode_var_bytes_page_bounded_def decode_var_bytes_page_selected_def materialize_ok)

lemma stored_var:
  "encode_var_bytes_page stored [[1, 2], [], [3]] CC_None = Inr (encode_var_bytes_raw_u64 [[1, 2], [], [3]])"
  by (simp add: encode_var_bytes_page_def)

theorem var_page_roundtrip_witness:
  "decode_var_bytes_page_bounded stored (encode_var_bytes_raw_u64 [[1, 2], [], [3]]) CC_None
     (map (\<lambda>v. of_nat (length v)) [[1, 2], [], [3 :: u8]]) = Inr [[1, 2], [], [3]]"
  by (rule var_page_roundtrip[OF stored_laws _ _ _ stored_var]) (simp_all add: MAX_PAGE_ROWS_def)

text \<open>
  C19. Decoding a selection of rows of a variable-width page is decoding the whole
  page and picking the rows: every offset and every companion length is checked
  also when only some rows are asked for, and a row out of range is an error.
\<close>

theorem var_page_selection:
  "decode_var_bytes_page_selected cx enc codec lens (Some rows) =
     bind_res (decode_var_bytes_page_bounded cx enc codec lens) (\<lambda>vs.
       if list_all (\<lambda>row. row < length vs) rows then Inr (map (\<lambda>row. vs ! row) rows)
       else Inl (InvalidData ''bytes page selection is out of bounds''))"
proof (cases "load_var_page cx enc codec lens")
  case (Inr page)
  note ok = load_var_page_ok[OF Inr]
  show ?thesis
    by (simp add: decode_var_bytes_page_selected_def decode_var_bytes_page_bounded_def Inr materialize_ok[OF ok(1)]
        list_all_iff)
qed (simp add: decode_var_bytes_page_selected_def decode_var_bytes_page_bounded_def)

text \<open>
  C21. The page index is a bijection: \<^verbatim>\<open>read_page_index\<close> accepts a byte string
  exactly when it is what \<^verbatim>\<open>write_page_index\<close> writes for the entries it returns,
  so no two byte strings decode to the same entries.
\<close>

theorem page_index_bijection:
  "read_page_index data = Inr entries \<longleftrightarrow> data = write_page_index entries \<and> length entries < 2 ^ 32"
proof
  assume r: "read_page_index data = Inr entries"
  let ?n = "from_le_bytes (take 4 (drop 8 data)) :: u32"
  have "length data = 12 + 24 * unat ?n" "read_page_index_loop data (unat ?n) 12 = Inr entries"
    using r unfolding read_page_index_Inr_iff by blast+
  then have "length entries = unat ?n" using written_entries_read by blast
  then show "data = write_page_index entries \<and> length entries < 2 ^ 32"
    using write_read_page_index[OF r] unsigned_less[of ?n, where ?'a = nat] by simp
qed (simp add: read_write_page_index)

text \<open>
  C20. No page decoder panics, whatever the bytes, row counts, lengths and
  selections, as long as the compression libraries do not: every slice and index
  of the source is in range.
\<close>

theorem page_decoders_no_panic:
  assumes "zstd_laws cx" and "lz4_laws cx"
  shows "\<not> panics (decode_u64_page cx data n codec) \<and> \<not> panics (decode_u32_page cx data n codec)
    \<and> \<not> panics (decode_u8_page cx data n codec) \<and> \<not> panics (decode_fixed_width_page cx data n sz codec)
    \<and> \<not> panics (decode_var_bytes_page_selected cx data codec lens selection) \<and> \<not> panics (read_page_index data)"
proof (intro conjI)
  show "\<not> panics (decode_u64_page cx data n codec)" by (rule decode_u64_page_no_panic[OF assms])
  show "\<not> panics (decode_u32_page cx data n codec)"
    using bounded_no_panic assms
    by (cases codec) (auto simp: decode_u32_page_def decode_plain_u32_page_def panics_bind)
  show "\<not> panics (decode_u8_page cx data n codec)"
    using bounded_no_panic assms dict_decode_no_panic
    by (cases codec) (auto simp: decode_u8_page_def decode_plain_fixed_width_page_def panics_bind)
  show "\<not> panics (decode_fixed_width_page cx data n sz codec)"
    by (rule decode_fixed_width_page_no_panic[OF assms])
  have "\<not> panics (materialize page selection)" if "load_var_page cx data codec lens = Inr page" for page
    using materialize_ok[OF load_var_page_ok(1)[OF that]] by (cases selection) simp_all
  then show "\<not> panics (decode_var_bytes_page_selected cx data codec lens selection)"
    using load_var_page_no_panic[OF assms] by (auto simp: decode_var_bytes_page_selected_def panics_bind)
  show "\<not> panics (read_page_index data)" by (rule read_page_index_no_panic)
qed

theorem page_decoders_no_panic_witness:
  "\<not> panics (decode_var_bytes_page_selected stored [1, 0, 0] CC_AdaptiveBytes [7] (Some [9]))"
  using page_decoders_no_panic[OF stored_laws, of "[1, 0, 0]" 0 CC_AdaptiveBytes 0 "[7]" "Some [9]"] by blast

end
