(* ===== verification/Log_Types.thy ===== *)
theory Log_Types
  imports Prelude
begin

text \<open>
  The stored log row of \<^verbatim>\<open>src/crates/logex-types/src/log_row.rs\<close>, its conversion
  from a primitive log, and the row bounds of
  \<^verbatim>\<open>src/crates/logex-storage/src/row_bounds.rs\<close>.
\<close>

section \<open>Rows\<close>

datatype source = Receipt | Trace

definition source_from_u8 :: "u8 \<Rightarrow> source option" where
  "source_from_u8 v = (if v = 0 then Some Receipt else if v = 1 then Some Trace else None)"

definition source_as_u8 :: "source \<Rightarrow> u8" where
  "source_as_u8 s = (case s of Receipt \<Rightarrow> 0 | Trace \<Rightarrow> 1)"

record log_row =
  lr_block_number :: u64
  lr_block_hash :: b256
  lr_timestamp :: u64
  lr_tx_hash :: b256
  lr_tx_index :: u32
  lr_log_index :: u32
  lr_address :: address
  lr_topic0 :: "b256 option"
  lr_topic1 :: "b256 option"
  lr_topic2 :: "b256 option"
  lr_topic3 :: "b256 option"
  lr_data :: bytes
  lr_data_len :: u32
  lr_source :: source

record block_context =
  bc_block_number :: u64
  bc_block_hash :: b256
  bc_timestamp :: u64

text \<open>\<^verbatim>\<open>alloy_primitives::Log\<close>: an address, a list of topics and the data.\<close>

record primitive_log =
  pl_address :: address
  pl_topics :: "b256 list"
  pl_data :: bytes

datatype conversion_error = TooManyTopics usize | DataTooLong usize

definition checked_log_shape :: "usize \<Rightarrow> usize \<Rightarrow> conversion_error + u32" where
  "checked_log_shape topic_count data_length =
     (if 4 < topic_count then Inl (TooManyTopics topic_count)
      else ok_or (try_u32 data_length) (DataTooLong data_length))"

definition try_from_primitives_log ::
  "primitive_log \<Rightarrow> block_context \<Rightarrow> b256 \<Rightarrow> u32 \<Rightarrow> u32 \<Rightarrow> conversion_error + log_row" where
  "try_from_primitives_log log ctx tx_hash tx_index log_index =
     (let topics = pl_topics log
      in bind_res (checked_log_shape (length topics) (length (pl_data log))) (\<lambda>data_len.
         Inr \<lparr>lr_block_number = bc_block_number ctx, lr_block_hash = bc_block_hash ctx,
              lr_timestamp = bc_timestamp ctx, lr_tx_hash = tx_hash, lr_tx_index = tx_index,
              lr_log_index = log_index, lr_address = pl_address log,
              lr_topic0 = get topics 0, lr_topic1 = get topics 1, lr_topic2 = get topics 2,
              lr_topic3 = get topics 3, lr_data = pl_data log, lr_data_len = data_len,
              lr_source = Receipt\<rparr>))"

text \<open>The primitive log of a row: the inverse of the conversion.\<close>

definition row_topics :: "log_row \<Rightarrow> b256 option list" where
  "row_topics row = [lr_topic0 row, lr_topic1 row, lr_topic2 row, lr_topic3 row]"

definition row_log :: "log_row \<Rightarrow> primitive_log" where
  "row_log row =
     \<lparr>pl_address = lr_address row,
      pl_topics = map the (takeWhile (\<lambda>t. t \<noteq> None) (row_topics row)), pl_data = lr_data row\<rparr>"

lemma source_roundtrip [simp]: "source_from_u8 (source_as_u8 s) = Some s"
  by (cases s) (simp_all add: source_from_u8_def source_as_u8_def)

lemma source_as_u8_inject [simp]: "source_as_u8 s = source_as_u8 t \<longleftrightarrow> s = t"
  by (metis option.inject source_roundtrip)

lemma topics_takeWhile:
  assumes "length ts \<le> 4"
  shows "map the (takeWhile (\<lambda>t. t \<noteq> None) [get ts 0, get ts 1, get ts 2, get ts 3]) = ts"
proof -
  consider "ts = []" | a where "ts = [a]" | a b where "ts = [a, b]" | a b c where "ts = [a, b, c]"
    | a b c d where "ts = [a, b, c, d]"
  proof -
    from assms have "length ts = 0 \<or> length ts = 1 \<or> length ts = 2 \<or> length ts = 3 \<or> length ts = 4" by linarith
    then show thesis by (auto simp: length_Suc_conv numeral_eq_Suc that)
  qed
  then show ?thesis by cases (simp_all add: get_def)
qed

text \<open>
  C40. Converting a receipt log to a row loses nothing: the conversion succeeds
  exactly when the log has at most four topics and a 32-bit data length, the
  stored length is the data's, and the log can be read back from the row.
\<close>

theorem row_conversion_lossless:
  "(case try_from_primitives_log log ctx tx_hash tx_index log_index of
      Inl e \<Rightarrow> 4 < length (pl_topics log) \<or> 2 ^ 32 \<le> length (pl_data log)
    | Inr row \<Rightarrow> length (pl_topics log) \<le> 4 \<and> unat (lr_data_len row) = length (pl_data log)
        \<and> row_log row = log \<and> lr_block_hash row = bc_block_hash ctx \<and> lr_log_index row = log_index)"
proof (cases "checked_log_shape (length (pl_topics log)) (length (pl_data log))")
  case (Inl e)
  then show ?thesis
    by (auto simp: try_from_primitives_log_def checked_log_shape_def try_u32_def not_less split: if_splits)
next
  case (Inr len)
  then have shape: "length (pl_topics log) \<le> 4" "length (pl_data log) = unat len"
    by (auto simp: checked_log_shape_def try_u32_Some_iff split: if_splits)
  obtain row where row: "try_from_primitives_log log ctx tx_hash tx_index log_index = Inr row"
    and fields: "row_topics row = [get (pl_topics log) 0, get (pl_topics log) 1, get (pl_topics log) 2, get (pl_topics log) 3]"
      "lr_address row = pl_address log" "lr_data row = pl_data log" "lr_data_len row = len"
      "lr_block_hash row = bc_block_hash ctx" "lr_log_index row = log_index"
    by (simp add: try_from_primitives_log_def Let_def Inr row_topics_def)
  have "row_log row = log"
    unfolding row_log_def fields topics_takeWhile[OF shape(1)] by simp
  with row fields shape show ?thesis by simp
qed

section \<open>Row bounds\<close>

record row_bounds =
  rb_row_count :: u64
  rb_min_block :: u64
  rb_max_block :: u64
  rb_min_timestamp :: u64
  rb_max_timestamp :: u64

definition bounds_from_row :: "log_row \<Rightarrow> row_bounds" where
  "bounds_from_row row =
     \<lparr>rb_row_count = 1, rb_min_block = lr_block_number row, rb_max_block = lr_block_number row,
      rb_min_timestamp = lr_timestamp row, rb_max_timestamp = lr_timestamp row\<rparr>"

definition bounds_include :: "row_bounds \<Rightarrow> log_row \<Rightarrow> row_bounds" where
  "bounds_include b row =
     \<lparr>rb_row_count = rb_row_count b + 1, rb_min_block = min (rb_min_block b) (lr_block_number row),
      rb_max_block = max (rb_max_block b) (lr_block_number row),
      rb_min_timestamp = min (rb_min_timestamp b) (lr_timestamp row),
      rb_max_timestamp = max (rb_max_timestamp b) (lr_timestamp row)\<rparr>"

definition bounds_from_rows :: "log_row list \<Rightarrow> row_bounds option" where
  "bounds_from_rows rows =
     (case rows of [] \<Rightarrow> None | first # rest \<Rightarrow> Some (foldl bounds_include (bounds_from_row first) rest))"

definition exact_bounds :: "log_row list \<Rightarrow> row_bounds" where
  "exact_bounds rows =
     \<lparr>rb_row_count = of_nat (length rows), rb_min_block = Min (lr_block_number ` set rows),
      rb_max_block = Max (lr_block_number ` set rows), rb_min_timestamp = Min (lr_timestamp ` set rows),
      rb_max_timestamp = Max (lr_timestamp ` set rows)\<rparr>"

lemma exact_bounds_snoc:
  "rows \<noteq> [] \<Longrightarrow> exact_bounds (rows @ [row]) = bounds_include (exact_bounds rows) row"
  by (simp add: exact_bounds_def bounds_include_def min.commute max.commute add.commute)

lemma foldl_bounds_include:
  "rows \<noteq> [] \<Longrightarrow> foldl bounds_include (exact_bounds rows) rest = exact_bounds (rows @ rest)"
proof (induction rest arbitrary: rows)
  case (Cons row rest)
  then show ?case by (simp flip: exact_bounds_snoc)
qed simp

lemma exact_bounds_singleton: "bounds_from_row row = exact_bounds [row]"
  by (simp add: bounds_from_row_def exact_bounds_def)

lemma bounds_from_rows_eq: "bounds_from_rows rows = (if rows = [] then None else Some (exact_bounds rows))"
  by (cases rows) (simp_all add: bounds_from_rows_def exact_bounds_singleton foldl_bounds_include)

end
