(* ===== verification/Stream_Commitment.thy ===== *)
theory Stream_Commitment
  imports Prelude
begin

text \<open>
  The resumable BLAKE3 stream of
  \<^verbatim>\<open>src/crates/logex-storage/src/commitment/stream.rs\<close>: the published state
  (\<^verbatim>\<open>StreamState\<close>: byte count, frontier of subtree chaining values, last chunk),
  the buffered writer that extends it (\<^verbatim>\<open>StreamWriter\<close>), the digest, and the wire
  form.  BLAKE3 itself is the parameter \<open>blake3\<close>; \<open>blake3_laws\<close> is its
  documented tree structure.  The main results: appending any sequence of
  pieces gives the state of the concatenated bytes, however they are cut, and
  the digest of a state is the ordinary BLAKE3 hash of all its bytes.
\<close>

section \<open>BLAKE3\<close>

type_synonym chaining_value = b256

text \<open>
  \<open>b3_subtree offset bytes\<close> is a hasher with \<^verbatim>\<open>set_input_offset(offset)\<close>,
  \<^verbatim>\<open>update(bytes)\<close> and \<^verbatim>\<open>finalize_non_root()\<close>; the two merges are
  \<^verbatim>\<open>hazmat::merge_subtrees_non_root\<close> and \<^verbatim>\<open>merge_subtrees_root\<close> in
  \<^verbatim>\<open>Mode::Hash\<close>; \<open>b3_hash\<close> is \<^verbatim>\<open>blake3::hash\<close>.
\<close>

record blake3 =
  b3_subtree :: "nat \<Rightarrow> bytes \<Rightarrow> chaining_value"
  b3_merge :: "chaining_value \<Rightarrow> chaining_value \<Rightarrow> chaining_value"
  b3_merge_root :: "chaining_value \<Rightarrow> chaining_value \<Rightarrow> b256"
  b3_hash :: "bytes \<Rightarrow> b256"

definition CHUNK_BYTES :: nat where
  "CHUNK_BYTES = 1024"

text \<open>
  \<^verbatim>\<open>hazmat::left_subtree_len\<close>: the largest power of two of chunks that leaves at
  least one byte on the right.
\<close>

definition left_subtree_len :: "nat \<Rightarrow> nat" where
  "left_subtree_len n = CHUNK_BYTES * 2 ^ (bit_len ((n - 1) div CHUNK_BYTES) - 1)"

definition blake3_laws :: "blake3 \<Rightarrow> bool" where
  "blake3_laws bl \<longleftrightarrow>
     (\<forall>offset bytes j. CHUNK_BYTES < length bytes \<and> length bytes \<le> CHUNK_BYTES * 2 ^ j
        \<and> CHUNK_BYTES * 2 ^ j dvd offset \<and> offset + length bytes < 2 ^ 64 \<longrightarrow>
        (let l = left_subtree_len (length bytes) in
         b3_subtree bl offset bytes =
           b3_merge bl (b3_subtree bl offset (take l bytes)) (b3_subtree bl (offset + l) (drop l bytes))))
     \<and> (\<forall>bytes. CHUNK_BYTES < length bytes \<and> length bytes < 2 ^ 64 \<longrightarrow>
        (let l = left_subtree_len (length bytes) in
         b3_hash bl bytes = b3_merge_root bl (b3_subtree bl 0 (take l bytes)) (b3_subtree bl l (drop l bytes))))"

section \<open>The state\<close>

record stream_state =
  total_bytes :: u64
  frontier :: "chaining_value list"
  tail :: bytes

definition STREAM_VERSION :: u8 where
  "STREAM_VERSION = 1"

definition HEADER_BYTES :: usize where
  "HEADER_BYTES = 1 + 8"

definition MAX_FRONTIER :: usize where
  "MAX_FRONTIER = 54"

definition MAX_ENCODED_BYTES :: usize where
  "MAX_ENCODED_BYTES = HEADER_BYTES + MAX_FRONTIER * 32 + CHUNK_BYTES"

definition BUFFER_BYTES :: usize where
  "BUFFER_BYTES = 64 * CHUNK_BYTES + 1"

definition stream_new :: stream_state where
  "stream_new = \<lparr>total_bytes = 0, frontier = [], tail = []\<rparr>"

text \<open>
  Chunk counts are at most \<open>2 ^ 54\<close>, so they and the byte offsets derived from
  them cannot leave 64 bits; they are natural numbers here.
\<close>

definition completed_chunks :: "u64 \<Rightarrow> nat" where
  "completed_chunks n = unat (saturating_sub n 1) div CHUNK_BYTES"

definition tail_len :: "u64 \<Rightarrow> usize" where
  "tail_len n = (if n = 0 then 0 else unat (n - 1) mod CHUNK_BYTES + 1)"

fun count_ones :: "nat \<Rightarrow> nat" where
  "count_ones n = (if n = 0 then 0 else n mod 2 + count_ones (n div 2))"

declare count_ones.simps [simp del]

fun trailing_zeros :: "nat \<Rightarrow> nat" where
  "trailing_zeros n = (if n = 0 then 64 else if odd n then 0 else Suc (trailing_zeros (n div 2)))"

declare trailing_zeros.simps [simp del]

definition subtree_cv :: "blake3 \<Rightarrow> nat \<Rightarrow> bytes \<Rightarrow> chaining_value" where
  "subtree_cv bl completed bytes = b3_subtree bl (completed * CHUNK_BYTES) bytes"

fun carry_loop :: "blake3 \<Rightarrow> chaining_value list \<Rightarrow> nat \<Rightarrow> chaining_value \<Rightarrow> chaining_value list res" where
  "carry_loop bl fr carries cv =
     (if carries mod 2 \<noteq> 0
      then case last_opt fr of
             None \<Rightarrow> Inl (Panic ''canonical stream frontier'')
           | Some left \<Rightarrow> carry_loop bl (butlast fr) (carries div 2) (b3_merge bl left cv)
      else Inr (fr @ [cv]))"

declare carry_loop.simps [simp del]

definition push_subtree ::
  "blake3 \<Rightarrow> chaining_value list \<Rightarrow> nat \<Rightarrow> nat \<Rightarrow> chaining_value \<Rightarrow> chaining_value list res" where
  "push_subtree bl fr completed chunks cv = carry_loop bl fr (completed div chunks) cv"

definition digest :: "blake3 \<Rightarrow> stream_state \<Rightarrow> b256" where
  "digest bl st =
     (case frontier st of
        [] \<Rightarrow> b3_hash bl (tail st)
      | first # rest \<Rightarrow>
          b3_merge_root bl first
            (fold (b3_merge bl) (rev rest)
               (subtree_cv bl (completed_chunks (total_bytes st)) (tail st))))"

definition stream_to_bytes :: "stream_state \<Rightarrow> bytes" where
  "stream_to_bytes st =
     STREAM_VERSION # to_le_bytes (total_bytes st) @ concat (map as_slice (frontier st)) @ tail st"

definition stream_from_bytes :: "bytes \<Rightarrow> stream_state res" where
  "stream_from_bytes bytes =
     (if \<not> (HEADER_BYTES \<le> length bytes \<and> length bytes \<le> MAX_ENCODED_BYTES)
      then Inl (InvalidData ''invalid stream state length'')
      else
        bind_res (index bytes 0) (\<lambda>version.
        if version \<noteq> STREAM_VERSION then Inl (InvalidData ''unsupported stream state version'')
        else
          bind_res (slice bytes 1 HEADER_BYTES) (\<lambda>total.
          let total_bytes = from_le_bytes total;
              count = count_ones (completed_chunks total_bytes);
              tail_len = tail_len total_bytes;
              tail_start = HEADER_BYTES + count * 32
          in if length bytes \<noteq> tail_start + tail_len
             then Inl (InvalidData ''stream byte count, frontier and tail length disagree'')
             else
               bind_res (slice bytes HEADER_BYTES tail_start) (\<lambda>cvs.
               bind_res (slice_from bytes tail_start) (\<lambda>tail.
               Inr \<lparr>total_bytes = total_bytes, frontier = map from_slice (chunks_exact 32 cvs),
                    tail = tail\<rparr>)))))"

section \<open>The writer\<close>

text \<open>
  The fixed array of the writer is represented by its live prefix
  \<^verbatim>\<open>bytes[..len]\<close>; what lies beyond \<^verbatim>\<open>len\<close> is never read.  Copying past the end of
  the array panics, as does a subtraction \<^verbatim>\<open>limit - len\<close> below zero in a checked
  build.
\<close>

record stream_writer =
  w_stream :: stream_state
  w_buf :: bytes
  w_accounted :: usize
  w_limit :: usize

definition writer_new :: "stream_state \<Rightarrow> stream_writer" where
  "writer_new stream =
     \<lparr>w_stream = stream, w_buf = tail stream, w_accounted = length (tail stream),
      w_limit = (64 - completed_chunks (total_bytes stream) mod 64) * CHUNK_BYTES + 1\<rparr>"

definition buf_extend :: "bytes \<Rightarrow> bytes \<Rightarrow> bytes res" where
  "buf_extend buf value =
     (if length buf + length value \<le> BUFFER_BYTES then Inr (buf @ value)
      else Inl (Panic ''range end index out of range''))"

text \<open>The power of two of chunks hashed at once: bounded by what is buffered and by alignment.\<close>

definition subtree_chunks :: "nat \<Rightarrow> nat \<Rightarrow> nat" where
  "subtree_chunks available completed =
     (let chunks = 2 ^ (bit_len available - 1)
      in if completed \<noteq> 0 then min chunks (2 ^ trailing_zeros completed) else chunks)"

lemma subtree_chunks_pos: "0 < subtree_chunks available completed"
  by (simp add: subtree_chunks_def Let_def)

function consume_loop ::
  "blake3 \<Rightarrow> bytes \<Rightarrow> chaining_value list \<Rightarrow> nat \<Rightarrow> usize \<Rightarrow> (chaining_value list \<times> usize) res" where
  "consume_loop bl buf fr completed consumed =
     (if CHUNK_BYTES < length buf - consumed
      then
        let available = (length buf - consumed - 1) div CHUNK_BYTES;
            chunks = subtree_chunks available completed;
            end' = consumed + chunks * CHUNK_BYTES
        in bind_res (slice buf consumed end') (\<lambda>piece.
           bind_res (push_subtree bl fr completed chunks (subtree_cv bl completed piece)) (\<lambda>fr.
           consume_loop bl buf fr (completed + chunks) end'))
      else Inr (fr, consumed))"
  by pat_completeness auto
termination
  by (relation "measure (\<lambda>(_, buf, _, _, consumed). length buf - consumed)")
     (auto simp: CHUNK_BYTES_def subtree_chunks_pos intro!: diff_less_mono2)

declare consume_loop.simps [simp del]

definition consume_nonfinal :: "blake3 \<Rightarrow> stream_writer \<Rightarrow> (stream_writer \<times> usize) res" where
  "consume_nonfinal bl w =
     (let added = of_nat (length (w_buf w) - w_accounted w)
      in bind_res (ok_or (checked_add (total_bytes (w_stream w)) added)
                     (InvalidData ''stream byte count overflows u64'')) (\<lambda>total.
         bind_res (consume_loop bl (w_buf w) (frontier (w_stream w))
                     (completed_chunks (total_bytes (w_stream w))) 0) (\<lambda>(fr, consumed).
         Inr (w\<lparr>w_stream := (w_stream w)\<lparr>total_bytes := total, frontier := fr\<rparr>\<rparr>, consumed))))"

text \<open>The flush inside \<^verbatim>\<open>put_across_boundary\<close>: one carried byte remains in the buffer.\<close>

definition writer_flush :: "blake3 \<Rightarrow> stream_writer \<Rightarrow> stream_writer res" where
  "writer_flush bl w =
     bind_res (consume_nonfinal bl w) (\<lambda>(w, consumed).
     bind_res (index (w_buf w) consumed) (\<lambda>carried.
     Inr (w\<lparr>w_buf := [carried], w_accounted := 1, w_limit := BUFFER_BYTES\<rparr>)))"

lemma writer_flush_shape:
  "writer_flush bl w = Inr w' \<Longrightarrow> length (w_buf w') = 1 \<and> w_limit w' = BUFFER_BYTES"
  by (auto simp: writer_flush_def bind_res_Inr_iff)

function put_across_boundary :: "blake3 \<Rightarrow> stream_writer \<Rightarrow> bytes \<Rightarrow> stream_writer res" where
  "put_across_boundary bl w value =
     (if value = [] then Inr w
      else if w_limit w < length (w_buf w) then Inl (Panic ''attempt to subtract with overflow'')
      else
        let count = min (length value) (w_limit w - length (w_buf w))
        in bind_res (buf_extend (w_buf w) (take count value)) (\<lambda>buf.
           let w = w\<lparr>w_buf := buf\<rparr>; value = drop count value
           in if length (w_buf w) = w_limit w
              then bind_res (writer_flush bl w) (\<lambda>w. put_across_boundary bl w value)
              else put_across_boundary bl w value))"
  by pat_completeness auto
termination
  by (relation "measures [\<lambda>(_, w, value). length value,
        \<lambda>(_, w, value). if w_limit w = length (w_buf w) then 1 else 0]")
     (auto simp: buf_extend_def BUFFER_BYTES_def CHUNK_BYTES_def split: if_splits dest!: writer_flush_shape)

declare put_across_boundary.simps [simp del]

definition writer_put :: "blake3 \<Rightarrow> stream_writer \<Rightarrow> bytes \<Rightarrow> stream_writer res" where
  "writer_put bl w value =
     (if w_limit w < length (w_buf w) then Inl (Panic ''attempt to subtract with overflow'')
      else if length value < w_limit w - length (w_buf w)
      then bind_res (buf_extend (w_buf w) value) (\<lambda>buf. Inr (w\<lparr>w_buf := buf\<rparr>))
      else put_across_boundary bl w value)"

definition writer_finish :: "blake3 \<Rightarrow> stream_writer \<Rightarrow> stream_state res" where
  "writer_finish bl w =
     bind_res (consume_nonfinal bl w) (\<lambda>(w, consumed).
     bind_res (slice (w_buf w) consumed (length (w_buf w))) (\<lambda>rest.
     Inr ((w_stream w)\<lparr>tail := rest\<rparr>)))"

text \<open>A sequence of \<^verbatim>\<open>put\<close>s on one writer.\<close>

fun writer_puts :: "blake3 \<Rightarrow> stream_writer \<Rightarrow> bytes list \<Rightarrow> stream_writer res" where
  "writer_puts bl w [] = Inr w"
| "writer_puts bl w (v # vs) = bind_res (writer_put bl w v) (\<lambda>w. writer_puts bl w vs)"

section \<open>The canonical frontier\<close>

text \<open>
  \<open>node s k\<close> is the subtree of \<open>2 ^ k\<close> chunks from chunk \<open>s\<close> on; the frontier of
  \<open>c\<close> chunks has one node per set bit of \<open>c\<close>, from the highest bit down.
  \<open>canon j c\<close> keeps the nodes of level \<open>j\<close> and above.
\<close>

definition node :: "blake3 \<Rightarrow> bytes \<Rightarrow> nat \<Rightarrow> nat \<Rightarrow> chaining_value" where
  "node bl bs s k = subtree_cv bl s (take (2 ^ k * CHUNK_BYTES) (drop (s * CHUNK_BYTES) bs))"

definition canon :: "blake3 \<Rightarrow> bytes \<Rightarrow> nat \<Rightarrow> nat \<Rightarrow> chaining_value list" where
  "canon bl bs j c =
     concat (map (\<lambda>k. if odd (c div 2 ^ k) then [node bl bs (c div 2 ^ Suc k * 2 ^ Suc k) k] else [])
              (rev [j..<64]))"

definition state_of :: "blake3 \<Rightarrow> bytes \<Rightarrow> stream_state" where
  "state_of bl bs =
     (let c = (length bs - 1) div CHUNK_BYTES
      in \<lparr>total_bytes = of_nat (length bs), frontier = canon bl bs 0 c, tail = drop (c * CHUNK_BYTES) bs\<rparr>)"

lemma canon_step:
  "j < 64 \<Longrightarrow> canon bl bs j c =
     canon bl bs (Suc j) c
     @ (if odd (c div 2 ^ j) then [node bl bs (c div 2 ^ Suc j * 2 ^ Suc j) j] else [])"
  by (simp add: canon_def upt_conv_Cons)

lemma canon_cong:
  assumes "c div 2 ^ j = d div 2 ^ j"
  shows "canon bl bs j c = canon bl bs j d"
proof -
  have "c div 2 ^ k = d div 2 ^ k" if "j \<le> k" for k
  proof -
    have "x div 2 ^ k = x div 2 ^ j div 2 ^ (k - j)" for x :: nat
      using that by (simp add: power_add[symmetric] flip: div_mult2_eq)
    with assms show ?thesis by simp
  qed
  then have "c div 2 ^ k = d div 2 ^ k" "c div 2 ^ Suc k = d div 2 ^ Suc k" if "j \<le> k" for k
    using that le_SucI by blast+
  then show ?thesis
    unfolding canon_def by (intro arg_cong[of _ _ concat] map_cong) (auto simp del: power_Suc)
qed

lemma canon_low:
  assumes "2 ^ j dvd c" and "j \<le> 64"
  shows "canon bl bs 0 c = canon bl bs j c"
  using assms
proof (induction j)
  case (Suc j)
  have "2 ^ j dvd c" using Suc.prems(1) by (meson dvd_trans le_imp_power_dvd lessI less_imp_le)
  moreover have "even (c div 2 ^ j)"
    using Suc.prems(1) by (auto elim!: dvdE)
  ultimately show ?case using Suc canon_step[of j bl bs c] by simp
qed simp

lemma bit_len_unique: "2 ^ k \<le> n \<Longrightarrow> n < 2 ^ Suc k \<Longrightarrow> bit_len n = Suc k"
proof -
  assume *: "2 ^ k \<le> n" "n < 2 ^ Suc k"
  have "bit_len n \<le> Suc k" by (rule bit_len_le[OF *(2)])
  moreover have "\<not> bit_len n \<le> k"
  proof
    assume "bit_len n \<le> k"
    then have "(2::nat) ^ bit_len n \<le> 2 ^ k" by simp
    with bit_len_upper[of n] *(1) show False by linarith
  qed
  ultimately show ?thesis by simp
qed

lemma blake3_lawsD:
  assumes "blake3_laws bl"
  shows "CHUNK_BYTES < length bs \<Longrightarrow> length bs \<le> CHUNK_BYTES * 2 ^ j \<Longrightarrow> CHUNK_BYTES * 2 ^ j dvd off \<Longrightarrow>
      off + length bs < 2 ^ 64 \<Longrightarrow> l = left_subtree_len (length bs) \<Longrightarrow>
      b3_subtree bl off bs = b3_merge bl (b3_subtree bl off (take l bs)) (b3_subtree bl (off + l) (drop l bs))"
    and "CHUNK_BYTES < length bs \<Longrightarrow> length bs < 2 ^ 64 \<Longrightarrow> l = left_subtree_len (length bs) \<Longrightarrow>
      b3_hash bl bs = b3_merge_root bl (b3_subtree bl 0 (take l bs)) (b3_subtree bl l (drop l bs))"
  using assms unfolding blake3_laws_def Let_def by blast+

lemma left_subtree_len_eq:
  assumes "2 ^ k * CHUNK_BYTES < n" and "n \<le> 2 ^ Suc k * CHUNK_BYTES"
  shows "left_subtree_len n = 2 ^ k * CHUNK_BYTES"
proof -
  have "2 ^ k \<le> (n - 1) div CHUNK_BYTES"
    using assms(1) by (simp add: less_eq_div_iff_mult_less_eq CHUNK_BYTES_def)
  moreover have "(n - 1) div CHUNK_BYTES < 2 ^ Suc k"
    using assms by (simp add: div_less_iff_less_mult CHUNK_BYTES_def)
  ultimately show ?thesis by (simp add: left_subtree_len_def bit_len_unique)
qed

lemma node_merge:
  assumes "blake3_laws bl" and "2 ^ Suc k dvd s" and "(s + 2 ^ Suc k) * CHUNK_BYTES \<le> length bs"
    and "length bs < 2 ^ 64"
  shows "node bl bs s (Suc k) = b3_merge bl (node bl bs s k) (node bl bs (s + 2 ^ k) k)"
proof -
  define ys where "ys = take (2 ^ Suc k * CHUNK_BYTES) (drop (s * CHUNK_BYTES) bs)"
  have len: "length ys = 2 ^ Suc k * CHUNK_BYTES"
    using assms(3) by (simp add: ys_def algebra_simps)
  have l: "left_subtree_len (length ys) = 2 ^ k * CHUNK_BYTES"
    by (rule left_subtree_len_eq) (simp_all add: len CHUNK_BYTES_def)
  have "b3_subtree bl (s * CHUNK_BYTES) ys = b3_merge bl (b3_subtree bl (s * CHUNK_BYTES) (take (2 ^ k * CHUNK_BYTES) ys))
      (b3_subtree bl (s * CHUNK_BYTES + 2 ^ k * CHUNK_BYTES) (drop (2 ^ k * CHUNK_BYTES) ys))"
  proof (rule blake3_lawsD(1)[OF assms(1) _ _ _ _ l[symmetric]])
    show "CHUNK_BYTES < length ys"
      using one_less_power[of "2 :: nat" "Suc k"] by (simp add: len CHUNK_BYTES_def del: power_Suc)
    show "length ys \<le> CHUNK_BYTES * 2 ^ Suc k" by (simp add: len)
    show "CHUNK_BYTES * 2 ^ Suc k dvd s * CHUNK_BYTES" using assms(2) by (metis mult.commute mult_dvd_mono dvd_refl)
    show "s * CHUNK_BYTES + length ys < 2 ^ 64" using assms(3,4) by (simp add: len algebra_simps)
  qed
  moreover have "take (2 ^ k * CHUNK_BYTES) ys = take (2 ^ k * CHUNK_BYTES) (drop (s * CHUNK_BYTES) bs)"
    by (simp add: ys_def min_def)
  moreover have "drop (2 ^ k * CHUNK_BYTES) ys = take (2 ^ k * CHUNK_BYTES) (drop ((s + 2 ^ k) * CHUNK_BYTES) bs)"
    by (simp add: ys_def drop_take algebra_simps)
  ultimately show ?thesis
    by (simp only: node_def subtree_cv_def ys_def[symmetric] add_mult_distrib)
qed

lemma half_div: "(i * 2 ^ Suc j + 2 ^ j) div 2 ^ Suc j = (i :: nat)"
  using div_mult_self3[of "2 ^ Suc j" i "2 ^ j"] by simp

lemma carry_loop_canon:
  assumes "blake3_laws bl" and "2 ^ j dvd c" and "(c + 2 ^ j) * CHUNK_BYTES \<le> length bs" and "length bs < 2 ^ 64"
  shows "carry_loop bl (canon bl bs j c) (c div 2 ^ j) (node bl bs c j) = Inr (canon bl bs 0 (c + 2 ^ j))"
  using assms(2,3)
proof (induction "c div 2 ^ j" arbitrary: c j rule: less_induct)
  case less
  have "2 ^ j < (2::nat) ^ 64" using less.prems(2) assms(4) by (simp add: CHUNK_BYTES_def)
  then have j: "j < 64" by (simp only: power_strict_increasing_iff one_less_numeral_iff semiring_norm)
  obtain m where c: "c = m * 2 ^ j" using less.prems(1) by (auto elim: dvdE)
  show ?case
  proof (cases "odd m")
    case False
    then obtain i where m: "m = 2 * i" by (auto elim: evenE)
    have d: "c = i * 2 ^ Suc j" "c div 2 ^ Suc j = i" by (simp_all add: c m)
    have "(c + 2 ^ j) div 2 ^ Suc j = i" unfolding d(1) by (rule half_div)
    moreover have "odd ((c + 2 ^ j) div 2 ^ j)" by (simp add: c m)
    ultimately have "canon bl bs j (c + 2 ^ j) = canon bl bs (Suc j) c @ [node bl bs c j]"
      using canon_step[OF j, of bl bs "c + 2 ^ j"] canon_cong[of "c + 2 ^ j" "Suc j" c bl bs] d
      by (simp del: power_Suc)
    moreover have "canon bl bs j c = canon bl bs (Suc j) c"
      using canon_step[OF j, of bl bs c] False by (simp add: c)
    moreover have "canon bl bs 0 (c + 2 ^ j) = canon bl bs j (c + 2 ^ j)"
      using less.prems(1) j by (intro canon_low) auto
    ultimately show ?thesis
      using False by (subst carry_loop.simps) (simp add: c mod_2_eq_odd)
  next
    case True
    then obtain i where m: "m = 2 * i + 1" by (auto elim: oddE)
    let ?d = "i * 2 ^ Suc j"
    have d: "?d + 2 ^ j = c" "?d div 2 ^ Suc j = i" by (simp_all add: c m algebra_simps)
    have c2: "c div 2 ^ Suc j = i" unfolding d(1)[symmetric] by (rule half_div)
    have e: "?d + 2 ^ Suc j = c + 2 ^ j" using d(1) by simp
    have lim: "(?d + 2 ^ Suc j) * CHUNK_BYTES \<le> length bs" unfolding e by (rule less.prems(2))
    have fr: "canon bl bs j c = canon bl bs (Suc j) ?d @ [node bl bs ?d j]"
      using canon_step[OF j, of bl bs c] True d c2 canon_cong[of c "Suc j" ?d bl bs]
      by (simp add: c del: power_Suc)
    have nd: "node bl bs ?d (Suc j) = b3_merge bl (node bl bs ?d j) (node bl bs c j)"
      using node_merge[OF assms(1) _ lim assms(4)] by (simp only: d(1) dvd_triv_right)
    have "carry_loop bl (canon bl bs (Suc j) ?d) (?d div 2 ^ Suc j) (node bl bs ?d (Suc j))
        = Inr (canon bl bs 0 (?d + 2 ^ Suc j))"
    proof (rule less.hyps)
      show "?d div 2 ^ Suc j < c div 2 ^ j" by (simp add: d(2) c m)
    qed (use lim in simp_all)
    moreover have "carry_loop bl (canon bl bs j c) (c div 2 ^ j) (node bl bs c j)
        = carry_loop bl (canon bl bs (Suc j) ?d) i (b3_merge bl (node bl bs ?d j) (node bl bs c j))"
      unfolding fr by (subst carry_loop.simps) (simp add: c m last_opt_def)
    ultimately show ?thesis by (simp only: nd d(2) e)
  qed
qed

section \<open>Hashing what is complete\<close>

lemma trailing_zeros_dvd: "n \<noteq> 0 \<Longrightarrow> 2 ^ trailing_zeros n dvd n"
proof (induction n rule: trailing_zeros.induct)
  case (1 n)
  show ?case
  proof (cases "odd n")
    case True
    then show ?thesis by (subst trailing_zeros.simps) simp
  next
    case False
    then obtain m where m: "n = 2 * m" by (auto elim: evenE)
    then have "trailing_zeros n = Suc (trailing_zeros m)" using 1 by (subst trailing_zeros.simps) simp
    moreover have "2 ^ trailing_zeros m dvd m" using 1 m False by simp
    ultimately show ?thesis by (simp add: m)
  qed
qed

lemma subtree_chunks_pow:
  assumes "0 < a"
  obtains j where "subtree_chunks a c = 2 ^ j" and "2 ^ j \<le> a" and "2 ^ j dvd c"
proof (cases "c = 0")
  case True
  then show thesis
    using that[of "bit_len a - 1"] bit_len_lower[OF assms] by (simp add: subtree_chunks_def)
next
  case False
  let ?j = "min (bit_len a - 1) (trailing_zeros c)"
  have "subtree_chunks a c = 2 ^ ?j"
    using False by (simp add: subtree_chunks_def Let_def min_def)
  moreover have "2 ^ ?j \<le> a"
    using bit_len_lower[OF assms] power_increasing[of ?j "bit_len a - 1" "2 :: nat"] by linarith
  moreover have "2 ^ ?j dvd c"
    using trailing_zeros_dvd[OF False] le_imp_power_dvd[of ?j "trailing_zeros c" "2 :: nat"] by (meson dvd_trans min.cobounded2)
  ultimately show thesis by (rule that)
qed

lemma consume_loop_canon:
  assumes "blake3_laws bl" and "length bs < 2 ^ 64" and "c0 \<le> c" and "c \<le> (length bs - 1) div CHUNK_BYTES"
  shows "consume_loop bl (drop (c0 * CHUNK_BYTES) bs) (canon bl bs 0 c) c ((c - c0) * CHUNK_BYTES) =
    Inr (canon bl bs 0 ((length bs - 1) div CHUNK_BYTES), ((length bs - 1) div CHUNK_BYTES - c0) * CHUNK_BYTES)"
  using assms(3,4)
proof (induction "(length bs - 1) div CHUNK_BYTES - c" arbitrary: c rule: less_induct)
  case less
  let ?C = "(length bs - 1) div CHUNK_BYTES"
  let ?buf = "drop (c0 * CHUNK_BYTES) bs"
  have cs: "(c - c0) * CHUNK_BYTES + c0 * CHUNK_BYTES = c * CHUNK_BYTES"
    using less.prems(1) by (simp flip: add_mult_distrib)
  then have rest: "length ?buf - (c - c0) * CHUNK_BYTES = length bs - c * CHUNK_BYTES" by simp
  have av: "(length bs - c * CHUNK_BYTES - 1) div CHUNK_BYTES = ?C - c"
    unfolding CHUNK_BYTES_def by linarith
  show ?case
  proof (cases "c = ?C")
    case True
    then have "\<not> CHUNK_BYTES < length bs - c * CHUNK_BYTES"
      by (simp add: CHUNK_BYTES_def)
    with True rest show ?thesis by (subst consume_loop.simps) simp
  next
    case False
    then have lt: "c < ?C" using less.prems(2) by simp
    then obtain j where j: "subtree_chunks (?C - c) c = 2 ^ j" "2 ^ j \<le> ?C - c" "2 ^ j dvd c"
      by (meson subtree_chunks_pow zero_less_diff)
    have fits: "(c + 2 ^ j) * CHUNK_BYTES \<le> length bs"
    proof -
      have "(c + 2 ^ j) * CHUNK_BYTES \<le> ?C * CHUNK_BYTES" using j(2) lt by (intro mult_le_mono1) simp
      also have "\<dots> \<le> length bs - 1" by (rule div_times_less_eq_dividend)
      finally show ?thesis by simp
    qed
    have long: "CHUNK_BYTES < length bs - c * CHUNK_BYTES"
      using lt less_eq_div_iff_mult_less_eq[of CHUNK_BYTES "Suc c" "length bs - 1"] by (simp add: CHUNK_BYTES_def)
    have piece: "slice ?buf ((c - c0) * CHUNK_BYTES) ((c - c0) * CHUNK_BYTES + 2 ^ j * CHUNK_BYTES) =
        Inr (take (2 ^ j * CHUNK_BYTES) (drop (c * CHUNK_BYTES) bs))"
      using fits cs by (simp add: add_mult_distrib)
    have "j < 64"
    proof -
      have "(2 :: nat) ^ j < 2 ^ 64" using fits assms(2) by (simp add: CHUNK_BYTES_def)
      then show ?thesis by (simp only: power_strict_increasing_iff one_less_numeral_iff semiring_norm)
    qed
    then have push: "push_subtree bl (canon bl bs 0 c) c (2 ^ j) (node bl bs c j) = Inr (canon bl bs 0 (c + 2 ^ j))"
      using carry_loop_canon[OF assms(1) j(3) fits assms(2)] canon_low[OF j(3)] by (simp add: push_subtree_def)
    have next': "(c + 2 ^ j - c0) * CHUNK_BYTES = (c - c0) * CHUNK_BYTES + 2 ^ j * CHUNK_BYTES"
      using less.prems(1) by (simp flip: add_mult_distrib)
    have "consume_loop bl ?buf (canon bl bs 0 (c + 2 ^ j)) (c + 2 ^ j) ((c + 2 ^ j - c0) * CHUNK_BYTES) =
        Inr (canon bl bs 0 ?C, (?C - c0) * CHUNK_BYTES)"
    proof (rule less.hyps)
      show "?C - (c + 2 ^ j) < ?C - c" using lt by (intro diff_less_mono2) auto
    qed (use less.prems(1) j(2) lt in simp_all)
    then show ?thesis
      using long rest av j(1) piece push next'
      by (subst consume_loop.simps) (simp add: Let_def node_def)
  qed
qed

section \<open>The writer represents its input\<close>

text \<open>
  \<open>writer_rep bl w bs\<close>: the writer has been given the bytes \<open>bs\<close> in all, of which
  the published count covers a prefix; its buffer holds everything from the
  first chunk that is not hashed yet.
\<close>

definition counted :: "stream_writer \<Rightarrow> nat" where
  "counted w = unat (total_bytes (w_stream w))"

definition hashed :: "stream_writer \<Rightarrow> nat" where
  "hashed w = (counted w - 1) div CHUNK_BYTES"

definition writer_rep :: "blake3 \<Rightarrow> stream_writer \<Rightarrow> bytes \<Rightarrow> bool" where
  "writer_rep bl w bs \<longleftrightarrow>
     counted w \<le> length bs \<and> frontier (w_stream w) = canon bl bs 0 (hashed w)
     \<and> w_buf w = drop (hashed w * CHUNK_BYTES) bs \<and> w_accounted w = counted w - hashed w * CHUNK_BYTES
     \<and> w_limit w = (64 - hashed w mod 64) * CHUNK_BYTES + 1 \<and> length (w_buf w) < w_limit w"

lemma writer_repD:
  assumes "writer_rep bl w bs"
  shows "counted w \<le> length bs" "frontier (w_stream w) = canon bl bs 0 (hashed w)"
    "w_buf w = drop (hashed w * CHUNK_BYTES) bs" "w_accounted w = counted w - hashed w * CHUNK_BYTES"
    "w_limit w = (64 - hashed w mod 64) * CHUNK_BYTES + 1" "length (w_buf w) < w_limit w"
  using assms unfolding writer_rep_def by blast+

lemma completed_chunks_eq: "completed_chunks n = (unat n - 1) div CHUNK_BYTES"
  by (simp add: completed_chunks_def unat_saturating_sub)

lemma node_append:
  assumes "(s + 2 ^ k) * CHUNK_BYTES \<le> length bs"
  shows "node bl (bs @ ext) s k = node bl bs s k"
  using assms by (simp add: node_def add_mult_distrib)

lemma canon_append:
  assumes "c * CHUNK_BYTES \<le> length bs"
  shows "canon bl (bs @ ext) j c = canon bl bs j c"
proof -
  have "node bl (bs @ ext) (c div 2 ^ Suc k * 2 ^ Suc k) k = node bl bs (c div 2 ^ Suc k * 2 ^ Suc k) k"
    if "odd (c div 2 ^ k)" for k
  proof -
    have "c div 2 ^ k = 2 * (c div 2 ^ Suc k) + 1"
      using that by (simp only: power_Suc2 div_mult2_eq) (metis odd_two_times_div_two_succ)
    then have "(c div 2 ^ Suc k * 2 ^ Suc k) + 2 ^ k = c div 2 ^ k * 2 ^ k" by (simp add: algebra_simps)
    also have "\<dots> \<le> c" by (rule div_times_less_eq_dividend)
    finally show ?thesis
      using assms by (intro node_append) (meson le_trans mult_le_mono1)
  qed
  then show ?thesis
    unfolding canon_def by (intro arg_cong[of _ _ concat] map_cong) (auto simp del: power_Suc)
qed

lemma chunks_within: "(n - 1) div CHUNK_BYTES * CHUNK_BYTES \<le> n"
  using div_times_less_eq_dividend[of "n - 1" CHUNK_BYTES] by linarith

lemma writer_limit_bounds:
  "CHUNK_BYTES + 1 \<le> (64 - c mod 64) * CHUNK_BYTES + 1" "(64 - c mod 64) * CHUNK_BYTES + 1 \<le> BUFFER_BYTES"
proof -
  have "1 \<le> 64 - c mod 64" by (simp add: Suc_le_eq)
  then have "1 * CHUNK_BYTES \<le> (64 - c mod 64) * CHUNK_BYTES" by (rule mult_le_mono1)
  then show "CHUNK_BYTES + 1 \<le> (64 - c mod 64) * CHUNK_BYTES + 1" by simp
  have "(64 - c mod 64) * CHUNK_BYTES \<le> 64 * CHUNK_BYTES" by (intro mult_le_mono1) simp
  then show "(64 - c mod 64) * CHUNK_BYTES + 1 \<le> BUFFER_BYTES" by (simp add: BUFFER_BYTES_def)
qed

lemma hashed_within: "hashed w * CHUNK_BYTES \<le> counted w"
  unfolding hashed_def by (rule chunks_within)

lemma writer_new_rep:
  assumes "length bs < 2 ^ 64"
  shows "writer_rep bl (writer_new (state_of bl bs)) bs"
proof -
  let ?w = "writer_new (state_of bl bs)"
  have n: "counted ?w = length bs"
    using assms by (simp add: counted_def writer_new_def state_of_def Let_def unat_of_nat_less)
  have c: "hashed ?w = (length bs - 1) div CHUNK_BYTES" by (simp add: hashed_def n)
  have "length bs - hashed ?w * CHUNK_BYTES \<le> CHUNK_BYTES"
    unfolding c CHUNK_BYTES_def by linarith
  then have lim: "length bs - hashed ?w * CHUNK_BYTES < (64 - hashed ?w mod 64) * CHUNK_BYTES + 1"
    using writer_limit_bounds(1)[of "hashed ?w"] by linarith
  have "completed_chunks (of_nat (length bs)) = hashed ?w"
    using n by (simp add: completed_chunks_eq hashed_def counted_def writer_new_def state_of_def Let_def)
  with lim c show ?thesis
    unfolding writer_rep_def n
    by (simp only:) (simp add: writer_new_def state_of_def Let_def)
qed

lemma writer_rep_extend:
  assumes "writer_rep bl w bs" and "length (w_buf w) + length v \<le> w_limit w"
  shows "buf_extend (w_buf w) v = Inr (w_buf w @ v)"
    and "length (w_buf w) + length v < w_limit w \<Longrightarrow> writer_rep bl (w\<lparr>w_buf := w_buf w @ v\<rparr>) (bs @ v)"
proof -
  note r = writer_repD[OF assms(1)]
  have c: "hashed w * CHUNK_BYTES \<le> length bs" using r(1) hashed_within[of w] by linarith
  show "buf_extend (w_buf w) v = Inr (w_buf w @ v)"
    using assms(2) writer_limit_bounds(2)[of "hashed w"] r(5) by (simp add: buf_extend_def)
  have same: "counted (w\<lparr>w_buf := x\<rparr>) = counted w" "hashed (w\<lparr>w_buf := x\<rparr>) = hashed w" for x
    by (simp_all add: counted_def hashed_def)
  show "writer_rep bl (w\<lparr>w_buf := w_buf w @ v\<rparr>) (bs @ v)" if "length (w_buf w) + length v < w_limit w"
    using r that canon_append[OF c] c by (simp add: writer_rep_def same)
qed

text \<open>Committing the buffer, for any writer whose buffer is at most the array.\<close>

abbreviation "stream_overflow \<equiv> InvalidData ''stream byte count overflows u64''"

lemma consume_nonfinal_rep:
  assumes "blake3_laws bl" and "counted w \<le> length bs" and "frontier (w_stream w) = canon bl bs 0 (hashed w)"
    and "w_buf w = drop (hashed w * CHUNK_BYTES) bs" and "w_accounted w = counted w - hashed w * CHUNK_BYTES"
    and "length (w_buf w) \<le> BUFFER_BYTES"
  shows "consume_nonfinal bl w =
    (if length bs < 2 ^ 64
     then Inr (w\<lparr>w_stream := (w_stream w)\<lparr>total_bytes := of_nat (length bs),
                 frontier := canon bl bs 0 ((length bs - 1) div CHUNK_BYTES)\<rparr>\<rparr>,
               ((length bs - 1) div CHUNK_BYTES - hashed w) * CHUNK_BYTES)
     else Inl stream_overflow)"
proof -
  let ?t = "total_bytes (w_stream w)"
  have cc: "completed_chunks ?t = hashed w" by (simp add: completed_chunks_eq hashed_def counted_def)
  have added: "length (w_buf w) - w_accounted w = length bs - counted w"
    using assms(2,4,5) hashed_within[of w] by simp
  have small: "length bs - counted w < 2 ^ 64"
    using assms(6) added by (simp add: BUFFER_BYTES_def CHUNK_BYTES_def)
  have a: "unat (of_nat (length bs - counted w) :: u64) = length bs - counted w"
    using small by (intro unat_of_nat_less) simp
  show ?thesis
  proof (cases "length bs < 2 ^ 64")
    case True
    then have "checked_add ?t (of_nat (length bs - counted w)) = Some (of_nat (length bs))"
      using assms(2) a by (simp only: checked_add_Some_iff) (simp add: unat_of_nat_less counted_def)
    moreover have "consume_loop bl (w_buf w) (canon bl bs 0 (hashed w)) (hashed w) 0 =
        Inr (canon bl bs 0 ((length bs - 1) div CHUNK_BYTES), ((length bs - 1) div CHUNK_BYTES - hashed w) * CHUNK_BYTES)"
      using consume_loop_canon[OF assms(1) True, of "hashed w" "hashed w"] assms(2,4)
      by (simp add: hashed_def div_le_mono diff_le_mono)
    ultimately show ?thesis
      using True by (simp only: consume_nonfinal_def Let_def added cc assms(3)) simp
  next
    case False
    then have "checked_add ?t (of_nat (length bs - counted w)) = None"
      using assms(2) a by (simp only: checked_add_None_iff) (simp add: counted_def)
    with False show ?thesis by (simp only: consume_nonfinal_def Let_def added) simp
  qed
qed

lemma writer_flush_rep:
  assumes "blake3_laws bl" and "writer_rep bl w bs" and "length (w_buf w) + length v = w_limit w"
  shows "if length (bs @ v) < 2 ^ 64
         then \<exists>w'. writer_flush bl (w\<lparr>w_buf := w_buf w @ v\<rparr>) = Inr w' \<and> writer_rep bl w' (bs @ v)
         else writer_flush bl (w\<lparr>w_buf := w_buf w @ v\<rparr>) = Inl stream_overflow"
proof -
  note r = writer_repD[OF assms(2)]
  define c where "c = hashed w"
  define C where "C = c + (64 - c mod 64)"
  define bs' where "bs' = bs @ v"
  let ?w = "w\<lparr>w_buf := w_buf w @ v\<rparr>"
  have w: "counted ?w = counted w" "hashed ?w = c" by (simp_all add: counted_def hashed_def c_def)
  have cb: "c * CHUNK_BYTES \<le> length bs" using r(1) hashed_within[of w] by (simp add: c_def)
  have len: "length bs' = C * CHUNK_BYTES + 1"
  proof -
    have "length bs' = c * CHUNK_BYTES + w_limit w" using assms(3) r(3) cb by (simp add: bs'_def c_def)
    also have "\<dots> = (c + (64 - c mod 64)) * CHUNK_BYTES + 1" unfolding r(5) c_def by (simp only: add_mult_distrib add.assoc)
    finally show ?thesis by (simp only: C_def)
  qed
  then have C: "(length bs' - 1) div CHUNK_BYTES = C" by (simp add: CHUNK_BYTES_def)
  have C64: "C mod 64 = 0" unfolding C_def by presburger
  have buf: "w_buf w @ v = drop (c * CHUNK_BYTES) bs'" using cb by (simp add: r(3) c_def bs'_def)
  have consume: "consume_nonfinal bl ?w =
    (if length bs' < 2 ^ 64
     then Inr (?w\<lparr>w_stream := (w_stream w)\<lparr>total_bytes := of_nat (length bs'), frontier := canon bl bs' 0 C\<rparr>\<rparr>,
               (C - c) * CHUNK_BYTES)
     else Inl stream_overflow)"
    using consume_nonfinal_rep[OF assms(1), of ?w bs', unfolded w C] r canon_append[OF cb] assms(3)
      writer_limit_bounds(2)[of c] buf by (simp add: bs'_def c_def)
  show ?thesis
  proof (cases "length bs' < 2 ^ 64")
    case True
    let ?w' = "?w\<lparr>w_stream := (w_stream w)\<lparr>total_bytes := of_nat (length bs'), frontier := canon bl bs' 0 C\<rparr>,
        w_buf := [bs' ! (C * CHUNK_BYTES)], w_accounted := 1, w_limit := BUFFER_BYTES\<rparr>"
    have "c \<le> C" by (simp add: C_def)
    then have "c * CHUNK_BYTES + (C - c) * CHUNK_BYTES = C * CHUNK_BYTES" by (simp flip: add_mult_distrib)
    then have "index (w_buf w @ v) ((C - c) * CHUNK_BYTES) = Inr (bs' ! (C * CHUNK_BYTES))"
      using len by (simp add: index_def buf)
    then have flush: "writer_flush bl ?w = Inr ?w'" using True by (simp add: writer_flush_def consume)
    have n: "counted ?w' = length bs'" using True by (simp add: counted_def unat_of_nat_less)
    then have h: "hashed ?w' = C" by (simp only: hashed_def C)
    have "drop (C * CHUNK_BYTES) bs' = [bs' ! (C * CHUNK_BYTES)]"
      using len Cons_nth_drop_Suc[of "C * CHUNK_BYTES" bs'] by simp
    then have "writer_rep bl ?w' bs'"
      unfolding writer_rep_def n h using len C64 by (simp add: BUFFER_BYTES_def CHUNK_BYTES_def)
    with True flush show ?thesis by (auto simp: bs'_def)
  next
    case False
    then show ?thesis using consume by (simp add: writer_flush_def bs'_def)
  qed
qed

lemma put_across_boundary_rep:
  assumes "blake3_laws bl" and "writer_rep bl w bs"
  shows "(\<exists>w'. put_across_boundary bl w v = Inr w' \<and> writer_rep bl w' (bs @ v))
    \<or> (2 ^ 64 \<le> length (bs @ v) \<and> put_across_boundary bl w v = Inl stream_overflow)"
  using assms(2)
proof (induction "length v" arbitrary: w bs v rule: less_induct)
  case less
  let ?count = "min (length v) (w_limit w - length (w_buf w))"
  let ?w = "w\<lparr>w_buf := w_buf w @ take ?count v\<rparr>"
  have lt: "length (w_buf w) < w_limit w" using less.prems by (rule writer_repD(6))
  show ?case
  proof (cases "v = []")
    case True
    then show ?thesis using less.prems by (simp add: put_across_boundary.simps)
  next
    case False
    have le: "length (w_buf w) + length (take ?count v) \<le> w_limit w" using lt by auto
    note ext = writer_rep_extend[OF less.prems le]
    have step: "put_across_boundary bl w v =
      (if length (w_buf w @ take ?count v) = w_limit w
       then bind_res (writer_flush bl ?w) (\<lambda>w. put_across_boundary bl w (drop ?count v))
       else put_across_boundary bl ?w (drop ?count v))"
      using False lt ext(1) by (subst put_across_boundary.simps) (simp add: Let_def)
    have shorter: "length (drop ?count v) < length v" using False lt by (cases v) auto
    show ?thesis
    proof (cases "length (w_buf w @ take ?count v) = w_limit w")
      case True
      then have "if length (bs @ take ?count v) < 2 ^ 64
         then \<exists>w'. writer_flush bl ?w = Inr w' \<and> writer_rep bl w' (bs @ take ?count v)
         else writer_flush bl ?w = Inl stream_overflow"
        using writer_flush_rep[OF assms(1) less.prems, of "take ?count v"] by simp
      then consider (ok) w' where "writer_flush bl ?w = Inr w'" "writer_rep bl w' (bs @ take ?count v)"
        | (ovf) "2 ^ 64 \<le> length (bs @ take ?count v)" "writer_flush bl ?w = Inl stream_overflow"
        by (auto split: if_splits)
      then show ?thesis
      proof cases
        case ok
        then show ?thesis using less.hyps[OF shorter ok(2)] True by (simp add: step)
      next
        case ovf
        then show ?thesis using True by (simp add: step)
      qed
    next
      case neq: False
      then have "length (w_buf w) + length (take ?count v) < w_limit w" using le by simp
      from less.hyps[OF shorter ext(2)[OF this]] show ?thesis using neq by (simp add: step)
    qed
  qed
qed

lemma writer_put_rep:
  assumes "blake3_laws bl" and "writer_rep bl w bs"
  shows "(\<exists>w'. writer_put bl w v = Inr w' \<and> writer_rep bl w' (bs @ v))
    \<or> (2 ^ 64 \<le> length (bs @ v) \<and> writer_put bl w v = Inl stream_overflow)"
proof -
  have "length (w_buf w) < w_limit w" using assms(2) by (rule writer_repD(6))
  then show ?thesis
    using writer_rep_extend[OF assms(2), of v] put_across_boundary_rep[OF assms, of v]
    by (auto simp: writer_put_def)
qed

lemma writer_puts_rep:
  assumes "blake3_laws bl" and "writer_rep bl w bs"
  shows "(\<exists>w'. writer_puts bl w vs = Inr w' \<and> writer_rep bl w' (bs @ concat vs))
    \<or> (2 ^ 64 \<le> length (bs @ concat vs) \<and> writer_puts bl w vs = Inl stream_overflow)"
  using assms(2)
proof (induction vs arbitrary: w bs)
  case (Cons v vs)
  from writer_put_rep[OF assms(1) Cons.prems, of v] show ?case
  proof
    assume "\<exists>w'. writer_put bl w v = Inr w' \<and> writer_rep bl w' (bs @ v)"
    then obtain w' where "writer_put bl w v = Inr w'" "writer_rep bl w' (bs @ v)" by blast
    with Cons.IH[of w' "bs @ v"] show ?thesis by simp
  qed auto
qed simp

lemma writer_finish_rep:
  assumes "blake3_laws bl" and "writer_rep bl w bs"
  shows "writer_finish bl w = (if length bs < 2 ^ 64 then Inr (state_of bl bs) else Inl stream_overflow)"
proof -
  note r = writer_repD[OF assms(2)]
  let ?C = "(length bs - 1) div CHUNK_BYTES"
  have "hashed w \<le> ?C" using r(1) by (simp add: hashed_def div_le_mono diff_le_mono)
  then have cC: "hashed w * CHUNK_BYTES + (?C - hashed w) * CHUNK_BYTES = ?C * CHUNK_BYTES"
    by (simp flip: add_mult_distrib)
  have "slice (w_buf w) ((?C - hashed w) * CHUNK_BYTES) (length (w_buf w)) = Inr (drop (?C * CHUNK_BYTES) bs)"
    using cC chunks_within[of "length bs"] by (simp add: r(3) slice_def add.commute)
  moreover have "length (w_buf w) \<le> BUFFER_BYTES"
    using r(5,6) writer_limit_bounds(2)[of "hashed w"] by simp
  ultimately show ?thesis
    using consume_nonfinal_rep[OF assms(1) r(1-4)] by (simp add: writer_finish_def state_of_def Let_def)
qed

section \<open>The digest\<close>

definition low_nodes :: "blake3 \<Rightarrow> bytes \<Rightarrow> nat \<Rightarrow> nat \<Rightarrow> chaining_value list" where
  "low_nodes bl bs j c =
     concat (map (\<lambda>k. if odd (c div 2 ^ k) then [node bl bs (c div 2 ^ Suc k * 2 ^ Suc k) k] else [])
              (rev [0..<j]))"

lemma low_nodes_Suc:
  "low_nodes bl bs (Suc j) c =
     (if odd (c div 2 ^ j) then [node bl bs (c div 2 ^ Suc j * 2 ^ Suc j) j] else []) @ low_nodes bl bs j c"
  by (simp add: low_nodes_def)

lemma canon_split: "j \<le> 64 \<Longrightarrow> canon bl bs 0 c = canon bl bs j c @ low_nodes bl bs j c"
proof (induction j)
  case (Suc j)
  then show ?case using canon_step[of j bl bs c] low_nodes_Suc[of bl bs j c] by simp
qed (simp add: low_nodes_def)

lemma chunk_count_bounds:
  assumes "c = (n - 1) div CHUNK_BYTES" and "0 < c"
  shows "n \<le> (c + 1) * CHUNK_BYTES" and "c * CHUNK_BYTES < n" and "n < 2 ^ 64 \<Longrightarrow> c < 2 ^ 54"
proof -
  have m: "c * CHUNK_BYTES + (n - 1) mod CHUNK_BYTES = n - 1" "(n - 1) mod CHUNK_BYTES < CHUNK_BYTES"
    unfolding assms(1) by (rule div_mult_mod_eq) (simp add: CHUNK_BYTES_def)
  moreover have "0 < n" using assms by (cases n) auto
  ultimately show "n \<le> (c + 1) * CHUNK_BYTES" "c * CHUNK_BYTES < n"
    by (simp_all add: add_mult_distrib)
  with m show "c < 2 ^ 54" if "n < 2 ^ 64" using that by (simp add: CHUNK_BYTES_def)
qed

text \<open>Folding the low nodes into the last chunk gives the subtree of everything they cover.\<close>

lemma fold_low_nodes:
  assumes "blake3_laws bl" and "length bs < 2 ^ 64" and "c = (length bs - 1) div CHUNK_BYTES" and "0 < c"
  shows "foldr (b3_merge bl) (low_nodes bl bs j c) (subtree_cv bl c (drop (c * CHUNK_BYTES) bs)) =
    subtree_cv bl (c div 2 ^ j * 2 ^ j) (drop (c div 2 ^ j * 2 ^ j * CHUNK_BYTES) bs)"
proof (induction j)
  case (Suc j)
  let ?s = "c div 2 ^ j * 2 ^ j" and ?t = "c div 2 ^ Suc j * 2 ^ Suc j"
  show ?case
  proof (cases "odd (c div 2 ^ j)")
    case False
    have "c div 2 ^ Suc j = c div 2 ^ j div 2" by (simp only: power_Suc2 div_mult2_eq)
    then have "?s = ?t" using False by (simp add: algebra_simps)
    with Suc False show ?thesis by (simp add: low_nodes_Suc)
  next
    case True
    have "c div 2 ^ j = 2 * (c div 2 ^ Suc j) + 1"
      using True by (simp only: power_Suc2 div_mult2_eq) (metis odd_two_times_div_two_succ)
    then have s: "?s = ?t + 2 ^ j" by (simp add: algebra_simps)
    define ys where "ys = drop (?t * CHUNK_BYTES) bs"
    have tc: "?t + 2 ^ j \<le> c" unfolding s[symmetric] by (rule div_times_less_eq_dividend)
    have "c < ?t + 2 ^ Suc j"
    proof -
      have "c mod 2 ^ Suc j < 2 ^ Suc j" by simp
      with div_mult_mod_eq[of c "2 ^ Suc j"] show ?thesis by linarith
    qed
    then have "c + 1 \<le> ?t + 2 ^ Suc j" by simp
    then have "(c + 1) * CHUNK_BYTES \<le> (?t + 2 ^ Suc j) * CHUNK_BYTES" by (rule mult_le_mono1)
    moreover have n: "length bs \<le> (c + 1) * CHUNK_BYTES" "c * CHUNK_BYTES < length bs"
      by (rule chunk_count_bounds[OF assms(3,4)])+
    ultimately have up: "length ys \<le> 2 ^ Suc j * CHUNK_BYTES" by (simp add: ys_def add_mult_distrib)
    have "(?t + 2 ^ j) * CHUNK_BYTES \<le> c * CHUNK_BYTES" using tc by (rule mult_le_mono1)
    with n(2) have lo: "2 ^ j * CHUNK_BYTES < length ys" by (simp add: ys_def add_mult_distrib)
    have "?t * CHUNK_BYTES \<le> length bs" using tc n(2) mult_le_mono1[of ?t c CHUNK_BYTES] by linarith
    note l = left_subtree_len_eq[OF lo up]
    have "b3_subtree bl (?t * CHUNK_BYTES) ys =
      b3_merge bl (b3_subtree bl (?t * CHUNK_BYTES) (take (2 ^ j * CHUNK_BYTES) ys))
        (b3_subtree bl (?t * CHUNK_BYTES + 2 ^ j * CHUNK_BYTES) (drop (2 ^ j * CHUNK_BYTES) ys))"
    proof (rule blake3_lawsD(1)[OF assms(1) _ _ _ _ l[symmetric]])
      show "CHUNK_BYTES < length ys" using lo mult_le_mono1[OF one_le_power[of "2 :: nat" j], of CHUNK_BYTES] by linarith
      show "length ys \<le> CHUNK_BYTES * 2 ^ Suc j" using up by (simp add: mult.commute)
      show "CHUNK_BYTES * 2 ^ Suc j dvd ?t * CHUNK_BYTES" by (simp add: mult.commute)
      show "?t * CHUNK_BYTES + length ys < 2 ^ 64"
        using assms(2) \<open>?t * CHUNK_BYTES \<le> length bs\<close> by (simp add: ys_def)
    qed
    moreover have "drop (2 ^ j * CHUNK_BYTES) ys = drop (?s * CHUNK_BYTES) bs"
      unfolding s by (simp add: ys_def add_mult_distrib add.commute)
    ultimately show ?thesis
      using Suc True unfolding low_nodes_Suc node_def subtree_cv_def ys_def[symmetric]
      by (simp only: not_False_eq_True if_True foldr.simps foldr_append comp_apply s add_mult_distrib id_apply)
  qed
qed (simp add: low_nodes_def)

lemma digest_state_of:
  assumes "blake3_laws bl" and "length bs < 2 ^ 64"
  shows "digest bl (state_of bl bs) = b3_hash bl bs"
proof -
  define c where "c = (length bs - 1) div CHUNK_BYTES"
  have n: "unat (of_nat (length bs) :: u64) = length bs" using assms(2) by (intro unat_of_nat_less) simp
  then have cc: "completed_chunks (of_nat (length bs)) = c" by (simp add: completed_chunks_eq c_def)
  have st: "state_of bl bs = \<lparr>total_bytes = of_nat (length bs), frontier = canon bl bs 0 c,
      tail = drop (c * CHUNK_BYTES) bs\<rparr>"
    by (simp add: state_of_def c_def Let_def)
  show ?thesis
  proof (cases "c = 0")
    case True
    then have "canon bl bs 0 c = []" by (simp add: canon_def)
    with True show ?thesis by (simp add: digest_def st)
  next
    case False
    define k where "k = bit_len c - 1"
    have k: "2 ^ k \<le> c" "c < 2 ^ Suc k"
      using bit_len_lower[of c] bit_len_upper[of c] False by (simp_all add: k_def)
    have "0 < c" using False by simp
    note len = chunk_count_bounds[OF c_def this]
    have "c < 2 ^ 54" by (rule len(3)[OF assms(2)])
    with k(1) have "(2 :: nat) ^ k < 2 ^ 54" by linarith
    then have "k < 54" by (simp only: power_strict_increasing_iff one_less_numeral_iff semiring_norm)
    then have k64: "k < 64" by simp
    have ck: "c div 2 ^ k = 1" "c div 2 ^ Suc k = 0"
      using k by (simp_all add: div_nat_eqI)
    have "canon bl bs (Suc k) c = []"
    proof -
      have "canon bl bs (Suc k) c = canon bl bs (Suc k) 0" by (rule canon_cong) (simp only: ck div_0)
      then show ?thesis by (simp add: canon_def)
    qed
    then have "canon bl bs k c = [node bl bs 0 k]"
      using canon_step[OF k64, of bl bs c] ck by (simp del: power_Suc)
    then have fr: "canon bl bs 0 c = node bl bs 0 k # low_nodes bl bs k c"
      using canon_split[of k bl bs c] k64 by simp
    have fold: "foldr (b3_merge bl) (low_nodes bl bs k c) (subtree_cv bl c (drop (c * CHUNK_BYTES) bs)) =
        subtree_cv bl (2 ^ k) (drop (2 ^ k * CHUNK_BYTES) bs)"
      using fold_low_nodes[OF assms c_def, of k] False ck(1) by simp
    have l: "left_subtree_len (length bs) = 2 ^ k * CHUNK_BYTES"
    proof (rule left_subtree_len_eq)
      show "2 ^ k * CHUNK_BYTES < length bs" using len(2) mult_le_mono1[OF k(1), of CHUNK_BYTES] by linarith
      show "length bs \<le> 2 ^ Suc k * CHUNK_BYTES"
        using len(1) k(2) mult_le_mono1[of "c + 1" "2 ^ Suc k" CHUNK_BYTES] by linarith
    qed
    have "CHUNK_BYTES < length bs" using len(2) False by (simp add: CHUNK_BYTES_def)
    from blake3_lawsD(2)[OF assms(1) this assms(2) l[symmetric]]
    show ?thesis
      using fold by (simp add: digest_def st fr cc node_def subtree_cv_def foldr_conv_fold)
  qed
qed

section \<open>The wire form\<close>

definition stream_ok :: "stream_state \<Rightarrow> bool" where
  "stream_ok st \<longleftrightarrow>
     length (frontier st) = count_ones (completed_chunks (total_bytes st))
     \<and> length (tail st) = tail_len (total_bytes st)"

lemma count_ones_bound: "n < 2 ^ m \<Longrightarrow> count_ones n \<le> m"
proof (induction m arbitrary: n)
  case (Suc m)
  then have "count_ones (n div 2) \<le> m" by (simp add: less_mult_imp_div_less mult.commute)
  moreover have "n mod 2 \<le> 1" by simp
  ultimately show ?case by (subst count_ones.simps) (simp del: One_nat_def)
qed (simp add: count_ones.simps)

lemma count_ones_filter: "n < 2 ^ m \<Longrightarrow> count_ones n = length (filter (\<lambda>k. odd (n div 2 ^ k)) [0..<m])"
proof (induction m arbitrary: n)
  case (Suc m)
  have "count_ones (n div 2) = length (filter (\<lambda>k. odd (n div 2 div 2 ^ k)) [0..<m])"
    using Suc by (simp add: less_mult_imp_div_less mult.commute)
  moreover have "[0..<Suc m] = 0 # map Suc [0..<m]" by (simp only: map_Suc_upt upt_conv_Cons zero_less_Suc One_nat_def)
  then have "filter (\<lambda>k. odd (n div 2 ^ k)) [0..<Suc m] =
      (if odd n then [0] else []) @ map Suc (filter (\<lambda>k. odd (n div 2 div 2 ^ k)) [0..<m])"
    by (simp add: filter_map comp_def div_mult2_eq del: upt_Suc)
  ultimately show ?case
    by (cases "n = 0") (simp_all add: count_ones.simps[of n] count_ones.simps[of 0] mod_2_eq_odd del: upt_Suc)
qed (simp add: count_ones.simps)

lemma length_canon:
  assumes "c < 2 ^ 64"
  shows "length (canon bl bs 0 c) = count_ones c"
proof -
  have "length (concat (map (\<lambda>k. if P k then [f k] else []) xs)) = length (filter P xs)"
    for P :: "nat \<Rightarrow> bool" and f :: "nat \<Rightarrow> chaining_value" and xs by (induction xs) auto
  then show ?thesis
    by (simp add: canon_def count_ones_filter[OF assms] rev_filter[symmetric] del: upt_Suc power_Suc)
qed

lemma completed_chunks_bound: "completed_chunks n < 2 ^ 54"
  using unsigned_less[of n, where ?'a = nat] by (simp add: completed_chunks_eq CHUNK_BYTES_def)

lemma tail_len_eq: "tail_len n = unat n - completed_chunks n * CHUNK_BYTES"
proof (cases "n = 0")
  case False
  then have u: "unat (n - 1) = unat n - 1" "0 < unat n" by (simp_all add: unat_minus_one unat_gt_0)
  have "(unat n - 1) mod CHUNK_BYTES + 1 = unat n - (unat n - 1) div CHUNK_BYTES * CHUNK_BYTES"
    using div_mult_mod_eq[of "unat n - 1" CHUNK_BYTES] u(2) by linarith
  with False u(1) show ?thesis by (simp only: tail_len_def completed_chunks_eq if_False)
qed (simp add: tail_len_def)

lemma tail_len_bound: "tail_len n \<le> CHUNK_BYTES"
proof -
  have "unat (n - 1) mod CHUNK_BYTES < CHUNK_BYTES" by (simp add: CHUNK_BYTES_def)
  then show ?thesis by (simp add: tail_len_def)
qed

lemma state_of_ok:
  assumes "length bs < 2 ^ 64"
  shows "stream_ok (state_of bl bs)"
proof -
  have n: "unat (of_nat (length bs) :: u64) = length bs" using assms by (intro unat_of_nat_less) simp
  have "(length bs - 1) div CHUNK_BYTES < 2 ^ 64" using assms by (simp add: CHUNK_BYTES_def)
  from length_canon[OF this] show ?thesis
    by (simp add: stream_ok_def state_of_def Let_def completed_chunks_eq tail_len_eq n)
qed

lemma length_concat_slices [simp]: "length (concat (map as_slice (cvs :: b256 list))) = length cvs * 32"
  by (induction cvs) auto

lemma chunks_exact_slices: "chunks_exact 32 (concat (map as_slice (cvs :: b256 list))) = map as_slice cvs"
proof (induction cvs)
  case Nil
  then show ?case by (simp add: chunks_exact.simps)
next
  case (Cons cv cvs)
  then show ?case by (subst chunks_exact.simps) simp
qed

lemma as_from_slice:
  assumes "length b = 32"
  shows "as_slice (from_slice b :: b256) = b"
  using assms by (simp add: as_slice_def from_slice_def to_from_le_bytes)

lemma stream_from_bytes_Inr_iff:
  "stream_from_bytes b = Inr st \<longleftrightarrow>
     HEADER_BYTES \<le> length b \<and> length b \<le> MAX_ENCODED_BYTES \<and> b ! 0 = STREAM_VERSION
     \<and> total_bytes st = from_le_bytes (take 8 (drop 1 b))
     \<and> length b = 9 + count_ones (completed_chunks (total_bytes st)) * 32 + tail_len (total_bytes st)
     \<and> frontier st = map from_slice (chunks_exact 32 (take (count_ones (completed_chunks (total_bytes st)) * 32) (drop 9 b)))
     \<and> tail st = drop (9 + count_ones (completed_chunks (total_bytes st)) * 32) b"
proof (cases "HEADER_BYTES \<le> length b \<and> length b \<le> MAX_ENCODED_BYTES")
  case True
  define t where "t = (from_le_bytes (take 8 (drop 1 b)) :: u64)"
  have t: "slice b 1 HEADER_BYTES = Inr (take 8 (drop 1 b))" "index b 0 = Inr (b ! 0)" "9 \<le> length b"
    using True by (auto simp: HEADER_BYTES_def index_def)
  define k where "k = count_ones (completed_chunks t)"
  have eq: "stream_from_bytes b =
    (if b ! 0 \<noteq> STREAM_VERSION then Inl (InvalidData ''unsupported stream state version'')
     else if length b \<noteq> 9 + k * 32 + tail_len t
     then Inl (InvalidData ''stream byte count, frontier and tail length disagree'')
     else Inr \<lparr>total_bytes = t, frontier = map from_slice (chunks_exact 32 (take (k * 32) (drop 9 b))),
              tail = drop (9 + k * 32) b\<rparr>)"
    using True t(3)
    unfolding stream_from_bytes_def t(1,2) bind_res_simps Let_def t_def[symmetric] k_def[symmetric]
    by (simp add: HEADER_BYTES_def)
  have "total_bytes st = t \<Longrightarrow> count_ones (completed_chunks (total_bytes st)) = k" by (simp add: k_def)
  with True show ?thesis
    unfolding eq t_def[symmetric] by (cases st) auto
next
  case False
  then have "stream_from_bytes b \<noteq> Inr st"
    unfolding stream_from_bytes_def by (simp only: not_False_eq_True if_True sum.distinct simp_thms)
  with False show ?thesis by blast
qed

lemma stream_bytes_iff: "stream_from_bytes b = Inr st \<longleftrightarrow> b = stream_to_bytes st \<and> stream_ok st"
proof
  assume st: "stream_from_bytes b = Inr st"
  note r = st[unfolded stream_from_bytes_Inr_iff, THEN conjunct2, THEN conjunct2]
  note * = st[unfolded stream_from_bytes_Inr_iff, THEN conjunct1] r[THEN conjunct1]
    r[THEN conjunct2, THEN conjunct1] r[THEN conjunct2, THEN conjunct2, THEN conjunct1]
    r[THEN conjunct2, THEN conjunct2, THEN conjunct2, THEN conjunct1]
    r[THEN conjunct2, THEN conjunct2, THEN conjunct2, THEN conjunct2]
  have h: "9 \<le> length b" using *(1) by (simp add: HEADER_BYTES_def)
  define k where "k = count_ones (completed_chunks (total_bytes st))"
  define cvs where "cvs = take (k * 32) (drop 9 b)"
  have len: "length cvs = k * 32" using *(4) by (simp add: cvs_def k_def)
  have ch: "concat (chunks_exact 32 cvs) = cvs" "length (chunks_exact 32 cvs) = k"
    "\<forall>c \<in> set (chunks_exact 32 cvs). length c = 32"
    using chunks_exact_exact[of 32 cvs] len by simp_all
  have fr: "frontier st = map from_slice (chunks_exact 32 cvs)" using *(5) by (simp add: cvs_def k_def)
  have "map as_slice (frontier st) = chunks_exact 32 cvs"
    using ch(3) by (simp add: fr as_from_slice map_idI)
  then have "concat (map as_slice (frontier st)) = cvs" using ch(1) by simp
  moreover have "to_le_bytes (total_bytes st) = take 8 (drop 1 b)"
    using h by (simp add: *(3) to_from_le_bytes)
  moreover have "b = b ! 0 # take 8 (drop 1 b) @ cvs @ drop (9 + k * 32) b"
  proof -
    have "drop 9 b = cvs @ drop (9 + k * 32) b"
      using append_take_drop_id[of "k * 32" "drop 9 b"] by (simp add: cvs_def add.commute)
    moreover have "drop 1 b = take 8 (drop 1 b) @ drop 9 b"
      using append_take_drop_id[of 8 "drop 1 b"] by simp
    moreover have "b = b ! 0 # drop 1 b" using h by (cases b) auto
    ultimately show ?thesis by metis
  qed
  ultimately have "b = stream_to_bytes st" using *(2,6) by (simp add: stream_to_bytes_def k_def)
  moreover have "stream_ok st" using *(4,6) ch(2) by (simp add: stream_ok_def fr k_def)
  ultimately show "b = stream_to_bytes st \<and> stream_ok st" by blast
next
  assume r: "b = stream_to_bytes st \<and> stream_ok st"
  have k: "length (frontier st) = count_ones (completed_chunks (total_bytes st))"
    and t: "length (tail st) = tail_len (total_bytes st)"
    using r by (simp_all add: stream_ok_def)
  have "length (frontier st) \<le> 54" using count_ones_bound[OF completed_chunks_bound] by (simp add: k)
  moreover have "length (tail st) \<le> 1024" using tail_len_bound by (simp add: t CHUNK_BYTES_def)
  moreover define hd cvs where "hd = STREAM_VERSION # to_le_bytes (total_bytes st)"
    and "cvs = concat (map as_slice (frontier st))"
  have b: "b = hd @ cvs @ tail st" and lens: "length hd = 9" "length cvs = length (frontier st) * 32"
    using r by (simp_all add: stream_to_bytes_def hd_def cvs_def)
  have parts: "take 8 (drop 1 b) = to_le_bytes (total_bytes st)" "b ! 0 = STREAM_VERSION"
    by (simp_all add: b hd_def)
  have "drop 9 b = cvs @ tail st" by (simp add: b lens)
  then have cv: "take (length (frontier st) * 32) (drop 9 b) = cvs" by (simp add: lens)
  have tl: "drop (9 + length (frontier st) * 32) b = tail st"
    using append_eq_conv_conj[of "hd @ cvs" "tail st" b] b lens by simp
  have len: "length b = 9 + length (frontier st) * 32 + length (tail st)" by (simp add: b lens)
  ultimately show "stream_from_bytes b = Inr st"
    unfolding stream_from_bytes_Inr_iff parts k[symmetric] t[symmetric] cv tl
    by (simp add: len HEADER_BYTES_def MAX_ENCODED_BYTES_def MAX_FRONTIER_def CHUNK_BYTES_def
        cvs_def chunks_exact_slices from_as_slice map_idI)
qed

section \<open>Properties\<close>

lemma stream_append_helper:
  assumes "blake3_laws bl" and "length a < 2 ^ 64"
  shows "bind_res (writer_puts bl (writer_new (state_of bl a)) vs) (writer_finish bl) =
    (if length (a @ concat vs) < 2 ^ 64 then Inr (state_of bl (a @ concat vs)) else Inl stream_overflow)"
  using writer_puts_rep[OF assms(1) writer_new_rep[OF assms(2)], of vs] writer_finish_rep[OF assms(1)]
  by auto

text \<open>
  C26. Extending a stream is independent of how the input is cut: any sequence of
  \<^verbatim>\<open>put\<close>s on a writer resumed from the state of \<open>a\<close>, followed by \<^verbatim>\<open>finish\<close>, gives
  the state of all the bytes, and the only error is a byte count beyond 64 bits.
\<close>

theorem stream_append:
  assumes "blake3_laws bl" and "length a < 2 ^ 64"
  shows "bind_res (writer_puts bl (writer_new (state_of bl a)) vs) (writer_finish bl) =
    (if length (a @ concat vs) < 2 ^ 64 then Inr (state_of bl (a @ concat vs))
     else Inl (InvalidData ''stream byte count overflows u64''))"
  by (rule stream_append_helper[OF assms])

text \<open>An additive stand-in satisfies the tree laws.\<close>

definition additive_blake3 :: blake3 where
  "additive_blake3 =
     \<lparr>b3_subtree = (\<lambda>_ bs. sum_list (map ucast bs)), b3_merge = (+), b3_merge_root = (+),
      b3_hash = (\<lambda>bs. sum_list (map ucast bs))\<rparr>"

lemma additive_blake3_laws: "blake3_laws additive_blake3"
proof -
  have "sum_list (map ucast (take l bs)) + sum_list (map ucast (drop l bs)) = (sum_list (map ucast bs) :: b256)"
    for l and bs :: bytes
    by (metis append_take_drop_id map_append sum_list_append)
  then show ?thesis by (simp add: blake3_laws_def additive_blake3_def Let_def)
qed

theorem stream_append_witness:
  "bind_res (writer_puts additive_blake3 (writer_new (state_of additive_blake3 [1, 2])) [[3], [], [4, 5]])
     (writer_finish additive_blake3) = Inr (state_of additive_blake3 [1, 2, 3, 4, 5])"
  using stream_append[OF additive_blake3_laws, of "[1, 2]" "[[3], [], [4, 5]]"] by simp

text \<open>
  C27. The digest of the state of a byte string is the ordinary BLAKE3 hash of the
  whole string, although the state keeps only the last chunk and at most 54
  chaining values.
\<close>

theorem stream_digest:
  assumes "blake3_laws bl" and "length bs < 2 ^ 64"
  shows "digest bl (state_of bl bs) = b3_hash bl bs \<and> length (frontier (state_of bl bs)) \<le> MAX_FRONTIER"
  using digest_state_of[OF assms] state_of_ok[OF assms(2), of bl]
    count_ones_bound[OF completed_chunks_bound[of "total_bytes (state_of bl bs)"]]
  by (simp add: stream_ok_def MAX_FRONTIER_def)

theorem stream_digest_witness:
  "digest additive_blake3 (state_of additive_blake3 (replicate 3000 1)) = b3_hash additive_blake3 (replicate 3000 1)"
  using stream_digest[OF additive_blake3_laws, of "replicate 3000 1"] by simp

text \<open>
  C28. The wire form of a stream state is canonical: \<^verbatim>\<open>from_bytes\<close> accepts exactly
  the encodings of states whose frontier and tail have the sizes their byte
  count determines, and returns the encoded state.
\<close>

theorem stream_wire_canonical:
  "stream_from_bytes b = Inr st \<longleftrightarrow> b = stream_to_bytes st \<and> stream_ok st"
  by (rule stream_bytes_iff)

end
