(* ===== verification/Row_Commitment.thy ===== *)
theory Row_Commitment
  imports Log_Types Stream_Commitment
begin

text \<open>
  The identity of a segment's logical row prefix,
  \<^verbatim>\<open>src/crates/logex-storage/src/commitment.rs\<close>: \<^verbatim>\<open>PrefixState\<close> keeps the row count
  and the resumable stream over the rows' encoding, and caches the root hash that
  readers compare.  The results: extending a prefix is the state of all the rows
  however they were grouped, the row encoding is uniquely decodable, so that a
  root determines namespace and rows up to an explicit hash collision, and the
  dry-run validation accepts exactly the appends that succeed.
\<close>

section \<open>Definitions\<close>

type_synonym namespace = "128 word"

record prefix_state =
  ps_namespace :: namespace
  ps_rows :: u64
  ps_stream :: stream_state
  ps_root :: b256

definition PREFIX_MAX_ENCODED_BYTES :: usize where
  "PREFIX_MAX_ENCODED_BYTES = 24 + MAX_ENCODED_BYTES"

definition prefix_domain :: bytes where
  "prefix_domain = map of_char ''logex.logical-prefix.stream.v2'' @ [0]"

definition root_preimage :: "namespace \<Rightarrow> u64 \<Rightarrow> u64 \<Rightarrow> b256 \<Rightarrow> bytes" where
  "root_preimage ns rows byte_len stream_digest =
     prefix_domain @ as_slice ns @ to_le_bytes rows @ to_le_bytes byte_len @ as_slice stream_digest"

definition from_parts :: "blake3 \<Rightarrow> namespace \<Rightarrow> u64 \<Rightarrow> stream_state \<Rightarrow> prefix_state" where
  "from_parts bl ns rows stream =
     \<lparr>ps_namespace = ns, ps_rows = rows, ps_stream = stream,
      ps_root = b3_hash bl (root_preimage ns rows (total_bytes stream) (digest bl stream))\<rparr>"

definition prefix_empty :: "blake3 \<Rightarrow> namespace \<Rightarrow> prefix_state" where
  "prefix_empty bl ns = from_parts bl ns 0 stream_new"

text \<open>
  The pieces that \<^verbatim>\<open>extend\<close> puts into the writer for a topic, for the fixed
  fields of a row and for its payload.
\<close>

definition topic_pieces :: "b256 option \<Rightarrow> bytes list" where
  "topic_pieces t = (case t of Some topic \<Rightarrow> [[1], as_slice topic] | None \<Rightarrow> [[0]])"

definition row_fields :: "log_row \<Rightarrow> bytes list" where
  "row_fields row =
     [to_le_bytes (lr_block_number row), as_slice (lr_block_hash row), to_le_bytes (lr_timestamp row),
      as_slice (lr_tx_hash row), to_le_bytes (lr_tx_index row), to_le_bytes (lr_log_index row),
      as_slice (lr_address row)]
     @ concat (map topic_pieces (row_topics row))
     @ [to_le_bytes (lr_data_len row)]"

definition row_payload :: "log_row \<Rightarrow> u64 \<Rightarrow> bytes list" where
  "row_payload row len = [to_le_bytes len, lr_data row, [source_as_u8 (lr_source row)]]"

text \<open>\<^verbatim>\<open>u64::try_from\<close> of a length, with \<^verbatim>\<open>map_err(io::Error::other)\<close>.\<close>

definition u64_len :: "'a list \<Rightarrow> u64 res" where
  "u64_len xs = ok_or (try_u64 (length xs)) (OtherError ''out of range integral type conversion attempted'')"

fun put_rows :: "blake3 \<Rightarrow> stream_writer \<Rightarrow> log_row list \<Rightarrow> stream_writer res" where
  "put_rows bl encoded [] = Inr encoded"
| "put_rows bl encoded (row # rows) =
     bind_res (writer_puts bl encoded (row_fields row)) (\<lambda>encoded.
     bind_res (u64_len (lr_data row)) (\<lambda>len.
     bind_res (writer_puts bl encoded (row_payload row len)) (\<lambda>encoded.
     put_rows bl encoded rows)))"

definition prefix_extend :: "blake3 \<Rightarrow> prefix_state \<Rightarrow> log_row list \<Rightarrow> prefix_state res" where
  "prefix_extend bl st rows =
     bind_res (u64_len rows) (\<lambda>n.
     bind_res (ok_or (checked_add (ps_rows st) n) (InvalidInput ''logical row count overflow'')) (\<lambda>row_count.
     bind_res (put_rows bl (writer_new (ps_stream st)) rows) (\<lambda>encoded.
     bind_res (writer_finish bl encoded) (\<lambda>stream.
     Inr (from_parts bl (ps_namespace st) row_count stream)))))"

definition prefix_from_rows :: "blake3 \<Rightarrow> namespace \<Rightarrow> log_row list \<Rightarrow> prefix_state res" where
  "prefix_from_rows bl ns rows = prefix_extend bl (prefix_empty bl ns) rows"

definition prefix_validate :: "prefix_state \<Rightarrow> namespace \<Rightarrow> u64 \<Rightarrow> b256 \<Rightarrow> unit res" where
  "prefix_validate st ns rows root =
     (if ps_namespace st \<noteq> ns \<or> ps_rows st \<noteq> rows \<or> ps_root st \<noteq> root
      then Inl (InvalidData ''logical append state differs from its published prefix'')
      else if (rows = 0) \<noteq> (total_bytes (ps_stream st) = 0)
        \<or> (case checked_mul rows 125 of None \<Rightarrow> True | Some minimum \<Rightarrow> total_bytes (ps_stream st) < minimum)
      then Inl (InvalidData ''invalid logical append row/byte boundary'')
      else Inr ())"

definition checked_row_end :: "u64 \<Rightarrow> u64 \<Rightarrow> u64 \<Rightarrow> u64 res" where
  "checked_row_end previous topics payload =
     ok_or (Option.bind (checked_add previous (125 + 32 * topics)) (\<lambda>bytes. checked_add bytes payload))
       (InvalidInput ''logical transcript length overflow'')"

definition topic_count :: "log_row \<Rightarrow> u64" where
  "topic_count row = of_nat (length (filter (\<lambda>t. t \<noteq> None) (row_topics row)))"

fun validate_rows :: "u64 \<Rightarrow> row_bounds option \<Rightarrow> log_row list \<Rightarrow> row_bounds option res" where
  "validate_rows bytes bounds [] = Inr bounds"
| "validate_rows bytes bounds (row # rows) =
     (let bounds = (case bounds of Some b \<Rightarrow> bounds_include b row | None \<Rightarrow> bounds_from_row row)
      in bind_res (u64_len (lr_data row)) (\<lambda>payload.
         bind_res (checked_row_end bytes (topic_count row) payload) (\<lambda>bytes.
         validate_rows bytes (Some bounds) rows)))"

definition validate_new_append ::
  "prefix_state \<Rightarrow> namespace \<Rightarrow> b256 \<Rightarrow> log_row list \<Rightarrow> row_bounds option res" where
  "validate_new_append st ns root rows =
     bind_res (prefix_validate st ns 0 root) (\<lambda>_.
     bind_res (u64_len rows) (\<lambda>n.
     bind_res (ok_or (checked_add (ps_rows st) n) (InvalidInput ''logical row count overflow'')) (\<lambda>_.
     validate_rows (total_bytes (ps_stream st)) None rows)))"

definition prefix_to_bytes :: "prefix_state \<Rightarrow> bytes" where
  "prefix_to_bytes st =
     as_slice (ps_namespace st) @ to_le_bytes (ps_rows st) @ stream_to_bytes (ps_stream st)"

definition prefix_from_bytes :: "blake3 \<Rightarrow> bytes \<Rightarrow> prefix_state res" where
  "prefix_from_bytes bl bytes =
     (if \<not> (24 \<le> length bytes \<and> length bytes \<le> PREFIX_MAX_ENCODED_BYTES)
      then Inl (InvalidData ''invalid logical append state length'')
      else
        bind_res (slice bytes 0 16) (\<lambda>ns.
        bind_res (slice bytes 16 24) (\<lambda>rows.
        bind_res (slice_from bytes 24) (\<lambda>rest.
        bind_res (stream_from_bytes rest) (\<lambda>stream.
        let st = from_parts bl (from_slice ns) (from_le_bytes rows) stream
        in bind_res (prefix_validate st (ps_namespace st) (ps_rows st) (ps_root st)) (\<lambda>_. Inr st))))))"

definition verify :: "blake3 \<Rightarrow> namespace \<Rightarrow> b256 option \<Rightarrow> log_row list \<Rightarrow> prefix_state option res" where
  "verify bl ns expected rows =
     (case expected of
        None \<Rightarrow> Inr None
      | Some expected \<Rightarrow>
          bind_res (prefix_from_rows bl ns rows) (\<lambda>st.
          if ps_root st \<noteq> expected
          then Inl (InvalidData ''committed logical prefix differs from its content commitment'')
          else Inr (Some st)))"

definition validate_state ::
  "namespace option \<Rightarrow> u64 \<Rightarrow> b256 option \<Rightarrow> prefix_state option \<Rightarrow> unit res" where
  "validate_state ns rows root st =
     (case (ns, root, st) of
        (Some ns, Some root, Some st) \<Rightarrow> prefix_validate st ns rows root
      | (_, None, None) \<Rightarrow> Inr ()
      | _ \<Rightarrow> Inl (InvalidData ''missing or orphan logical append state''))"

record append_revision =
  ar_previous :: "b256 option"
  ar_next :: "b256 option"
  ar_state :: "prefix_state option"

definition append_revision_new :: "blake3 \<Rightarrow> prefix_state option \<Rightarrow> log_row list \<Rightarrow> append_revision res" where
  "append_revision_new bl previous rows =
     bind_res (case previous of None \<Rightarrow> Inr None
                | Some st \<Rightarrow> bind_res (prefix_extend bl st rows) (\<lambda>s. Inr (Some s))) (\<lambda>state.
     Inr \<lparr>ar_previous = map_option ps_root previous, ar_next = map_option ps_root state, ar_state = state\<rparr>)"

section \<open>The transcript\<close>

definition row_bytes :: "log_row \<Rightarrow> bytes" where
  "row_bytes row = concat (row_fields row @ row_payload row (of_nat (length (lr_data row))))"

definition transcript :: "log_row list \<Rightarrow> bytes" where
  "transcript rows = concat (map row_bytes rows)"

text \<open>The state of a whole row list, and the error for a transcript that is too long.\<close>

definition prefix_of :: "blake3 \<Rightarrow> namespace \<Rightarrow> log_row list \<Rightarrow> prefix_state" where
  "prefix_of bl ns rows = from_parts bl ns (of_nat (length rows)) (state_of bl (transcript rows))"

lemma transcript_simps [simp]:
  "transcript [] = []"
  "transcript (row # rows) = row_bytes row @ transcript rows"
  "transcript (rows @ rows') = transcript rows @ transcript rows'"
  by (simp_all add: transcript_def)

lemma length_row_bytes:
  "length (row_bytes row) =
     125 + 32 * length (filter (\<lambda>t. t \<noteq> None) (row_topics row)) + length (lr_data row)"
  by (auto simp: row_bytes_def row_fields_def row_payload_def row_topics_def topic_pieces_def split: option.split)

lemma length_transcript_ge: "125 * length rows \<le> length (transcript rows)"
  by (induction rows) (simp_all add: length_row_bytes)

text \<open>Rows that fit in memory: the list and every payload have a 64-bit length.\<close>

definition addressable :: "log_row list \<Rightarrow> bool" where
  "addressable rows \<longleftrightarrow> length rows < 2 ^ 64 \<and> (\<forall>row \<in> set rows. length (lr_data row) < 2 ^ 64)"

lemma u64_len_eq: "u64_len xs =
    (if length xs < 2 ^ 64 then Inr (of_nat (length xs))
     else Inl (OtherError ''out of range integral type conversion attempted''))"
  by (simp add: u64_len_def try_u64_def)

lemma writer_puts_append:
  "writer_puts bl w (xs @ ys) = bind_res (writer_puts bl w xs) (\<lambda>w. writer_puts bl w ys)"
  by (induction xs arbitrary: w) (simp_all add: bind_res_assoc)

lemma put_rows_eq:
  assumes "\<forall>row \<in> set rows. length (lr_data row) < 2 ^ 64"
  shows "put_rows bl w rows =
    writer_puts bl w (concat (map (\<lambda>row. row_fields row @ row_payload row (of_nat (length (lr_data row)))) rows))"
  using assms
  by (induction rows arbitrary: w) (simp_all add: writer_puts_append bind_res_assoc u64_len_eq)

lemma put_rows_InrD: "put_rows bl w rows = Inr w' \<Longrightarrow> \<forall>row \<in> set rows. length (lr_data row) < 2 ^ 64"
  by (induction rows arbitrary: w) (auto simp: bind_res_Inr_iff u64_len_eq split: if_splits)

lemma transcript_pieces:
  "concat (concat (map (\<lambda>row. row_fields row @ row_payload row (of_nat (length (lr_data row)))) rows)) = transcript rows"
  by (induction rows) (simp_all add: row_bytes_def)

lemma state_of_Nil: "state_of bl [] = stream_new"
  by (simp add: state_of_def stream_new_def canon_def Let_def)

lemma prefix_empty_eq: "prefix_empty bl ns = prefix_of bl ns []"
  by (simp add: prefix_empty_def prefix_of_def state_of_Nil)

lemma prefix_of_sel [simp]:
  "ps_namespace (prefix_of bl ns rows) = ns"
  "ps_rows (prefix_of bl ns rows) = of_nat (length rows)"
  "ps_stream (prefix_of bl ns rows) = state_of bl (transcript rows)"
  by (simp_all add: prefix_of_def from_parts_def)

lemma total_bytes_state_of [simp]: "total_bytes (state_of bl bs) = of_nat (length bs)"
  by (simp add: state_of_def Let_def)

lemma prefix_extend_eq:
  assumes "blake3_laws bl" and "length (transcript a) < 2 ^ 64" and "addressable (a @ b)"
  shows "prefix_extend bl (prefix_of bl ns a) b =
    (if length (transcript (a @ b)) < 2 ^ 64 then Inr (prefix_of bl ns (a @ b)) else Inl stream_overflow)"
proof -
  have len: "length a + length b < 2 ^ 64" and data: "\<forall>row \<in> set b. length (lr_data row) < 2 ^ 64"
    using assms(3) by (auto simp: addressable_def)
  have n: "unat (of_nat (length a) :: u64) = length a" "unat (of_nat (length b) :: u64) = length b"
    using len by (intro unat_of_nat_less; simp)+
  have add: "checked_add (of_nat (length a)) (of_nat (length b)) = Some (of_nat (length a + length b) :: u64)"
    using len by (simp add: checked_add_def n)
  have "bind_res (put_rows bl (writer_new (state_of bl (transcript a))) b) (writer_finish bl) =
    (if length (transcript (a @ b)) < 2 ^ 64 then Inr (state_of bl (transcript (a @ b))) else Inl stream_overflow)"
    unfolding put_rows_eq[OF data] stream_append_helper[OF assms(1,2)] transcript_pieces by simp
  then show ?thesis
    using len by (simp add: prefix_extend_def u64_len_eq add bind_res_assoc[symmetric] prefix_of_def from_parts_def)
qed

lemma prefix_from_rows_eq:
  assumes "blake3_laws bl" and "addressable rows"
  shows "prefix_from_rows bl ns rows =
    (if length (transcript rows) < 2 ^ 64 then Inr (prefix_of bl ns rows) else Inl stream_overflow)"
  using prefix_extend_eq[OF assms(1), of "[]" rows ns] assms(2)
  by (simp add: prefix_from_rows_def prefix_empty_eq)

lemma prefix_from_rows_InrD:
  assumes "blake3_laws bl" and "prefix_from_rows bl ns rows = Inr st"
  shows "addressable rows" and "length (transcript rows) < 2 ^ 64" and "st = prefix_of bl ns rows"
proof -
  show *: "addressable rows"
    using assms(2)
    by (auto simp: addressable_def prefix_from_rows_def prefix_extend_def bind_res_Inr_iff u64_len_eq
        split: if_splits dest: put_rows_InrD)
  show "length (transcript rows) < 2 ^ 64" "st = prefix_of bl ns rows"
    using assms(2) by (auto simp: prefix_from_rows_eq[OF assms(1) *] split: if_splits)
qed

section \<open>Unique decodability\<close>

lemma same_length_append:
  "length a = length b \<Longrightarrow> a @ xs = b @ ys \<longleftrightarrow> a = b \<and> xs = ys"
  by simp

lemma to_le_bytes_append [simp]:
  "to_le_bytes (a :: u64) @ xs = to_le_bytes b @ ys \<longleftrightarrow> a = b \<and> xs = ys"
  "to_le_bytes (c :: u32) @ xs = to_le_bytes d @ ys \<longleftrightarrow> c = d \<and> xs = ys"
  by (auto simp: to_le_bytes_inject)

lemma as_slice_append [simp]:
  "as_slice (a :: b256) @ xs = as_slice b @ ys \<longleftrightarrow> a = b \<and> xs = ys"
  "as_slice (c :: address) @ xs = as_slice d @ ys \<longleftrightarrow> c = d \<and> xs = ys"
  "as_slice (e :: namespace) @ xs = as_slice f @ ys \<longleftrightarrow> e = f \<and> xs = ys"
  by (auto simp: as_slice_inject)

lemma topic_append [simp]:
  "concat (topic_pieces t) @ xs = concat (topic_pieces u) @ ys \<longleftrightarrow> t = u \<and> xs = ys"
  by (cases t; cases u) (auto simp: topic_pieces_def)

lemma row_bytes_expand:
  "row_bytes row @ xs =
     to_le_bytes (lr_block_number row) @ as_slice (lr_block_hash row) @ to_le_bytes (lr_timestamp row)
     @ as_slice (lr_tx_hash row) @ to_le_bytes (lr_tx_index row) @ to_le_bytes (lr_log_index row)
     @ as_slice (lr_address row) @ concat (topic_pieces (lr_topic0 row))
     @ concat (topic_pieces (lr_topic1 row)) @ concat (topic_pieces (lr_topic2 row))
     @ concat (topic_pieces (lr_topic3 row)) @ to_le_bytes (lr_data_len row)
     @ to_le_bytes (of_nat (length (lr_data row)) :: u64) @ lr_data row
     @ source_as_u8 (lr_source row) # xs"
  by (simp add: row_bytes_def row_fields_def row_payload_def row_topics_def)

lemma row_bytes_append:
  assumes "length (lr_data r) < 2 ^ 64" and "length (lr_data r') < 2 ^ 64"
  shows "row_bytes r @ xs = row_bytes r' @ ys \<longleftrightarrow> r = r' \<and> xs = ys"
proof
  assume *: "row_bytes r @ xs = row_bytes r' @ ys"
  then have "of_nat (length (lr_data r)) = (of_nat (length (lr_data r')) :: u64)"
    unfolding row_bytes_expand to_le_bytes_append as_slice_append topic_append by (elim conjE)
  then have "length (lr_data r) = length (lr_data r')"
    using assms by (metis length_of_nat_u64)
  with * show "r = r' \<and> xs = ys"
    unfolding row_bytes_expand to_le_bytes_append as_slice_append topic_append
    by (auto intro!: log_row.equality)
qed simp

lemma transcript_inj_helper:
  assumes "\<forall>row \<in> set a. length (lr_data row) < 2 ^ 64" and "\<forall>row \<in> set b. length (lr_data row) < 2 ^ 64"
    and "transcript a = transcript b"
  shows "a = b"
  using assms
proof (induction a arbitrary: b)
  case Nil
  then show ?case using length_transcript_ge[of b] by simp
next
  case (Cons r a)
  show ?case
  proof (cases b)
    case Nil
    with Cons.prems(3) show ?thesis using length_transcript_ge[of "r # a"] by simp
  next
    case (Cons r' b')
    with Cons.prems row_bytes_append[of r r' "transcript a" "transcript b'"] Cons.IH[of b']
    show ?thesis by simp
  qed
qed

lemma root_preimage_inject:
  "root_preimage ns rows n d = root_preimage ns' rows' n' d' \<longleftrightarrow> ns = ns' \<and> rows = rows' \<and> n = n' \<and> d = d'"
  by (auto simp: root_preimage_def as_slice_inject)

section \<open>Validation\<close>

lemma prefix_validate_Inr_iff:
  "prefix_validate st ns rows root = Inr () \<longleftrightarrow>
     ps_namespace st = ns \<and> ps_rows st = rows \<and> ps_root st = root
     \<and> (unat rows = 0 \<longleftrightarrow> unat (total_bytes (ps_stream st)) = 0)
     \<and> unat rows * 125 \<le> unat (total_bytes (ps_stream st))"
proof -
  have "(case checked_mul rows 125 of None \<Rightarrow> True | Some minimum \<Rightarrow> total_bytes (ps_stream st) < minimum) \<longleftrightarrow>
    unat (total_bytes (ps_stream st)) < unat rows * 125"
    using unsigned_less[of "total_bytes (ps_stream st)", where ?'a = nat]
    by (auto simp: checked_mul_def word_less_nat_alt unat_word_ariths)
  then show ?thesis
    by (auto simp: prefix_validate_def unat_eq_zero)
qed

lemma prefix_of_validates:
  assumes "length (transcript rows) < 2 ^ 64"
  shows "prefix_validate (prefix_of bl ns rows) ns (of_nat (length rows)) (ps_root (prefix_of bl ns rows)) = Inr ()"
proof -
  have "length rows < 2 ^ 64" using assms length_transcript_ge[of rows] by linarith
  then show ?thesis
    using length_of_nat_u64[of rows] length_of_nat_u64[OF assms] length_transcript_ge[of rows]
    by (cases rows) (auto simp: prefix_validate_Inr_iff length_row_bytes)
qed

lemma topic_count_bound: "length (filter (\<lambda>t. t \<noteq> None) (row_topics row)) \<le> 4"
  by (simp add: row_topics_def)

lemma checked_row_end_eq:
  assumes "length (lr_data row) < 2 ^ 64"
  shows "checked_row_end previous (topic_count row) (of_nat (length (lr_data row))) =
    (if unat previous + length (row_bytes row) < 2 ^ 64
     then Inr (of_nat (unat previous + length (row_bytes row)))
     else Inl (InvalidInput ''logical transcript length overflow''))"
proof -
  define k where "k = length (filter (\<lambda>t. t \<noteq> None) (row_topics row))"
  have k: "k \<le> 4" using topic_count_bound by (simp add: k_def)
  have "topic_count row = of_nat k" by (simp add: topic_count_def k_def)
  then have "125 + 32 * topic_count row = (of_nat (125 + 32 * k) :: u64)" by simp
  then have fixed: "unat (125 + 32 * topic_count row) = 125 + 32 * k"
    using k by (simp only:) (rule unat_of_nat_less, simp)
  have len: "length (row_bytes row) = 125 + 32 * k + length (lr_data row)"
    by (simp add: length_row_bytes k_def)
  define f where "f = 125 + 32 * topic_count row"
  have f: "unat f = 125 + 32 * k" using fixed by (simp add: f_def)
  have word: "of_nat (unat previous + (unat f + length (lr_data row))) = previous + f + of_nat (length (lr_data row))"
    by simp
  show ?thesis
  proof (cases "unat previous + unat f < 2 ^ 64")
    case True
    then have "unat (previous + f) = unat previous + unat f" by (simp add: unat_plus_simple[THEN iffD1] word_le_nat_alt unat_word_ariths)
    with True show ?thesis
      unfolding checked_row_end_def f_def[symmetric] len f[symmetric]
      by (simp add: checked_add_def length_of_nat_u64[OF assms] add.assoc)
  next
    case False
    then show ?thesis unfolding checked_row_end_def f_def[symmetric] len f[symmetric]
      by (simp add: checked_add_def)
  qed
qed

lemma bounds_from_rows_snoc:
  "bounds_from_rows (before @ [row]) =
     Some (case bounds_from_rows before of Some b \<Rightarrow> bounds_include b row | None \<Rightarrow> bounds_from_row row)"
  by (simp add: bounds_from_rows_eq exact_bounds_snoc exact_bounds_singleton)

lemma validate_rows_eq:
  assumes "\<forall>row \<in> set rows. length (lr_data row) < 2 ^ 64"
  shows "validate_rows p (bounds_from_rows before) rows =
    (if unat p + length (transcript rows) < 2 ^ 64 then Inr (bounds_from_rows (before @ rows))
     else Inl (InvalidInput ''logical transcript length overflow''))"
  using assms
proof (induction rows arbitrary: p before)
  case Nil
  then show ?case using unsigned_less[of p, where ?'a = nat] by simp
next
  case (Cons row rows)
  have data: "length (lr_data row) < 2 ^ 64" using Cons.prems by simp
  show ?case
  proof (cases "unat p + length (row_bytes row) < 2 ^ 64")
    case True
    have "unat (of_nat (unat p + length (row_bytes row)) :: u64) = unat p + length (row_bytes row)"
      by (rule unat_of_nat_less) (use True in simp)
    moreover have "validate_rows p (bounds_from_rows before) (row # rows) =
      validate_rows (of_nat (unat p + length (row_bytes row))) (bounds_from_rows (before @ [row])) rows"
      using True data by (simp add: u64_len_eq checked_row_end_eq bounds_from_rows_snoc Let_def del: of_nat_add)
    ultimately show ?thesis
      using Cons.IH[of "of_nat (unat p + length (row_bytes row))" "before @ [row]"] Cons.prems
      by (simp add: add.assoc)
  next
    case False
    then show ?thesis using data by (simp add: u64_len_eq checked_row_end_eq Let_def)
  qed
qed

lemma prefix_from_bytes_Inr_iff:
  "prefix_from_bytes bl b = Inr st \<longleftrightarrow>
     24 \<le> length b \<and> length b \<le> PREFIX_MAX_ENCODED_BYTES
     \<and> (\<exists>stream. stream_from_bytes (drop 24 b) = Inr stream
        \<and> st = from_parts bl (from_slice (take 16 b)) (from_le_bytes (take 8 (drop 16 b))) stream)
     \<and> (unat (ps_rows st) = 0 \<longleftrightarrow> unat (total_bytes (ps_stream st)) = 0)
     \<and> unat (ps_rows st) * 125 \<le> unat (total_bytes (ps_stream st))"
  by (auto simp: prefix_from_bytes_def Let_def bind_res_Inr_iff prefix_validate_Inr_iff slice_def)

lemma length_stream_to_bytes:
  "stream_ok st \<Longrightarrow> length (stream_to_bytes st) \<le> MAX_ENCODED_BYTES"
  using count_ones_bound[OF completed_chunks_bound[of "total_bytes st"]] tail_len_bound[of "total_bytes st"]
  by (simp add: stream_to_bytes_def stream_ok_def MAX_ENCODED_BYTES_def HEADER_BYTES_def MAX_FRONTIER_def)

text \<open>A state as its constructors leave it: sized stream, possible row count, cached root up to date.\<close>

definition prefix_ok :: "blake3 \<Rightarrow> prefix_state \<Rightarrow> bool" where
  "prefix_ok bl st \<longleftrightarrow>
     stream_ok (ps_stream st) \<and> from_parts bl (ps_namespace st) (ps_rows st) (ps_stream st) = st
     \<and> (unat (ps_rows st) = 0 \<longleftrightarrow> unat (total_bytes (ps_stream st)) = 0)
     \<and> unat (ps_rows st) * 125 \<le> unat (total_bytes (ps_stream st))"

lemma prefix_bytes_iff: "prefix_from_bytes bl b = Inr st \<longleftrightarrow> b = prefix_to_bytes st \<and> prefix_ok bl st"
proof
  assume "prefix_from_bytes bl b = Inr st"
  then obtain stream where len: "24 \<le> length b"
    and stream: "stream_from_bytes (drop 24 b) = Inr stream"
    and st: "st = from_parts bl (from_slice (take 16 b)) (from_le_bytes (take 8 (drop 16 b))) stream"
    and rows: "unat (ps_rows st) = 0 \<longleftrightarrow> unat (total_bytes (ps_stream st)) = 0"
      "unat (ps_rows st) * 125 \<le> unat (total_bytes (ps_stream st))"
    unfolding prefix_from_bytes_Inr_iff by (elim conjE exE)
  have sel: "ps_namespace st = from_slice (take 16 b)" "ps_rows st = from_le_bytes (take 8 (drop 16 b))"
    "ps_stream st = stream" by (simp_all add: st from_parts_def)
  have s: "stream_to_bytes stream = drop 24 b" "stream_ok stream"
    using stream by (simp_all add: stream_bytes_iff)
  have "as_slice (ps_namespace st) = take 16 b"
    using len by (simp add: sel as_slice_def from_slice_def to_from_le_bytes)
  moreover have "to_le_bytes (ps_rows st) = take 8 (drop 16 b)"
    unfolding sel by (rule to_from_le_bytes) (use len in simp_all)
  moreover have "take 16 b @ take 8 (drop 16 b) @ drop 24 b = b"
    using append_take_drop_id[of 16 b] append_take_drop_id[of 8 "drop 16 b"] by simp
  ultimately have "prefix_to_bytes st = b" by (simp add: prefix_to_bytes_def sel(3) s(1))
  moreover have "prefix_ok bl st" using rows s(2) unfolding prefix_ok_def sel by (intro conjI) (simp_all only: st)
  ultimately show "b = prefix_to_bytes st \<and> prefix_ok bl st" by simp
next
  assume b: "b = prefix_to_bytes st \<and> prefix_ok bl st"
  then have ok: "stream_ok (ps_stream st)" "from_parts bl (ps_namespace st) (ps_rows st) (ps_stream st) = st"
    "unat (ps_rows st) = 0 \<longleftrightarrow> unat (total_bytes (ps_stream st)) = 0"
    "unat (ps_rows st) * 125 \<le> unat (total_bytes (ps_stream st))"
    by (simp_all add: prefix_ok_def)
  have parts: "take 16 b = as_slice (ps_namespace st)" "take 8 (drop 16 b) = to_le_bytes (ps_rows st)"
    "drop 24 b = stream_to_bytes (ps_stream st)" "length b = 24 + length (stream_to_bytes (ps_stream st))"
    using b by (simp_all add: prefix_to_bytes_def)
  have "stream_from_bytes (drop 24 b) = Inr (ps_stream st)" by (simp add: parts stream_bytes_iff ok)
  then show "prefix_from_bytes bl b = Inr st"
    unfolding prefix_from_bytes_Inr_iff parts(1,2,4)
    using ok length_stream_to_bytes[OF ok(1)] by (simp add: PREFIX_MAX_ENCODED_BYTES_def from_as_slice)
qed

section \<open>Properties\<close>

definition sample_row :: log_row where
  "sample_row =
     \<lparr>lr_block_number = 7, lr_block_hash = 1, lr_timestamp = 2, lr_tx_hash = 3, lr_tx_index = 0,
      lr_log_index = 4, lr_address = 5, lr_topic0 = Some 6, lr_topic1 = None, lr_topic2 = None,
      lr_topic3 = None, lr_data = [8, 9], lr_data_len = 2, lr_source = Receipt\<rparr>"

lemma sample_addressable [simp]: "addressable [sample_row]" "addressable [sample_row, sample_row]"
  by (simp_all add: addressable_def sample_row_def)

lemma length_sample [simp]: "length (row_bytes sample_row) = 159"
  by (simp add: length_row_bytes row_topics_def sample_row_def)

lemma exact_bounds_sample [simp]:
  "exact_bounds [sample_row] =
     \<lparr>rb_row_count = 1, rb_min_block = 7, rb_max_block = 7, rb_min_timestamp = 2, rb_max_timestamp = 2\<rparr>"
  by (simp add: exact_bounds_def sample_row_def)

text \<open>
  C4. The committed prefix does not depend on how rows were grouped into appends:
  building the state of all rows at once is building it for a first part and
  extending that by the rest, errors included.
\<close>

theorem prefix_grouping:
  assumes "blake3_laws bl" and "addressable (a @ b)"
  shows "prefix_from_rows bl ns (a @ b) = bind_res (prefix_from_rows bl ns a) (\<lambda>st. prefix_extend bl st b)"
proof -
  have "addressable a" using assms(2) by (auto simp: addressable_def)
  then show ?thesis
    using prefix_extend_eq[OF assms(1) _ assms(2), of ns]
    by (simp add: prefix_from_rows_eq[OF assms(1)] assms(2))
qed

theorem prefix_grouping_witness:
  "prefix_from_rows additive_blake3 3 [sample_row, sample_row] =
     bind_res (prefix_from_rows additive_blake3 3 [sample_row]) (\<lambda>st. prefix_extend additive_blake3 st [sample_row])"
  using prefix_grouping[OF additive_blake3_laws, of "[sample_row]" "[sample_row]" 3] by simp

text \<open>Two different strings with one hash.\<close>

definition collision :: "blake3 \<Rightarrow> bytes \<Rightarrow> bytes \<Rightarrow> bool" where
  "collision bl x y \<longleftrightarrow> x \<noteq> y \<and> b3_hash bl x = b3_hash bl y"

lemma commitment_binding_helper:
  assumes bl: "blake3_laws bl"
    and st: "prefix_from_rows bl ns rows = Inr st" and st': "prefix_from_rows bl ns' rows' = Inr st'"
    and root: "ps_root st = ps_root st'"
  shows "ns = ns' \<and> rows = rows' \<or> collision bl (transcript rows) (transcript rows')
    \<or> collision bl
        (root_preimage ns (ps_rows st) (total_bytes (ps_stream st)) (digest bl (ps_stream st)))
        (root_preimage ns' (ps_rows st') (total_bytes (ps_stream st')) (digest bl (ps_stream st')))"
    (is "?same \<or> ?transcripts \<or> collision bl ?x ?y")
proof -
  note d = prefix_from_rows_InrD[OF bl st] and d' = prefix_from_rows_InrD[OF bl st']
  have hash: "b3_hash bl ?x = b3_hash bl ?y"
    using root by (simp add: d(3) d'(3) prefix_of_def from_parts_def)
  show ?thesis
  proof (cases "?x = ?y")
    case True
    then have "ns = ns'" and "digest bl (ps_stream st) = digest bl (ps_stream st')"
      by (simp_all add: root_preimage_inject)
    then have "b3_hash bl (transcript rows) = b3_hash bl (transcript rows')"
      using digest_state_of[OF bl d(2)] digest_state_of[OF bl d'(2)] by (simp add: d(3) d'(3))
    moreover have "transcript rows = transcript rows' \<Longrightarrow> rows = rows'"
      using d(1) d'(1) transcript_inj_helper[of rows rows'] by (simp add: addressable_def)
    ultimately show ?thesis using \<open>ns = ns'\<close> by (auto simp: collision_def)
  qed (use hash in \<open>simp add: collision_def\<close>)
qed

text \<open>
  C2. A root commits to its namespace and to every row: two states with the same
  root were built from the same namespace and the same rows, or the two row
  transcripts, or the two root preimages, are a collision of the hash.
\<close>

theorem commitment_binding:
  assumes "blake3_laws bl"
    and "prefix_from_rows bl ns rows = Inr st" and "prefix_from_rows bl ns' rows' = Inr st'"
    and "ps_root st = ps_root st'"
  shows "ns = ns' \<and> rows = rows' \<or> collision bl (transcript rows) (transcript rows')
    \<or> collision bl
        (root_preimage ns (ps_rows st) (total_bytes (ps_stream st)) (digest bl (ps_stream st)))
        (root_preimage ns' (ps_rows st') (total_bytes (ps_stream st')) (digest bl (ps_stream st')))"
  by (rule commitment_binding_helper[OF assms])

theorem commitment_binding_witness:
  "let st = prefix_of additive_blake3 3 [sample_row]
   in prefix_from_rows additive_blake3 3 [sample_row] = Inr st
      \<and> ((3 :: namespace) = 3 \<and> [sample_row] = [sample_row]
         \<or> collision additive_blake3 (transcript [sample_row]) (transcript [sample_row])
         \<or> collision additive_blake3
            (root_preimage 3 (ps_rows st) (total_bytes (ps_stream st)) (digest additive_blake3 (ps_stream st)))
            (root_preimage 3 (ps_rows st) (total_bytes (ps_stream st)) (digest additive_blake3 (ps_stream st))))"
  using commitment_binding[OF additive_blake3_laws, of 3 "[sample_row]" _ 3 "[sample_row]"]
  by (simp add: prefix_from_rows_eq[OF additive_blake3_laws] Let_def)

text \<open>
  C31. The persisted form of a prefix state is canonical: \<^verbatim>\<open>from_bytes\<close> accepts
  exactly the encodings of states with a sized stream, a possible row count and
  an up-to-date root, and every state built from rows is one of them.
\<close>

theorem prefix_wire_canonical:
  assumes "blake3_laws bl"
  shows "(prefix_from_bytes bl b = Inr st \<longleftrightarrow> b = prefix_to_bytes st \<and> prefix_ok bl st)
    \<and> (\<forall>s. prefix_from_rows bl ns rows = Inr s \<longrightarrow> prefix_from_bytes bl (prefix_to_bytes s) = Inr s)"
proof -
  have "prefix_ok bl s" if "prefix_from_rows bl ns rows = Inr s" for s
    using prefix_of_validates[OF prefix_from_rows_InrD(2)[OF assms that], of bl ns]
      state_of_ok[OF prefix_from_rows_InrD(2)[OF assms that], of bl]
    unfolding prefix_from_rows_InrD(3)[OF assms that] prefix_ok_def prefix_validate_Inr_iff
    by (simp add: prefix_of_def from_parts_def)
  then show ?thesis by (simp add: prefix_bytes_iff)
qed

theorem prefix_wire_canonical_witness:
  "let s = prefix_of additive_blake3 3 [sample_row]
   in prefix_from_bytes additive_blake3 (prefix_to_bytes s) = Inr s"
  using prefix_wire_canonical[OF additive_blake3_laws, of "[]" "prefix_of additive_blake3 3 []" 3 "[sample_row]"]
  by (simp add: prefix_from_rows_eq[OF additive_blake3_laws] Let_def)

text \<open>
  C30. The dry run of an append to an empty prefix is exact: it succeeds, with the
  exact row count and extrema, precisely when the append itself succeeds.
\<close>

theorem validate_new_append_exact:
  assumes "blake3_laws bl" and "addressable rows"
  shows "is_ok (validate_new_append (prefix_empty bl ns) ns (ps_root (prefix_empty bl ns)) rows)
      = is_ok (prefix_extend bl (prefix_empty bl ns) rows)
    \<and> (is_ok (prefix_extend bl (prefix_empty bl ns) rows) \<longrightarrow>
       validate_new_append (prefix_empty bl ns) ns (ps_root (prefix_empty bl ns)) rows =
         Inr (if rows = [] then None else Some (exact_bounds rows)))"
proof -
  have data: "\<forall>row \<in> set rows. length (lr_data row) < 2 ^ 64" and len: "length rows < 2 ^ 64"
    using assms(2) by (auto simp: addressable_def)
  have "prefix_validate (prefix_of bl ns []) ns 0 (ps_root (prefix_of bl ns [])) = Inr ()"
    using prefix_of_validates[of "[]" bl ns] by simp
  moreover have "checked_add 0 (of_nat (length rows)) = Some (of_nat (length rows) :: u64)"
    by (simp add: checked_add_Some_iff)
  ultimately show ?thesis
    using validate_rows_eq[OF data, of 0 "[]"] prefix_extend_eq[OF assms(1), of "[]" rows ns] assms(2) len
    by (simp add: validate_new_append_def prefix_empty_eq u64_len_eq bounds_from_rows_eq)
qed

theorem validate_new_append_exact_witness:
  "validate_new_append (prefix_empty additive_blake3 3) 3 (ps_root (prefix_empty additive_blake3 3)) [sample_row] =
     Inr (Some \<lparr>rb_row_count = 1, rb_min_block = 7, rb_max_block = 7, rb_min_timestamp = 2, rb_max_timestamp = 2\<rparr>)"
  using validate_new_append_exact[OF additive_blake3_laws, of "[sample_row]" 3]
    prefix_extend_eq[OF additive_blake3_laws, of "[]" "[sample_row]" 3]
  by (simp add: prefix_empty_eq)

text \<open>
  C29. A committed prefix is accepted only with its own rows: when the root was
  computed from \<open>rows\<close>, verifying other rows of the same namespace against it
  fails with an error or exhibits a collision, and verifying \<open>rows\<close> succeeds.
\<close>

theorem verify_sound:
  assumes "blake3_laws bl" and "prefix_from_rows bl ns rows = Inr st"
  shows "verify bl ns (Some (ps_root st)) rows = Inr (Some st)
    \<and> (verify bl ns (Some (ps_root st)) rows' = Inr r \<longrightarrow>
       rows' = rows \<or> collision bl (transcript rows) (transcript rows')
       \<or> (\<exists>st'. prefix_from_rows bl ns rows' = Inr st' \<and> collision bl
           (root_preimage ns (ps_rows st) (total_bytes (ps_stream st)) (digest bl (ps_stream st)))
           (root_preimage ns (ps_rows st') (total_bytes (ps_stream st')) (digest bl (ps_stream st')))))"
proof -
  have "verify bl ns (Some (ps_root st)) rows' = Inr r \<Longrightarrow>
    \<exists>st'. prefix_from_rows bl ns rows' = Inr st' \<and> ps_root st = ps_root st'"
    by (auto simp: verify_def bind_res_Inr_iff split: if_splits)
  then show ?thesis
    using commitment_binding_helper[OF assms, of ns rows'] assms(2) by (auto simp: verify_def)
qed

theorem verify_sound_witness:
  "let st = prefix_of additive_blake3 3 [sample_row]
   in verify additive_blake3 3 (Some (ps_root st)) [sample_row] = Inr (Some st)"
  using verify_sound[OF additive_blake3_laws, of 3 "[sample_row]"]
  by (simp add: prefix_from_rows_eq[OF additive_blake3_laws] Let_def)

end
