(* ===== verification/Chain_Spec.thy ===== *)
theory Chain_Spec
  imports Prelude
begin

text \<open>
  The consensus chain specification of \<^verbatim>\<open>src/crates/logex-cl/src/chain.rs\<close>: slots,
  epochs, the fork and blob schedules and the fork digests derived from them.
  SHA-256 is a parameter.  The results: between two scheduled epochs the fork
  version, the blob parameters and the digest are constant, and the version of a
  mainnet digest is recovered from it when the schedule's digests differ.
\<close>

section \<open>Definitions\<close>

unbundle bit_operations_syntax

type_synonym sha256 = "bytes \<Rightarrow> b256"

definition SECONDS_PER_SLOT :: u64 where
  "SECONDS_PER_SLOT = 12"

definition CONSENSUS_HEAD_FRESHNESS_TOLERANCE_SLOTS :: u64 where
  "CONSENSUS_HEAD_FRESHNESS_TOLERANCE_SLOTS = 4"

definition SLOTS_PER_EPOCH :: u64 where
  "SLOTS_PER_EPOCH = 32"

definition FAR_FUTURE_EPOCH :: u64 where
  "FAR_FUTURE_EPOCH = - 1"

record scheduled_fork =
  sf_epoch :: u64
  sf_version :: bytes

definition optimistic_head_lag_slots :: "u64 \<Rightarrow> u64 \<Rightarrow> u64" where
  "optimistic_head_lag_slots current_slot optimistic_slot = saturating_sub current_slot optimistic_slot"

definition optimistic_head_is_fresh_at :: "u64 \<Rightarrow> u64 \<Rightarrow> bool" where
  "optimistic_head_is_fresh_at current_slot optimistic_slot \<longleftrightarrow>
     optimistic_head_lag_slots current_slot optimistic_slot \<le> CONSENSUS_HEAD_FRESHNESS_TOLERANCE_SLOTS"

record blob_schedule_entry =
  bs_epoch :: u64
  bs_max_blobs_per_block :: u64

record blob_parameters =
  bp_epoch :: u64
  bp_max_blobs_per_block :: u64

record chain_spec =
  cs_genesis_time :: u64
  cs_genesis_block_root :: b256
  cs_genesis_validators_root :: b256
  cs_genesis_fork_version :: bytes
  cs_fork_schedule :: "scheduled_fork list"
  cs_fulu_fork_epoch :: u64
  cs_electra_max_blobs_per_block :: u64
  cs_blob_schedule :: "blob_schedule_entry list"

definition epoch_for_slot :: "u64 \<Rightarrow> u64" where
  "epoch_for_slot slot = slot div SLOTS_PER_EPOCH"

text \<open>The clock reading is \<open>None\<close> when the system time is before the Unix epoch.\<close>

definition wall_clock_slot :: "chain_spec \<Rightarrow> u64 option \<Rightarrow> u64" where
  "wall_clock_slot spec unix_now =
     saturating_sub (case unix_now of Some t \<Rightarrow> t | None \<Rightarrow> cs_genesis_time spec) (cs_genesis_time spec)
       div SECONDS_PER_SLOT"

definition wall_clock_epoch :: "chain_spec \<Rightarrow> u64 option \<Rightarrow> u64" where
  "wall_clock_epoch spec unix_now = wall_clock_slot spec unix_now div SLOTS_PER_EPOCH"

text \<open>The scan of the fork schedule, which stops at the first fork that is not active yet.\<close>

fun fork_scan :: "u64 \<Rightarrow> bytes \<Rightarrow> scheduled_fork list \<Rightarrow> bytes" where
  "fork_scan epoch version [] = version"
| "fork_scan epoch version (scheduled # rest) =
     (if sf_epoch scheduled \<le> epoch then fork_scan epoch (sf_version scheduled) rest else version)"

definition fork_version_for_epoch :: "chain_spec \<Rightarrow> u64 \<Rightarrow> bytes" where
  "fork_version_for_epoch spec epoch = fork_scan epoch (cs_genesis_fork_version spec) (cs_fork_schedule spec)"

definition spec_fork_data_root :: "sha256 \<Rightarrow> chain_spec \<Rightarrow> bytes \<Rightarrow> bytes" where
  "spec_fork_data_root sha spec version =
     as_slice (sha (version @ replicate 28 0 @ as_slice (cs_genesis_validators_root spec)))"

definition blob_parameters_for_epoch :: "chain_spec \<Rightarrow> u64 \<Rightarrow> blob_parameters" where
  "blob_parameters_for_epoch spec epoch =
     (case List.find (\<lambda>scheduled. bs_epoch scheduled \<le> epoch) (rev (cs_blob_schedule spec)) of
        Some scheduled \<Rightarrow>
          \<lparr>bp_epoch = bs_epoch scheduled, bp_max_blobs_per_block = bs_max_blobs_per_block scheduled\<rparr>
      | None \<Rightarrow>
          \<lparr>bp_epoch =
             (case List.find (\<lambda>scheduled. sf_version scheduled = [5, 0, 0, 0]) (cs_fork_schedule spec) of
                Some scheduled \<Rightarrow> sf_epoch scheduled | None \<Rightarrow> 0),
           bp_max_blobs_per_block = cs_electra_max_blobs_per_block spec\<rparr>)"

definition plain_fork_digest_for_version :: "sha256 \<Rightarrow> chain_spec \<Rightarrow> bytes \<Rightarrow> bytes" where
  "plain_fork_digest_for_version sha spec version = take 4 (spec_fork_data_root sha spec version)"

definition fork_digest_for_epoch :: "sha256 \<Rightarrow> chain_spec \<Rightarrow> u64 \<Rightarrow> bytes" where
  "fork_digest_for_epoch sha spec epoch =
     (let base_digest = spec_fork_data_root sha spec (fork_version_for_epoch spec epoch);
          fork_digest = take 4 base_digest
      in if epoch < cs_fulu_fork_epoch spec then fork_digest
         else
           let p = blob_parameters_for_epoch spec epoch;
               blob_hash = as_slice (sha (to_le_bytes (bp_epoch p) @ to_le_bytes (bp_max_blobs_per_block p)))
           in map2 (XOR) fork_digest (take 4 blob_hash))"

definition fork_version_for_digest :: "sha256 \<Rightarrow> chain_spec \<Rightarrow> bytes \<Rightarrow> bytes option" where
  "fork_version_for_digest sha spec digest =
     (if digest = plain_fork_digest_for_version sha spec (cs_genesis_fork_version spec)
      then Some (cs_genesis_fork_version spec)
      else case List.find (\<lambda>s. digest = plain_fork_digest_for_version sha spec (sf_version s)) (cs_fork_schedule spec) of
        Some scheduled \<Rightarrow> Some (sf_version scheduled)
      | None \<Rightarrow>
        if digest = fork_digest_for_epoch sha spec 0 then Some (fork_version_for_epoch spec 0)
        else case List.find (\<lambda>s. digest = fork_digest_for_epoch sha spec (sf_epoch s)) (cs_fork_schedule spec) of
          Some scheduled \<Rightarrow> Some (sf_version scheduled)
        | None \<Rightarrow>
          case List.find (\<lambda>s. digest = fork_digest_for_epoch sha spec (bs_epoch s)) (cs_blob_schedule spec) of
            Some scheduled \<Rightarrow> Some (fork_version_for_epoch spec (bs_epoch scheduled))
          | None \<Rightarrow> None)"

definition next_regular_fork_for_epoch :: "chain_spec \<Rightarrow> u64 \<Rightarrow> scheduled_fork option" where
  "next_regular_fork_for_epoch spec epoch = List.find (\<lambda>scheduled. epoch < sf_epoch scheduled) (cs_fork_schedule spec)"

definition next_scheduled_epoch_after :: "chain_spec \<Rightarrow> u64 \<Rightarrow> u64 option" where
  "next_scheduled_epoch_after spec epoch =
     (let next_regular_epoch = map_option sf_epoch (next_regular_fork_for_epoch spec epoch);
          next_blob_epoch = List.find (\<lambda>scheduled_epoch. epoch < scheduled_epoch) (map bs_epoch (cs_blob_schedule spec))
      in case (next_regular_epoch, next_blob_epoch) of
           (Some regular, Some blob) \<Rightarrow> Some (min regular blob)
         | (Some regular, None) \<Rightarrow> Some regular
         | (None, Some blob) \<Rightarrow> Some blob
         | (None, None) \<Rightarrow> None)"

definition enr_fork_id_for_epoch :: "sha256 \<Rightarrow> chain_spec \<Rightarrow> u64 \<Rightarrow> bytes" where
  "enr_fork_id_for_epoch sha spec epoch =
     (let current_version = fork_version_for_epoch spec epoch;
          next_fork_version =
            (case next_regular_fork_for_epoch spec epoch of Some s \<Rightarrow> sf_version s | None \<Rightarrow> current_version);
          next_fork_epoch =
            (case next_scheduled_epoch_after spec epoch of Some e \<Rightarrow> e | None \<Rightarrow> FAR_FUTURE_EPOCH)
      in fork_digest_for_epoch sha spec epoch @ next_fork_version @ to_le_bytes next_fork_epoch)"

definition next_fork_digest_for_epoch :: "sha256 \<Rightarrow> chain_spec \<Rightarrow> u64 \<Rightarrow> bytes" where
  "next_fork_digest_for_epoch sha spec epoch =
     (case next_scheduled_epoch_after spec epoch of
        Some next_epoch \<Rightarrow> fork_digest_for_epoch sha spec next_epoch
      | None \<Rightarrow> replicate 4 0)"

definition MAINNET_CONSENSUS_CHAIN_SPEC :: chain_spec where
  "MAINNET_CONSENSUS_CHAIN_SPEC =
     \<lparr>cs_genesis_time = 1606824023,
      cs_genesis_block_root = 0x4d611d5b93fdab69013a7f0a2f961caca0c853f87cfe9595fe50038163079360,
      cs_genesis_validators_root = 0x4b363db94e286120d76eb905340fdd4e54bfe9f06bf33ff6cf5ad27f511bfe95,
      cs_genesis_fork_version = [0, 0, 0, 0],
      cs_fork_schedule =
        [\<lparr>sf_epoch = 74240, sf_version = [1, 0, 0, 0]\<rparr>, \<lparr>sf_epoch = 144896, sf_version = [2, 0, 0, 0]\<rparr>,
         \<lparr>sf_epoch = 194048, sf_version = [3, 0, 0, 0]\<rparr>, \<lparr>sf_epoch = 269568, sf_version = [4, 0, 0, 0]\<rparr>,
         \<lparr>sf_epoch = 364032, sf_version = [5, 0, 0, 0]\<rparr>, \<lparr>sf_epoch = 411392, sf_version = [6, 0, 0, 0]\<rparr>],
      cs_fulu_fork_epoch = 411392,
      cs_electra_max_blobs_per_block = 9,
      cs_blob_schedule =
        [\<lparr>bs_epoch = 412672, bs_max_blobs_per_block = 15\<rparr>, \<lparr>bs_epoch = 419072, bs_max_blobs_per_block = 21\<rparr>]\<rparr>"

section \<open>Schedules\<close>

text \<open>A schedule is well formed when its epochs increase and Fulu is one of its forks.\<close>

definition spec_ok :: "chain_spec \<Rightarrow> bool" where
  "spec_ok spec \<longleftrightarrow>
     sorted_wrt (<) (map sf_epoch (cs_fork_schedule spec)) \<and> sorted_wrt (<) (map bs_epoch (cs_blob_schedule spec))
     \<and> cs_fulu_fork_epoch spec \<in> sf_epoch ` set (cs_fork_schedule spec)"

definition scheduled_epochs :: "chain_spec \<Rightarrow> u64 set" where
  "scheduled_epochs spec = sf_epoch ` set (cs_fork_schedule spec) \<union> bs_epoch ` set (cs_blob_schedule spec)"

text \<open>Two epochs that no scheduled epoch separates.\<close>

definition same_phase :: "chain_spec \<Rightarrow> u64 \<Rightarrow> u64 \<Rightarrow> bool" where
  "same_phase spec e e' \<longleftrightarrow> (\<forall>s \<in> scheduled_epochs spec. s \<le> e \<longleftrightarrow> s \<le> e')"

lemma fork_scan_cong:
  "\<forall>s \<in> set forks. sf_epoch s \<le> e \<longleftrightarrow> sf_epoch s \<le> e' \<Longrightarrow> fork_scan e v forks = fork_scan e' v forks"
  by (induction forks arbitrary: v) simp_all

lemma find_cong_set: "\<forall>x \<in> set xs. P x \<longleftrightarrow> Q x \<Longrightarrow> List.find P xs = List.find Q xs"
  by (induction xs) simp_all

lemma same_phase_digest:
  assumes "spec_ok spec" and "same_phase spec e e'"
  shows "fork_version_for_epoch spec e = fork_version_for_epoch spec e'"
    and "blob_parameters_for_epoch spec e = blob_parameters_for_epoch spec e'"
    and "fork_digest_for_epoch sha spec e = fork_digest_for_epoch sha spec e'"
proof -
  have "\<forall>s \<in> set (cs_fork_schedule spec). sf_epoch s \<le> e \<longleftrightarrow> sf_epoch s \<le> e'"
    and "\<forall>s \<in> set (rev (cs_blob_schedule spec)). bs_epoch s \<le> e \<longleftrightarrow> bs_epoch s \<le> e'"
    and fulu: "cs_fulu_fork_epoch spec \<le> e \<longleftrightarrow> cs_fulu_fork_epoch spec \<le> e'"
    using assms by (auto simp: same_phase_def scheduled_epochs_def spec_ok_def)
  from fork_scan_cong[OF this(1)] find_cong_set[OF this(2)]
  show v: "fork_version_for_epoch spec e = fork_version_for_epoch spec e'"
    and b: "blob_parameters_for_epoch spec e = blob_parameters_for_epoch spec e'"
    by (simp_all add: fork_version_for_epoch_def blob_parameters_for_epoch_def)
  show "fork_digest_for_epoch sha spec e = fork_digest_for_epoch sha spec e'"
    using fulu by (auto simp: fork_digest_for_epoch_def Let_def v b not_less[symmetric])
qed

lemma find_least:
  assumes "sorted_wrt (<) (map f xs)" and "List.find (\<lambda>x. e < f x) xs = r"
  shows "case r of None \<Rightarrow> \<forall>x \<in> set xs. f x \<le> (e :: u64)
    | Some x \<Rightarrow> x \<in> set xs \<and> e < f x \<and> (\<forall>y \<in> set xs. e < f y \<longrightarrow> f x \<le> f y)"
  using assms by (induction xs) (auto split: if_splits option.splits simp: not_less)

lemma next_scheduled_epoch_least:
  assumes "spec_ok spec"
  shows "case next_scheduled_epoch_after spec e of
      None \<Rightarrow> \<forall>s \<in> scheduled_epochs spec. s \<le> e
    | Some n \<Rightarrow> n \<in> scheduled_epochs spec \<and> e < n \<and> (\<forall>s \<in> scheduled_epochs spec. e < s \<longrightarrow> n \<le> s)"
proof -
  have forks: "sorted_wrt (<) (map sf_epoch (cs_fork_schedule spec))"
    and blobs: "sorted_wrt (<) (map (\<lambda>x. x) (map bs_epoch (cs_blob_schedule spec)))"
    using assms by (simp_all add: spec_ok_def)
  from find_least[OF forks refl, of e] find_least[OF blobs refl, of e]
  show ?thesis
    by (auto simp: next_scheduled_epoch_after_def next_regular_fork_for_epoch_def scheduled_epochs_def Let_def
        min_def not_le split: option.splits)
qed

text \<open>
  C38. A fork digest stays valid until the next scheduled epoch.  The epoch
  returned is the least epoch of the fork and blob schedules after the given one,
  and none is returned exactly when no scheduled epoch is left; until then every
  epoch has the same fork version and the same digest.
\<close>

theorem digest_stable_until_next:
  assumes "spec_ok spec"
  shows "case next_scheduled_epoch_after spec e of
      None \<Rightarrow> (\<forall>s \<in> scheduled_epochs spec. s \<le> e)
        \<and> (\<forall>e' \<ge> e. fork_version_for_epoch spec e' = fork_version_for_epoch spec e
            \<and> fork_digest_for_epoch sha spec e' = fork_digest_for_epoch sha spec e)
    | Some n \<Rightarrow> e < n \<and> n \<in> scheduled_epochs spec \<and> (\<forall>s \<in> scheduled_epochs spec. e < s \<longrightarrow> n \<le> s)
        \<and> (\<forall>e'. e \<le> e' \<and> e' < n \<longrightarrow>
            fork_version_for_epoch spec e' = fork_version_for_epoch spec e
            \<and> fork_digest_for_epoch sha spec e' = fork_digest_for_epoch sha spec e)"
proof (cases "next_scheduled_epoch_after spec e")
  case None
  then have all: "\<forall>s \<in> scheduled_epochs spec. s \<le> e" using next_scheduled_epoch_least[OF assms, of e] by simp
  then have "same_phase spec e' e" if "e \<le> e'" for e' using that by (auto simp: same_phase_def)
  with None all same_phase_digest(1,3)[OF assms] show ?thesis by simp
next
  case (Some n)
  then have least: "n \<in> scheduled_epochs spec" "e < n" "\<And>s. s \<in> scheduled_epochs spec \<Longrightarrow> e < s \<Longrightarrow> n \<le> s"
    using next_scheduled_epoch_least[OF assms, of e] by simp_all
  have "same_phase spec e' e" if e': "e \<le> e'" "e' < n" for e'
    unfolding same_phase_def
  proof (intro ballI iffI)
    fix s assume s: "s \<in> scheduled_epochs spec" "s \<le> e'"
    show "s \<le> e" using least(3)[OF s(1)] s(2) e'(2) by (meson leD le_less_linear order.trans)
  qed (use e' in auto)
  with Some same_phase_digest(1,3)[OF assms] least show ?thesis by simp
qed

lemma mainnet_spec_ok: "spec_ok MAINNET_CONSENSUS_CHAIN_SPEC"
  by (simp add: spec_ok_def MAINNET_CONSENSUS_CHAIN_SPEC_def)

theorem digest_stable_until_next_witness:
  "fork_digest_for_epoch (\<lambda>bs. of_nat (length bs)) MAINNET_CONSENSUS_CHAIN_SPEC 364100 =
     fork_digest_for_epoch (\<lambda>bs. of_nat (length bs)) MAINNET_CONSENSUS_CHAIN_SPEC 364032"
proof -
  have "next_scheduled_epoch_after MAINNET_CONSENSUS_CHAIN_SPEC 364032 = Some 411392"
    by (simp add: next_scheduled_epoch_after_def next_regular_fork_for_epoch_def MAINNET_CONSENSUS_CHAIN_SPEC_def)
  from digest_stable_until_next[OF mainnet_spec_ok, of 364032 "\<lambda>bs. of_nat (length bs)",
      unfolded this option.case, THEN conjunct2, THEN conjunct2, THEN conjunct2, THEN spec, of 364100]
  show ?thesis by simp
qed

section \<open>Digests and versions\<close>

text \<open>
  The digests of a schedule separate its versions: the plain digest of a version,
  or the digest of a scheduled epoch, coincides with the digest of an epoch only
  when the versions are the same.
\<close>

definition digest_epochs :: "chain_spec \<Rightarrow> u64 list" where
  "digest_epochs spec = 0 # map sf_epoch (cs_fork_schedule spec) @ map bs_epoch (cs_blob_schedule spec)"

definition digests_separate :: "sha256 \<Rightarrow> chain_spec \<Rightarrow> bool" where
  "digests_separate sha spec \<longleftrightarrow>
     (\<forall>e \<in> set (digest_epochs spec).
        (\<forall>v \<in> set (cs_genesis_fork_version spec # map sf_version (cs_fork_schedule spec)).
           plain_fork_digest_for_version sha spec v = fork_digest_for_epoch sha spec e \<longrightarrow>
           v = fork_version_for_epoch spec e)
        \<and> (\<forall>e' \<in> set (digest_epochs spec).
           fork_digest_for_epoch sha spec e' = fork_digest_for_epoch sha spec e \<longrightarrow>
           fork_version_for_epoch spec e' = fork_version_for_epoch spec e))"

lemma fork_scan_later: "\<forall>s \<in> set forks. e < sf_epoch s \<Longrightarrow> fork_scan e v forks = v"
  by (cases forks) auto

lemma fork_scan_scheduled:
  "sorted_wrt (<) (map sf_epoch forks) \<Longrightarrow> s \<in> set forks \<Longrightarrow> fork_scan (sf_epoch s) v forks = sf_version s"
  by (induction forks arbitrary: v) (auto intro: fork_scan_later simp: less_imp_le)

lemma phase_representative:
  "\<exists>r \<in> set (digest_epochs spec). same_phase spec e r"
proof (cases "{s \<in> scheduled_epochs spec. s \<le> e} = {}")
  case True
  then have "same_phase spec e 0" unfolding same_phase_def by auto
  then show ?thesis by (auto simp: digest_epochs_def)
next
  case False
  let ?S = "{s \<in> scheduled_epochs spec. s \<le> e}"
  have fin: "finite ?S" by (simp add: scheduled_epochs_def)
  from Max_in[OF fin False] have r: "Max ?S \<in> scheduled_epochs spec" "Max ?S \<le> e" by auto
  have "same_phase spec e (Max ?S)"
    unfolding same_phase_def using r(2) Max_ge[OF fin] by (auto intro: order.trans)
  with r(1) show ?thesis by (intro bexI[of _ "Max ?S"]) (auto simp: digest_epochs_def scheduled_epochs_def)
qed

lemma find_SomeD: "List.find P xs = Some x \<Longrightarrow> P x \<and> x \<in> set xs"
  by (induction xs) (auto split: if_splits)

text \<open>
  C39. The fork version is recovered from a fork digest: for every epoch the
  version found for its digest is the version active in that epoch, provided that
  the digests of the schedule separate its versions.
\<close>

theorem fork_version_of_digest:
  assumes "spec_ok spec" and "digests_separate sha spec"
  shows "fork_version_for_digest sha spec (fork_digest_for_epoch sha spec e) = Some (fork_version_for_epoch spec e)"
proof -
  obtain r where r: "r \<in> set (digest_epochs spec)" and same: "same_phase spec e r"
    using phase_representative by blast
  note eq = same_phase_digest(1)[OF assms(1) same] same_phase_digest(3)[OF assms(1) same, of sha]
  have plain: "v = fork_version_for_epoch spec r"
    if "v \<in> set (cs_genesis_fork_version spec # map sf_version (cs_fork_schedule spec))"
      "fork_digest_for_epoch sha spec r = plain_fork_digest_for_version sha spec v" for v
    using assms(2) r that unfolding digests_separate_def by (metis (no_types, lifting))
  have epochs: "fork_version_for_epoch spec e' = fork_version_for_epoch spec r"
    if "e' \<in> set (digest_epochs spec)" "fork_digest_for_epoch sha spec r = fork_digest_for_epoch sha spec e'" for e'
    using assms(2) r that unfolding digests_separate_def by (metis (no_types, lifting))
  have forks: "fork_version_for_epoch spec (sf_epoch s) = sf_version s" if "s \<in> set (cs_fork_schedule spec)" for s
    using assms(1) that by (simp add: fork_version_for_epoch_def spec_ok_def fork_scan_scheduled)
  define d where "d = fork_digest_for_epoch sha spec r"
  define plain_fork where
    "plain_fork = List.find (\<lambda>s. d = plain_fork_digest_for_version sha spec (sf_version s)) (cs_fork_schedule spec)"
  define epoch_fork where
    "epoch_fork = List.find (\<lambda>s. d = fork_digest_for_epoch sha spec (sf_epoch s)) (cs_fork_schedule spec)"
  define epoch_blob where
    "epoch_blob = List.find (\<lambda>s. d = fork_digest_for_epoch sha spec (bs_epoch s)) (cs_blob_schedule spec)"
  have "d = plain_fork_digest_for_version sha spec (cs_genesis_fork_version spec) \<Longrightarrow>
      cs_genesis_fork_version spec = fork_version_for_epoch spec r"
    by (rule plain) (simp_all add: d_def)
  moreover have "sf_version s = fork_version_for_epoch spec r" if "plain_fork = Some s" for s
    using find_SomeD[OF that[unfolded plain_fork_def]] by (intro plain) (simp_all add: d_def)
  moreover have "d = fork_digest_for_epoch sha spec 0 \<Longrightarrow> fork_version_for_epoch spec 0 = fork_version_for_epoch spec r"
    by (rule epochs) (simp_all add: d_def digest_epochs_def)
  moreover have "sf_version s = fork_version_for_epoch spec r" if "epoch_fork = Some s" for s
    using find_SomeD[OF that[unfolded epoch_fork_def]] epochs[of "sf_epoch s"] forks[of s]
    by (simp add: d_def digest_epochs_def)
  moreover have "fork_version_for_epoch spec (bs_epoch s) = fork_version_for_epoch spec r" if "epoch_blob = Some s" for s
    using find_SomeD[OF that[unfolded epoch_blob_def]] by (intro epochs) (simp_all add: d_def digest_epochs_def)
  moreover have "d = fork_digest_for_epoch sha spec 0" if "epoch_fork = None" "epoch_blob = None"
    using that r unfolding epoch_fork_def epoch_blob_def find_None_iff digest_epochs_def d_def by auto
  ultimately show ?thesis
    unfolding eq fork_version_for_digest_def d_def[symmetric] plain_fork_def[symmetric]
      epoch_fork_def[symmetric] epoch_blob_def[symmetric]
    by (simp split: option.split)
qed

text \<open>A stand-in that keeps the first 32 bytes of its input separates the mainnet digests.\<close>

definition prefix_sha :: sha256 where
  "prefix_sha bs = from_slice (take 32 (bs @ replicate 16 0))"

lemma prefix_sha_slice: "16 \<le> length bs \<Longrightarrow> as_slice (prefix_sha bs) = take 32 (bs @ replicate 16 0)"
  by (simp add: prefix_sha_def as_slice_def from_slice_def to_from_le_bytes)

lemma prefix_plain: "length v = 4 \<Longrightarrow> plain_fork_digest_for_version prefix_sha spec v = v"
  by (simp add: plain_fork_digest_for_version_def spec_fork_data_root_def prefix_sha_slice)

lemma prefix_digest:
  "length (fork_version_for_epoch spec e) = 4 \<Longrightarrow> fork_digest_for_epoch prefix_sha spec e =
     (if e < cs_fulu_fork_epoch spec then fork_version_for_epoch spec e
      else map2 (XOR) (fork_version_for_epoch spec e) (take 4 (to_le_bytes (bp_epoch (blob_parameters_for_epoch spec e)))))"
  by (simp add: fork_digest_for_epoch_def spec_fork_data_root_def prefix_sha_slice Let_def)

lemma mainnet_versions:
  "map (fork_version_for_epoch MAINNET_CONSENSUS_CHAIN_SPEC) (digest_epochs MAINNET_CONSENSUS_CHAIN_SPEC) =
     [[0, 0, 0, 0], [1, 0, 0, 0], [2, 0, 0, 0], [3, 0, 0, 0], [4, 0, 0, 0], [5, 0, 0, 0], [6, 0, 0, 0],
      [6, 0, 0, 0], [6, 0, 0, 0]]"
  by (simp add: digest_epochs_def fork_version_for_epoch_def MAINNET_CONSENSUS_CHAIN_SPEC_def)

lemma take_4_le_bytes:
  "take 4 (to_le_bytes (w :: u64)) =
     [of_nat (unat w), of_nat (unat w div 256), of_nat (unat w div 256 div 256), of_nat (unat w div 256 div 256 div 256)]"
proof -
  have "nat_to_le 8 x = [of_nat x, of_nat (x div 256), of_nat (x div 256 div 256), of_nat (x div 256 div 256 div 256)]
    @ nat_to_le 4 (x div 256 div 256 div 256 div 256)" for x
    using nat_to_le.simps(2)[of 7 x] nat_to_le.simps(2)[of 6 "x div 256"] nat_to_le.simps(2)[of 5 "x div 256 div 256"]
      nat_to_le.simps(2)[of 4 "x div 256 div 256 div 256"] by simp
  from this[of "unat w"] show ?thesis by (simp add: to_le_bytes_def)
qed

lemma mainnet_digests:
  "map (fork_digest_for_epoch prefix_sha MAINNET_CONSENSUS_CHAIN_SPEC) (digest_epochs MAINNET_CONSENSUS_CHAIN_SPEC) =
     [[0, 0, 0, 0], [1, 0, 0, 0], [2, 0, 0, 0], [3, 0, 0, 0], [4, 0, 0, 0], [5, 0, 0, 0], [6, 142, 5, 0],
      [6, 76, 6, 0], [6, 101, 6, 0]]"
  by (simp add: digest_epochs_def prefix_digest fork_version_for_epoch_def blob_parameters_for_epoch_def
      MAINNET_CONSENSUS_CHAIN_SPEC_def take_4_le_bytes)

lemma mainnet_separate: "digests_separate prefix_sha MAINNET_CONSENSUS_CHAIN_SPEC"
proof -
  have versions: "cs_genesis_fork_version MAINNET_CONSENSUS_CHAIN_SPEC # map sf_version (cs_fork_schedule MAINNET_CONSENSUS_CHAIN_SPEC) =
    [[0, 0, 0, 0], [1, 0, 0, 0], [2, 0, 0, 0], [3, 0, 0, 0], [4, 0, 0, 0], [5, 0, 0, 0], [6, 0, 0, 0]]"
    by (simp add: MAINNET_CONSENSUS_CHAIN_SPEC_def)
  have epochs: "digest_epochs MAINNET_CONSENSUS_CHAIN_SPEC =
    [0, 74240, 144896, 194048, 269568, 364032, 411392, 412672, 419072]"
    by (simp add: digest_epochs_def MAINNET_CONSENSUS_CHAIN_SPEC_def)
  show ?thesis
    unfolding digests_separate_def versions
    using mainnet_versions mainnet_digests unfolding epochs by (simp add: prefix_plain)
qed

theorem fork_version_of_digest_witness:
  "fork_version_for_digest prefix_sha MAINNET_CONSENSUS_CHAIN_SPEC
     (fork_digest_for_epoch prefix_sha MAINNET_CONSENSUS_CHAIN_SPEC 415000) = Some [6, 0, 0, 0]"
  using fork_version_of_digest[OF mainnet_spec_ok mainnet_separate, of 415000]
  by (simp add: fork_version_for_epoch_def MAINNET_CONSENSUS_CHAIN_SPEC_def)

end
