(* ===== verification/Merkle_Branch.thy ===== *)
theory Merkle_Branch
  imports Chain_Spec
begin

text \<open>
  Merkle branch verification as in \<^verbatim>\<open>src/crates/logex-cl/src/light_client.rs\<close>: the
  hash of two nodes, the walk up a branch, generalized indices and the normalised
  branches of upgraded layouts.  The results: a branch taken from a tree verifies,
  and a root admits one leaf and one branch per index, up to an explicit collision.
\<close>

section \<open>Definitions\<close>

definition hash_concat :: "sha256 \<Rightarrow> b256 \<Rightarrow> b256 \<Rightarrow> b256" where
  "hash_concat sha left right = sha (as_slice left @ as_slice right)"

fun branch_walk :: "sha256 \<Rightarrow> b256 \<Rightarrow> b256 list \<Rightarrow> u64 \<Rightarrow> b256" where
  "branch_walk sha leaf [] idx = leaf"
| "branch_walk sha leaf (sibling # branch) idx =
     branch_walk sha (if idx AND 1 = 0 then hash_concat sha leaf sibling else hash_concat sha sibling leaf)
       branch (drop_bit 1 idx)"

definition is_valid_merkle_branch :: "sha256 \<Rightarrow> b256 \<Rightarrow> b256 list \<Rightarrow> usize \<Rightarrow> u64 \<Rightarrow> b256 \<Rightarrow> bool" where
  "is_valid_merkle_branch sha leaf branch depth idx root \<longleftrightarrow>
     length branch = depth \<and> branch_walk sha leaf branch idx = root"

text \<open>Generalized indices are positive constants, so the subtraction does not underflow.\<close>

definition floorlog2 :: "u64 \<Rightarrow> usize" where
  "floorlog2 value = 64 - 1 - leading_zeros value"

definition subtree_index :: "u64 \<Rightarrow> u64" where
  "subtree_index gindex = gindex mod push_bit (floorlog2 gindex) 1"

definition is_valid_normalized_merkle_branch :: "sha256 \<Rightarrow> b256 \<Rightarrow> b256 list \<Rightarrow> u64 \<Rightarrow> b256 \<Rightarrow> bool" where
  "is_valid_normalized_merkle_branch sha leaf branch gindex root =
     (let depth = floorlog2 gindex;
          extra = length branch - depth
      in if \<exists>item \<in> set (take extra branch). item \<noteq> 0 then False
         else is_valid_merkle_branch sha leaf (drop extra branch) depth (subtree_index gindex) root)"

text \<open>\<^verbatim>\<open>FixedBytes<N>\<close> is a word of \<open>8 * N\<close> bits; a branch is cut into 32-byte nodes.\<close>

definition branch_from_fixed :: "'n::len word \<Rightarrow> b256 list" where
  "branch_from_fixed branch = map from_slice (chunks_exact 32 (as_slice branch))"

definition branch_has_nonzero :: "'n::len word \<Rightarrow> bool" where
  "branch_has_nonzero branch \<longleftrightarrow> (\<exists>byte \<in> set (as_slice branch). byte \<noteq> 0)"

section \<open>Completeness\<close>

datatype mtree = Chunk b256 | Pair mtree mtree

fun tree_root :: "sha256 \<Rightarrow> mtree \<Rightarrow> b256" where
  "tree_root sha (Chunk c) = c"
| "tree_root sha (Pair l r) = hash_concat sha (tree_root sha l) (tree_root sha r)"

text \<open>The subtree at depth \<open>d\<close> and index \<open>i\<close>, with its siblings from the bottom up.\<close>

fun subtree_branch :: "sha256 \<Rightarrow> mtree \<Rightarrow> nat \<Rightarrow> u64 \<Rightarrow> (mtree \<times> b256 list) option" where
  "subtree_branch sha t 0 i = Some (t, [])"
| "subtree_branch sha (Chunk c) (Suc d) i = None"
| "subtree_branch sha (Pair l r) (Suc d) i =
     (if bit i d
      then map_option (\<lambda>(t, b). (t, b @ [tree_root sha l])) (subtree_branch sha r d i)
      else map_option (\<lambda>(t, b). (t, b @ [tree_root sha r])) (subtree_branch sha l d i))"

lemma branch_walk_snoc:
  "branch_walk sha leaf (b @ [s]) i =
     (if bit i (length b) then hash_concat sha s (branch_walk sha leaf b i)
      else hash_concat sha (branch_walk sha leaf b i) s)"
  by (induction b arbitrary: leaf i) (auto simp: and_one_eq bit_0 bit_drop_bit_eq even_iff_mod_2_eq_zero)

lemma subtree_branch_length:
  "subtree_branch sha t d i = Some (u, b) \<Longrightarrow> length b = d"
  by (induction sha t d i arbitrary: b rule: subtree_branch.induct) (auto split: if_splits)

lemma subtree_branch_walk:
  "subtree_branch sha t d i = Some (u, b) \<Longrightarrow> branch_walk sha (tree_root sha u) b i = tree_root sha t"
proof (induction sha t d i arbitrary: b rule: subtree_branch.induct)
  case (3 sha l r d i)
  then obtain b' where b: "b = b' @ [if bit i d then tree_root sha l else tree_root sha r]"
    and sub: "subtree_branch sha (if bit i d then r else l) d i = Some (u, b')"
    by (auto split: if_splits)
  have "length b' = d" by (rule subtree_branch_length[OF sub])
  with 3 b sub show ?case by (auto simp: branch_walk_snoc split: if_splits)
qed auto

text \<open>
  C37. Honest proofs verify: the siblings of a subtree, from the bottom up, are a
  valid branch for its root at its index in the whole tree.
\<close>

theorem merkle_branch_complete:
  assumes "subtree_branch sha t d i = Some (u, b)"
  shows "is_valid_merkle_branch sha (tree_root sha u) b d i (tree_root sha t)"
  using subtree_branch_length[OF assms] subtree_branch_walk[OF assms]
  by (simp add: is_valid_merkle_branch_def)

theorem merkle_branch_complete_witness:
  "is_valid_merkle_branch (\<lambda>bs. of_nat (length bs)) 7 [9, 64] 2 2 (tree_root (\<lambda>bs. of_nat (length bs))
     (Pair (Pair (Chunk 3) (Chunk 5)) (Pair (Chunk 7) (Chunk 9))))"
  using merkle_branch_complete[of "\<lambda>bs. of_nat (length bs)"
      "Pair (Pair (Chunk 3) (Chunk 5)) (Pair (Chunk 7) (Chunk 9))" 2 2 "Chunk 7" "[9, 64]"]
  by (simp add: numeral_2_eq_2 hash_concat_def bit_Suc)

section \<open>Binding\<close>

text \<open>The pairs that are hashed on the way up.\<close>

fun branch_pairs :: "sha256 \<Rightarrow> b256 \<Rightarrow> b256 list \<Rightarrow> u64 \<Rightarrow> (b256 \<times> b256) list" where
  "branch_pairs sha leaf [] idx = []"
| "branch_pairs sha leaf (sibling # branch) idx =
     (let p = (if idx AND 1 = 0 then (leaf, sibling) else (sibling, leaf))
      in p # branch_pairs sha (case p of (l, r) \<Rightarrow> hash_concat sha l r) branch (drop_bit 1 idx))"

definition pair_collision :: "sha256 \<Rightarrow> b256 \<times> b256 \<Rightarrow> b256 \<times> b256 \<Rightarrow> bool" where
  "pair_collision sha p q \<longleftrightarrow>
     p \<noteq> q \<and> sha (as_slice (fst p) @ as_slice (snd p)) = sha (as_slice (fst q) @ as_slice (snd q))"

lemma branch_walk_binding:
  assumes "length b = length b'" and "branch_walk sha leaf b i = branch_walk sha leaf' b' i"
  shows "leaf = leaf' \<and> b = b' \<or>
    (\<exists>k < length b. pair_collision sha (branch_pairs sha leaf b i ! k) (branch_pairs sha leaf' b' i ! k))"
  using assms
proof (induction b b' arbitrary: leaf leaf' i rule: list_induct2)
  case (Cons s b s' b')
  define p where "p = (if i AND 1 = 0 then (leaf, s) else (s, leaf))"
  define q where "q = (if i AND 1 = 0 then (leaf', s') else (s', leaf'))"
  define h where "h = hash_concat sha (fst p) (snd p)"
  define h' where "h' = hash_concat sha (fst q) (snd q)"
  have walk: "branch_walk sha h b (drop_bit 1 i) = branch_walk sha h' b' (drop_bit 1 i)"
    using Cons.prems by (simp add: h_def h'_def p_def q_def split: if_splits)
  have pairs: "branch_pairs sha leaf (s # b) i = p # branch_pairs sha h b (drop_bit 1 i)"
    "branch_pairs sha leaf' (s' # b') i = q # branch_pairs sha h' b' (drop_bit 1 i)"
    by (simp_all add: h_def h'_def p_def q_def Let_def)
  from Cons.IH[OF walk] show ?case
  proof
    assume eq: "h = h' \<and> b = b'"
    show ?case
    proof (cases "p = q")
      case True
      with eq show ?thesis by (auto simp: p_def q_def split: if_splits)
    next
      case False
      with eq have "pair_collision sha p q" by (simp add: pair_collision_def h_def h'_def hash_concat_def)
      then show ?thesis by (intro disjI2 exI[of _ 0]) (simp only: pairs, simp)
    qed
  next
    assume "\<exists>k<length b. pair_collision sha (branch_pairs sha h b (drop_bit 1 i) ! k)
      (branch_pairs sha h' b' (drop_bit 1 i) ! k)"
    then obtain k where "k < length b" "pair_collision sha (branch_pairs sha h b (drop_bit 1 i) ! k)
      (branch_pairs sha h' b' (drop_bit 1 i) ! k)" by blast
    then show ?thesis by (intro disjI2 exI[of _ "Suc k"]) (simp only: pairs, simp)
  qed
qed simp

text \<open>
  C36. Merkle proofs bind: two branches that verify at one index against one root
  prove the same leaf, with the same siblings, or two of the pairs hashed at the
  same level are a collision of SHA-256.
\<close>

theorem merkle_branch_binding:
  assumes "is_valid_merkle_branch sha leaf b depth i root" and "is_valid_merkle_branch sha leaf' b' depth i root"
  shows "leaf = leaf' \<and> b = b' \<or>
    (\<exists>k < depth. pair_collision sha (branch_pairs sha leaf b i ! k) (branch_pairs sha leaf' b' i ! k))"
  using branch_walk_binding[of b b' sha leaf i leaf'] assms by (auto simp: is_valid_merkle_branch_def)

theorem merkle_branch_binding_witness:
  "is_valid_merkle_branch (\<lambda>_. 9) 1 [2] 1 0 9 \<and>
   ((1 :: b256) = 3 \<and> [2 :: b256] = [4] \<or>
    (\<exists>k < 1. pair_collision (\<lambda>_. 9) (branch_pairs (\<lambda>_. 9) 1 [2] 0 ! k) (branch_pairs (\<lambda>_. 9) 3 [4] 0 ! k)))"
  using merkle_branch_binding[of "\<lambda>_. 9" 1 "[2]" 1 0 9 3 "[4]"]
  by (simp add: is_valid_merkle_branch_def hash_concat_def)

end
