(* ===== verification/Light_Client_Types.thy ===== *)
theory Light_Client_Types
  imports Merkle_Branch
begin

text \<open>
  The data of the consensus light client,
  \<^verbatim>\<open>src/crates/logex-cl/src/light_client.rs\<close> and
  \<^verbatim>\<open>src/crates/logex-types/src/consensus.rs\<close>: headers, committees, the payloads of
  the three wire layouts, verified headers, updates and the store, with the fork
  and period arithmetic on slots and the hash tree roots.  A \<^verbatim>\<open>FixedBytes<N>\<close> is a
  word of \<open>8 * N\<close> bits, so the sizes of the source's types are sizes of types here.
  SHA-256, the tree hash of basic values, BLS and the derived SSZ codecs are the
  fields of the parameter \<open>cl_env\<close>.
\<close>

section \<open>Constants\<close>

definition SYNC_COMMITTEE_PUBKEYS :: usize where
  "SYNC_COMMITTEE_PUBKEYS = 512"

definition BLS_PUBKEY_BYTES :: usize where
  "BLS_PUBKEY_BYTES = 48"

definition MAX_EXTRA_DATA_BYTES :: usize where
  "MAX_EXTRA_DATA_BYTES = 32"

definition EXECUTION_BRANCH_DEPTH :: usize where
  "EXECUTION_BRANCH_DEPTH = 4"

definition PRE_ELECTRA_FINALITY_BRANCH_DEPTH :: usize where
  "PRE_ELECTRA_FINALITY_BRANCH_DEPTH = 6"

definition PRE_ELECTRA_SYNC_COMMITTEE_BRANCH_DEPTH :: usize where
  "PRE_ELECTRA_SYNC_COMMITTEE_BRANCH_DEPTH = 5"

definition ELECTRA_FINALITY_BRANCH_DEPTH :: usize where
  "ELECTRA_FINALITY_BRANCH_DEPTH = 7"

definition ELECTRA_SYNC_COMMITTEE_BRANCH_DEPTH :: usize where
  "ELECTRA_SYNC_COMMITTEE_BRANCH_DEPTH = 6"

definition SYNC_COMMITTEE_PUBKEY_BYTES :: usize where
  "SYNC_COMMITTEE_PUBKEY_BYTES = SYNC_COMMITTEE_PUBKEYS * BLS_PUBKEY_BYTES"

definition EPOCHS_PER_SYNC_COMMITTEE_PERIOD :: u64 where
  "EPOCHS_PER_SYNC_COMMITTEE_PERIOD = 256"

definition UPDATE_TIMEOUT :: u64 where
  "UPDATE_TIMEOUT = SLOTS_PER_EPOCH * EPOCHS_PER_SYNC_COMMITTEE_PERIOD"

definition SYNC_COMMITTEE_DOMAIN :: bytes where
  "SYNC_COMMITTEE_DOMAIN = [7, 0, 0, 0]"

definition SYNC_COMMITTEE_SIGNATURE_DST :: bytes where
  "SYNC_COMMITTEE_SIGNATURE_DST = map of_char ''BLS_SIG_BLS12381G2_XMD:SHA-256_SSWU_RO_POP_''"

definition MIN_SYNC_COMMITTEE_PARTICIPANTS :: usize where
  "MIN_SYNC_COMMITTEE_PARTICIPANTS = 1"

definition EXECUTION_PAYLOAD_GINDEX :: u64 where
  "EXECUTION_PAYLOAD_GINDEX = 25"

definition PRE_ELECTRA_FINALIZED_ROOT_GINDEX :: u64 where
  "PRE_ELECTRA_FINALIZED_ROOT_GINDEX = 105"

definition PRE_ELECTRA_CURRENT_SYNC_COMMITTEE_GINDEX :: u64 where
  "PRE_ELECTRA_CURRENT_SYNC_COMMITTEE_GINDEX = 54"

definition PRE_ELECTRA_NEXT_SYNC_COMMITTEE_GINDEX :: u64 where
  "PRE_ELECTRA_NEXT_SYNC_COMMITTEE_GINDEX = 55"

definition ELECTRA_FINALIZED_ROOT_GINDEX :: u64 where
  "ELECTRA_FINALIZED_ROOT_GINDEX = 169"

definition ELECTRA_CURRENT_SYNC_COMMITTEE_GINDEX :: u64 where
  "ELECTRA_CURRENT_SYNC_COMMITTEE_GINDEX = 86"

definition ELECTRA_NEXT_SYNC_COMMITTEE_GINDEX :: u64 where
  "ELECTRA_NEXT_SYNC_COMMITTEE_GINDEX = 87"

definition CAPELLA_FORK_VERSION :: u8 where
  "CAPELLA_FORK_VERSION = 3"

definition DENEB_FORK_VERSION :: u8 where
  "DENEB_FORK_VERSION = 4"

definition ELECTRA_FORK_VERSION :: u8 where
  "ELECTRA_FORK_VERSION = 5"

type_synonym execution_branch = "1024 word"
type_synonym pre_electra_finality_branch = "1536 word"
type_synonym pre_electra_sync_committee_branch = "1280 word"
type_synonym electra_finality_branch = "1792 word"
type_synonym electra_sync_committee_branch = "1536 word"
type_synonym bls_public_key = "384 word"
type_synonym bls_signature = "768 word"

section \<open>Errors\<close>

datatype lc_decode_error = UnsupportedFork string string

text \<open>The verification errors; \<open>LcPanic\<close> stands for a panic.\<close>

datatype lc_error =
    Decode lc_decode_error
  | TrustedCheckpointMismatch b256 b256
  | TrustedCheckpointSlotMismatch u64 u64
  | InvalidExecutionHeader u64 string
  | InvalidFinalityHeader u64 string
  | InvalidExecutionProof u64
  | InvalidCurrentSyncCommitteeProof u64
  | InvalidFinalityProof u64 u64
  | NoSyncCommitteeParticipants
  | InvalidSlotOrdering u64 u64 u64
  | SignatureFromFuture u64 u64
  | UnknownSyncCommitteePeriod u64 u64
  | IrrelevantUpdate u64 u64
  | InvalidNextSyncCommitteeProof u64
  | InvalidCommitteeLength usize
  | InvalidCommitteePublicKey usize string
  | InvalidSignature string
  | InvalidSyncCommitteeSignature
  | LcPanic string

section \<open>Wire structures\<close>

record beacon_header =
  bh_slot :: u64
  bh_proposer_index :: u64
  bh_parent_root :: b256
  bh_state_root :: b256
  bh_body_root :: b256

record sync_committee_raw =
  scr_pubkeys :: "196608 word"
  scr_aggregate_pubkey :: bls_public_key

record sync_committee_data =
  sc_pubkeys :: "bls_public_key list"
  sc_aggregate_pubkey :: bls_public_key

record sync_aggregate_raw =
  sa_sync_committee_bits :: "512 word"
  sa_sync_committee_signature :: bls_signature

record execution_payload_header_capella =
  ep_parent_hash :: b256
  ep_fee_recipient :: address
  ep_state_root :: b256
  ep_receipts_root :: b256
  ep_logs_bloom :: "2048 word"
  ep_prev_randao :: b256
  ep_block_number :: u64
  ep_gas_limit :: u64
  ep_gas_used :: u64
  ep_timestamp :: u64
  ep_extra_data :: bytes
  ep_base_fee_per_gas :: "256 word"
  ep_block_hash :: b256
  ep_transactions_root :: b256
  ep_withdrawals_root :: b256

text \<open>The Deneb header has the fields of the Capella header and two more.\<close>

record execution_payload_header_deneb = execution_payload_header_capella +
  ep_blob_gas_used :: u64
  ep_excess_blob_gas :: u64

text \<open>The light-client header and payloads, for a header type \<open>'e\<close> and branch types \<open>'f\<close>, \<open>'c\<close>.\<close>

record 'e lc_header =
  h_beacon :: beacon_header
  h_execution :: 'e
  h_execution_branch :: execution_branch

type_synonym light_client_header_capella = "execution_payload_header_capella lc_header"
type_synonym light_client_header_deneb = "execution_payload_header_deneb lc_header"

record ('h, 'c) lc_bootstrap =
  lb_header :: 'h
  lb_current_sync_committee :: sync_committee_raw
  lb_current_sync_committee_branch :: 'c

record ('h, 'f) lc_finality_update =
  fu_attested_header :: 'h
  fu_finalized_header :: 'h
  fu_finality_branch :: 'f
  fu_sync_aggregate :: sync_aggregate_raw
  fu_signature_slot :: u64

record 'h lc_optimistic_update =
  ou_attested_header :: 'h
  ou_sync_aggregate :: sync_aggregate_raw
  ou_signature_slot :: u64

record ('h, 'f, 'c) lc_update =
  lu_attested_header :: 'h
  lu_next_sync_committee :: sync_committee_raw
  lu_next_sync_committee_branch :: 'c
  lu_finalized_header :: 'h
  lu_finality_branch :: 'f
  lu_sync_aggregate :: sync_aggregate_raw
  lu_signature_slot :: u64

type_synonym bootstrap_capella = "(light_client_header_capella, pre_electra_sync_committee_branch) lc_bootstrap"
type_synonym bootstrap_deneb = "(light_client_header_deneb, pre_electra_sync_committee_branch) lc_bootstrap"
type_synonym bootstrap_electra = "(light_client_header_deneb, electra_sync_committee_branch) lc_bootstrap"
type_synonym finality_update_capella = "(light_client_header_capella, pre_electra_finality_branch) lc_finality_update"
type_synonym finality_update_deneb = "(light_client_header_deneb, pre_electra_finality_branch) lc_finality_update"
type_synonym finality_update_electra = "(light_client_header_deneb, electra_finality_branch) lc_finality_update"
type_synonym optimistic_update_capella = "light_client_header_capella lc_optimistic_update"
type_synonym optimistic_update_deneb = "light_client_header_deneb lc_optimistic_update"
type_synonym update_capella =
  "(light_client_header_capella, pre_electra_finality_branch, pre_electra_sync_committee_branch) lc_update"
type_synonym update_deneb =
  "(light_client_header_deneb, pre_electra_finality_branch, pre_electra_sync_committee_branch) lc_update"
type_synonym update_electra =
  "(light_client_header_deneb, electra_finality_branch, electra_sync_committee_branch) lc_update"

datatype decoded_bootstrap =
  BootstrapCapella bootstrap_capella | BootstrapDeneb bootstrap_deneb | BootstrapElectra bootstrap_electra

datatype decoded_finality_update =
  FinalityCapella finality_update_capella | FinalityDeneb finality_update_deneb
| FinalityElectra finality_update_electra

datatype decoded_optimistic_update =
  OptimisticCapella optimistic_update_capella | OptimisticDeneb optimistic_update_deneb

datatype decoded_update =
  UpdateCapella update_capella | UpdateDeneb update_deneb | UpdateElectra update_electra

text \<open>The values of \<^verbatim>\<open>Default\<close>.\<close>

definition default_beacon :: beacon_header where
  "default_beacon = \<lparr>bh_slot = 0, bh_proposer_index = 0, bh_parent_root = 0, bh_state_root = 0, bh_body_root = 0\<rparr>"

definition default_committee_raw :: sync_committee_raw where
  "default_committee_raw = \<lparr>scr_pubkeys = 0, scr_aggregate_pubkey = 0\<rparr>"

definition default_execution_capella :: execution_payload_header_capella where
  "default_execution_capella =
     \<lparr>ep_parent_hash = 0, ep_fee_recipient = 0, ep_state_root = 0, ep_receipts_root = 0, ep_logs_bloom = 0,
      ep_prev_randao = 0, ep_block_number = 0, ep_gas_limit = 0, ep_gas_used = 0, ep_timestamp = 0,
      ep_extra_data = [], ep_base_fee_per_gas = 0, ep_block_hash = 0, ep_transactions_root = 0,
      ep_withdrawals_root = 0\<rparr>"

definition default_execution_deneb :: execution_payload_header_deneb where
  "default_execution_deneb =
     execution_payload_header_capella.extend default_execution_capella
       \<lparr>ep_blob_gas_used = 0, ep_excess_blob_gas = 0\<rparr>"

definition default_header_capella :: light_client_header_capella where
  "default_header_capella =
     \<lparr>h_beacon = default_beacon, h_execution = default_execution_capella, h_execution_branch = 0\<rparr>"

definition default_header_deneb :: light_client_header_deneb where
  "default_header_deneb =
     \<lparr>h_beacon = default_beacon, h_execution = default_execution_deneb, h_execution_branch = 0\<rparr>"

section \<open>Verified structures\<close>

datatype consensus_data_fork = Capella | Deneb | Electra

record execution_data =
  ed_block_number :: u64
  ed_block_hash :: b256
  ed_receipts_root :: b256

text \<open>\<^verbatim>\<open>VerifiedExecutionPayloadHeader\<close> and \<^verbatim>\<open>LightClientExecutionData\<close> have the same fields.\<close>

type_synonym verified_execution = execution_data

record header_summary =
  hs_beacon_slot :: u64
  hs_execution :: "execution_data option"

record verified_header =
  vh_fork :: consensus_data_fork
  vh_beacon :: beacon_header
  vh_execution :: "verified_execution option"

record execution_anchor =
  ea_beacon_root :: b256
  ea_beacon_slot :: u64
  ea_block_number :: u64
  ea_block_hash :: b256
  ea_receipts_root :: b256

record finalized_checkpoint =
  fc_epoch :: u64
  fc_root :: b256

record ws_checkpoint =
  wc_beacon_root :: b256
  wc_beacon_slot :: "u64 option"

record verified_update =
  vu_attested_header :: verified_header
  vu_finalized_header :: "verified_header option"
  vu_finalized_checkpoint :: "finalized_checkpoint option"
  vu_next_sync_committee :: "sync_committee_data option"
  vu_signature_slot :: u64
  vu_participants :: usize

record lc_store =
  st_checkpoint_root :: b256
  st_bootstrap_slot :: u64
  st_current_sync_committee :: sync_committee_data
  st_next_sync_committee :: "sync_committee_data option"
  st_finalized_header :: verified_header
  st_finalized_checkpoint :: "finalized_checkpoint option"
  st_optimistic_header :: verified_header
  st_best_valid_update :: "verified_update option"
  st_previous_max_active_participants :: usize
  st_current_max_active_participants :: usize

record bootstrap_status =
  bst_fork :: consensus_data_fork
  bst_header :: header_summary
  bst_current_sync_committee_pubkeys :: usize
  bst_current_sync_committee_branch_depth :: usize

record finality_update_status =
  fst_fork :: consensus_data_fork
  fst_attested_header :: header_summary
  fst_finalized_header :: header_summary
  fst_signature_slot :: u64
  fst_sync_committee_participants :: usize
  fst_finality_branch_depth :: usize

record optimistic_update_status =
  ost_fork :: consensus_data_fork
  ost_attested_header :: header_summary
  ost_signature_slot :: u64
  ost_sync_committee_participants :: usize

record applied_update =
  au_store :: lc_store
  au_optimistic_status :: optimistic_update_status
  au_finality_status :: "finality_update_status option"

section \<open>The environment\<close>

text \<open>
  Third-party code: SHA-256 (\<^verbatim>\<open>sha2\<close>), \<^verbatim>\<open>tree_hash\<close> (\<^verbatim>\<open>merkle_root\<close>,
  \<^verbatim>\<open>mix_in_length\<close> and the roots of basic values), \<^verbatim>\<open>blst\<close>, and the \<^verbatim>\<open>ssz\<close>
  decoders and encoders derived for the payload types.  An error is the text it
  prints.
\<close>

record ('pk, 'sg) cl_env =
  cl_sha256 :: sha256
  cl_merkle_root :: "bytes \<Rightarrow> usize \<Rightarrow> b256"
  cl_mix_in_length :: "b256 \<Rightarrow> usize \<Rightarrow> b256"
  cl_root_u64 :: "u64 \<Rightarrow> b256"
  cl_root_b256 :: "b256 \<Rightarrow> b256"
  cl_root_u256 :: "256 word \<Rightarrow> b256"
  cl_root_fixed_bytes :: "bytes \<Rightarrow> b256"
  cl_key_validate :: "bytes \<Rightarrow> string + 'pk"
  cl_sig_validate :: "bytes \<Rightarrow> string + 'sg"
  cl_fast_aggregate_verify :: "'sg \<Rightarrow> bytes \<Rightarrow> bytes \<Rightarrow> 'pk list \<Rightarrow> bool"
  cl_ssz_bootstrap_capella :: "bytes \<Rightarrow> string + bootstrap_capella"
  cl_ssz_bootstrap_deneb :: "bytes \<Rightarrow> string + bootstrap_deneb"
  cl_ssz_bootstrap_electra :: "bytes \<Rightarrow> string + bootstrap_electra"
  cl_ssz_finality_capella :: "bytes \<Rightarrow> string + finality_update_capella"
  cl_ssz_finality_deneb :: "bytes \<Rightarrow> string + finality_update_deneb"
  cl_ssz_finality_electra :: "bytes \<Rightarrow> string + finality_update_electra"
  cl_ssz_optimistic_capella :: "bytes \<Rightarrow> string + optimistic_update_capella"
  cl_ssz_optimistic_deneb :: "bytes \<Rightarrow> string + optimistic_update_deneb"
  cl_ssz_update_capella :: "bytes \<Rightarrow> string + update_capella"
  cl_ssz_update_deneb :: "bytes \<Rightarrow> string + update_deneb"
  cl_ssz_update_electra :: "bytes \<Rightarrow> string + update_electra"
  cl_ssz_encode_optimistic_capella :: "optimistic_update_capella \<Rightarrow> bytes"
  cl_ssz_encode_optimistic_deneb :: "optimistic_update_deneb \<Rightarrow> bytes"

section \<open>Slots, periods and forks\<close>

definition sync_committee_period_at_slot :: "u64 \<Rightarrow> u64" where
  "sync_committee_period_at_slot slot = epoch_for_slot slot div EPOCHS_PER_SYNC_COMMITTEE_PERIOD"

text \<open>Every fork version of the schedule has four bytes; the first one is compared.\<close>

definition fork_version_at_slot :: "u64 \<Rightarrow> u8" where
  "fork_version_at_slot slot = fork_version_for_epoch MAINNET_CONSENSUS_CHAIN_SPEC (epoch_for_slot slot) ! 0"

definition uses_electra_light_client_layout :: "u64 \<Rightarrow> bool" where
  "uses_electra_light_client_layout slot \<longleftrightarrow> ELECTRA_FORK_VERSION \<le> fork_version_at_slot slot"

definition finalized_root_gindex_at_slot :: "u64 \<Rightarrow> u64" where
  "finalized_root_gindex_at_slot slot =
     (if uses_electra_light_client_layout slot then ELECTRA_FINALIZED_ROOT_GINDEX else PRE_ELECTRA_FINALIZED_ROOT_GINDEX)"

definition current_sync_committee_gindex_at_slot :: "u64 \<Rightarrow> u64" where
  "current_sync_committee_gindex_at_slot slot =
     (if uses_electra_light_client_layout slot then ELECTRA_CURRENT_SYNC_COMMITTEE_GINDEX
      else PRE_ELECTRA_CURRENT_SYNC_COMMITTEE_GINDEX)"

definition finality_branch_depth_at_slot :: "u64 \<Rightarrow> usize" where
  "finality_branch_depth_at_slot slot =
     (if uses_electra_light_client_layout slot then ELECTRA_FINALITY_BRANCH_DEPTH else PRE_ELECTRA_FINALITY_BRANCH_DEPTH)"

definition next_sync_committee_gindex_at_slot :: "u64 \<Rightarrow> u64" where
  "next_sync_committee_gindex_at_slot slot =
     (if uses_electra_light_client_layout slot then ELECTRA_NEXT_SYNC_COMMITTEE_GINDEX
      else PRE_ELECTRA_NEXT_SYNC_COMMITTEE_GINDEX)"

definition fork_for_slot :: "u64 \<Rightarrow> consensus_data_fork" where
  "fork_for_slot slot =
     (let version = fork_version_at_slot slot
      in if ELECTRA_FORK_VERSION \<le> version then Electra
         else if version = DENEB_FORK_VERSION then Deneb
         else if version = CAPELLA_FORK_VERSION then Capella
         else Capella)"

section \<open>Roots\<close>

definition container_root_from_roots :: "('pk, 'sg) cl_env \<Rightarrow> b256 list \<Rightarrow> b256" where
  "container_root_from_roots env field_roots = cl_merkle_root env (concat (map as_slice field_roots)) 0"

definition bytes_list_root :: "('pk, 'sg) cl_env \<Rightarrow> bytes \<Rightarrow> b256" where
  "bytes_list_root env bytes = cl_mix_in_length env (cl_merkle_root env bytes 0) (length bytes)"

definition beacon_block_header_root :: "('pk, 'sg) cl_env \<Rightarrow> beacon_header \<Rightarrow> b256" where
  "beacon_block_header_root env header =
     container_root_from_roots env
       [cl_root_u64 env (bh_slot header), cl_root_u64 env (bh_proposer_index header),
        cl_root_b256 env (bh_parent_root header), cl_root_b256 env (bh_state_root header),
        cl_root_b256 env (bh_body_root header)]"

text \<open>The 15 field roots shared by the two execution headers.\<close>

definition execution_field_roots :: "('pk, 'sg) cl_env \<Rightarrow> 'a execution_payload_header_capella_scheme \<Rightarrow> b256 list" where
  "execution_field_roots env header =
     [cl_root_b256 env (ep_parent_hash header), cl_root_fixed_bytes env (as_slice (ep_fee_recipient header)),
      cl_root_b256 env (ep_state_root header), cl_root_b256 env (ep_receipts_root header),
      cl_root_fixed_bytes env (as_slice (ep_logs_bloom header)), cl_root_b256 env (ep_prev_randao header),
      cl_root_u64 env (ep_block_number header), cl_root_u64 env (ep_gas_limit header),
      cl_root_u64 env (ep_gas_used header), cl_root_u64 env (ep_timestamp header),
      bytes_list_root env (ep_extra_data header), cl_root_u256 env (ep_base_fee_per_gas header),
      cl_root_b256 env (ep_block_hash header), cl_root_b256 env (ep_transactions_root header),
      cl_root_b256 env (ep_withdrawals_root header)]"

definition execution_payload_header_capella_root ::
  "('pk, 'sg) cl_env \<Rightarrow> execution_payload_header_capella \<Rightarrow> b256" where
  "execution_payload_header_capella_root env header = container_root_from_roots env (execution_field_roots env header)"

definition execution_payload_header_deneb_field_roots ::
  "('pk, 'sg) cl_env \<Rightarrow> execution_payload_header_deneb \<Rightarrow> b256 list" where
  "execution_payload_header_deneb_field_roots env header =
     execution_field_roots env header
     @ [cl_root_u64 env (ep_blob_gas_used header), cl_root_u64 env (ep_excess_blob_gas header)]"

definition execution_payload_header_deneb_root :: "('pk, 'sg) cl_env \<Rightarrow> execution_payload_header_deneb \<Rightarrow> b256" where
  "execution_payload_header_deneb_root env header =
     container_root_from_roots env (execution_payload_header_deneb_field_roots env header)"

definition sync_committee_pubkeys_root_from_bytes :: "('pk, 'sg) cl_env \<Rightarrow> 196608 word \<Rightarrow> b256" where
  "sync_committee_pubkeys_root_from_bytes env pubkeys =
     cl_merkle_root env
       (concat (map (\<lambda>pubkey. as_slice (cl_root_fixed_bytes env pubkey)) (chunks_exact BLS_PUBKEY_BYTES (as_slice pubkeys))))
       SYNC_COMMITTEE_PUBKEYS"

definition sync_committee_raw_root :: "('pk, 'sg) cl_env \<Rightarrow> sync_committee_raw \<Rightarrow> b256" where
  "sync_committee_raw_root env committee =
     container_root_from_roots env
       [sync_committee_pubkeys_root_from_bytes env (scr_pubkeys committee),
        cl_root_fixed_bytes env (as_slice (scr_aggregate_pubkey committee))]"

definition to_persisted :: "sync_committee_raw \<Rightarrow> sync_committee_data" where
  "to_persisted committee =
     \<lparr>sc_pubkeys = map from_slice (chunks_exact BLS_PUBKEY_BYTES (as_slice (scr_pubkeys committee))),
      sc_aggregate_pubkey = scr_aggregate_pubkey committee\<rparr>"

definition sync_committee_tree_hash_root :: "('pk, 'sg) cl_env \<Rightarrow> sync_committee_data \<Rightarrow> lc_error + b256" where
  "sync_committee_tree_hash_root env committee =
     (let pubkeys = concat (map as_slice (sc_pubkeys committee))
      in if length pubkeys \<noteq> SYNC_COMMITTEE_PUBKEY_BYTES then Inl (LcPanic ''source slice length mismatch'')
         else Inr (sync_committee_raw_root env
                     \<lparr>scr_pubkeys = from_slice pubkeys, scr_aggregate_pubkey = sc_aggregate_pubkey committee\<rparr>))"

definition fork_data_root :: "('pk, 'sg) cl_env \<Rightarrow> bytes \<Rightarrow> bytes" where
  "fork_data_root env fork_version =
     as_slice (cl_sha256 env (fork_version @ replicate 28 0
       @ as_slice (cs_genesis_validators_root MAINNET_CONSENSUS_CHAIN_SPEC)))"

definition compute_sync_committee_domain :: "('pk, 'sg) cl_env \<Rightarrow> u64 \<Rightarrow> bytes" where
  "compute_sync_committee_domain env signature_slot =
     (let epoch = epoch_for_slot (saturating_sub signature_slot 1);
          fork_version = fork_version_for_epoch MAINNET_CONSENSUS_CHAIN_SPEC epoch
      in SYNC_COMMITTEE_DOMAIN @ take 28 (fork_data_root env fork_version))"

definition compute_signing_root :: "('pk, 'sg) cl_env \<Rightarrow> b256 \<Rightarrow> bytes \<Rightarrow> b256" where
  "compute_signing_root env object_root domain = hash_concat (cl_sha256 env) object_root (from_slice domain)"

definition beacon_root :: "('pk, 'sg) cl_env \<Rightarrow> verified_header \<Rightarrow> b256" where
  "beacon_root env header = beacon_block_header_root env (vh_beacon header)"

definition header_execution_anchor :: "('pk, 'sg) cl_env \<Rightarrow> verified_header \<Rightarrow> execution_anchor option" where
  "header_execution_anchor env header =
     map_option (\<lambda>execution.
       \<lparr>ea_beacon_root = beacon_root env header, ea_beacon_slot = bh_slot (vh_beacon header),
        ea_block_number = ed_block_number execution, ea_block_hash = ed_block_hash execution,
        ea_receipts_root = ed_receipts_root execution\<rparr>) (vh_execution header)"

definition finalized_anchor :: "('pk, 'sg) cl_env \<Rightarrow> lc_store \<Rightarrow> execution_anchor option" where
  "finalized_anchor env store = header_execution_anchor env (st_finalized_header store)"

definition optimistic_anchor :: "('pk, 'sg) cl_env \<Rightarrow> lc_store \<Rightarrow> execution_anchor option" where
  "optimistic_anchor env store = header_execution_anchor env (st_optimistic_header store)"

text \<open>The slot of a verified header, used throughout.\<close>

abbreviation vh_slot :: "verified_header \<Rightarrow> u64" where
  "vh_slot header \<equiv> bh_slot (vh_beacon header)"

section \<open>Sizes\<close>

lemma chunks_exact_length:
  "0 < k \<Longrightarrow> length xs = n * k \<Longrightarrow> length (chunks_exact k xs) = n"
proof (induction n arbitrary: xs)
  case 0
  then show ?case by (subst chunks_exact.simps) simp
next
  case (Suc n)
  then show ?case by (subst chunks_exact.simps) simp
qed

lemma length_to_persisted [simp]: "length (sc_pubkeys (to_persisted committee)) = 512"
  by (simp add: to_persisted_def BLS_PUBKEY_BYTES_def chunks_exact_length[of 48 _ 512])

lemma concat_slices_length: "length (concat (map as_slice (ks :: bls_public_key list))) = 48 * length ks"
  by (induction ks) simp_all

lemma committee_root_defined:
  "length (sc_pubkeys committee) = 512 \<Longrightarrow> \<exists>root. sync_committee_tree_hash_root env committee = Inr root"
  by (simp add: sync_committee_tree_hash_root_def concat_slices_length SYNC_COMMITTEE_PUBKEY_BYTES_def
      SYNC_COMMITTEE_PUBKEYS_def BLS_PUBKEY_BYTES_def)

lemma length_branch_from_fixed:
  "LENGTH('n) = 256 * d \<Longrightarrow> length (branch_from_fixed (b :: 'n::len word)) = d"
  by (simp add: branch_from_fixed_def chunks_exact_length[of 32 _ d])

end
