(* ===== verification/Light_Client_Payloads.thy ===== *)
theory Light_Client_Payloads
  imports Light_Client_Types
begin

text \<open>
  Decoding and header verification of light-client payloads,
  \<^verbatim>\<open>src/crates/logex-cl/src/light_client.rs\<close>: the three wire layouts, the execution
  proof of a header, optional finality and committees, and the accessors and
  status summaries of decoded payloads.
\<close>

section \<open>Decoding\<close>

fun join_with :: "string \<Rightarrow> string list \<Rightarrow> string" where
  "join_with sep [] = []"
| "join_with sep [x] = x"
| "join_with sep (x # y # ys) = x @ sep @ join_with sep (y # ys)"

definition candidate_failures :: "bytes \<Rightarrow> (string \<times> string option) list \<Rightarrow> string" where
  "candidate_failures bytes attempts =
     show_nat (length bytes) @ '' bytes; ''
     @ join_with ''; '' (List.map_filter (\<lambda>(label, error). map_option (\<lambda>e. label @ '': '' @ e) error) attempts)"

fun err :: "'e + 'a \<Rightarrow> 'e option" where
  "err (Inl e) = Some e"
| "err (Inr _) = None"

definition decode_bootstrap_payload :: "('pk, 'sg) cl_env \<Rightarrow> bytes \<Rightarrow> lc_decode_error + decoded_bootstrap" where
  "decode_bootstrap_payload env bytes =
     (case cl_ssz_bootstrap_electra env bytes of Inr payload \<Rightarrow> Inr (BootstrapElectra payload)
      | Inl electra \<Rightarrow>
     case cl_ssz_bootstrap_deneb env bytes of Inr payload \<Rightarrow> Inr (BootstrapDeneb payload)
      | Inl deneb \<Rightarrow>
     case cl_ssz_bootstrap_capella env bytes of Inr payload \<Rightarrow> Inr (BootstrapCapella payload)
      | Inl capella \<Rightarrow>
     Inl (UnsupportedFork ''light-client bootstrap''
       (candidate_failures bytes
          [(''electra'', err (cl_ssz_bootstrap_electra env bytes)),
           (''deneb'', err (cl_ssz_bootstrap_deneb env bytes)),
           (''capella'', err (cl_ssz_bootstrap_capella env bytes))])))"

definition decode_finality_update_payload ::
  "('pk, 'sg) cl_env \<Rightarrow> bytes \<Rightarrow> lc_decode_error + decoded_finality_update" where
  "decode_finality_update_payload env bytes =
     (case cl_ssz_finality_electra env bytes of Inr payload \<Rightarrow> Inr (FinalityElectra payload)
      | Inl electra \<Rightarrow>
     case cl_ssz_finality_deneb env bytes of Inr payload \<Rightarrow> Inr (FinalityDeneb payload)
      | Inl deneb \<Rightarrow>
     case cl_ssz_finality_capella env bytes of Inr payload \<Rightarrow> Inr (FinalityCapella payload)
      | Inl capella \<Rightarrow>
     Inl (UnsupportedFork ''light-client finality update''
       (candidate_failures bytes
          [(''electra'', err (cl_ssz_finality_electra env bytes)),
           (''deneb'', err (cl_ssz_finality_deneb env bytes)),
           (''capella'', err (cl_ssz_finality_capella env bytes))])))"

definition decode_optimistic_update_payload ::
  "('pk, 'sg) cl_env \<Rightarrow> bytes \<Rightarrow> lc_decode_error + decoded_optimistic_update" where
  "decode_optimistic_update_payload env bytes =
     (case cl_ssz_optimistic_deneb env bytes of Inr payload \<Rightarrow> Inr (OptimisticDeneb payload)
      | Inl deneb \<Rightarrow>
     case cl_ssz_optimistic_capella env bytes of Inr payload \<Rightarrow> Inr (OptimisticCapella payload)
      | Inl capella \<Rightarrow>
     Inl (UnsupportedFork ''light-client optimistic update''
       (candidate_failures bytes
          [(''deneb_or_electra'', err (cl_ssz_optimistic_deneb env bytes)),
           (''capella'', err (cl_ssz_optimistic_capella env bytes))])))"

definition decode_update_payload :: "('pk, 'sg) cl_env \<Rightarrow> bytes \<Rightarrow> lc_decode_error + decoded_update" where
  "decode_update_payload env bytes =
     (case cl_ssz_update_electra env bytes of Inr payload \<Rightarrow> Inr (UpdateElectra payload)
      | Inl electra \<Rightarrow>
     case cl_ssz_update_deneb env bytes of Inr payload \<Rightarrow> Inr (UpdateDeneb payload)
      | Inl deneb \<Rightarrow>
     case cl_ssz_update_capella env bytes of Inr payload \<Rightarrow> Inr (UpdateCapella payload)
      | Inl capella \<Rightarrow>
     Inl (UnsupportedFork ''light-client update''
       (candidate_failures bytes
          [(''electra'', err (cl_ssz_update_electra env bytes)),
           (''deneb'', err (cl_ssz_update_deneb env bytes)),
           (''capella'', err (cl_ssz_update_capella env bytes))])))"

text \<open>The \<^verbatim>\<open>?\<close> on a decode error converts it to a verification error.\<close>

definition or_decode :: "lc_decode_error + 'a \<Rightarrow> lc_error + 'a" where
  "or_decode r = (case r of Inl e \<Rightarrow> Inl (Decode e) | Inr x \<Rightarrow> Inr x)"

section \<open>Summaries\<close>

definition execution_data_of :: "'a execution_payload_header_capella_scheme \<Rightarrow> execution_data option" where
  "execution_data_of execution =
     (if ep_block_hash execution \<noteq> 0
      then Some \<lparr>ed_block_number = ep_block_number execution, ed_block_hash = ep_block_hash execution,
                 ed_receipts_root = ep_receipts_root execution\<rparr>
      else None)"

definition header_summary_of :: "'a execution_payload_header_capella_scheme lc_header \<Rightarrow> header_summary" where
  "header_summary_of header =
     \<lparr>hs_beacon_slot = bh_slot (h_beacon header), hs_execution = execution_data_of (h_execution header)\<rparr>"

definition header_summary_verified :: "verified_header \<Rightarrow> header_summary" where
  "header_summary_verified header =
     \<lparr>hs_beacon_slot = bh_slot (vh_beacon header), hs_execution = vh_execution header\<rparr>"

fun count_ones_u8 :: "nat \<Rightarrow> u8 \<Rightarrow> nat" where
  "count_ones_u8 0 b = 0"
| "count_ones_u8 (Suc n) b = (if bit b n then 1 else 0) + count_ones_u8 n b"

definition participant_count :: "sync_aggregate_raw \<Rightarrow> usize" where
  "participant_count sync_aggregate =
     sum_list (map (count_ones_u8 8) (as_slice (sa_sync_committee_bits sync_aggregate)))"

fun bootstrap_status_of :: "decoded_bootstrap \<Rightarrow> bootstrap_status" where
  "bootstrap_status_of (BootstrapCapella payload) =
     \<lparr>bst_fork = Capella, bst_header = header_summary_of (lb_header payload),
      bst_current_sync_committee_pubkeys = SYNC_COMMITTEE_PUBKEYS,
      bst_current_sync_committee_branch_depth = PRE_ELECTRA_SYNC_COMMITTEE_BRANCH_DEPTH\<rparr>"
| "bootstrap_status_of (BootstrapDeneb payload) =
     \<lparr>bst_fork = Deneb, bst_header = header_summary_of (lb_header payload),
      bst_current_sync_committee_pubkeys = SYNC_COMMITTEE_PUBKEYS,
      bst_current_sync_committee_branch_depth = PRE_ELECTRA_SYNC_COMMITTEE_BRANCH_DEPTH\<rparr>"
| "bootstrap_status_of (BootstrapElectra payload) =
     \<lparr>bst_fork = Electra, bst_header = header_summary_of (lb_header payload),
      bst_current_sync_committee_pubkeys = SYNC_COMMITTEE_PUBKEYS,
      bst_current_sync_committee_branch_depth = ELECTRA_SYNC_COMMITTEE_BRANCH_DEPTH\<rparr>"

definition finality_status_of ::
  "consensus_data_fork \<Rightarrow> ('a execution_payload_header_capella_scheme lc_header, 'f) lc_finality_update \<Rightarrow> usize
   \<Rightarrow> finality_update_status" where
  "finality_status_of fork payload depth =
     \<lparr>fst_fork = fork, fst_attested_header = header_summary_of (fu_attested_header payload),
      fst_finalized_header = header_summary_of (fu_finalized_header payload),
      fst_signature_slot = fu_signature_slot payload,
      fst_sync_committee_participants = participant_count (fu_sync_aggregate payload),
      fst_finality_branch_depth = depth\<rparr>"

fun finality_update_status_of :: "decoded_finality_update \<Rightarrow> finality_update_status" where
  "finality_update_status_of (FinalityCapella payload) = finality_status_of Capella payload PRE_ELECTRA_FINALITY_BRANCH_DEPTH"
| "finality_update_status_of (FinalityDeneb payload) = finality_status_of Deneb payload PRE_ELECTRA_FINALITY_BRANCH_DEPTH"
| "finality_update_status_of (FinalityElectra payload) = finality_status_of Electra payload ELECTRA_FINALITY_BRANCH_DEPTH"

definition optimistic_status_of ::
  "consensus_data_fork \<Rightarrow> 'a execution_payload_header_capella_scheme lc_header lc_optimistic_update
   \<Rightarrow> optimistic_update_status" where
  "optimistic_status_of fork payload =
     \<lparr>ost_fork = fork, ost_attested_header = header_summary_of (ou_attested_header payload),
      ost_signature_slot = ou_signature_slot payload,
      ost_sync_committee_participants = participant_count (ou_sync_aggregate payload)\<rparr>"

fun optimistic_update_status_of :: "decoded_optimistic_update \<Rightarrow> optimistic_update_status" where
  "optimistic_update_status_of (OptimisticCapella payload) = optimistic_status_of Capella payload"
| "optimistic_update_status_of (OptimisticDeneb payload) =
     optimistic_status_of (fork_for_slot (bh_slot (h_beacon (ou_attested_header payload)))) payload"

definition decode_bootstrap :: "('pk, 'sg) cl_env \<Rightarrow> bytes \<Rightarrow> lc_decode_error + bootstrap_status" where
  "decode_bootstrap env bytes =
     bind_res (decode_bootstrap_payload env bytes) (\<lambda>decoded. Inr (bootstrap_status_of decoded))"

definition decode_finality_update :: "('pk, 'sg) cl_env \<Rightarrow> bytes \<Rightarrow> lc_decode_error + finality_update_status" where
  "decode_finality_update env bytes =
     bind_res (decode_finality_update_payload env bytes) (\<lambda>decoded. Inr (finality_update_status_of decoded))"

definition decode_optimistic_update :: "('pk, 'sg) cl_env \<Rightarrow> bytes \<Rightarrow> lc_decode_error + optimistic_update_status" where
  "decode_optimistic_update env bytes =
     bind_res (decode_optimistic_update_payload env bytes) (\<lambda>decoded. Inr (optimistic_update_status_of decoded))"

section \<open>Header verification\<close>

definition execution_proof_valid :: "('pk, 'sg) cl_env \<Rightarrow> b256 \<Rightarrow> execution_branch \<Rightarrow> b256 \<Rightarrow> bool" where
  "execution_proof_valid env execution_root execution_branch body_root \<longleftrightarrow>
     is_valid_merkle_branch (cl_sha256 env) execution_root (branch_from_fixed execution_branch)
       EXECUTION_BRANCH_DEPTH (subtree_index EXECUTION_PAYLOAD_GINDEX) body_root"

definition verify_capella_header ::
  "('pk, 'sg) cl_env \<Rightarrow> light_client_header_capella \<Rightarrow> lc_error + verified_header" where
  "verify_capella_header env header =
     (let slot = bh_slot (h_beacon header);
          fork_version = fork_version_at_slot slot
      in if MAX_EXTRA_DATA_BYTES < length (ep_extra_data (h_execution header))
         then Inl (InvalidExecutionHeader slot ''extra data exceeds 32 bytes'')
         else if DENEB_FORK_VERSION \<le> fork_version
         then Inl (InvalidExecutionHeader slot ''Capella encoding cannot represent a Deneb or later header'')
         else if fork_version < CAPELLA_FORK_VERSION
         then if h_execution header \<noteq> default_execution_capella \<or> h_execution_branch header \<noteq> 0
              then Inl (InvalidExecutionHeader slot ''pre-Capella execution fields and branch must be empty'')
              else Inr \<lparr>vh_fork = Capella, vh_beacon = h_beacon header, vh_execution = None\<rparr>
         else
           let execution_root = execution_payload_header_capella_root env (h_execution header)
           in if \<not> execution_proof_valid env execution_root (h_execution_branch header) (bh_body_root (h_beacon header))
              then Inl (InvalidExecutionProof slot)
              else Inr \<lparr>vh_fork = Capella, vh_beacon = h_beacon header,
                        vh_execution = execution_data_of (h_execution header)\<rparr>)"

definition verify_deneb_header ::
  "('pk, 'sg) cl_env \<Rightarrow> light_client_header_deneb \<Rightarrow> consensus_data_fork \<Rightarrow> lc_error + verified_header" where
  "verify_deneb_header env header fork =
     (let slot = bh_slot (h_beacon header);
          fork_version = fork_version_at_slot slot
      in if MAX_EXTRA_DATA_BYTES < length (ep_extra_data (h_execution header))
         then Inl (InvalidExecutionHeader slot ''extra data exceeds 32 bytes'')
         else if fork_version < DENEB_FORK_VERSION
           \<and> (ep_blob_gas_used (h_execution header) \<noteq> 0 \<or> ep_excess_blob_gas (h_execution header) \<noteq> 0)
         then Inl (InvalidExecutionHeader slot ''pre-Deneb blob gas fields must be zero'')
         else if fork_version < CAPELLA_FORK_VERSION
         then if h_execution header \<noteq> default_execution_deneb \<or> h_execution_branch header \<noteq> 0
              then Inl (InvalidExecutionHeader slot ''pre-Capella execution fields and branch must be empty'')
              else Inr \<lparr>vh_fork = fork, vh_beacon = h_beacon header, vh_execution = None\<rparr>
         else
           let execution_root =
             (if fork_version < DENEB_FORK_VERSION
              then container_root_from_roots env
                     (take 15 (execution_payload_header_deneb_field_roots env (h_execution header)))
              else execution_payload_header_deneb_root env (h_execution header))
           in if \<not> execution_proof_valid env execution_root (h_execution_branch header) (bh_body_root (h_beacon header))
              then Inl (InvalidExecutionProof slot)
              else Inr \<lparr>vh_fork = fork, vh_beacon = h_beacon header,
                        vh_execution = execution_data_of (h_execution header)\<rparr>)"

definition validate_finalized_header_shape :: "bool \<Rightarrow> u64 \<Rightarrow> bool \<Rightarrow> lc_error + unit" where
  "validate_finalized_header_shape is_default slot has_finality =
     (if \<not> is_default \<and> (\<not> has_finality \<or> slot = 0)
      then Inl (InvalidFinalityHeader slot ''absent finality and genesis finality require a default header'')
      else Inr ())"

definition verified_optional_capella_header ::
  "('pk, 'sg) cl_env \<Rightarrow> light_client_header_capella \<Rightarrow> bool \<Rightarrow> lc_error + verified_header option" where
  "verified_optional_capella_header env header has_finality =
     bind_res (validate_finalized_header_shape (header = default_header_capella) (bh_slot (h_beacon header)) has_finality)
       (\<lambda>_. if has_finality then bind_res (verify_capella_header env header) (\<lambda>h. Inr (Some h)) else Inr None)"

definition verified_optional_deneb_header ::
  "('pk, 'sg) cl_env \<Rightarrow> light_client_header_deneb \<Rightarrow> bool \<Rightarrow> lc_error + verified_header option" where
  "verified_optional_deneb_header env header has_finality =
     bind_res (validate_finalized_header_shape (header = default_header_deneb) (bh_slot (h_beacon header)) has_finality)
       (\<lambda>_. if has_finality
            then bind_res (verify_deneb_header env header (fork_for_slot (bh_slot (h_beacon header)))) (\<lambda>h. Inr (Some h))
            else Inr None)"

definition verified_optional_sync_committee ::
  "sync_committee_raw \<Rightarrow> 'n::len word \<Rightarrow> u64 \<Rightarrow> lc_error + sync_committee_data option" where
  "verified_optional_sync_committee committee branch attested_slot =
     (case (branch_has_nonzero branch, committee = default_committee_raw) of
        (False, True) \<Rightarrow> Inr None
      | (True, False) \<Rightarrow> Inr (Some (to_persisted committee))
      | _ \<Rightarrow> Inl (InvalidNextSyncCommitteeProof attested_slot))"

section \<open>Accessors of decoded payloads\<close>

fun bootstrap_verified_header :: "('pk, 'sg) cl_env \<Rightarrow> decoded_bootstrap \<Rightarrow> lc_error + verified_header" where
  "bootstrap_verified_header env (BootstrapCapella payload) = verify_capella_header env (lb_header payload)"
| "bootstrap_verified_header env (BootstrapDeneb payload) = verify_deneb_header env (lb_header payload) Deneb"
| "bootstrap_verified_header env (BootstrapElectra payload) = verify_deneb_header env (lb_header payload) Electra"

fun current_sync_committee :: "decoded_bootstrap \<Rightarrow> sync_committee_raw" where
  "current_sync_committee (BootstrapCapella payload) = lb_current_sync_committee payload"
| "current_sync_committee (BootstrapDeneb payload) = lb_current_sync_committee payload"
| "current_sync_committee (BootstrapElectra payload) = lb_current_sync_committee payload"

fun current_sync_committee_branch :: "decoded_bootstrap \<Rightarrow> b256 list" where
  "current_sync_committee_branch (BootstrapCapella payload) = branch_from_fixed (lb_current_sync_committee_branch payload)"
| "current_sync_committee_branch (BootstrapDeneb payload) = branch_from_fixed (lb_current_sync_committee_branch payload)"
| "current_sync_committee_branch (BootstrapElectra payload) = branch_from_fixed (lb_current_sync_committee_branch payload)"

fun finality_attested_verified_header :: "('pk, 'sg) cl_env \<Rightarrow> decoded_finality_update \<Rightarrow> lc_error + verified_header" where
  "finality_attested_verified_header env (FinalityCapella payload) = verify_capella_header env (fu_attested_header payload)"
| "finality_attested_verified_header env (FinalityDeneb payload) = verify_deneb_header env (fu_attested_header payload) Deneb"
| "finality_attested_verified_header env (FinalityElectra payload) =
     verify_deneb_header env (fu_attested_header payload) Electra"

fun finality_finalized_verified_header ::
  "('pk, 'sg) cl_env \<Rightarrow> decoded_finality_update \<Rightarrow> lc_error + verified_header option" where
  "finality_finalized_verified_header env (FinalityCapella payload) =
     verified_optional_capella_header env (fu_finalized_header payload) (branch_has_nonzero (fu_finality_branch payload))"
| "finality_finalized_verified_header env (FinalityDeneb payload) =
     verified_optional_deneb_header env (fu_finalized_header payload) (branch_has_nonzero (fu_finality_branch payload))"
| "finality_finalized_verified_header env (FinalityElectra payload) =
     verified_optional_deneb_header env (fu_finalized_header payload) (branch_has_nonzero (fu_finality_branch payload))"

fun finality_sync_aggregate :: "decoded_finality_update \<Rightarrow> sync_aggregate_raw" where
  "finality_sync_aggregate (FinalityCapella payload) = fu_sync_aggregate payload"
| "finality_sync_aggregate (FinalityDeneb payload) = fu_sync_aggregate payload"
| "finality_sync_aggregate (FinalityElectra payload) = fu_sync_aggregate payload"

fun finality_branch :: "decoded_finality_update \<Rightarrow> b256 list" where
  "finality_branch (FinalityCapella payload) = branch_from_fixed (fu_finality_branch payload)"
| "finality_branch (FinalityDeneb payload) = branch_from_fixed (fu_finality_branch payload)"
| "finality_branch (FinalityElectra payload) = branch_from_fixed (fu_finality_branch payload)"

text \<open>A branch of zeros stands for absent finality.\<close>

definition nonzero_branch :: "b256 list \<Rightarrow> b256 list option" where
  "nonzero_branch branch = (if \<exists>item \<in> set branch. item \<noteq> 0 then Some branch else None)"

definition finality_branch_for_verification :: "decoded_finality_update \<Rightarrow> b256 list option" where
  "finality_branch_for_verification decoded = nonzero_branch (finality_branch decoded)"

fun finality_signature_slot :: "decoded_finality_update \<Rightarrow> u64" where
  "finality_signature_slot (FinalityCapella payload) = fu_signature_slot payload"
| "finality_signature_slot (FinalityDeneb payload) = fu_signature_slot payload"
| "finality_signature_slot (FinalityElectra payload) = fu_signature_slot payload"

fun optimistic_attested_verified_header ::
  "('pk, 'sg) cl_env \<Rightarrow> decoded_optimistic_update \<Rightarrow> lc_error + verified_header" where
  "optimistic_attested_verified_header env (OptimisticCapella payload) =
     verify_capella_header env (ou_attested_header payload)"
| "optimistic_attested_verified_header env (OptimisticDeneb payload) =
     verify_deneb_header env (ou_attested_header payload)
       (fork_for_slot (bh_slot (h_beacon (ou_attested_header payload))))"

fun optimistic_sync_aggregate :: "decoded_optimistic_update \<Rightarrow> sync_aggregate_raw" where
  "optimistic_sync_aggregate (OptimisticCapella payload) = ou_sync_aggregate payload"
| "optimistic_sync_aggregate (OptimisticDeneb payload) = ou_sync_aggregate payload"

fun optimistic_signature_slot :: "decoded_optimistic_update \<Rightarrow> u64" where
  "optimistic_signature_slot (OptimisticCapella payload) = ou_signature_slot payload"
| "optimistic_signature_slot (OptimisticDeneb payload) = ou_signature_slot payload"

fun update_verified :: "('pk, 'sg) cl_env \<Rightarrow> decoded_update \<Rightarrow> lc_error + verified_update" where
  "update_verified env (UpdateCapella payload) =
     bind_res (verify_capella_header env (lu_attested_header payload)) (\<lambda>attested.
     bind_res (verified_optional_capella_header env (lu_finalized_header payload)
                 (branch_has_nonzero (lu_finality_branch payload))) (\<lambda>finalized.
     bind_res (verified_optional_sync_committee (lu_next_sync_committee payload)
                 (lu_next_sync_committee_branch payload) (bh_slot (h_beacon (lu_attested_header payload)))) (\<lambda>next_committee.
     Inr \<lparr>vu_attested_header = attested, vu_finalized_header = finalized, vu_finalized_checkpoint = None,
          vu_next_sync_committee = next_committee, vu_signature_slot = lu_signature_slot payload,
          vu_participants = participant_count (lu_sync_aggregate payload)\<rparr>)))"
| "update_verified env (UpdateDeneb payload) =
     bind_res (verify_deneb_header env (lu_attested_header payload)
                 (fork_for_slot (bh_slot (h_beacon (lu_attested_header payload))))) (\<lambda>attested.
     bind_res (verified_optional_deneb_header env (lu_finalized_header payload)
                 (branch_has_nonzero (lu_finality_branch payload))) (\<lambda>finalized.
     bind_res (verified_optional_sync_committee (lu_next_sync_committee payload)
                 (lu_next_sync_committee_branch payload) (bh_slot (h_beacon (lu_attested_header payload)))) (\<lambda>next_committee.
     Inr \<lparr>vu_attested_header = attested, vu_finalized_header = finalized, vu_finalized_checkpoint = None,
          vu_next_sync_committee = next_committee, vu_signature_slot = lu_signature_slot payload,
          vu_participants = participant_count (lu_sync_aggregate payload)\<rparr>)))"
| "update_verified env (UpdateElectra payload) =
     bind_res (verify_deneb_header env (lu_attested_header payload) Electra) (\<lambda>attested.
     bind_res (verified_optional_deneb_header env (lu_finalized_header payload)
                 (branch_has_nonzero (lu_finality_branch payload))) (\<lambda>finalized.
     bind_res (verified_optional_sync_committee (lu_next_sync_committee payload)
                 (lu_next_sync_committee_branch payload) (bh_slot (h_beacon (lu_attested_header payload)))) (\<lambda>next_committee.
     Inr \<lparr>vu_attested_header = attested, vu_finalized_header = finalized, vu_finalized_checkpoint = None,
          vu_next_sync_committee = next_committee, vu_signature_slot = lu_signature_slot payload,
          vu_participants = participant_count (lu_sync_aggregate payload)\<rparr>)))"

fun update_sync_aggregate :: "decoded_update \<Rightarrow> sync_aggregate_raw" where
  "update_sync_aggregate (UpdateCapella payload) = lu_sync_aggregate payload"
| "update_sync_aggregate (UpdateDeneb payload) = lu_sync_aggregate payload"
| "update_sync_aggregate (UpdateElectra payload) = lu_sync_aggregate payload"

fun update_finality_branch :: "decoded_update \<Rightarrow> b256 list" where
  "update_finality_branch (UpdateCapella payload) = branch_from_fixed (lu_finality_branch payload)"
| "update_finality_branch (UpdateDeneb payload) = branch_from_fixed (lu_finality_branch payload)"
| "update_finality_branch (UpdateElectra payload) = branch_from_fixed (lu_finality_branch payload)"

definition update_finality_branch_for_verification :: "decoded_update \<Rightarrow> b256 list option" where
  "update_finality_branch_for_verification decoded = nonzero_branch (update_finality_branch decoded)"

fun update_next_sync_committee_branch :: "decoded_update \<Rightarrow> b256 list option" where
  "update_next_sync_committee_branch (UpdateCapella payload) =
     (if branch_has_nonzero (lu_next_sync_committee_branch payload)
      then Some (branch_from_fixed (lu_next_sync_committee_branch payload)) else None)"
| "update_next_sync_committee_branch (UpdateDeneb payload) =
     (if branch_has_nonzero (lu_next_sync_committee_branch payload)
      then Some (branch_from_fixed (lu_next_sync_committee_branch payload)) else None)"
| "update_next_sync_committee_branch (UpdateElectra payload) =
     (if branch_has_nonzero (lu_next_sync_committee_branch payload)
      then Some (branch_from_fixed (lu_next_sync_committee_branch payload)) else None)"

section \<open>Gossip metadata\<close>

record gossip_update_metadata =
  gm_attested_slot :: u64
  gm_signature_slot :: u64
  gm_finalized_slot :: "u64 option"
  gm_participants :: usize
  gm_optimistic_bytes :: bytes

fun finality_optimistic_bytes :: "('pk, 'sg) cl_env \<Rightarrow> decoded_finality_update \<Rightarrow> bytes" where
  "finality_optimistic_bytes env (FinalityCapella p) =
     cl_ssz_encode_optimistic_capella env
       \<lparr>ou_attested_header = fu_attested_header p, ou_sync_aggregate = fu_sync_aggregate p,
        ou_signature_slot = fu_signature_slot p\<rparr>"
| "finality_optimistic_bytes env (FinalityDeneb p) =
     cl_ssz_encode_optimistic_deneb env
       \<lparr>ou_attested_header = fu_attested_header p, ou_sync_aggregate = fu_sync_aggregate p,
        ou_signature_slot = fu_signature_slot p\<rparr>"
| "finality_optimistic_bytes env (FinalityElectra p) =
     cl_ssz_encode_optimistic_deneb env
       \<lparr>ou_attested_header = fu_attested_header p, ou_sync_aggregate = fu_sync_aggregate p,
        ou_signature_slot = fu_signature_slot p\<rparr>"

fun optimistic_wire_fork :: "decoded_optimistic_update \<Rightarrow> consensus_data_fork" where
  "optimistic_wire_fork (OptimisticCapella _) = Capella"
| "optimistic_wire_fork (OptimisticDeneb _) = Deneb"

definition gossip_update_metadata_of ::
  "('pk, 'sg) cl_env \<Rightarrow> bytes \<Rightarrow> bool \<Rightarrow> lc_decode_error + gossip_update_metadata" where
  "gossip_update_metadata_of env bytes finality =
     bind_res
       (if finality
        then bind_res (decode_finality_update_payload env bytes) (\<lambda>decoded.
          let status = finality_update_status_of decoded
          in Inr (\<lparr>gm_attested_slot = hs_beacon_slot (fst_attested_header status),
                   gm_signature_slot = fst_signature_slot status,
                   gm_finalized_slot = Some (hs_beacon_slot (fst_finalized_header status)),
                   gm_participants = fst_sync_committee_participants status,
                   gm_optimistic_bytes = finality_optimistic_bytes env decoded\<rparr>, fst_fork status))
        else bind_res (decode_optimistic_update_payload env bytes) (\<lambda>decoded.
          let status = optimistic_update_status_of decoded
          in Inr (\<lparr>gm_attested_slot = hs_beacon_slot (ost_attested_header status),
                   gm_signature_slot = ost_signature_slot status, gm_finalized_slot = None,
                   gm_participants = ost_sync_committee_participants status,
                   gm_optimistic_bytes = bytes\<rparr>, optimistic_wire_fork decoded)))
       (\<lambda>(metadata, wire_fork).
          let expected = fork_for_slot (gm_attested_slot metadata);
              layout_matches = (wire_fork = expected \<or> \<not> finality \<and> wire_fork = Deneb \<and> expected = Electra)
          in if \<not> layout_matches \<or> fork_version_at_slot (gm_attested_slot metadata) < CAPELLA_FORK_VERSION
             then Inl (UnsupportedFork ''gossip light-client update'' ''wire layout does not match attested-slot fork'')
             else Inr metadata)"

section \<open>Facts\<close>

lemma count_ones_u8_bound: "count_ones_u8 n b \<le> n"
  by (induction n) auto

lemma participant_count_bound: "participant_count aggregate \<le> SYNC_COMMITTEE_PUBKEYS"
proof -
  have "sum_list (map (count_ones_u8 8) bs) \<le> 8 * length bs" for bs
    by (induction bs) (use count_ones_u8_bound[of 8] in \<open>auto intro: add_mono\<close>)
  from this[of "as_slice (sa_sync_committee_bits aggregate)"] show ?thesis
    by (simp add: participant_count_def SYNC_COMMITTEE_PUBKEYS_def)
qed

lemma verify_header_fields:
  "verify_capella_header env hc = Inr v \<Longrightarrow> vh_beacon v = h_beacon hc"
  "verify_deneb_header env hdn fork = Inr v \<Longrightarrow> vh_beacon v = h_beacon hdn"
  by (auto simp: verify_capella_header_def verify_deneb_header_def Let_def split: if_splits)

lemma verified_optional_sync_committee_length:
  "verified_optional_sync_committee committee branch slot = Inr (Some c) \<Longrightarrow> length (sc_pubkeys c) = 512"
  by (auto simp: verified_optional_sync_committee_def split: bool.splits prod.splits)

lemma update_verified_fields:
  assumes "update_verified env decoded = Inr u"
  shows "vu_participants u = participant_count (update_sync_aggregate decoded)"
    and "vu_finalized_checkpoint u = None"
    and "vu_next_sync_committee u = Some c \<Longrightarrow> length (sc_pubkeys c) = 512"
  using assms by (cases decoded; auto simp: bind_res_Inr_iff dest: verified_optional_sync_committee_length)+

end
