(* ===== verification/Light_Client.thy ===== *)
theory Light_Client
  imports Light_Client_Payloads
begin

text \<open>
  Verification and processing of light-client updates,
  \<^verbatim>\<open>src/crates/logex-cl/src/light_client.rs\<close>: the trusted bootstrap, the checks of an
  update against the store, the processing of a verified update, the timeout
  fallback and the validation of a persisted store.
\<close>

section \<open>Verification\<close>

definition checkpoint_matches_header ::
  "('pk, 'sg) cl_env \<Rightarrow> finalized_checkpoint \<Rightarrow> verified_header \<Rightarrow> u64 \<Rightarrow> bool" where
  "checkpoint_matches_header env checkpoint header attested_slot =
     (case checked_mul (fc_epoch checkpoint) SLOTS_PER_EPOCH of
        None \<Rightarrow> False
      | Some start_slot \<Rightarrow>
          if attested_slot < start_slot \<or> start_slot < vh_slot header then False
          else if vh_slot header = 0 then fc_epoch checkpoint = 0 \<and> fc_root checkpoint = 0
          else fc_root checkpoint = beacon_root env header \<and> fc_root checkpoint \<noteq> 0)"

definition finalized_slot :: "verified_update \<Rightarrow> u64" where
  "finalized_slot update = (case vu_finalized_header update of Some header \<Rightarrow> vh_slot header | None \<Rightarrow> 0)"

definition verify_update_finality_proof ::
  "('pk, 'sg) cl_env \<Rightarrow> verified_update \<Rightarrow> b256 list option \<Rightarrow> lc_error + finalized_checkpoint option" where
  "verify_update_finality_proof env update branch =
     (case branch of
        None \<Rightarrow> Inr None
      | Some branch \<Rightarrow>
          let attested_slot = vh_slot (vu_attested_header update);
              invalid = InvalidFinalityProof attested_slot (finalized_slot update)
          in bind_res (ok_or (vu_finalized_header update) invalid) (\<lambda>header.
             let depth = floorlog2 (finalized_root_gindex_at_slot attested_slot);
                 extra = length branch - depth
             in bind_res (ok_or (get branch extra) invalid) (\<lambda>chunk.
                if \<exists>byte \<in> set (drop 8 (as_slice chunk)). byte \<noteq> 0 then Inl invalid
                else
                  let epoch = from_le_bytes (take 8 (as_slice chunk));
                      root = (if vh_slot header = 0 then 0 else beacon_root env header);
                      checkpoint = \<lparr>fc_epoch = epoch, fc_root = root\<rparr>
                  in if \<not> checkpoint_matches_header env checkpoint header attested_slot
                       \<or> \<not> is_valid_normalized_merkle_branch (cl_sha256 env) root branch
                            (finalized_root_gindex_at_slot attested_slot)
                            (bh_state_root (vh_beacon (vu_attested_header update)))
                     then Inl invalid
                     else Inr (Some checkpoint))))"

definition verify_update_next_committee_proof ::
  "('pk, 'sg) cl_env \<Rightarrow> verified_update \<Rightarrow> b256 list option \<Rightarrow> lc_error + unit" where
  "verify_update_next_committee_proof env update branch =
     (case vu_next_sync_committee update of
        None \<Rightarrow> Inr ()
      | Some committee \<Rightarrow>
          let attested_slot = vh_slot (vu_attested_header update)
          in case branch of
               None \<Rightarrow> Inl (InvalidNextSyncCommitteeProof attested_slot)
             | Some branch \<Rightarrow>
                 bind_res (sync_committee_tree_hash_root env committee) (\<lambda>leaf.
                 if \<not> is_valid_normalized_merkle_branch (cl_sha256 env) leaf branch
                        (next_sync_committee_gindex_at_slot attested_slot)
                        (bh_state_root (vh_beacon (vu_attested_header update)))
                 then Inl (InvalidNextSyncCommitteeProof attested_slot)
                 else Inr ()))"

text \<open>The selected public keys, validated in committee order.\<close>

fun select_keys ::
  "('pk, 'sg) cl_env \<Rightarrow> bytes \<Rightarrow> usize \<Rightarrow> bls_public_key list \<Rightarrow> lc_error + 'pk list" where
  "select_keys env bits i [] = Inr []"
| "select_keys env bits i (pubkey # rest) =
     (if i div 8 < length bits
      then
        if bits ! (i div 8) AND push_bit (i mod 8) 1 \<noteq> 0
        then case cl_key_validate env (as_slice pubkey) of
               Inl details \<Rightarrow> Inl (InvalidCommitteePublicKey i details)
             | Inr key \<Rightarrow> bind_res (select_keys env bits (Suc i) rest) (\<lambda>active. Inr (key # active))
        else select_keys env bits (Suc i) rest
      else Inl (LcPanic ''index out of bounds''))"

definition participant_public_keys ::
  "('pk, 'sg) cl_env \<Rightarrow> sync_committee_data \<Rightarrow> 512 word \<Rightarrow> lc_error + 'pk list" where
  "participant_public_keys env committee bits =
     (if length (sc_pubkeys committee) \<noteq> SYNC_COMMITTEE_PUBKEYS
      then Inl (InvalidCommitteeLength (length (sc_pubkeys committee)))
      else select_keys env (as_slice bits) 0 (sc_pubkeys committee))"

definition committee_for_period :: "lc_store \<Rightarrow> u64 \<Rightarrow> lc_error + sync_committee_data" where
  "committee_for_period store signature_slot =
     (let store_period = sync_committee_period_at_slot (vh_slot (st_finalized_header store));
          signature_period = sync_committee_period_at_slot signature_slot
      in if signature_period = store_period then Inr (st_current_sync_committee store)
         else if signature_period = store_period + 1
         then ok_or (st_next_sync_committee store) (UnknownSyncCommitteePeriod signature_period store_period)
         else Inl (UnknownSyncCommitteePeriod signature_period store_period))"

definition verify_valid_light_client_update_at_slot ::
  "('pk, 'sg) cl_env \<Rightarrow> lc_store \<Rightarrow> verified_update \<Rightarrow> b256 list option \<Rightarrow> b256 list option
   \<Rightarrow> sync_aggregate_raw \<Rightarrow> u64 \<Rightarrow> lc_error + verified_update" where
  "verify_valid_light_client_update_at_slot env store update fin_branch next_branch sync_aggregate current_slot =
     (if vu_participants update < MIN_SYNC_COMMITTEE_PARTICIPANTS then Inl NoSyncCommitteeParticipants
      else
        let attested_slot = vh_slot (vu_attested_header update)
        in if current_slot < vu_signature_slot update
           then Inl (SignatureFromFuture (vu_signature_slot update) current_slot)
           else if vu_signature_slot update \<le> attested_slot \<or> attested_slot < finalized_slot update
           then Inl (InvalidSlotOrdering (vu_signature_slot update) attested_slot (finalized_slot update))
           else
             bind_res (committee_for_period store (vu_signature_slot update)) (\<lambda>committee.
             let store_period = sync_committee_period_at_slot (vh_slot (st_finalized_header store));
                 attested_period = sync_committee_period_at_slot attested_slot;
                 update_has_next_sync_committee =
                   (st_next_sync_committee store = None \<and> vu_next_sync_committee update \<noteq> None
                    \<and> attested_period = store_period)
             in if attested_slot \<le> vh_slot (st_finalized_header store) \<and> \<not> update_has_next_sync_committee
                then Inl (IrrelevantUpdate attested_slot (vh_slot (st_finalized_header store)))
                else
                  bind_res (verify_update_finality_proof env update fin_branch) (\<lambda>finalized_checkpoint.
                  if vu_next_sync_committee update \<noteq> None \<and> attested_period = store_period
                     \<and> st_next_sync_committee store \<noteq> None
                     \<and> vu_next_sync_committee update \<noteq> st_next_sync_committee store
                  then Inl (InvalidNextSyncCommitteeProof attested_slot)
                  else
                    bind_res (verify_update_next_committee_proof env update next_branch) (\<lambda>_.
                    bind_res (participant_public_keys env committee (sa_sync_committee_bits sync_aggregate)) (\<lambda>keys.
                    case cl_sig_validate env (as_slice (sa_sync_committee_signature sync_aggregate)) of
                      Inl details \<Rightarrow> Inl (InvalidSignature details)
                    | Inr signature \<Rightarrow>
                        let message = compute_signing_root env
                              (beacon_block_header_root env (vh_beacon (vu_attested_header update)))
                              (compute_sync_committee_domain env (vu_signature_slot update))
                        in if \<not> cl_fast_aggregate_verify env signature (as_slice message)
                                 SYNC_COMMITTEE_SIGNATURE_DST keys
                           then Inl InvalidSyncCommitteeSignature
                           else Inr (update\<lparr>vu_finalized_checkpoint := finalized_checkpoint\<rparr>))))))"

definition verify_valid_light_client_update ::
  "('pk, 'sg) cl_env \<Rightarrow> u64 option \<Rightarrow> lc_store \<Rightarrow> verified_update \<Rightarrow> b256 list option \<Rightarrow> b256 list option
   \<Rightarrow> sync_aggregate_raw \<Rightarrow> lc_error + verified_update" where
  "verify_valid_light_client_update env unix_now store update fin_branch next_branch sync_aggregate =
     verify_valid_light_client_update_at_slot env store update fin_branch next_branch sync_aggregate
       (wall_clock_slot MAINNET_CONSENSUS_CHAIN_SPEC unix_now)"

section \<open>Processing\<close>

definition has_supermajority :: "verified_update \<Rightarrow> bool" where
  "has_supermajority update \<longleftrightarrow> SYNC_COMMITTEE_PUBKEYS * 2 \<le> vu_participants update * 3"

definition has_relevant_sync_committee :: "verified_update \<Rightarrow> bool" where
  "has_relevant_sync_committee update \<longleftrightarrow>
     vu_next_sync_committee update \<noteq> None
     \<and> sync_committee_period_at_slot (vh_slot (vu_attested_header update))
        = sync_committee_period_at_slot (vu_signature_slot update)"

definition has_sync_committee_finality :: "verified_update \<Rightarrow> bool" where
  "has_sync_committee_finality update \<longleftrightarrow>
     (case vu_finalized_header update of
        None \<Rightarrow> False
      | Some header \<Rightarrow>
          sync_committee_period_at_slot (vh_slot header)
            = sync_committee_period_at_slot (vh_slot (vu_attested_header update)))"

definition is_better_update :: "verified_update \<Rightarrow> verified_update \<Rightarrow> bool" where
  "is_better_update new old =
     (if has_supermajority new \<noteq> has_supermajority old then has_supermajority new
      else if \<not> has_supermajority new \<and> vu_participants new \<noteq> vu_participants old
      then vu_participants old < vu_participants new
      else if has_relevant_sync_committee new \<noteq> has_relevant_sync_committee old then has_relevant_sync_committee new
      else if (vu_finalized_header new \<noteq> None) \<noteq> (vu_finalized_header old \<noteq> None)
      then vu_finalized_header new \<noteq> None
      else if vu_finalized_header new \<noteq> None \<and> has_sync_committee_finality new \<noteq> has_sync_committee_finality old
      then has_sync_committee_finality new
      else if vu_participants new \<noteq> vu_participants old then vu_participants old < vu_participants new
      else if vh_slot (vu_attested_header new) \<noteq> vh_slot (vu_attested_header old)
      then vh_slot (vu_attested_header new) < vh_slot (vu_attested_header old)
      else vu_signature_slot new < vu_signature_slot old)"

definition safety_threshold :: "lc_store \<Rightarrow> usize" where
  "safety_threshold store =
     max (st_previous_max_active_participants store) (st_current_max_active_participants store) div 2"

definition rotate_committees :: "lc_store \<Rightarrow> verified_update \<Rightarrow> lc_store" where
  "rotate_committees store update =
     (let store_period = sync_committee_period_at_slot (vh_slot (st_finalized_header store));
          update_finalized_period = sync_committee_period_at_slot (finalized_slot update)
      in case st_next_sync_committee store of
           None \<Rightarrow> store\<lparr>st_next_sync_committee := vu_next_sync_committee update\<rparr>
         | Some next_committee \<Rightarrow>
             if update_finalized_period = store_period + 1
             then store\<lparr>st_current_sync_committee := next_committee,
                        st_next_sync_committee := vu_next_sync_committee update,
                        st_previous_max_active_participants := st_current_max_active_participants store,
                        st_current_max_active_participants := 0\<rparr>
             else store)"

definition adopt_finalized :: "verified_header option \<Rightarrow> lc_store \<Rightarrow> lc_store" where
  "adopt_finalized finalized_header store =
     (case finalized_header of
        None \<Rightarrow> store
      | Some header \<Rightarrow>
          if vh_slot (st_finalized_header store) < vh_slot header
          then
            let store = store\<lparr>st_finalized_header := header\<rparr>
            in if vh_slot (st_optimistic_header store) < vh_slot (st_finalized_header store)
               then store\<lparr>st_optimistic_header := st_finalized_header store\<rparr>
               else store
          else store)"

definition apply_validated_light_client_update :: "lc_store \<Rightarrow> verified_update \<Rightarrow> lc_store" where
  "apply_validated_light_client_update store update =
     adopt_finalized (vu_finalized_header update) (rotate_committees store update)"

text \<open>The stages of \<^verbatim>\<open>process_light_client_update\<close>, in the order of the code.\<close>

definition record_best :: "verified_update \<Rightarrow> lc_store \<Rightarrow> lc_store" where
  "record_best update s =
     (if (case st_best_valid_update s of None \<Rightarrow> True | Some best \<Rightarrow> is_better_update update best)
      then s\<lparr>st_best_valid_update := Some update\<rparr> else s)"

definition record_participants :: "verified_update \<Rightarrow> lc_store \<Rightarrow> lc_store" where
  "record_participants update s =
     s\<lparr>st_current_max_active_participants := max (st_current_max_active_participants s) (vu_participants update)\<rparr>"

definition advance_optimistic :: "verified_update \<Rightarrow> lc_store \<Rightarrow> lc_store" where
  "advance_optimistic update s =
     (if safety_threshold s < vu_participants update
        \<and> vh_slot (st_optimistic_header s) < vh_slot (vu_attested_header update)
      then s\<lparr>st_optimistic_header := vu_attested_header update\<rparr> else s)"

definition record_checkpoint :: "verified_update \<Rightarrow> lc_store \<Rightarrow> lc_store" where
  "record_checkpoint update s =
     (case vu_finalized_checkpoint update of
        Some checkpoint \<Rightarrow>
          if has_supermajority update
            \<and> (case st_finalized_checkpoint s of None \<Rightarrow> True | Some known \<Rightarrow> fc_epoch known < fc_epoch checkpoint)
          then s\<lparr>st_finalized_checkpoint := Some checkpoint\<rparr> else s
      | None \<Rightarrow> s)"

definition finalize_update :: "verified_update \<Rightarrow> lc_store \<Rightarrow> lc_store" where
  "finalize_update update s =
     (let update_has_finalized_next_sync_committee =
            (st_next_sync_committee s = None \<and> vu_next_sync_committee update \<noteq> None
             \<and> vu_finalized_header update \<noteq> None
             \<and> sync_committee_period_at_slot (finalized_slot update)
                = sync_committee_period_at_slot (vh_slot (vu_attested_header update)))
      in if SYNC_COMMITTEE_PUBKEYS * 2 \<le> vu_participants update * 3
           \<and> (vh_slot (st_finalized_header s) < finalized_slot update \<or> update_has_finalized_next_sync_committee)
         then (apply_validated_light_client_update s update)\<lparr>st_best_valid_update := None\<rparr>
         else s)"

definition process_light_client_update :: "lc_store \<Rightarrow> verified_update \<Rightarrow> applied_update" where
  "process_light_client_update store update =
     \<lparr>au_store =
        finalize_update update
          (record_checkpoint update (advance_optimistic update (record_participants update (record_best update store)))),
      au_optimistic_status =
        \<lparr>ost_fork = vh_fork (vu_attested_header update),
         ost_attested_header = header_summary_verified (vu_attested_header update),
         ost_signature_slot = vu_signature_slot update,
         ost_sync_committee_participants = vu_participants update\<rparr>,
      au_finality_status =
        map_option (\<lambda>finalized_header.
          \<lparr>fst_fork = vh_fork (vu_attested_header update),
           fst_attested_header = header_summary_verified (vu_attested_header update),
           fst_finalized_header = header_summary_verified finalized_header,
           fst_signature_slot = vu_signature_slot update,
           fst_sync_committee_participants = vu_participants update,
           fst_finality_branch_depth = finality_branch_depth_at_slot (vh_slot (vu_attested_header update))\<rparr>)
          (vu_finalized_header update)\<rparr>"

definition force_update_light_client_store :: "u64 option \<Rightarrow> lc_store \<Rightarrow> lc_store option" where
  "force_update_light_client_store unix_now store =
     (if wall_clock_slot MAINNET_CONSENSUS_CHAIN_SPEC unix_now
         \<le> saturating_add (vh_slot (st_finalized_header store)) UPDATE_TIMEOUT
      then None
      else
        case st_best_valid_update store of
          None \<Rightarrow> None
        | Some best_update \<Rightarrow>
            let best_update =
              (if finalized_slot best_update \<le> vh_slot (st_finalized_header store)
               then best_update\<lparr>vu_finalized_header := Some (vu_attested_header best_update)\<rparr>
               else best_update)
            in Some ((apply_validated_light_client_update store best_update)\<lparr>st_best_valid_update := None\<rparr>))"

section \<open>Payloads\<close>

definition apply_light_client_update_payload ::
  "('pk, 'sg) cl_env \<Rightarrow> u64 option \<Rightarrow> bytes \<Rightarrow> lc_store \<Rightarrow> lc_error + applied_update" where
  "apply_light_client_update_payload env unix_now bytes store =
     bind_res (or_decode (decode_update_payload env bytes)) (\<lambda>decoded.
     bind_res (update_verified env decoded) (\<lambda>update.
     bind_res (verify_valid_light_client_update env unix_now store update
                 (update_finality_branch_for_verification decoded) (update_next_sync_committee_branch decoded)
                 (update_sync_aggregate decoded)) (\<lambda>update.
     Inr (process_light_client_update store update))))"

definition verify_bootstrap_payload ::
  "('pk, 'sg) cl_env \<Rightarrow> bytes \<Rightarrow> ws_checkpoint \<Rightarrow> lc_error + bootstrap_status \<times> lc_store" where
  "verify_bootstrap_payload env bytes checkpoint =
     bind_res (or_decode (decode_bootstrap_payload env bytes)) (\<lambda>decoded.
     bind_res (bootstrap_verified_header env decoded) (\<lambda>header.
     let root = beacon_root env header
     in if root \<noteq> wc_beacon_root checkpoint then Inl (TrustedCheckpointMismatch (wc_beacon_root checkpoint) root)
        else
          let slot = vh_slot header
          in bind_res
               (case wc_beacon_slot checkpoint of
                  None \<Rightarrow> Inr ()
                | Some expected \<Rightarrow>
                    if expected \<noteq> slot then Inl (TrustedCheckpointSlotMismatch expected slot) else Inr ()) (\<lambda>_.
             let leaf = sync_committee_raw_root env (current_sync_committee decoded);
                 branch = current_sync_committee_branch decoded;
                 gindex = current_sync_committee_gindex_at_slot slot
             in if \<not> is_valid_normalized_merkle_branch (cl_sha256 env) leaf branch gindex
                      (bh_state_root (vh_beacon header))
                then Inl (InvalidCurrentSyncCommitteeProof slot)
                else Inr (bootstrap_status_of decoded,
                  \<lparr>st_checkpoint_root = wc_beacon_root checkpoint, st_bootstrap_slot = slot,
                   st_current_sync_committee = to_persisted (current_sync_committee decoded),
                   st_next_sync_committee = None, st_finalized_header = header, st_finalized_checkpoint = None,
                   st_optimistic_header = header, st_best_valid_update = None,
                   st_previous_max_active_participants = 0, st_current_max_active_participants = 0\<rparr>))))"

definition apply_finality_update_payload_at_slot ::
  "('pk, 'sg) cl_env \<Rightarrow> bytes \<Rightarrow> lc_store \<Rightarrow> u64
   \<Rightarrow> lc_error + finality_update_status \<times> lc_store \<times> verified_header \<times> verified_header" where
  "apply_finality_update_payload_at_slot env bytes store current_slot =
     bind_res (or_decode (decode_finality_update_payload env bytes)) (\<lambda>decoded.
     bind_res (finality_attested_verified_header env decoded) (\<lambda>attested_header.
     bind_res (finality_finalized_verified_header env decoded) (\<lambda>finalized_header.
     let update =
       \<lparr>vu_attested_header = attested_header, vu_finalized_header = finalized_header,
        vu_finalized_checkpoint = None, vu_next_sync_committee = None,
        vu_signature_slot = finality_signature_slot decoded,
        vu_participants = participant_count (finality_sync_aggregate decoded)\<rparr>
     in bind_res (verify_valid_light_client_update_at_slot env store update
                    (finality_branch_for_verification decoded) None (finality_sync_aggregate decoded) current_slot) (\<lambda>update.
        let applied = process_light_client_update store update
        in Inr (case au_finality_status applied of Some status \<Rightarrow> status | None \<Rightarrow> finality_update_status_of decoded,
                au_store applied, attested_header,
                case finalized_header of
                  Some header \<Rightarrow> header
                | None \<Rightarrow> \<lparr>vh_fork = fst_fork (finality_update_status_of decoded), vh_beacon = default_beacon,
                            vh_execution = None\<rparr>)))))"

definition apply_finality_update_payload ::
  "('pk, 'sg) cl_env \<Rightarrow> u64 option \<Rightarrow> bytes \<Rightarrow> lc_store
   \<Rightarrow> lc_error + finality_update_status \<times> lc_store \<times> verified_header \<times> verified_header" where
  "apply_finality_update_payload env unix_now bytes store =
     apply_finality_update_payload_at_slot env bytes store (wall_clock_slot MAINNET_CONSENSUS_CHAIN_SPEC unix_now)"

definition apply_optimistic_update_payload_at_slot ::
  "('pk, 'sg) cl_env \<Rightarrow> bytes \<Rightarrow> lc_store \<Rightarrow> u64
   \<Rightarrow> lc_error + optimistic_update_status \<times> lc_store \<times> verified_header" where
  "apply_optimistic_update_payload_at_slot env bytes store current_slot =
     bind_res (or_decode (decode_optimistic_update_payload env bytes)) (\<lambda>decoded.
     bind_res (optimistic_attested_verified_header env decoded) (\<lambda>attested_header.
     let update =
       \<lparr>vu_attested_header = attested_header, vu_finalized_header = None, vu_finalized_checkpoint = None,
        vu_next_sync_committee = None, vu_signature_slot = optimistic_signature_slot decoded,
        vu_participants = participant_count (optimistic_sync_aggregate decoded)\<rparr>
     in bind_res (verify_valid_light_client_update_at_slot env store update None None
                    (optimistic_sync_aggregate decoded) current_slot) (\<lambda>update.
        let applied = process_light_client_update store update
        in Inr (au_optimistic_status applied, au_store applied, attested_header))))"

definition apply_optimistic_update_payload ::
  "('pk, 'sg) cl_env \<Rightarrow> u64 option \<Rightarrow> bytes \<Rightarrow> lc_store
   \<Rightarrow> lc_error + optimistic_update_status \<times> lc_store \<times> verified_header" where
  "apply_optimistic_update_payload env unix_now bytes store =
     apply_optimistic_update_payload_at_slot env bytes store (wall_clock_slot MAINNET_CONSENSUS_CHAIN_SPEC unix_now)"

section \<open>The persisted store\<close>

definition committee_valid :: "sync_committee_data \<Rightarrow> bool" where
  "committee_valid committee \<longleftrightarrow> length (sc_pubkeys committee) = SYNC_COMMITTEE_PUBKEYS"

definition validate_committee :: "string \<Rightarrow> sync_committee_data \<Rightarrow> string + unit" where
  "validate_committee who committee =
     (if \<not> committee_valid committee
      then Inl (who @ '' committee has '' @ show_nat (length (sc_pubkeys committee)) @ '' public keys; expected 512'')
      else Inr ())"

definition validate_best_update :: "('pk, 'sg) cl_env \<Rightarrow> verified_update \<Rightarrow> string + unit" where
  "validate_best_update env update =
     (if (case vu_finalized_checkpoint update of
            None \<Rightarrow> False
          | Some checkpoint \<Rightarrow>
              (case vu_finalized_header update of
                 None \<Rightarrow> True
               | Some header \<Rightarrow> \<not> checkpoint_matches_header env checkpoint header (vh_slot (vu_attested_header update))))
      then Inl ''best update checkpoint is inconsistent with its headers''
      else if \<not> (MIN_SYNC_COMMITTEE_PARTICIPANTS \<le> vu_participants update \<and> vu_participants update \<le> SYNC_COMMITTEE_PUBKEYS)
      then Inl (''best update participant count '' @ show_nat (vu_participants update) @ '' is outside 1..=512'')
      else case vu_next_sync_committee update of
             None \<Rightarrow> Inr ()
           | Some committee \<Rightarrow> validate_committee ''best update next'' committee)"

definition validate_persisted_state :: "('pk, 'sg) cl_env \<Rightarrow> lc_store \<Rightarrow> ws_checkpoint \<Rightarrow> string + unit" where
  "validate_persisted_state env store checkpoint =
     (if st_checkpoint_root store \<noteq> wc_beacon_root checkpoint
      then Inl ''verified store checkpoint root differs from snapshot checkpoint''
      else if wc_beacon_slot checkpoint \<noteq> Some (st_bootstrap_slot store)
      then Inl ''verified store bootstrap slot differs from snapshot checkpoint slot''
      else if vh_slot (st_finalized_header store) < st_bootstrap_slot store
      then Inl ''verified store finalized slot precedes bootstrap slot''
      else if vh_slot (st_optimistic_header store) < vh_slot (st_finalized_header store)
      then Inl ''verified store optimistic slot precedes finalized slot''
      else
        bind_res
          (case st_finalized_checkpoint store of
             None \<Rightarrow> Inr ()
           | Some checkpoint \<Rightarrow>
               bind_res (ok_or (checked_mul (fc_epoch checkpoint) SLOTS_PER_EPOCH)
                           ''verified checkpoint epoch overflows slot range'') (\<lambda>start_slot.
               if vh_slot (st_optimistic_header store) < start_slot
                 \<or> (fc_root checkpoint = 0) \<noteq> (fc_epoch checkpoint = 0)
               then Inl ''verified checkpoint exceeds optimistic slot or has invalid genesis root''
               else Inr ())) (\<lambda>_.
        bind_res (validate_committee ''current'' (st_current_sync_committee store)) (\<lambda>_.
        bind_res (case st_next_sync_committee store of
                    None \<Rightarrow> Inr () | Some committee \<Rightarrow> validate_committee ''next'' committee) (\<lambda>_.
        if SYNC_COMMITTEE_PUBKEYS < st_previous_max_active_participants store
        then Inl (''previous maximum participant count '' @ show_nat (st_previous_max_active_participants store)
                  @ '' exceeds 512'')
        else if SYNC_COMMITTEE_PUBKEYS < st_current_max_active_participants store
        then Inl (''current maximum participant count '' @ show_nat (st_current_max_active_participants store)
                  @ '' exceeds 512'')
        else case st_best_valid_update store of
               None \<Rightarrow> Inr ()
             | Some update \<Rightarrow> validate_best_update env update))))"

section \<open>Cached payloads\<close>

record raw_rpc_response =
  rr_context_bytes :: "bytes option"
  rr_bytes :: bytes

text \<open>The map by period is an association list in key order, as a \<^verbatim>\<open>BTreeMap\<close> iterates.\<close>

record persisted_payloads =
  pp_bootstrap :: "raw_rpc_response option"
  pp_finality_update :: "raw_rpc_response option"
  pp_optimistic_update :: "raw_rpc_response option"
  pp_updates_by_period :: "(u64 \<times> raw_rpc_response) list"

text \<open>The rendered error texts, kept as data: which cached payload, and the reason.\<close>

datatype cached_kind = CachedBootstrap | CachedFinality | CachedOptimistic | CachedUpdate u64

datatype cached_error = CachedInvalid cached_kind lc_error | CachedContext cached_kind u64 | CachedPeriod u64 u64

definition normalize_cached_context ::
  "('pk, 'sg) cl_env \<Rightarrow> cached_kind \<Rightarrow> raw_rpc_response \<Rightarrow> u64 \<Rightarrow> cached_error + raw_rpc_response" where
  "normalize_cached_context env kind payload slot =
     (let expected = fork_digest_for_epoch (cl_sha256 env) MAINNET_CONSENSUS_CHAIN_SPEC (epoch_for_slot slot)
      in if (case rr_context_bytes payload of None \<Rightarrow> False | Some actual \<Rightarrow> actual \<noteq> expected)
         then Inl (CachedContext kind slot)
         else Inr (payload\<lparr>rr_context_bytes := Some expected\<rparr>))"

definition validate_cached_update_structure ::
  "('pk, 'sg) cl_env \<Rightarrow> verified_update \<Rightarrow> b256 list option \<Rightarrow> b256 list option \<Rightarrow> sync_aggregate_raw \<Rightarrow> lc_error + unit" where
  "validate_cached_update_structure env update fin_branch next_branch sync_aggregate =
     (if vu_participants update < MIN_SYNC_COMMITTEE_PARTICIPANTS then Inl NoSyncCommitteeParticipants
      else
        let attested_slot = vh_slot (vu_attested_header update)
        in if vu_signature_slot update \<le> attested_slot \<or> attested_slot < finalized_slot update
           then Inl (InvalidSlotOrdering (vu_signature_slot update) attested_slot (finalized_slot update))
           else
             bind_res (verify_update_finality_proof env update fin_branch) (\<lambda>_.
             bind_res (verify_update_next_committee_proof env update next_branch) (\<lambda>_.
             case cl_sig_validate env (as_slice (sa_sync_committee_signature sync_aggregate)) of
               Inl details \<Rightarrow> Inl (InvalidSignature details)
             | Inr _ \<Rightarrow> Inr ())))"

definition cached_invalid :: "cached_kind \<Rightarrow> lc_error + 'a \<Rightarrow> cached_error + 'a" where
  "cached_invalid kind r = (case r of Inl e \<Rightarrow> Inl (CachedInvalid kind e) | Inr x \<Rightarrow> Inr x)"

definition validate_cached_bootstrap ::
  "('pk, 'sg) cl_env \<Rightarrow> ws_checkpoint \<Rightarrow> raw_rpc_response \<Rightarrow> cached_error + raw_rpc_response" where
  "validate_cached_bootstrap env checkpoint payload =
     bind_res (cached_invalid CachedBootstrap (verify_bootstrap_payload env (rr_bytes payload) checkpoint)) (\<lambda>(status, _).
     normalize_cached_context env CachedBootstrap payload (hs_beacon_slot (bst_header status)))"

definition validate_cached_finality ::
  "('pk, 'sg) cl_env \<Rightarrow> raw_rpc_response \<Rightarrow> cached_error + raw_rpc_response" where
  "validate_cached_finality env payload =
     bind_res (cached_invalid CachedFinality
       (bind_res (or_decode (decode_finality_update_payload env (rr_bytes payload))) (\<lambda>decoded.
        bind_res (finality_attested_verified_header env decoded) (\<lambda>attested.
        bind_res (finality_finalized_verified_header env decoded) (\<lambda>finalized.
        bind_res (validate_cached_update_structure env
            \<lparr>vu_attested_header = attested, vu_finalized_header = finalized, vu_finalized_checkpoint = None,
             vu_next_sync_committee = None, vu_signature_slot = finality_signature_slot decoded,
             vu_participants = participant_count (finality_sync_aggregate decoded)\<rparr>
            (finality_branch_for_verification decoded) None (finality_sync_aggregate decoded)) (\<lambda>_.
        Inr (vh_slot attested))))))) (\<lambda>slot.
     normalize_cached_context env CachedFinality payload slot)"

definition validate_cached_optimistic ::
  "('pk, 'sg) cl_env \<Rightarrow> raw_rpc_response \<Rightarrow> cached_error + raw_rpc_response" where
  "validate_cached_optimistic env payload =
     bind_res (cached_invalid CachedOptimistic
       (bind_res (or_decode (decode_optimistic_update_payload env (rr_bytes payload))) (\<lambda>decoded.
        bind_res (optimistic_attested_verified_header env decoded) (\<lambda>attested.
        bind_res (validate_cached_update_structure env
            \<lparr>vu_attested_header = attested, vu_finalized_header = None, vu_finalized_checkpoint = None,
             vu_next_sync_committee = None, vu_signature_slot = optimistic_signature_slot decoded,
             vu_participants = participant_count (optimistic_sync_aggregate decoded)\<rparr>
            None None (optimistic_sync_aggregate decoded)) (\<lambda>_.
        Inr (vh_slot attested)))))) (\<lambda>slot.
     normalize_cached_context env CachedOptimistic payload slot)"

definition validate_cached_update ::
  "('pk, 'sg) cl_env \<Rightarrow> u64 \<Rightarrow> raw_rpc_response \<Rightarrow> cached_error + raw_rpc_response" where
  "validate_cached_update env period payload =
     bind_res (cached_invalid (CachedUpdate period)
       (bind_res (or_decode (decode_update_payload env (rr_bytes payload))) (\<lambda>decoded.
        bind_res (update_verified env decoded) (\<lambda>update.
        bind_res (validate_cached_update_structure env update (update_finality_branch_for_verification decoded)
            (update_next_sync_committee_branch decoded) (update_sync_aggregate decoded)) (\<lambda>_.
        Inr (vh_slot (vu_attested_header update))))))) (\<lambda>slot.
     if sync_committee_period_at_slot slot \<noteq> period then Inl (CachedPeriod period slot)
     else normalize_cached_context env (CachedUpdate period) payload slot)"

fun validate_cached_updates ::
  "('pk, 'sg) cl_env \<Rightarrow> (u64 \<times> raw_rpc_response) list \<Rightarrow> cached_error + (u64 \<times> raw_rpc_response) list" where
  "validate_cached_updates env [] = Inr []"
| "validate_cached_updates env ((period, payload) # rest) =
     bind_res (validate_cached_update env period payload) (\<lambda>payload.
     bind_res (validate_cached_updates env rest) (\<lambda>rest. Inr ((period, payload) # rest)))"

definition option_res :: "('a \<Rightarrow> 'e + 'a) \<Rightarrow> 'a option \<Rightarrow> 'e + 'a option" where
  "option_res f x = (case x of None \<Rightarrow> Inr None | Some y \<Rightarrow> bind_res (f y) (\<lambda>y. Inr (Some y)))"

text \<open>
  The payloads are updated in place; on an error the caller drops them, so the
  model returns the updated payloads only on success.
\<close>

definition validate_cached_light_client_payloads ::
  "('pk, 'sg) cl_env \<Rightarrow> persisted_payloads \<Rightarrow> ws_checkpoint \<Rightarrow> cached_error + persisted_payloads" where
  "validate_cached_light_client_payloads env payloads checkpoint =
     bind_res (option_res (validate_cached_bootstrap env checkpoint) (pp_bootstrap payloads)) (\<lambda>bootstrap.
     bind_res (option_res (validate_cached_finality env) (pp_finality_update payloads)) (\<lambda>finality.
     bind_res (option_res (validate_cached_optimistic env) (pp_optimistic_update payloads)) (\<lambda>optimistic.
     bind_res (validate_cached_updates env (pp_updates_by_period payloads)) (\<lambda>updates.
     Inr \<lparr>pp_bootstrap = bootstrap, pp_finality_update = finality, pp_optimistic_update = optimistic,
          pp_updates_by_period = updates\<rparr>))))"

end
