(* ===== verification/Light_Client_Store.thy ===== *)
theory Light_Client_Store
  imports Light_Client "HOL-Library.Product_Lexorder"
begin

text \<open>
  Properties of the light-client store: the reachable stores and their invariant,
  monotone heads, what a finalized header rests on, progress of the timeout
  fallback, the order on candidate updates, and absence of panics.
\<close>

section \<open>Verified updates\<close>

definition update_ok :: "('pk, 'sg) cl_env \<Rightarrow> verified_update \<Rightarrow> bool" where
  "update_ok env u \<longleftrightarrow>
     1 \<le> vu_participants u \<and> vu_participants u \<le> 512
     \<and> (\<forall>c. vu_next_sync_committee u = Some c \<longrightarrow> committee_valid c)
     \<and> finalized_slot u \<le> vh_slot (vu_attested_header u)
     \<and> (\<forall>c. vu_finalized_checkpoint u = Some c \<longrightarrow>
          (\<exists>h. vu_finalized_header u = Some h
            \<and> checkpoint_matches_header env c h (vh_slot (vu_attested_header u))))"

text \<open>What makes an update worth keeping: a newer attested header or a missing committee.\<close>

definition relevant :: "lc_store \<Rightarrow> verified_update \<Rightarrow> bool" where
  "relevant s u \<longleftrightarrow>
     vh_slot (st_finalized_header s) < vh_slot (vu_attested_header u)
     \<or> st_next_sync_committee s = None \<and> vu_next_sync_committee u \<noteq> None"

lemma finality_proof_checkpoint:
  assumes "verify_update_finality_proof env u branch = Inr (Some c)"
  shows "\<exists>h b. vu_finalized_header u = Some h \<and> branch = Some b
    \<and> checkpoint_matches_header env c h (vh_slot (vu_attested_header u))
    \<and> is_valid_normalized_merkle_branch (cl_sha256 env) (fc_root c) b
        (finalized_root_gindex_at_slot (vh_slot (vu_attested_header u)))
        (bh_state_root (vh_beacon (vu_attested_header u)))"
  using assms
  by (auto simp: verify_update_finality_proof_def Let_def bind_res_Inr_iff split: option.splits if_splits)

lemma finality_proof_some:
  assumes "verify_update_finality_proof env u (Some b) = Inr r"
  shows "r \<noteq> None"
  using assms by (auto simp: verify_update_finality_proof_def Let_def bind_res_Inr_iff split: if_splits)

text \<open>The facts established by a successful verification, one by one.\<close>

lemma verify_update_facts:
  assumes "verify_valid_light_client_update_at_slot env s u fin next_b agg now = Inr u'"
  shows "\<exists>committee keys sig.
      u' = u\<lparr>vu_finalized_checkpoint := vu_finalized_checkpoint u'\<rparr>
      \<and> 1 \<le> vu_participants u \<and> vu_signature_slot u \<le> now
      \<and> vh_slot (vu_attested_header u) < vu_signature_slot u
      \<and> finalized_slot u \<le> vh_slot (vu_attested_header u)
      \<and> relevant s u
      \<and> verify_update_finality_proof env u fin = Inr (vu_finalized_checkpoint u')
      \<and> verify_update_next_committee_proof env u next_b = Inr ()
      \<and> committee_for_period s (vu_signature_slot u) = Inr committee
      \<and> participant_public_keys env committee (sa_sync_committee_bits agg) = Inr keys
      \<and> cl_sig_validate env (as_slice (sa_sync_committee_signature agg)) = Inr sig
      \<and> cl_fast_aggregate_verify env sig
          (as_slice (compute_signing_root env (beacon_root env (vu_attested_header u))
             (compute_sync_committee_domain env (vu_signature_slot u))))
          SYNC_COMMITTEE_SIGNATURE_DST keys"
proof -
  note v = assms[unfolded verify_valid_light_client_update_at_slot_def Let_def
      MIN_SYNC_COMMITTEE_PARTICIPANTS_def]
  show ?thesis
  proof (cases "cl_sig_validate env (as_slice (sa_sync_committee_signature agg))")
    case (Inl e)
    with v show ?thesis by (auto simp: bind_res_Inr_iff split: if_splits)
  next
    case (Inr sig)
    from v show ?thesis
      unfolding Inr sum.case bind_res_Inr_iff
      by (auto simp: bind_res_Inr_iff relevant_def beacon_root_def not_less not_le split: if_splits)
  qed
qed

lemma verify_update_ok:
  assumes v: "verify_valid_light_client_update_at_slot env s u fin next_b agg now = Inr u'"
    and "vu_participants u \<le> 512" and "\<And>c. vu_next_sync_committee u = Some c \<Longrightarrow> committee_valid c"
  shows "update_ok env u'" and "relevant s u'"
proof -
  define c where "c = vu_finalized_checkpoint u'"
  from verify_update_facts[OF v] have u': "u' = u\<lparr>vu_finalized_checkpoint := c\<rparr>"
    and facts: "1 \<le> vu_participants u" "finalized_slot u \<le> vh_slot (vu_attested_header u)" "relevant s u"
    and fin_proof: "verify_update_finality_proof env u fin = Inr c"
    unfolding c_def by blast+
  show "relevant s u'" using facts(3) by (simp add: relevant_def u')
  have "\<exists>h. vu_finalized_header u = Some h \<and> checkpoint_matches_header env d h (vh_slot (vu_attested_header u))"
    if "c = Some d" for d
    using finality_proof_checkpoint[of env u fin d] fin_proof that by auto
  with facts assms(2,3) show "update_ok env u'" by (simp add: update_ok_def u' finalized_slot_def)
qed

section \<open>The store invariant\<close>

definition checkpoint_ok :: "lc_store \<Rightarrow> bool" where
  "checkpoint_ok s \<longleftrightarrow>
     (\<forall>c. st_finalized_checkpoint s = Some c \<longrightarrow>
        unat (fc_epoch c) * 32 \<le> unat (vh_slot (st_optimistic_header s)) \<and> (fc_root c = 0 \<longleftrightarrow> fc_epoch c = 0))"

definition store_core :: "lc_store \<Rightarrow> bool" where
  "store_core s \<longleftrightarrow>
     st_bootstrap_slot s \<le> vh_slot (st_finalized_header s)
     \<and> vh_slot (st_finalized_header s) \<le> vh_slot (st_optimistic_header s)
     \<and> committee_valid (st_current_sync_committee s)
     \<and> (\<forall>c. st_next_sync_committee s = Some c \<longrightarrow> committee_valid c)
     \<and> st_previous_max_active_participants s \<le> 512 \<and> st_current_max_active_participants s \<le> 512
     \<and> checkpoint_ok s"

definition store_inv :: "('pk, 'sg) cl_env \<Rightarrow> lc_store \<Rightarrow> bool" where
  "store_inv env s \<longleftrightarrow>
     store_core s \<and> (\<forall>u. st_best_valid_update s = Some u \<longrightarrow> update_ok env u \<and> relevant s u)"

lemma checked_epoch_start:
  "checked_mul e SLOTS_PER_EPOCH = Some start \<longleftrightarrow> unat e * 32 < 2 ^ 64 \<and> unat start = unat e * 32"
proof -
  have "unat (e * 32) = unat e * 32" if "unat e * 32 < 2 ^ 64"
    using that by (simp add: unat_word_ariths)
  then show ?thesis
    by (auto simp: checked_mul_def SLOTS_PER_EPOCH_def word_unat_eq_iff)
qed

lemma checkpoint_matches_facts:
  assumes "checkpoint_matches_header env c h attested"
  shows "unat (fc_epoch c) * 32 \<le> unat attested" and "fc_root c = 0 \<longleftrightarrow> fc_epoch c = 0"
proof -
  obtain start where start: "checked_mul (fc_epoch c) SLOTS_PER_EPOCH = Some start"
    and m: "start \<le> attested" "vh_slot h \<le> start"
      "if vh_slot h = 0 then fc_epoch c = 0 \<and> fc_root c = 0 else fc_root c = beacon_root env h \<and> fc_root c \<noteq> 0"
    using assms by (auto simp: checkpoint_matches_header_def not_less split: option.splits if_splits)
  have s: "unat start = unat (fc_epoch c) * 32" using start by (simp add: checked_epoch_start)
  with m(1) show "unat (fc_epoch c) * 32 \<le> unat attested" by (simp add: word_le_nat_alt)
  show "fc_root c = 0 \<longleftrightarrow> fc_epoch c = 0"
  proof (cases "vh_slot h = 0")
    case False
    then have "0 < unat (vh_slot h)" by (simp add: unat_gt_0)
    with m(2) s have "fc_epoch c \<noteq> 0" by (auto simp: word_le_nat_alt)
    with False m(3) show ?thesis by auto
  qed (use m(3) in simp)
qed

lemma relevant_cong:
  "st_finalized_header s' = st_finalized_header s \<Longrightarrow> st_next_sync_committee s' = st_next_sync_committee s \<Longrightarrow>
   relevant s' = relevant s"
  by (rule ext) (simp add: relevant_def)

lemma store_invI:
  assumes "store_core s" and "\<And>u. st_best_valid_update s = Some u \<Longrightarrow> update_ok env u \<and> relevant s u"
  shows "store_inv env s"
  using assms by (simp add: store_inv_def)

lemma record_best_inv:
  "store_inv env s \<Longrightarrow> update_ok env u \<Longrightarrow> relevant s u \<Longrightarrow> store_inv env (record_best u s)"
  by (auto simp: record_best_def store_inv_def store_core_def checkpoint_ok_def relevant_def split: option.splits)

lemma record_participants_inv:
  "store_inv env s \<Longrightarrow> update_ok env u \<Longrightarrow> store_inv env (record_participants u s)"
  by (auto simp: record_participants_def store_inv_def store_core_def checkpoint_ok_def relevant_def update_ok_def)

lemma advance_optimistic_inv:
  assumes "store_inv env s"
  shows "store_inv env (advance_optimistic u s)"
    and "update_ok env u \<Longrightarrow> has_supermajority u \<Longrightarrow> vu_participants u \<le> st_current_max_active_participants s \<Longrightarrow>
      vh_slot (vu_attested_header u) \<le> vh_slot (st_optimistic_header (advance_optimistic u s))"
proof -
  show "store_inv env (advance_optimistic u s)"
    using assms
    by (auto simp: advance_optimistic_def store_inv_def store_core_def checkpoint_ok_def relevant_def
        word_less_nat_alt word_le_nat_alt)
  have "safety_threshold s \<le> 256"
    using assms by (auto simp: safety_threshold_def store_inv_def store_core_def)
  then show "vh_slot (vu_attested_header u) \<le> vh_slot (st_optimistic_header (advance_optimistic u s))"
    if "has_supermajority u"
    using that by (auto simp: advance_optimistic_def has_supermajority_def SYNC_COMMITTEE_PUBKEYS_def not_less)
qed

lemma record_checkpoint_inv:
  assumes "store_inv env s" and "update_ok env u"
    and "has_supermajority u \<Longrightarrow> vh_slot (vu_attested_header u) \<le> vh_slot (st_optimistic_header s)"
  shows "store_inv env (record_checkpoint u s)"
proof -
  have c: "unat (fc_epoch c) * 32 \<le> unat (vh_slot (st_optimistic_header s)) \<and> (fc_root c = 0 \<longleftrightarrow> fc_epoch c = 0)"
    if known: "vu_finalized_checkpoint u = Some c" "has_supermajority u" for c
  proof -
    obtain h where "checkpoint_matches_header env c h (vh_slot (vu_attested_header u))"
      using assms(2) known(1) unfolding update_ok_def by blast
    from checkpoint_matches_facts[OF this] assms(3)[OF known(2)] show ?thesis by (auto simp: word_le_nat_alt)
  qed
  show ?thesis
    using assms(1) c
    by (auto simp: record_checkpoint_def store_inv_def store_core_def checkpoint_ok_def relevant_def
        split: option.splits)
qed

lemma rotate_committees_core:
  "store_core s \<Longrightarrow> (\<And>c. vu_next_sync_committee u = Some c \<Longrightarrow> committee_valid c) \<Longrightarrow> store_core (rotate_committees s u)"
  by (auto simp: rotate_committees_def store_core_def checkpoint_ok_def Let_def split: option.splits)

lemma adopt_finalized_core: "store_core s \<Longrightarrow> store_core (adopt_finalized h s)"
  by (auto simp: adopt_finalized_def store_core_def checkpoint_ok_def Let_def word_less_nat_alt word_le_nat_alt
      split: option.split)

lemma apply_validated_core:
  assumes "store_core s" and "\<And>c. vu_next_sync_committee u = Some c \<Longrightarrow> committee_valid c"
  shows "store_core (apply_validated_light_client_update s u)"
  unfolding apply_validated_light_client_update_def
  by (intro adopt_finalized_core rotate_committees_core assms)

lemma store_core_best [simp]: "store_core (s\<lparr>st_best_valid_update := b\<rparr>) \<longleftrightarrow> store_core s"
  by (simp add: store_core_def checkpoint_ok_def)

lemma finalize_update_inv:
  assumes "store_inv env s" and "update_ok env u"
  shows "store_inv env (finalize_update u s)"
proof -
  have "store_core (apply_validated_light_client_update s u)"
    using assms by (intro apply_validated_core) (auto simp: store_inv_def update_ok_def)
  then show ?thesis using assms(1) by (auto simp: finalize_update_def store_inv_def Let_def)
qed

lemma process_inv:
  assumes "store_inv env s" and "update_ok env u" and "relevant s u"
  shows "store_inv env (au_store (process_light_client_update s u))"
proof -
  let ?p = "record_participants u (record_best u s)"
  have p: "store_inv env ?p" by (intro record_participants_inv record_best_inv assms)
  have "store_inv env (record_checkpoint u (advance_optimistic u ?p))"
    by (intro record_checkpoint_inv advance_optimistic_inv(1) advance_optimistic_inv(2)[OF p] p assms)
       (simp_all add: record_participants_def)
  then show ?thesis by (simp add: process_light_client_update_def finalize_update_inv assms(2))
qed

lemma force_inv:
  assumes "store_inv env s" and "force_update_light_client_store now s = Some s'"
  shows "store_inv env s'"
proof -
  obtain u where best: "st_best_valid_update s = Some u"
    and s': "\<exists>h. s' = (apply_validated_light_client_update s (u\<lparr>vu_finalized_header := h\<rparr>))\<lparr>st_best_valid_update := None\<rparr>"
    using assms(2)
    by (auto simp: force_update_light_client_store_def Let_def split: if_splits option.splits)
       (metis (no_types, lifting) verified_update.surjective verified_update.update_convs(2))
  have "update_ok env u" using assms(1) best by (simp add: store_inv_def)
  then have "store_core (apply_validated_light_client_update s (u\<lparr>vu_finalized_header := h\<rparr>))" for h
    using assms(1) by (intro apply_validated_core) (auto simp: store_inv_def update_ok_def)
  with s' show ?thesis by (auto simp: store_inv_def)
qed

section \<open>Reachable stores\<close>

text \<open>
  Every store the client can hold for a checkpoint: the bootstrap, and any
  sequence of update, finality, optimistic and timeout steps, at any clock
  readings.
\<close>

inductive reachable :: "('pk, 'sg) cl_env \<Rightarrow> ws_checkpoint \<Rightarrow> lc_store \<Rightarrow> bool" for env checkpoint where
  bootstrap: "verify_bootstrap_payload env bytes checkpoint = Inr (status, s) \<Longrightarrow> reachable env checkpoint s"
| update: "reachable env checkpoint s \<Longrightarrow> apply_light_client_update_payload env now bytes s = Inr applied \<Longrightarrow>
    reachable env checkpoint (au_store applied)"
| finality: "reachable env checkpoint s \<Longrightarrow>
    apply_finality_update_payload_at_slot env bytes s slot = Inr (fstatus, s', attested, finalized) \<Longrightarrow>
    reachable env checkpoint s'"
| optimistic: "reachable env checkpoint s \<Longrightarrow>
    apply_optimistic_update_payload_at_slot env bytes s slot = Inr (ostatus, s', attested) \<Longrightarrow>
    reachable env checkpoint s'"
| force: "reachable env checkpoint s \<Longrightarrow> force_update_light_client_store now s = Some s' \<Longrightarrow>
    reachable env checkpoint s'"

lemma apply_update_shape:
  assumes "apply_light_client_update_payload env now bytes s = Inr applied"
  shows "\<exists>u. update_ok env u \<and> relevant s u \<and> au_store applied = au_store (process_light_client_update s u)"
proof -
  obtain decoded u u' where u: "update_verified env decoded = Inr u"
    and v: "verify_valid_light_client_update_at_slot env s u (update_finality_branch_for_verification decoded)
      (update_next_sync_committee_branch decoded) (update_sync_aggregate decoded)
      (wall_clock_slot MAINNET_CONSENSUS_CHAIN_SPEC now) = Inr u'"
    and "applied = process_light_client_update s u'"
    using assms by (auto simp: apply_light_client_update_payload_def bind_res_Inr_iff verify_valid_light_client_update_def)
  with verify_update_ok[OF v] update_verified_fields[OF u] participant_count_bound[of "update_sync_aggregate decoded"]
  show ?thesis by (auto simp: committee_valid_def SYNC_COMMITTEE_PUBKEYS_def)
qed

lemma apply_finality_facts:
  assumes "apply_finality_update_payload_at_slot env bytes s slot = Inr (status, s', attested, finalized)"
  shows "\<exists>decoded fin u'.
    decode_finality_update_payload env bytes = Inr decoded
    \<and> finality_attested_verified_header env decoded = Inr attested
    \<and> finality_finalized_verified_header env decoded = Inr fin
    \<and> (\<forall>h. fin = Some h \<longrightarrow> finalized = h)
    \<and> verify_valid_light_client_update_at_slot env s
        \<lparr>vu_attested_header = attested, vu_finalized_header = fin, vu_finalized_checkpoint = None,
         vu_next_sync_committee = None, vu_signature_slot = finality_signature_slot decoded,
         vu_participants = participant_count (finality_sync_aggregate decoded)\<rparr>
        (finality_branch_for_verification decoded) None (finality_sync_aggregate decoded) slot = Inr u'
    \<and> s' = au_store (process_light_client_update s u')"
  using assms
  by (auto simp: apply_finality_update_payload_at_slot_def Let_def bind_res_Inr_iff or_decode_def split: sum.splits)

lemma apply_finality_shape:
  assumes "apply_finality_update_payload_at_slot env bytes s slot = Inr (status, s', attested, finalized)"
  shows "\<exists>u. update_ok env u \<and> relevant s u \<and> s' = au_store (process_light_client_update s u)"
proof -
  from apply_finality_facts[OF assms] obtain decoded fin u' where
    v: "verify_valid_light_client_update_at_slot env s
        \<lparr>vu_attested_header = attested, vu_finalized_header = fin, vu_finalized_checkpoint = None,
         vu_next_sync_committee = None, vu_signature_slot = finality_signature_slot decoded,
         vu_participants = participant_count (finality_sync_aggregate decoded)\<rparr>
        (finality_branch_for_verification decoded) None (finality_sync_aggregate decoded) slot = Inr u'"
    and s': "s' = au_store (process_light_client_update s u')" by blast
  from verify_update_ok[OF v] participant_count_bound[of "finality_sync_aggregate decoded"]
  have "update_ok env u' \<and> relevant s u'" by (simp add: SYNC_COMMITTEE_PUBKEYS_def)
  with s' show ?thesis by blast
qed

lemma apply_optimistic_shape:
  assumes "apply_optimistic_update_payload_at_slot env bytes s slot = Inr (status, s', attested)"
  shows "\<exists>u. update_ok env u \<and> relevant s u \<and> s' = au_store (process_light_client_update s u)"
proof -
  from assms obtain decoded u' where
    v: "verify_valid_light_client_update_at_slot env s
        \<lparr>vu_attested_header = attested, vu_finalized_header = None, vu_finalized_checkpoint = None,
         vu_next_sync_committee = None, vu_signature_slot = optimistic_signature_slot decoded,
         vu_participants = participant_count (optimistic_sync_aggregate decoded)\<rparr>
        None None (optimistic_sync_aggregate decoded) slot = Inr u'"
    and s': "s' = au_store (process_light_client_update s u')"
    unfolding apply_optimistic_update_payload_at_slot_def Let_def bind_res_Inr_iff by auto
  from verify_update_ok[OF v] participant_count_bound[of "optimistic_sync_aggregate decoded"]
  have "update_ok env u' \<and> relevant s u'" by (simp add: SYNC_COMMITTEE_PUBKEYS_def)
  with s' show ?thesis by blast
qed

lemma bootstrap_store:
  assumes "verify_bootstrap_payload env bytes checkpoint = Inr (status, s)"
  shows "store_inv env s" and "st_checkpoint_root s = wc_beacon_root checkpoint"
    and "\<And>slot. wc_beacon_slot checkpoint = Some slot \<Longrightarrow> st_bootstrap_slot s = slot"
  using assms
  by (auto simp: verify_bootstrap_payload_def Let_def bind_res_Inr_iff store_inv_def store_core_def checkpoint_ok_def
      committee_valid_def SYNC_COMMITTEE_PUBKEYS_def split: if_splits option.splits)

lemma reachable_inv: "reachable env checkpoint s \<Longrightarrow> store_inv env s"
proof (induction rule: reachable.induct)
  case (update s now bytes applied)
  then show ?case using apply_update_shape[OF update(2)] process_inv by metis
next
  case (finality s bytes slot fstatus s' attested finalized)
  then show ?case using apply_finality_shape[OF finality(2)] process_inv by metis
next
  case (optimistic s bytes slot ostatus s' attested)
  then show ?case using apply_optimistic_shape[OF optimistic(2)] process_inv by metis
qed (auto intro: bootstrap_store(1) force_inv)

section \<open>Frame and monotonicity\<close>

definition store_extends :: "lc_store \<Rightarrow> lc_store \<Rightarrow> bool" where
  "store_extends s s' \<longleftrightarrow>
     st_checkpoint_root s' = st_checkpoint_root s \<and> st_bootstrap_slot s' = st_bootstrap_slot s
     \<and> vh_slot (st_finalized_header s) \<le> vh_slot (st_finalized_header s')
     \<and> vh_slot (st_optimistic_header s) \<le> vh_slot (st_optimistic_header s')"

lemma store_extends_trans: "store_extends s t \<Longrightarrow> store_extends t r \<Longrightarrow> store_extends s r"
  by (auto simp: store_extends_def)

lemma apply_validated_extends: "store_extends s (apply_validated_light_client_update s u)"
  by (auto simp: store_extends_def apply_validated_light_client_update_def adopt_finalized_def rotate_committees_def
      Let_def split: option.split)

lemma process_extends: "store_extends s (au_store (process_light_client_update s u))"
proof -
  let ?t = "record_checkpoint u (advance_optimistic u (record_participants u (record_best u s)))"
  have "store_extends s ?t"
    by (auto simp: store_extends_def record_checkpoint_def advance_optimistic_def record_participants_def
        record_best_def split: option.split)
  moreover have "store_extends ?t (finalize_update u ?t)"
    using apply_validated_extends[of ?t u] by (simp add: finalize_update_def Let_def store_extends_def)
  ultimately show ?thesis by (simp add: process_light_client_update_def store_extends_trans)
qed

lemma force_extends: "force_update_light_client_store now s = Some s' \<Longrightarrow> store_extends s s'"
  using apply_validated_extends
  by (auto simp: force_update_light_client_store_def Let_def store_extends_def split: if_splits option.splits)

lemma reachable_identity:
  assumes "reachable env checkpoint s" and "wc_beacon_slot checkpoint = Some slot"
  shows "st_checkpoint_root s = wc_beacon_root checkpoint \<and> st_bootstrap_slot s = slot"
  using assms
proof (induction rule: reachable.induct)
  case (update s now bytes applied)
  then show ?case using apply_update_shape[OF update(2)] process_extends by (metis store_extends_def)
next
  case (finality s bytes slot fstatus s' attested finalized)
  then show ?case using apply_finality_shape[OF finality(2)] process_extends by (metis store_extends_def)
next
  case (optimistic s bytes slot ostatus s' attested)
  then show ?case using apply_optimistic_shape[OF optimistic(2)] process_extends by (metis store_extends_def)
next
  case (force s now s')
  then show ?case using force_extends[OF force(2)] by (simp add: store_extends_def)
qed (auto dest: bootstrap_store)

lemma persisted_if_inv:
  assumes "store_inv env s" and "st_checkpoint_root s = wc_beacon_root checkpoint"
    and "wc_beacon_slot checkpoint = Some (st_bootstrap_slot s)"
  shows "validate_persisted_state env s checkpoint = Inr ()"
proof -
  have best: "validate_best_update env u = Inr ()" if "st_best_valid_update s = Some u" for u
  proof -
    have "update_ok env u" using assms(1) that by (simp add: store_inv_def)
    then show ?thesis
      by (auto simp: validate_best_update_def update_ok_def validate_committee_def MIN_SYNC_COMMITTEE_PARTICIPANTS_def
          SYNC_COMMITTEE_PUBKEYS_def split: option.split)
  qed
  have core: "store_core s" using assms(1) by (simp add: store_inv_def)
  have check: "\<exists>start. checked_mul (fc_epoch c) SLOTS_PER_EPOCH = Some start
      \<and> \<not> vh_slot (st_optimistic_header s) < start \<and> (fc_root c = 0 \<longleftrightarrow> fc_epoch c = 0)"
    if "st_finalized_checkpoint s = Some c" for c
  proof -
    have le: "unat (fc_epoch c) * 32 \<le> unat (vh_slot (st_optimistic_header s))" and root: "fc_root c = 0 \<longleftrightarrow> fc_epoch c = 0"
      using core that by (auto simp: store_core_def checkpoint_ok_def)
    have lt: "unat (fc_epoch c) * 32 < 2 ^ 64" using le unsigned_less[of "vh_slot (st_optimistic_header s)", where ?'a = nat] by simp
    have "unat (of_nat (unat (fc_epoch c) * 32) :: u64) = unat (fc_epoch c) * 32"
      by (rule unat_of_nat_less) (use lt in simp)
    with le lt root show ?thesis
      by (intro exI[of _ "of_nat (unat (fc_epoch c) * 32)"]) (simp add: checked_epoch_start word_less_nat_alt del: of_nat_mult)
  qed
  show ?thesis
    using core best check assms(2,3)
    by (fastforce simp: validate_persisted_state_def store_core_def validate_committee_def SYNC_COMMITTEE_PUBKEYS_def
        not_less split: option.split)
qed

section \<open>Counting signers\<close>

lemma count_ones_u8_filter: "count_ones_u8 n b = length (filter (bit b) [0..<n])"
  by (induction n) auto

lemma select_keys_length:
  "select_keys env bits i ks = Inr keys \<Longrightarrow>
   length keys = length (filter (\<lambda>j. bit (bits ! (j div 8)) (j mod 8)) [i..<i + length ks])"
proof (induction ks arbitrary: i keys)
  case (Cons k ks)
  have upt: "[i..<i + length (k # ks)] = i # [Suc i..<Suc i + length ks]"
    by (simp add: upt_conv_Cons del: upt_Suc)
  have bit: "bit (bits ! (i div 8)) (i mod 8) \<longleftrightarrow> bits ! (i div 8) AND push_bit (i mod 8) 1 \<noteq> 0"
    by (simp only: bit_iff_and_push_bit_not_eq_0)
  show ?case
    using Cons.prems Cons.IH[of "Suc i"] unfolding upt filter.simps bit
    by (auto simp: bind_res_Inr_iff split: if_splits sum.splits)
qed simp

lemma filter_shift: "length (filter P [n..<n + k]) = length (filter (\<lambda>j. P (n + j)) [0..<k])"
  by (induction k) auto

lemma count_bits:
  "length (filter (\<lambda>j. bit (bits ! (j div 8)) (j mod 8)) [0..<8 * length bits]) = sum_list (map (count_ones_u8 8) bits)"
proof (induction bits rule: rev_induct)
  case (snoc b bits)
  define n where "n = 8 * length bits"
  have "[0..<8 * length (bits @ [b])] = [0..<n] @ [n..<n + 8]"
    using upt_add_eq_append[of 0 n 8] by (simp add: n_def add.commute)
  moreover have "filter (\<lambda>j. bit ((bits @ [b]) ! (j div 8)) (j mod 8)) [0..<n]
    = filter (\<lambda>j. bit (bits ! (j div 8)) (j mod 8)) [0..<n]"
    by (rule filter_cong) (auto simp: nth_append n_def)
  moreover have "filter (\<lambda>j. bit ((bits @ [b]) ! ((n + j) div 8)) ((n + j) mod 8)) [0..<8] = filter (bit b) [0..<8]"
    by (rule filter_cong) (auto simp: nth_append n_def)
  ultimately show ?case
    using snoc by (simp add: filter_shift count_ones_u8_filter n_def)
qed simp

lemma participant_keys_count:
  assumes "participant_public_keys env committee (sa_sync_committee_bits agg) = Inr keys"
  shows "length keys = participant_count agg"
proof -
  have len: "length (sc_pubkeys committee) = 512"
    and sel: "select_keys env (as_slice (sa_sync_committee_bits agg)) 0 (sc_pubkeys committee) = Inr keys"
    using assms by (auto simp: participant_public_keys_def SYNC_COMMITTEE_PUBKEYS_def split: if_splits)
  show ?thesis
    using select_keys_length[OF sel] count_bits[of "as_slice (sa_sync_committee_bits agg)"]
    by (simp add: len participant_count_def)
qed

section \<open>Finalized headers\<close>

lemma finalized_change:
  assumes "st_finalized_header (au_store (process_light_client_update s u)) \<noteq> st_finalized_header s"
  shows "\<exists>h. vu_finalized_header u = Some h
    \<and> st_finalized_header (au_store (process_light_client_update s u)) = h
    \<and> vh_slot (st_finalized_header s) < vh_slot h \<and> 1024 \<le> 3 * vu_participants u"
proof -
  let ?t = "record_checkpoint u (advance_optimistic u (record_participants u (record_best u s)))"
  have t: "st_finalized_header ?t = st_finalized_header s"
    by (simp add: record_checkpoint_def advance_optimistic_def record_participants_def record_best_def split: option.split)
  have "st_finalized_header (finalize_update u ?t) \<noteq> st_finalized_header ?t"
    using assms t by (simp add: process_light_client_update_def)
  then show ?thesis
    unfolding process_light_client_update_def t[symmetric]
    by (auto simp: finalize_update_def Let_def apply_validated_light_client_update_def adopt_finalized_def
        rotate_committees_def SYNC_COMMITTEE_PUBKEYS_def split: if_splits option.splits)
qed

text \<open>A finalized header is present exactly when the branch is checked.\<close>

lemma zero_slice:
  assumes "length c = 32" and "from_slice c = (0 :: b256)" and "x \<in> set c"
  shows "x = 0"
proof -
  have "c = as_slice (from_slice c :: b256)"
    using assms(1) by (simp add: as_slice_def from_slice_def to_from_le_bytes)
  also have "\<dots> = rev (nat_to_le 32 0)" by (simp add: assms(2) as_slice_def to_le_bytes_def)
  also have "set (rev (nat_to_le n 0)) \<subseteq> {0}" for n by (induction n) auto
  ultimately show ?thesis using assms(3) by (metis empty_iff insert_iff subset_iff)
qed

lemma nonzero_branch_from_fixed:
  assumes "branch_has_nonzero (w :: 'n::len word)" and "32 dvd LENGTH('n) div 8"
  shows "nonzero_branch (branch_from_fixed w) = Some (branch_from_fixed w)"
proof -
  obtain x where x: "x \<in> set (as_slice w)" "x \<noteq> 0" using assms(1) by (auto simp: branch_has_nonzero_def)
  note chunks = chunks_exact_exact[of 32 "as_slice w"]
  have "x \<in> set (concat (chunks_exact 32 (as_slice w)))" using chunks(1) assms(2) x(1) by simp
  then obtain c where c: "c \<in> set (chunks_exact 32 (as_slice w))" "x \<in> set c" by auto
  then have "from_slice c \<noteq> (0 :: b256)" using zero_slice[of c x] chunks(3) assms(2) x(2) by auto
  with c(1) show ?thesis by (auto simp: nonzero_branch_def branch_from_fixed_def)
qed

lemma optional_header_present:
  "verified_optional_capella_header env hc nz = Inr (Some h) \<Longrightarrow> nz"
  "verified_optional_deneb_header env hdn nz = Inr (Some h) \<Longrightarrow> nz"
  by (auto simp: verified_optional_capella_header_def verified_optional_deneb_header_def bind_res_Inr_iff split: if_splits)

lemma finality_branch_present:
  "finality_finalized_verified_header env decoded = Inr (Some h) \<Longrightarrow>
   finality_branch_for_verification decoded = Some (finality_branch decoded)"
  by (cases decoded)
     (auto dest!: optional_header_present simp: finality_branch_for_verification_def nonzero_branch_from_fixed)

lemma finalized_evidence:
  assumes v: "verify_valid_light_client_update_at_slot env s u fin next_b agg now = Inr u'"
    and parts: "vu_participants u = participant_count agg"
    and present: "\<And>h. vu_finalized_header u = Some h \<Longrightarrow> fin \<noteq> None"
    and change: "st_finalized_header (au_store (process_light_client_update s u')) \<noteq> st_finalized_header s"
  shows "\<exists>h branch committee keys sig.
    vu_finalized_header u = Some h
    \<and> st_finalized_header (au_store (process_light_client_update s u')) = h
    \<and> vh_slot (st_finalized_header s) < vh_slot h \<and> vh_slot h \<le> vh_slot (vu_attested_header u)
    \<and> is_valid_normalized_merkle_branch (cl_sha256 env) (beacon_root env h) branch
        (finalized_root_gindex_at_slot (vh_slot (vu_attested_header u)))
        (bh_state_root (vh_beacon (vu_attested_header u)))
    \<and> committee_for_period s (vu_signature_slot u) = Inr committee
    \<and> participant_public_keys env committee (sa_sync_committee_bits agg) = Inr keys
    \<and> 2 * 512 \<le> 3 * length keys
    \<and> cl_sig_validate env (as_slice (sa_sync_committee_signature agg)) = Inr sig
    \<and> cl_fast_aggregate_verify env sig
        (as_slice (compute_signing_root env (beacon_root env (vu_attested_header u))
           (compute_sync_committee_domain env (vu_signature_slot u)))) SYNC_COMMITTEE_SIGNATURE_DST keys"
proof -
  define c where "c = vu_finalized_checkpoint u'"
  from verify_update_facts[OF v] obtain committee keys sig where u': "u' = u\<lparr>vu_finalized_checkpoint := c\<rparr>"
    and slot: "finalized_slot u \<le> vh_slot (vu_attested_header u)"
    and fin_proof: "verify_update_finality_proof env u fin = Inr c"
    and signed: "committee_for_period s (vu_signature_slot u) = Inr committee"
      "participant_public_keys env committee (sa_sync_committee_bits agg) = Inr keys"
      "cl_sig_validate env (as_slice (sa_sync_committee_signature agg)) = Inr sig"
      "cl_fast_aggregate_verify env sig
        (as_slice (compute_signing_root env (beacon_root env (vu_attested_header u))
           (compute_sync_committee_domain env (vu_signature_slot u)))) SYNC_COMMITTEE_SIGNATURE_DST keys"
    unfolding c_def by blast
  from finalized_change[OF change] obtain h where h: "vu_finalized_header u = Some h"
    "st_finalized_header (au_store (process_light_client_update s u')) = h"
    "vh_slot (st_finalized_header s) < vh_slot h" "1024 \<le> 3 * vu_participants u"
    by (auto simp: u')
  obtain branch where branch: "fin = Some branch" using present[OF h(1)] by blast
  then obtain ck where ck: "c = Some ck" using finality_proof_some fin_proof by blast
  have chk: "checkpoint_matches_header env ck h (vh_slot (vu_attested_header u))"
    and valid: "is_valid_normalized_merkle_branch (cl_sha256 env) (fc_root ck) branch
      (finalized_root_gindex_at_slot (vh_slot (vu_attested_header u)))
      (bh_state_root (vh_beacon (vu_attested_header u)))"
    using finality_proof_checkpoint[OF fin_proof[unfolded ck]] branch h(1) by auto
  have "vh_slot h \<noteq> 0" using h(3) by (metis word_not_simps(1))
  then have root: "fc_root ck = beacon_root env h"
    using chk by (auto simp: checkpoint_matches_header_def split: option.splits if_splits)
  have "vh_slot h \<le> vh_slot (vu_attested_header u)" using slot by (simp add: finalized_slot_def h(1))
  then show ?thesis
    using h(1,2,3) valid[unfolded root] signed h(4)[unfolded parts participant_keys_count[OF signed(2), symmetric]]
    by (intro exI conjI) simp_all
qed

text \<open>
  C1. A finality payload changes the finalized header only on full evidence: a
  later header, proven by a Merkle branch into the attested state, where the
  attested header carries an aggregate signature that verifies for the
  sync-committee keys selected by the bits, at least two thirds of the 512.
\<close>

theorem finality_authenticated:
  assumes "apply_finality_update_payload_at_slot env bytes s slot = Inr (status, s', attested, finalized)"
    and "st_finalized_header s' \<noteq> st_finalized_header s"
  shows "\<exists>decoded committee keys sig root branch.
    decode_finality_update_payload env bytes = Inr decoded
    \<and> st_finalized_header s' = finalized
    \<and> vh_slot (st_finalized_header s) < vh_slot finalized \<and> vh_slot finalized \<le> vh_slot attested
    \<and> is_valid_normalized_merkle_branch (cl_sha256 env) root branch
        (finalized_root_gindex_at_slot (vh_slot attested)) (bh_state_root (vh_beacon attested))
    \<and> root = beacon_root env finalized
    \<and> committee_for_period s (finality_signature_slot decoded) = Inr committee
    \<and> participant_public_keys env committee (sa_sync_committee_bits (finality_sync_aggregate decoded)) = Inr keys
    \<and> 2 * 512 \<le> 3 * length keys
    \<and> cl_sig_validate env (as_slice (sa_sync_committee_signature (finality_sync_aggregate decoded))) = Inr sig
    \<and> cl_fast_aggregate_verify env sig
        (as_slice (compute_signing_root env (beacon_root env attested)
           (compute_sync_committee_domain env (finality_signature_slot decoded))))
        SYNC_COMMITTEE_SIGNATURE_DST keys"
proof -
  from apply_finality_facts[OF assms(1)] obtain decoded fin u' where d: "decode_finality_update_payload env bytes = Inr decoded"
    and fin: "finality_finalized_verified_header env decoded = Inr fin" "\<And>h. fin = Some h \<Longrightarrow> finalized = h"
    and v: "verify_valid_light_client_update_at_slot env s
        \<lparr>vu_attested_header = attested, vu_finalized_header = fin, vu_finalized_checkpoint = None,
         vu_next_sync_committee = None, vu_signature_slot = finality_signature_slot decoded,
         vu_participants = participant_count (finality_sync_aggregate decoded)\<rparr>
        (finality_branch_for_verification decoded) None (finality_sync_aggregate decoded) slot = Inr u'"
    and s': "s' = au_store (process_light_client_update s u')" by blast
  have "finality_branch_for_verification decoded \<noteq> None" if "fin = Some h" for h
    using finality_branch_present fin(1) that by blast
  with finalized_evidence[OF v] assms(2) d fin(2) show ?thesis unfolding s' by simp
qed

section \<open>A concrete environment\<close>

text \<open>
  An environment in which every root is 1, every key and signature is accepted
  and three payloads decode: a bootstrap at slot 0, a finality update that finalizes
  slot 32 in epoch 1 with all 512 participants, and an optimistic update.
\<close>

definition toy_header :: "u64 \<Rightarrow> light_client_header_deneb" where
  "toy_header slot =
     \<lparr>h_beacon = \<lparr>bh_slot = slot, bh_proposer_index = 0, bh_parent_root = 0, bh_state_root = 1, bh_body_root = 1\<rparr>,
      h_execution = default_execution_deneb, h_execution_branch = 0\<rparr>"

definition toy_aggregate :: sync_aggregate_raw where
  "toy_aggregate = \<lparr>sa_sync_committee_bits = from_slice (replicate 64 255), sa_sync_committee_signature = 0\<rparr>"

definition toy_bootstrap :: bootstrap_deneb where
  "toy_bootstrap =
     \<lparr>lb_header = toy_header 0, lb_current_sync_committee = default_committee_raw, lb_current_sync_committee_branch = 0\<rparr>"

definition toy_finality :: finality_update_deneb where
  "toy_finality =
     \<lparr>fu_attested_header = toy_header 64, fu_finalized_header = toy_header 32,
      fu_finality_branch = from_slice ((1 # replicate 31 0) @ concat (replicate 5 (replicate 32 0))),
      fu_sync_aggregate = toy_aggregate, fu_signature_slot = 65\<rparr>"

definition toy_optimistic :: optimistic_update_deneb where
  "toy_optimistic =
     \<lparr>ou_attested_header = toy_header 64, ou_sync_aggregate = toy_aggregate, ou_signature_slot = 65\<rparr>"

definition toy_env :: "(unit, unit) cl_env" where
  "toy_env =
     \<lparr>cl_sha256 = (\<lambda>_. 1), cl_merkle_root = (\<lambda>_ _. 1), cl_mix_in_length = (\<lambda>_ _. 1), cl_root_u64 = (\<lambda>_. 1),
      cl_root_b256 = (\<lambda>_. 1), cl_root_u256 = (\<lambda>_. 1), cl_root_fixed_bytes = (\<lambda>_. 1),
      cl_key_validate = (\<lambda>_. Inr ()), cl_sig_validate = (\<lambda>_. Inr ()),
      cl_fast_aggregate_verify = (\<lambda>_ _ _ _. True),
      cl_ssz_bootstrap_capella = (\<lambda>_. Inl []), cl_ssz_bootstrap_deneb = (\<lambda>_. Inr toy_bootstrap),
      cl_ssz_bootstrap_electra = (\<lambda>_. Inl []), cl_ssz_finality_capella = (\<lambda>_. Inl []),
      cl_ssz_finality_deneb = (\<lambda>_. Inr toy_finality), cl_ssz_finality_electra = (\<lambda>_. Inl []),
      cl_ssz_optimistic_capella = (\<lambda>_. Inl []), cl_ssz_optimistic_deneb = (\<lambda>_. Inr toy_optimistic),
      cl_ssz_update_capella = (\<lambda>_. Inl []), cl_ssz_update_deneb = (\<lambda>_. Inl []),
      cl_ssz_update_electra = (\<lambda>_. Inl []), cl_ssz_encode_optimistic_capella = (\<lambda>_. []),
      cl_ssz_encode_optimistic_deneb = (\<lambda>_. [])\<rparr>"

definition toy_checkpoint :: ws_checkpoint where
  "toy_checkpoint = \<lparr>wc_beacon_root = 1, wc_beacon_slot = Some 0\<rparr>"

definition toy_verified :: "consensus_data_fork \<Rightarrow> u64 \<Rightarrow> verified_header" where
  "toy_verified fork slot = \<lparr>vh_fork = fork, vh_beacon = h_beacon (toy_header slot), vh_execution = None\<rparr>"

definition toy_store :: lc_store where
  "toy_store =
     \<lparr>st_checkpoint_root = 1, st_bootstrap_slot = 0, st_current_sync_committee = to_persisted default_committee_raw,
      st_next_sync_committee = None, st_finalized_header = toy_verified Deneb 0, st_finalized_checkpoint = None,
      st_optimistic_header = toy_verified Deneb 0, st_best_valid_update = None,
      st_previous_max_active_participants = 0, st_current_max_active_participants = 0\<rparr>"

lemma early_fork: "slot < 1000 \<Longrightarrow> fork_version_at_slot slot = 0"
proof -
  assume "slot < 1000"
  then have "unat slot div 32 < 74240" by (simp add: word_less_nat_alt)
  then have "epoch_for_slot slot < 74240"
    by (simp add: epoch_for_slot_def SLOTS_PER_EPOCH_def word_less_nat_alt unat_div)
  then show ?thesis
    by (simp add: fork_version_at_slot_def fork_version_for_epoch_def MAINNET_CONSENSUS_CHAIN_SPEC_def not_le)
qed

lemma early_layout:
  "slot < 1000 \<Longrightarrow> finalized_root_gindex_at_slot slot = 105"
  "slot < 1000 \<Longrightarrow> current_sync_committee_gindex_at_slot slot = 54"
  by (simp_all add: finalized_root_gindex_at_slot_def current_sync_committee_gindex_at_slot_def
      uses_electra_light_client_layout_def early_fork ELECTRA_FORK_VERSION_def PRE_ELECTRA_FINALIZED_ROOT_GINDEX_def
      PRE_ELECTRA_CURRENT_SYNC_COMMITTEE_GINDEX_def)

lemma early_period: "slot < 1000 \<Longrightarrow> sync_committee_period_at_slot slot = 0"
  by (simp add: sync_committee_period_at_slot_def epoch_for_slot_def SLOTS_PER_EPOCH_def
      EPOCHS_PER_SYNC_COMMITTEE_PERIOD_def word_unat_eq_iff word_less_nat_alt unat_div)

lemma toy_verify: "slot < 1000 \<Longrightarrow> verify_deneb_header toy_env (toy_header slot) fork = Inr (toy_verified fork slot)"
  by (simp add: verify_deneb_header_def toy_header_def toy_verified_def early_fork DENEB_FORK_VERSION_def
      CAPELLA_FORK_VERSION_def MAX_EXTRA_DATA_BYTES_def default_execution_deneb_def default_execution_capella_def
      execution_payload_header_capella.defs)

lemma toy_walk_1: "branch_walk (\<lambda>_. 1) 1 b i = 1"
  by (induction b arbitrary: i) (auto simp: hash_concat_def)

lemma toy_walk: "b \<noteq> [] \<Longrightarrow> branch_walk (\<lambda>_. 1) leaf b i = 1"
  by (cases b) (auto simp: hash_concat_def toy_walk_1)

lemma toy_valid: "b \<noteq> [] \<Longrightarrow> length b = floorlog2 g \<Longrightarrow> is_valid_normalized_merkle_branch (\<lambda>_. 1) leaf b g 1"
  by (simp add: is_valid_normalized_merkle_branch_def is_valid_merkle_branch_def toy_walk)

lemma toy_depths: "floorlog2 54 = 5" "floorlog2 105 = 6"
  by code_simp+

lemma toy_verified_sel [simp]:
  "bh_slot (vh_beacon (toy_verified fork slot)) = slot" "bh_state_root (vh_beacon (toy_verified fork slot)) = 1"
  "vh_execution (toy_verified fork slot) = None"
  by (simp_all add: toy_verified_def toy_header_def)

lemma toy_root [simp]: "beacon_root toy_env h = 1" "sync_committee_raw_root toy_env c = 1"
  by (simp_all add: beacon_root_def beacon_block_header_root_def container_root_from_roots_def toy_env_def
      sync_committee_raw_root_def)

lemma toy_bootstrap_store: "\<exists>status. verify_bootstrap_payload toy_env [] toy_checkpoint = Inr (status, toy_store)"
proof -
  have b: "length (branch_from_fixed (0 :: pre_electra_sync_committee_branch)) = 5"
    by (rule length_branch_from_fixed) simp
  then have "branch_from_fixed (0 :: pre_electra_sync_committee_branch) \<noteq> []" by auto
  moreover have "decode_bootstrap_payload toy_env [] = Inr (BootstrapDeneb toy_bootstrap)"
    by (simp add: decode_bootstrap_payload_def toy_env_def)
  moreover have "cl_sha256 toy_env = (\<lambda>_. 1)" by (simp add: toy_env_def)
  ultimately show ?thesis
    using b by (simp add: verify_bootstrap_payload_def or_decode_def toy_bootstrap_def toy_verify toy_checkpoint_def
        toy_store_def early_layout toy_valid toy_depths)
qed

lemma toy_branch: "branch_from_fixed (fu_finality_branch toy_finality) =
  from_slice (1 # replicate 31 0) # replicate 5 (from_slice (replicate 32 0))"
proof -
  have "as_slice (fu_finality_branch toy_finality) = (1 # replicate 31 0) @ concat (replicate 5 (replicate 32 0))"
    unfolding toy_finality_def lc_finality_update.select_convs as_slice_def from_slice_def
    by (subst to_from_le_bytes) (simp_all add: length_concat sum_list_replicate)
  moreover have "chunks_exact 32 (concat (replicate n (replicate 32 0))) = replicate n (replicate 32 (0 :: u8))" for n
    by (induction n) (subst chunks_exact.simps, simp)+
  ultimately show ?thesis
    unfolding branch_from_fixed_def by (subst chunks_exact.simps) simp
qed

lemma toy_participants: "participant_count toy_aggregate = 512"
proof -
  have "as_slice (sa_sync_committee_bits toy_aggregate) = replicate 64 255"
    by (simp add: toy_aggregate_def as_slice_def from_slice_def to_from_le_bytes)
  moreover have "count_ones_u8 8 255 = 8" by (simp add: eval_nat_numeral)
  ultimately show ?thesis by (simp add: participant_count_def sum_list_replicate)
qed

lemma select_keys_total:
  assumes "\<And>k. \<exists>pk. cl_key_validate env k = Inr pk"
  shows "i + length ks \<le> 8 * length bits \<Longrightarrow> \<exists>keys. select_keys env bits i ks = Inr keys"
proof (induction ks arbitrary: i)
  case (Cons k ks)
  then have "i div 8 < length bits" by (simp add: less_mult_imp_div_less mult.commute)
  moreover obtain pk where "cl_key_validate env (as_slice k) = Inr pk" using assms by blast
  ultimately show ?case using Cons.IH[of "Suc i"] Cons.prems by auto
qed simp

definition toy_update :: verified_update where
  "toy_update =
     \<lparr>vu_attested_header = toy_verified Deneb 64, vu_finalized_header = Some (toy_verified Capella 32),
      vu_finalized_checkpoint = None, vu_next_sync_committee = None, vu_signature_slot = 65, vu_participants = 512\<rparr>"

lemma toy_update_sel [simp]:
  "vu_attested_header toy_update = toy_verified Deneb 64" "vu_finalized_header toy_update = Some (toy_verified Capella 32)"
  "vu_next_sync_committee toy_update = None" "vu_signature_slot toy_update = 65" "vu_participants toy_update = 512"
  by (simp_all add: toy_update_def)

lemma toy_finality_proof:
  "verify_update_finality_proof toy_env toy_update (Some (branch_from_fixed (fu_finality_branch toy_finality))) =
     Inr (Some \<lparr>fc_epoch = 1, fc_root = 1\<rparr>)"
proof -
  have len: "length (branch_from_fixed (fu_finality_branch toy_finality)) = 6" by (simp add: toy_branch)
  have "as_slice (from_slice (1 # replicate 31 0) :: b256) = 1 # replicate 31 0"
    by (simp add: as_slice_def from_slice_def to_from_le_bytes)
  moreover have "from_le_bytes (1 # replicate 7 0) = (1 :: u64)"
  proof -
    have "nat_of_le (replicate n 0) = 0" for n by (induction n) auto
    then show ?thesis by (simp add: from_le_bytes_def)
  qed
  moreover have "checkpoint_matches_header toy_env \<lparr>fc_epoch = 1, fc_root = 1\<rparr> (toy_verified Capella 32) 64"
    by (simp add: checkpoint_matches_header_def checked_mul_def SLOTS_PER_EPOCH_def)
  moreover have "is_valid_normalized_merkle_branch (cl_sha256 toy_env) 1
      (branch_from_fixed (fu_finality_branch toy_finality)) 105 1"
    using toy_valid[of "branch_from_fixed (fu_finality_branch toy_finality)" 105 1] len
    by (simp add: toy_env_def toy_depths) (use len in fastforce)
  ultimately show ?thesis
    by (simp add: verify_update_finality_proof_def early_layout toy_depths len get_def toy_branch)
qed

lemma toy_keys:
  "\<exists>keys. participant_public_keys toy_env (to_persisted default_committee_raw)
      (sa_sync_committee_bits toy_aggregate) = Inr keys"
  using select_keys_total[of toy_env 0 "sc_pubkeys (to_persisted default_committee_raw)"
      "as_slice (sa_sync_committee_bits toy_aggregate)"]
  by (auto simp: participant_public_keys_def SYNC_COMMITTEE_PUBKEYS_def toy_env_def)

lemma toy_verified_update:
  "verify_valid_light_client_update_at_slot toy_env toy_store toy_update
     (Some (branch_from_fixed (fu_finality_branch toy_finality))) None toy_aggregate 100 =
   Inr (toy_update\<lparr>vu_finalized_checkpoint := Some \<lparr>fc_epoch = 1, fc_root = 1\<rparr>\<rparr>)"
proof -
  obtain keys where "participant_public_keys toy_env (to_persisted default_committee_raw)
      (sa_sync_committee_bits toy_aggregate) = Inr keys"
    using toy_keys by blast
  moreover have "cl_sig_validate toy_env x = Inr ()" "cl_fast_aggregate_verify toy_env sg m d k" for x sg m d k
    by (simp_all add: toy_env_def)
  ultimately show ?thesis
    by (simp add: verify_valid_light_client_update_at_slot_def MIN_SYNC_COMMITTEE_PARTICIPANTS_def finalized_slot_def
        committee_for_period_def early_period toy_store_def toy_finality_proof verify_update_next_committee_proof_def)
qed

definition toy_next :: lc_store where
  "toy_next =
     au_store (process_light_client_update toy_store
       (toy_update\<lparr>vu_finalized_checkpoint := Some \<lparr>fc_epoch = 1, fc_root = 1\<rparr>\<rparr>))"

lemma toy_finality_applies:
  "\<exists>status. apply_finality_update_payload_at_slot toy_env [] toy_store 100 =
     Inr (status, toy_next, toy_verified Deneb 64, toy_verified Capella 32)"
proof -
  have d: "decode_finality_update_payload toy_env [] = Inr (FinalityDeneb toy_finality)"
    by (simp add: decode_finality_update_payload_def toy_env_def)
  have branch: "branch_has_nonzero (fu_finality_branch toy_finality)"
    unfolding branch_has_nonzero_def toy_finality_def lc_finality_update.select_convs as_slice_def from_slice_def
    by (subst to_from_le_bytes) (simp_all add: length_concat sum_list_replicate)
  have "toy_header 32 \<noteq> default_header_deneb"
    by (simp add: toy_header_def default_header_deneb_def default_beacon_def)
  moreover have "fork_for_slot 32 = Capella"
    by (simp add: fork_for_slot_def early_fork ELECTRA_FORK_VERSION_def DENEB_FORK_VERSION_def)
  ultimately have fin: "finality_finalized_verified_header toy_env (FinalityDeneb toy_finality) = Inr (Some (toy_verified Capella 32))"
    using branch by (simp add: toy_finality_def verified_optional_deneb_header_def validate_finalized_header_shape_def
        toy_verify) (simp add: toy_header_def)
  have "finality_branch_for_verification (FinalityDeneb toy_finality) =
      Some (branch_from_fixed (fu_finality_branch toy_finality))"
    using nonzero_branch_from_fixed[OF branch] by (simp add: finality_branch_for_verification_def)
  moreover have "finality_sync_aggregate (FinalityDeneb toy_finality) = toy_aggregate"
    "finality_signature_slot (FinalityDeneb toy_finality) = 65"
    "finality_attested_verified_header toy_env (FinalityDeneb toy_finality) = Inr (toy_verified Deneb 64)"
    by (simp_all add: toy_finality_def toy_verify)
  ultimately show ?thesis
    unfolding apply_finality_update_payload_at_slot_def or_decode_def d
    using fin toy_verified_update[unfolded toy_update_def]
    by (simp add: toy_participants toy_next_def toy_update_def Let_def)
qed

lemma toy_next_finalized: "st_finalized_header toy_next = toy_verified Capella 32"
  by (simp add: toy_next_def process_light_client_update_def record_best_def record_participants_def
      advance_optimistic_def record_checkpoint_def finalize_update_def Let_def apply_validated_light_client_update_def
      adopt_finalized_def rotate_committees_def finalized_slot_def SYNC_COMMITTEE_PUBKEYS_def toy_store_def
      has_supermajority_def safety_threshold_def)

theorem finality_authenticated_witness:
  "\<exists>status s' finalized committee keys root branch.
     apply_finality_update_payload_at_slot toy_env [] toy_store 100 = Inr (status, s', toy_verified Deneb 64, finalized)
     \<and> st_finalized_header s' = finalized \<and> vh_slot (st_finalized_header toy_store) < vh_slot finalized
     \<and> is_valid_normalized_merkle_branch (cl_sha256 toy_env) root branch 105 1
     \<and> committee_for_period toy_store 65 = Inr committee
     \<and> participant_public_keys toy_env committee (sa_sync_committee_bits toy_aggregate) = Inr keys
     \<and> 2 * 512 \<le> 3 * length keys"
proof -
  obtain status where a: "apply_finality_update_payload_at_slot toy_env [] toy_store 100 =
      Inr (status, toy_next, toy_verified Deneb 64, toy_verified Capella 32)"
    using toy_finality_applies by blast
  have "st_finalized_header toy_next \<noteq> st_finalized_header toy_store"
    by (simp add: toy_next_finalized) (simp add: toy_store_def toy_verified_def toy_header_def)
  from finality_authenticated[OF a this] obtain decoded committee keys root branch where
    "decode_finality_update_payload toy_env [] = Inr decoded"
    "st_finalized_header toy_next = toy_verified Capella 32"
    "vh_slot (st_finalized_header toy_store) < vh_slot (toy_verified Capella 32)"
    "is_valid_normalized_merkle_branch (cl_sha256 toy_env) root branch 105 1"
    "committee_for_period toy_store (finality_signature_slot decoded) = Inr committee"
    "participant_public_keys toy_env committee (sa_sync_committee_bits (finality_sync_aggregate decoded)) = Inr keys"
    "2 * 512 \<le> 3 * length keys"
    by (auto simp: early_layout)
  moreover have "decode_finality_update_payload toy_env [] = Inr (FinalityDeneb toy_finality)"
    by (simp add: decode_finality_update_payload_def toy_env_def)
  ultimately show ?thesis using a by (auto simp: toy_finality_def)
qed

section \<open>Invariant, order, progress\<close>

text \<open>
  C3. Whatever sequence of payloads and timeouts the client processes, its store
  passes the validation applied when it is loaded again: heads in order, committees
  of 512 keys, participant counts in range, a checkpoint that does not exceed the
  optimistic head, and a consistent best update.
\<close>

theorem store_persistable:
  assumes "reachable env checkpoint s" and "wc_beacon_slot checkpoint = Some slot"
  shows "validate_persisted_state env s checkpoint = Inr ()"
  using reachable_identity[OF assms] assms(2) by (intro persisted_if_inv reachable_inv[OF assms(1)]) auto

theorem store_persistable_witness:
  "validate_persisted_state toy_env toy_next toy_checkpoint = Inr () \<and> st_finalized_header toy_next = toy_verified Capella 32"
proof -
  obtain status where b: "verify_bootstrap_payload toy_env [] toy_checkpoint = Inr (status, toy_store)"
    using toy_bootstrap_store by blast
  obtain fstatus where a: "apply_finality_update_payload_at_slot toy_env [] toy_store 100 =
      Inr (fstatus, toy_next, toy_verified Deneb 64, toy_verified Capella 32)"
    using toy_finality_applies by blast
  have "reachable toy_env toy_checkpoint toy_next"
    by (rule reachable.finality[OF reachable.bootstrap[OF b] a])
  from store_persistable[OF this] show ?thesis by (simp add: toy_checkpoint_def toy_next_finalized)
qed

text \<open>
  C32. Heads never move back: every update, finality, optimistic and timeout step
  keeps the checkpoint identity and does not lower the finalized or the
  optimistic slot.
\<close>

theorem heads_monotone:
  "(apply_light_client_update_payload env now bytes s = Inr applied \<longrightarrow> store_extends s (au_store applied))
   \<and> (apply_finality_update_payload_at_slot env bytes s slot = Inr (fstatus, s1, a1, f1) \<longrightarrow> store_extends s s1)
   \<and> (apply_optimistic_update_payload_at_slot env bytes s slot = Inr (ostatus, s2, a2) \<longrightarrow> store_extends s s2)
   \<and> (force_update_light_client_store now s = Some s3 \<longrightarrow> store_extends s s3)"
proof (intro conjI impI)
  show "store_extends s (au_store applied)" if "apply_light_client_update_payload env now bytes s = Inr applied"
    using apply_update_shape[OF that] process_extends by metis
  show "store_extends s s1" if "apply_finality_update_payload_at_slot env bytes s slot = Inr (fstatus, s1, a1, f1)"
    using apply_finality_shape[OF that] process_extends by metis
  show "store_extends s s2" if "apply_optimistic_update_payload_at_slot env bytes s slot = Inr (ostatus, s2, a2)"
    using apply_optimistic_shape[OF that] process_extends by metis
qed (rule force_extends)

theorem heads_monotone_witness:
  "store_extends toy_store toy_next"
proof -
  obtain fstatus where a: "apply_finality_update_payload_at_slot toy_env [] toy_store 100 =
      Inr (fstatus, toy_next, toy_verified Deneb 64, toy_verified Capella 32)"
    using toy_finality_applies by blast
  with heads_monotone[of toy_env None "[]" toy_store _ 100 fstatus toy_next "toy_verified Deneb 64" "toy_verified Capella 32"]
  show ?thesis by blast
qed

text \<open>
  C33. The timeout fallback makes progress: when the clock is past the timeout and
  a reachable store has a best update, the forced update consumes it and either
  advances the finalized header or installs the missing next sync committee.
\<close>

theorem force_update_progress:
  assumes "reachable env checkpoint s" and "st_best_valid_update s \<noteq> None"
    and "saturating_add (vh_slot (st_finalized_header s)) UPDATE_TIMEOUT < wall_clock_slot MAINNET_CONSENSUS_CHAIN_SPEC now"
  shows "\<exists>s'. force_update_light_client_store now s = Some s' \<and> st_best_valid_update s' = None
    \<and> (vh_slot (st_finalized_header s) < vh_slot (st_finalized_header s')
       \<or> st_next_sync_committee s = None \<and> st_next_sync_committee s' \<noteq> None)"
proof -
  obtain u where u: "st_best_valid_update s = Some u" using assms(2) by blast
  have "relevant s u" using reachable_inv[OF assms(1)] u by (simp add: store_inv_def)
  with u assms(3) show ?thesis
    by (auto simp: force_update_light_client_store_def Let_def relevant_def apply_validated_light_client_update_def
        adopt_finalized_def rotate_committees_def finalized_slot_def not_le not_less split: option.splits)
qed

lemma toy_optimistic_applies:
  "\<exists>status s'. apply_optimistic_update_payload_at_slot toy_env [] toy_store 100 =
     Inr (status, s', toy_verified Capella 64) \<and> st_best_valid_update s' \<noteq> None
     \<and> st_finalized_header s' = toy_verified Deneb 0"
proof -
  have d: "decode_optimistic_update_payload toy_env [] = Inr (OptimisticDeneb toy_optimistic)"
    by (simp add: decode_optimistic_update_payload_def toy_env_def)
  have fork: "fork_for_slot (bh_slot (h_beacon (toy_header 64))) = Capella"
    by (simp add: fork_for_slot_def early_fork ELECTRA_FORK_VERSION_def DENEB_FORK_VERSION_def toy_header_def)
  obtain keys where keys: "participant_public_keys toy_env (to_persisted default_committee_raw)
      (sa_sync_committee_bits toy_aggregate) = Inr keys"
    using toy_keys by blast
  have crypto: "cl_sig_validate toy_env x = Inr ()" "cl_fast_aggregate_verify toy_env sg m d k" for x sg m d k
    by (simp_all add: toy_env_def)
  show ?thesis
    unfolding apply_optimistic_update_payload_at_slot_def or_decode_def d
    by (simp add: toy_optimistic_def fork toy_verify toy_participants verify_valid_light_client_update_at_slot_def
        MIN_SYNC_COMMITTEE_PARTICIPANTS_def finalized_slot_def committee_for_period_def early_period toy_store_def keys crypto
        verify_update_finality_proof_def verify_update_next_committee_proof_def process_light_client_update_def
        record_best_def record_participants_def advance_optimistic_def record_checkpoint_def finalize_update_def
        safety_threshold_def Let_def)
qed

theorem force_update_progress_witness:
  "\<exists>s s'. force_update_light_client_store (Some 1606932023) s = Some s' \<and> st_best_valid_update s' = None
    \<and> (vh_slot (st_finalized_header s) < vh_slot (st_finalized_header s')
       \<or> st_next_sync_committee s = None \<and> st_next_sync_committee s' \<noteq> None)"
proof -
  obtain status where b: "verify_bootstrap_payload toy_env [] toy_checkpoint = Inr (status, toy_store)"
    using toy_bootstrap_store by blast
  obtain ostatus s where a: "apply_optimistic_update_payload_at_slot toy_env [] toy_store 100 =
      Inr (ostatus, s, toy_verified Capella 64)" and best: "st_best_valid_update s \<noteq> None"
    and fin: "st_finalized_header s = toy_verified Deneb 0"
    using toy_optimistic_applies by blast
  have "reachable toy_env toy_checkpoint s"
    by (rule reachable.optimistic[OF reachable.bootstrap[OF b] a])
  moreover have "saturating_add (vh_slot (st_finalized_header s)) UPDATE_TIMEOUT
      < wall_clock_slot MAINNET_CONSENSUS_CHAIN_SPEC (Some 1606932023)"
    by (simp add: fin UPDATE_TIMEOUT_def SLOTS_PER_EPOCH_def EPOCHS_PER_SYNC_COMMITTEE_PERIOD_def saturating_add_def
        wall_clock_slot_def saturating_sub_def SECONDS_PER_SLOT_def MAINNET_CONSENSUS_CHAIN_SPEC_def)
  ultimately show ?thesis using force_update_progress[OF _ best] by blast
qed

text \<open>
  The ranking of candidate updates: supermajority, then (below it) participation,
  a relevant committee, finality, finality in the same period, participation, and
  at last the older attested header and the older signature.
\<close>

definition update_key :: "verified_update \<Rightarrow> bool \<times> nat \<times> bool \<times> bool \<times> bool \<times> nat \<times> int \<times> int" where
  "update_key u =
     (has_supermajority u, if has_supermajority u then 0 else vu_participants u, has_relevant_sync_committee u,
      vu_finalized_header u \<noteq> None, has_sync_committee_finality u, vu_participants u,
      - int (unat (vh_slot (vu_attested_header u))), - int (unat (vu_signature_slot u)))"

lemma ranking_lexicographic:
  fixes p p' a a' g g' :: nat
  assumes "c \<Longrightarrow> f" and "c' \<Longrightarrow> f'"
  shows "(if m \<noteq> m' then m
     else if \<not> m \<and> p \<noteq> p' then p' < p
     else if r \<noteq> r' then r
     else if f \<noteq> f' then f
     else if f \<and> c \<noteq> c' then c
     else if p \<noteq> p' then p' < p
     else if a \<noteq> a' then a < a'
     else g < g') \<longleftrightarrow>
    (m', if m' then 0 else p', r', f', c', p', - int a', - int g')
      < (m, if m then 0 else p, r, f, c, p, - int a, - int g)"
  using assms
  by (cases m; cases m'; cases r; cases r'; cases f; cases f'; cases c; cases c') auto

text \<open>
  C34. The choice of the best update is a strict ranking: an update replaces
  another exactly when its key is greater in the lexicographic order, so the
  comparison is irreflexive and transitive and the kept update is a maximum.
\<close>

theorem better_update_ranking:
  "is_better_update new old \<longleftrightarrow> update_key old < update_key new"
proof -
  have f: "has_sync_committee_finality u \<Longrightarrow> vu_finalized_header u \<noteq> None" for u
    by (auto simp: has_sync_committee_finality_def split: option.splits)
  show ?thesis
    unfolding is_better_update_def update_key_def word_less_nat_alt word_unat_eq_iff
    by (rule ranking_lexicographic[OF f f])
qed

section \<open>Absence of panics\<close>

definition lc_panics :: "lc_error + 'a \<Rightarrow> bool" where
  "lc_panics r \<longleftrightarrow> (\<exists>m. r = Inl (LcPanic m))"

lemma lc_panics_simps [simp]:
  "\<not> lc_panics (Inr x)"
  "lc_panics (Inl e) \<longleftrightarrow> (\<exists>m. e = LcPanic m)"
  "lc_panics (bind_res r f) \<longleftrightarrow> lc_panics r \<or> (\<exists>x. r = Inr x \<and> lc_panics (f x))"
  "lc_panics (ok_or v e) \<longleftrightarrow> v = None \<and> (\<exists>m. e = LcPanic m)"
  by (auto simp: lc_panics_def bind_res_def ok_or_def split: sum.splits option.splits)

lemma lc_panics_if [simp]: "lc_panics (if c then r else r') \<longleftrightarrow> (if c then lc_panics r else lc_panics r')"
  by simp

lemma header_no_panic [simp]:
  "\<not> lc_panics (verify_capella_header env hc)"
  "\<not> lc_panics (verify_deneb_header env hdn fork)"
  by (simp_all add: verify_capella_header_def verify_deneb_header_def Let_def)

lemma optional_no_panic [simp]:
  "\<not> lc_panics (verified_optional_capella_header env hc nz)"
  "\<not> lc_panics (verified_optional_deneb_header env hdn nz)"
  "\<not> lc_panics (verified_optional_sync_committee c b slot)"
  "\<not> lc_panics (or_decode r)"
  by (auto simp: verified_optional_capella_header_def verified_optional_deneb_header_def
      validate_finalized_header_shape_def verified_optional_sync_committee_def or_decode_def lc_panics_def
      bind_res_Inl_iff header_no_panic[unfolded lc_panics_def, simplified] split: bool.splits sum.splits if_splits)

lemma payload_headers_no_panic [simp]:
  "\<not> lc_panics (bootstrap_verified_header env b)"
  "\<not> lc_panics (finality_attested_verified_header env f)"
  "\<not> lc_panics (finality_finalized_verified_header env f)"
  "\<not> lc_panics (optimistic_attested_verified_header env p)"
  "\<not> lc_panics (update_verified env d)"
  by ((cases b; simp), (cases f; simp), (cases f; simp), (cases p; simp), (cases d; simp))

lemma select_keys_no_panic: "i + length ks \<le> 8 * length bits \<Longrightarrow> \<not> lc_panics (select_keys env bits i ks)"
proof (induction ks arbitrary: i)
  case (Cons k ks)
  then have "i div 8 < length bits" by (simp add: less_mult_imp_div_less mult.commute)
  then show ?case using Cons.IH[of "Suc i"] Cons.prems by (auto split: sum.split)
qed simp

lemma verify_update_no_panic:
  assumes "\<And>c. vu_next_sync_committee u = Some c \<Longrightarrow> length (sc_pubkeys c) = 512"
  shows "\<not> lc_panics (verify_valid_light_client_update_at_slot env s u fin next_b agg now)"
proof -
  have "\<not> lc_panics (verify_update_finality_proof env u fin)"
    by (auto simp: verify_update_finality_proof_def Let_def split: option.split)
  moreover have "\<not> lc_panics (verify_update_next_committee_proof env u next_b)"
  proof (cases "vu_next_sync_committee u")
    case (Some c)
    then obtain root where "sync_committee_tree_hash_root env c = Inr root"
      using committee_root_defined[OF assms] by blast
    with Some show ?thesis by (auto simp: verify_update_next_committee_proof_def Let_def split: option.split)
  qed (simp add: verify_update_next_committee_proof_def)
  moreover have "\<not> lc_panics (participant_public_keys env committee bits)" for committee bits
    by (simp add: participant_public_keys_def SYNC_COMMITTEE_PUBKEYS_def select_keys_no_panic)
  moreover have "\<not> lc_panics (committee_for_period s slot)" for slot
    by (simp add: committee_for_period_def Let_def)
  ultimately show ?thesis
    by (simp add: verify_valid_light_client_update_at_slot_def Let_def split: sum.split)
qed

text \<open>
  C35. No payload can crash the client: verifying a bootstrap and applying an
  update, a finality update or an optimistic update returns a store or an error
  for every input, also where the source indexes the participation bits and
  rebuilds a committee from its keys.
\<close>

theorem light_client_no_panic:
  "\<not> lc_panics (verify_bootstrap_payload env bytes checkpoint)
   \<and> \<not> lc_panics (apply_light_client_update_payload env now bytes s)
   \<and> \<not> lc_panics (apply_finality_update_payload_at_slot env bytes s slot)
   \<and> \<not> lc_panics (apply_optimistic_update_payload_at_slot env bytes s slot)"
proof -
  have none: "\<not> lc_panics (verify_valid_light_client_update_at_slot env s u fin next_b agg now)"
    if "vu_next_sync_committee u = None" for u fin next_b agg now
    using that by (intro verify_update_no_panic) simp
  have upd: "\<not> lc_panics (verify_valid_light_client_update_at_slot env s u fin next_b agg now)"
    if "update_verified env d = Inr u" for d u fin next_b agg now
    by (intro verify_update_no_panic update_verified_fields(3)[OF that])
  show ?thesis
    by (auto simp: verify_bootstrap_payload_def apply_light_client_update_payload_def verify_valid_light_client_update_def
        apply_finality_update_payload_at_slot_def apply_optimistic_update_payload_at_slot_def Let_def none upd
        split: option.splits)
qed

end
