(* ===== verification/Wal.thy ===== *)
theory Wal
  imports Log_Types
begin

text \<open>
  The write-ahead log of \<^verbatim>\<open>src/crates/logex-storage/src/wal.rs\<close>: the binary row
  payload, the frames around it, and recovery from the bytes of a file.  CRC-32
  and the legacy JSON decoder are parameters.  The file system is reduced to the
  file's bytes; fsync ordering is not modelled, its effect being that a crash
  leaves a prefix of the frame that was being appended.  The results: a payload
  decodes to its rows and to nothing else, and recovery after a torn append
  returns exactly the rows of the complete frames, or an error, never a part of
  a frame.
\<close>

section \<open>Payload\<close>

unbundle bit_operations_syntax

definition WAL_BINARY_MAGIC :: bytes where
  "WAL_BINARY_MAGIC = map of_char ''LXWL''"

definition WAL_BINARY_VERSION :: u32 where
  "WAL_BINARY_VERSION = 1"

definition WAL_MIN_ROW_BYTES :: usize where
  "WAL_MIN_ROW_BYTES = 118"

definition u8_from_bool :: "bool \<Rightarrow> u8" where
  "u8_from_bool b = (if b then 1 else 0)"

definition topic_presence_mask :: "log_row \<Rightarrow> u8" where
  "topic_presence_mask row =
     u8_from_bool (lr_topic0 row \<noteq> None) OR push_bit 1 (u8_from_bool (lr_topic1 row \<noteq> None))
     OR push_bit 2 (u8_from_bool (lr_topic2 row \<noteq> None)) OR push_bit 3 (u8_from_bool (lr_topic3 row \<noteq> None))"

definition mask_count_ones :: "u8 \<Rightarrow> nat" where
  "mask_count_ones m = length (filter (bit m) [0..<8])"

definition write_optional_b256 :: "b256 option \<Rightarrow> bytes" where
  "write_optional_b256 v = (case v of Some b \<Rightarrow> as_slice b | None \<Rightarrow> [])"

definition validate_row_data :: "log_row \<Rightarrow> unit res" where
  "validate_row_data row =
     ensure (unat (lr_data_len row) = length (lr_data row)) (InvalidInput ''WAL row data_len does not match data bytes'')"

definition row_payload_len :: "log_row \<Rightarrow> usize" where
  "row_payload_len row = WAL_MIN_ROW_BYTES + mask_count_ones (topic_presence_mask row) * 32"

fun payload_len_loop :: "usize \<Rightarrow> log_row list \<Rightarrow> usize res" where
  "payload_len_loop payload_len [] = Inr payload_len"
| "payload_len_loop payload_len (row # rows) =
     bind_res (validate_row_data row) (\<lambda>_.
     bind_res
       (ok_or
         (case Option.bind (usize_checked_add payload_len (row_payload_len row))
                 (\<lambda>len. usize_checked_add len (length (lr_data row))) of
            None \<Rightarrow> None
          | Some len \<Rightarrow> if try_u32 len \<noteq> None then Some len else None)
         (InvalidInput ''WAL payload exceeds u32 length'')) (\<lambda>payload_len.
     payload_len_loop payload_len rows))"

definition validated_payload_len :: "log_row list \<Rightarrow> usize res" where
  "validated_payload_len rows =
     bind_res (ok_or (try_u32 (length rows)) (InvalidInput ''too many ingestion rows'')) (\<lambda>_.
     payload_len_loop 8 rows)"

definition wal_row_bytes :: "log_row \<Rightarrow> bytes" where
  "wal_row_bytes row =
     to_le_bytes (lr_block_number row) @ as_slice (lr_block_hash row) @ to_le_bytes (lr_timestamp row)
     @ as_slice (lr_tx_hash row) @ to_le_bytes (lr_tx_index row) @ to_le_bytes (lr_log_index row)
     @ as_slice (lr_address row) @ [topic_presence_mask row]
     @ write_optional_b256 (lr_topic0 row) @ write_optional_b256 (lr_topic1 row)
     @ write_optional_b256 (lr_topic2 row) @ write_optional_b256 (lr_topic3 row)
     @ to_le_bytes (lr_data_len row) @ to_le_bytes (lr_data_len row) @ lr_data row @ [source_as_u8 (lr_source row)]"

text \<open>Reserving the output buffer is taken to succeed.\<close>

definition encode_rows :: "log_row list \<Rightarrow> bytes res" where
  "encode_rows rows =
     bind_res (validated_payload_len rows) (\<lambda>_.
     Inr (WAL_BINARY_MAGIC @ to_le_bytes WAL_BINARY_VERSION @ concat (map wal_row_bytes rows)))"

section \<open>Reading a payload\<close>

definition read_u8 :: "bytes \<Rightarrow> (u8 \<times> bytes) res" where
  "read_u8 cursor = bind_res (read_exact 1 cursor) (\<lambda>(v, rest). Inr (hd v, rest))"

definition read_u32 :: "bytes \<Rightarrow> (u32 \<times> bytes) res" where
  "read_u32 cursor = bind_res (read_exact 4 cursor) (\<lambda>(v, rest). Inr (from_le_bytes v, rest))"

definition read_u64 :: "bytes \<Rightarrow> (u64 \<times> bytes) res" where
  "read_u64 cursor = bind_res (read_exact 8 cursor) (\<lambda>(v, rest). Inr (from_le_bytes v, rest))"

definition read_b256 :: "bytes \<Rightarrow> (b256 \<times> bytes) res" where
  "read_b256 cursor = bind_res (read_exact 32 cursor) (\<lambda>(v, rest). Inr (from_slice v, rest))"

definition read_address :: "bytes \<Rightarrow> (address \<times> bytes) res" where
  "read_address cursor = bind_res (read_exact 20 cursor) (\<lambda>(v, rest). Inr (from_slice v, rest))"

definition read_optional_b256 :: "bytes \<Rightarrow> u8 \<Rightarrow> nat \<Rightarrow> (b256 option \<times> bytes) res" where
  "read_optional_b256 cursor m i =
     (if m AND push_bit i 1 = 0 then Inr (None, cursor)
      else bind_res (read_b256 cursor) (\<lambda>(v, rest). Inr (Some v, rest)))"

definition decode_row :: "bytes \<Rightarrow> (log_row \<times> bytes) res" where
  "decode_row cursor =
     bind_res (read_u64 cursor) (\<lambda>(block_number, cursor).
     bind_res (read_b256 cursor) (\<lambda>(block_hash, cursor).
     bind_res (read_u64 cursor) (\<lambda>(timestamp, cursor).
     bind_res (read_b256 cursor) (\<lambda>(tx_hash, cursor).
     bind_res (read_u32 cursor) (\<lambda>(tx_index, cursor).
     bind_res (read_u32 cursor) (\<lambda>(log_index, cursor).
     bind_res (read_address cursor) (\<lambda>(address, cursor).
     bind_res (read_u8 cursor) (\<lambda>(topics, cursor).
     if topics AND NOT 0x0f \<noteq> 0 then Inl (InvalidData ''invalid WAL topic mask'')
     else
       bind_res (read_optional_b256 cursor topics 0) (\<lambda>(topic0, cursor).
       bind_res (read_optional_b256 cursor topics 1) (\<lambda>(topic1, cursor).
       bind_res (read_optional_b256 cursor topics 2) (\<lambda>(topic2, cursor).
       bind_res (read_optional_b256 cursor topics 3) (\<lambda>(topic3, cursor).
       bind_res (read_u32 cursor) (\<lambda>(data_len, cursor).
       bind_res (read_u32 cursor) (\<lambda>(encoded_data_len, cursor).
       if data_len \<noteq> encoded_data_len then Inl (InvalidData ''WAL row data lengths disagree'')
       else if length cursor \<le> unat encoded_data_len
       then Inl (InvalidData ''WAL row data exceeds payload or leaves no source byte'')
       else
         let row_data = take (unat encoded_data_len) cursor; cursor = drop (unat encoded_data_len) cursor
         in bind_res (read_u8 cursor) (\<lambda>(source_byte, cursor).
            bind_res (ok_or (source_from_u8 source_byte) (InvalidData ''invalid WAL row source'')) (\<lambda>source.
            Inr (\<lparr>lr_block_number = block_number, lr_block_hash = block_hash, lr_timestamp = timestamp,
                  lr_tx_hash = tx_hash, lr_tx_index = tx_index, lr_log_index = log_index, lr_address = address,
                  lr_topic0 = topic0, lr_topic1 = topic1, lr_topic2 = topic2, lr_topic3 = topic3,
                  lr_data = row_data, lr_data_len = data_len, lr_source = source\<rparr>, cursor)))))))))))))))))"

fun decode_loop :: "nat \<Rightarrow> bytes \<Rightarrow> (log_row list \<times> bytes) res" where
  "decode_loop 0 cursor = Inr ([], cursor)"
| "decode_loop (Suc n) cursor =
     bind_res (decode_row cursor) (\<lambda>(row, cursor).
     bind_res (decode_loop n cursor) (\<lambda>(rows, cursor). Inr (row # rows, cursor)))"

fun validate_rows_data :: "log_row list \<Rightarrow> unit res" where
  "validate_rows_data [] = Inr ()"
| "validate_rows_data (row # rows) = bind_res (validate_row_data row) (\<lambda>_. validate_rows_data rows)"

text \<open>\<^verbatim>\<open>map_err(invalid_data)\<close>: the error becomes the source of an \<^verbatim>\<open>InvalidData\<close> error.\<close>

fun error_message :: "error \<Rightarrow> string" where
  "error_message (InvalidData m) = m"
| "error_message (InvalidInput m) = m"
| "error_message (OtherError m) = m"
| "error_message (Unsupported m) = m"
| "error_message (UnexpectedEof m) = m"
| "error_message (Panic m) = m"

type_synonym json_decoder = "bytes \<Rightarrow> string + log_row list"

definition decode_rows :: "json_decoder \<Rightarrow> bytes \<Rightarrow> usize \<Rightarrow> log_row list res" where
  "decode_rows json data row_count =
     (if length data < 4 + 4 \<or> take 4 data \<noteq> WAL_BINARY_MAGIC
      then
        bind_res (map_err InvalidData (json data)) (\<lambda>rows.
        if length rows \<noteq> row_count then Inl (InvalidData ''WAL JSON row count does not match entry header'')
        else bind_res (map_err (\<lambda>e. InvalidData (error_message e)) (validate_rows_data rows)) (\<lambda>_. Inr rows))
      else
        bind_res (read_exact 4 data) (\<lambda>(magic, cursor).
        bind_res (read_u32 cursor) (\<lambda>(version, cursor).
        if version \<noteq> WAL_BINARY_VERSION
        then Inl (InvalidData (''unsupported WAL binary version '' @ show_nat (unat version)))
        else if (length data - 8) div WAL_MIN_ROW_BYTES < row_count
        then Inl (InvalidData ''WAL row count exceeds available payload'')
        else
          bind_res (decode_loop row_count cursor) (\<lambda>(rows, cursor).
          if cursor \<noteq> [] then Inl (InvalidData ''WAL binary payload has trailing bytes'')
          else Inr rows))))"

section \<open>Frames\<close>

type_synonym crc32 = "bytes \<Rightarrow> u32"

record encoded_batch =
  eb_serialized :: bytes
  eb_row_count :: u32
  eb_payload_len :: u32
  eb_checksum :: u32

definition encoded_len :: "encoded_batch \<Rightarrow> u64" where
  "encoded_len batch = ucast (eb_payload_len batch) + 12"

definition batch_new :: "crc32 \<Rightarrow> log_row list \<Rightarrow> encoded_batch res" where
  "batch_new crc rows =
     bind_res (ok_or (try_u32 (length rows)) (InvalidInput ''too many rows for a WAL entry'')) (\<lambda>row_count.
     bind_res (encode_rows rows) (\<lambda>serialized.
     bind_res (ok_or (try_u32 (length serialized)) (InvalidInput ''WAL payload exceeds u32 length'')) (\<lambda>payload_len.
     Inr \<lparr>eb_serialized = serialized, eb_row_count = row_count, eb_payload_len = payload_len,
          eb_checksum = crc serialized\<rparr>)))"

text \<open>A streaming CRC-32 hasher is the list of bytes it was fed.\<close>

definition checkpoint_checksum :: bytes where
  "checkpoint_checksum = WAL_BINARY_MAGIC @ to_le_bytes WAL_BINARY_VERSION"

definition extend_checkpoint_checksum :: "encoded_batch \<Rightarrow> bytes \<Rightarrow> bytes res" where
  "extend_checkpoint_checksum batch checksum =
     bind_res (slice_from (eb_serialized batch) 8) (\<lambda>rows. Inr (checksum @ rows))"

definition frame_bytes :: "encoded_batch \<Rightarrow> bytes" where
  "frame_bytes batch =
     to_le_bytes (eb_row_count batch) @ to_le_bytes (eb_payload_len batch) @ eb_serialized batch
     @ to_le_bytes (eb_checksum batch)"

text \<open>
  The reader returns the entry and what is left of it.  A row allowance, when
  given, belongs to bounded inspection.
\<close>

definition read_entry_with_limit ::
  "crc32 \<Rightarrow> json_decoder \<Rightarrow> bytes \<Rightarrow> usize \<Rightarrow> u64 option \<Rightarrow> ((log_row list \<times> usize) option \<times> bytes) res" where
  "read_entry_with_limit crc json reader remaining remaining_rows =
     (if remaining < 8
      then bind_res (read_exact remaining reader) (\<lambda>(_, reader). Inr (None, reader))
      else
        bind_res (read_exact 8 reader) (\<lambda>(header, reader).
        let row_count = unat (from_le_bytes (take 4 header) :: u32)
        in if (case remaining_rows of None \<Rightarrow> False | Some limit \<Rightarrow> unat limit < row_count)
           then Inl (InvalidInput (''WAL row limit exceeded: frame requires='' @ show_nat row_count
                 @ '', remaining allowance='' @ show_nat (case remaining_rows of None \<Rightarrow> 0 | Some limit \<Rightarrow> unat limit)))
           else
             let data_len = unat (from_le_bytes (drop 4 header) :: u32); payload_remaining = remaining - 8
             in if payload_remaining < data_len
                then Inl (InvalidData ''payload length exceeds remaining WAL bytes; preserve the WAL for inspection'')
                else
                  bind_res (read_exact data_len reader) (\<lambda>(data, reader).
                  let crc_len = min (payload_remaining - data_len) 4
                  in bind_res (read_exact crc_len reader) (\<lambda>(stored_crc, reader).
                     if stored_crc \<noteq> take crc_len (to_le_bytes (crc data)) then Inl (InvalidData ''WAL checksum mismatch'')
                     else if remaining_rows \<noteq> None \<and> take 4 data \<noteq> WAL_BINARY_MAGIC
                     then Inl (Unsupported (''bounded WAL inspection does not decode legacy JSON frames; ''
                       @ ''preserve the WAL for explicit recovery''))
                     else if remaining_rows \<noteq> None \<and> length data < 8
                     then Inl (InvalidData ''incomplete WAL binary payload header'')
                     else
                       bind_res (decode_rows json data row_count) (\<lambda>rows.
                       if crc_len < 4 then Inr (None, reader)
                       else Inr (Some (rows, 8 + data_len + 4), reader))))))"

lemma read_entry_progress:
  "read_entry_with_limit crc json reader remaining limit = Inr (Some (rows, n), reader') \<Longrightarrow> 0 < n"
  by (auto simp: read_entry_with_limit_def Let_def bind_res_Inr_iff split: if_splits)

function read_entries_loop ::
  "crc32 \<Rightarrow> json_decoder \<Rightarrow> u64 option \<Rightarrow> usize \<Rightarrow> bytes \<Rightarrow> usize \<Rightarrow> log_row list \<Rightarrow> (log_row list \<times> bytes) res" where
  "read_entries_loop crc json max_rows file_len reader offset all_rows =
     (if offset < file_len
      then
        bind_res
          (map_err (reword (\<lambda>m. ''entry at byte '' @ show_nat offset @ '': '' @ m))
            (read_entry_with_limit crc json reader (file_len - offset)
               (map_option (\<lambda>limit. saturating_sub limit (of_nat (length all_rows))) max_rows)))
          (\<lambda>p. case p of
               (None, reader) \<Rightarrow> Inr (all_rows, reader)
             | (Some (rows, bytes_read), reader) \<Rightarrow>
                 read_entries_loop crc json max_rows file_len reader (offset + bytes_read) (all_rows @ rows))
      else Inr (all_rows, reader))"
  by pat_completeness auto
termination
  by (relation "measure (\<lambda>(_, _, _, file_len, _, offset, _). file_len - offset)")
     (auto simp: map_err_Inr_iff dest: read_entry_progress)

declare read_entries_loop.simps [simp del]

definition read_entries_with_limit ::
  "crc32 \<Rightarrow> json_decoder \<Rightarrow> bytes \<Rightarrow> usize \<Rightarrow> u64 option \<Rightarrow> log_row list res" where
  "read_entries_with_limit crc json reader file_len max_rows =
     bind_res (read_entries_loop crc json max_rows file_len reader 0 []) (\<lambda>(all_rows, reader).
     if reader \<noteq> [] then Inl (InvalidData ''WAL changed during recovery'') else Inr all_rows)"

definition read_entries :: "crc32 \<Rightarrow> json_decoder \<Rightarrow> bytes \<Rightarrow> usize \<Rightarrow> log_row list res" where
  "read_entries crc json reader file_len = read_entries_with_limit crc json reader file_len None"

section \<open>The log file\<close>

text \<open>
  The file is \<open>None\<close> when it does not exist.  \<open>now\<close> is what the reader finds
  while \<open>file\<close> is what its length was taken from: they differ only when another
  process writes, against the exclusive ownership the caller must hold.
\<close>

type_synonym wal_file = "bytes option"

definition wal_append_encoded :: "wal_file \<Rightarrow> encoded_batch \<Rightarrow> wal_file" where
  "wal_append_encoded file batch =
     Some ((case file of None \<Rightarrow> [] | Some bytes \<Rightarrow> bytes) @ frame_bytes batch)"

definition wal_append :: "crc32 \<Rightarrow> wal_file \<Rightarrow> log_row list \<Rightarrow> wal_file res" where
  "wal_append crc file rows =
     bind_res (batch_new crc rows) (\<lambda>batch. Inr (wal_append_encoded file batch))"

definition wal_is_empty :: "wal_file \<Rightarrow> bool" where
  "wal_is_empty file = (case file of Some bytes \<Rightarrow> length bytes = 0 | None \<Rightarrow> True)"

definition wal_read_all :: "crc32 \<Rightarrow> json_decoder \<Rightarrow> string \<Rightarrow> wal_file \<Rightarrow> bytes \<Rightarrow> log_row list res" where
  "wal_read_all crc json path file now =
     (case file of
        None \<Rightarrow> Inr []
      | Some bytes \<Rightarrow>
          map_err (reword (\<lambda>m. ''cannot recover WAL '' @ path @ '': '' @ m)) (read_entries crc json now (length bytes)))"

definition wal_truncate :: "wal_file \<Rightarrow> wal_file" where
  "wal_truncate file = (case file of Some _ \<Rightarrow> Some [] | None \<Rightarrow> None)"

definition wal_retire_after :: "wal_file \<Rightarrow> wal_file" where
  "wal_retire_after file = (case file of None \<Rightarrow> None | Some _ \<Rightarrow> Some [])"

text \<open>What \<^verbatim>\<open>symlink_metadata\<close> reports of a path.\<close>

datatype path_state = Missing | NotOrdinary | Ordinary

record wal_read_limits =
  wl_max_bytes :: u64
  wl_max_rows :: u64

definition read_existing_bounded ::
  "crc32 \<Rightarrow> json_decoder \<Rightarrow> string \<Rightarrow> path_state \<Rightarrow> path_state \<Rightarrow> bytes \<Rightarrow> wal_read_limits \<Rightarrow> log_row list res" where
  "read_existing_bounded crc json path parent file bytes limits =
     (case parent of
        NotOrdinary \<Rightarrow> Inl (Unsupported ''bounded WAL read requires an ordinary parent directory'')
      | Missing \<Rightarrow> Inr []
      | Ordinary \<Rightarrow>
          (case file of
             NotOrdinary \<Rightarrow> Inl (Unsupported ''bounded WAL read requires an ordinary file'')
           | Missing \<Rightarrow> Inr []
           | Ordinary \<Rightarrow>
               if unat (wl_max_bytes limits) < length bytes
               then Inl (InvalidInput (''WAL byte limit exceeded: required='' @ show_nat (length bytes) @ '', limit=''
                           @ show_nat (unat (wl_max_bytes limits))))
               else map_err (reword (\<lambda>m. ''cannot inspect WAL '' @ path @ '': '' @ m))
                      (read_entries_with_limit crc json bytes (length bytes) (Some (wl_max_rows limits)))))"

section \<open>Payload round trip\<close>

lemma readers_append [simp]:
  "read_u8 (b # rest) = Inr (b, rest)"
  "read_u32 (to_le_bytes (w32 :: u32) @ rest) = Inr (w32, rest)"
  "read_u64 (to_le_bytes (w64 :: u64) @ rest) = Inr (w64, rest)"
  "read_b256 (as_slice (h :: b256) @ rest) = Inr (h, rest)"
  "read_address (as_slice (a :: address) @ rest) = Inr (a, rest)"
  using read_exact_append[of "[b]" 1 rest]
  by (simp_all add: read_u8_def read_u32_def read_u64_def read_b256_def read_address_def from_as_slice)

lemma readers_Inr_iff:
  "read_u8 c = Inr (b, rest) \<longleftrightarrow> c = b # rest"
  "read_u32 c = Inr (w32, rest) \<longleftrightarrow> c = to_le_bytes w32 @ rest"
  "read_u64 c = Inr (w64, rest) \<longleftrightarrow> c = to_le_bytes w64 @ rest"
  "read_b256 c = Inr (h, rest) \<longleftrightarrow> c = as_slice h @ rest"
  "read_address c = Inr (a, rest) \<longleftrightarrow> c = as_slice a @ rest"
  using readers_append
  by (auto simp: read_u8_def read_u32_def read_u64_def read_b256_def read_address_def bind_res_Inr_iff read_exact_Inr_iff
      to_from_le_bytes as_slice_from_slice length_Suc_conv)

lemma presence_bits:
  "topic_presence_mask row AND push_bit 0 1 = 0 \<longleftrightarrow> lr_topic0 row = None"
  "topic_presence_mask row AND push_bit 1 1 = 0 \<longleftrightarrow> lr_topic1 row = None"
  "topic_presence_mask row AND push_bit 2 1 = 0 \<longleftrightarrow> lr_topic2 row = None"
  "topic_presence_mask row AND push_bit 3 1 = 0 \<longleftrightarrow> lr_topic3 row = None"
  "topic_presence_mask row AND NOT 0x0f = 0"
  by (cases "lr_topic0 row"; cases "lr_topic1 row"; cases "lr_topic2 row"; cases "lr_topic3 row";
      simp add: topic_presence_mask_def u8_from_bool_def)+

definition topic_mask :: "b256 option \<Rightarrow> b256 option \<Rightarrow> b256 option \<Rightarrow> b256 option \<Rightarrow> u8" where
  "topic_mask t0 t1 t2 t3 =
     u8_from_bool (t0 \<noteq> None) OR push_bit 1 (u8_from_bool (t1 \<noteq> None))
     OR push_bit 2 (u8_from_bool (t2 \<noteq> None)) OR push_bit 3 (u8_from_bool (t3 \<noteq> None))"

lemma topic_presence_mask_eq:
  "topic_presence_mask row = topic_mask (lr_topic0 row) (lr_topic1 row) (lr_topic2 row) (lr_topic3 row)"
  by (simp add: topic_presence_mask_def topic_mask_def)

lemma u8_low_nibble:
  assumes "(m :: u8) AND NOT 0x0f = 0"
  shows "m \<in> {0, 1, 2, 3, 4, 5, 6, 7, 8, 9, 10, 11, 12, 13, 14, 15}"
proof -
  have "m = (m AND 0x0f) OR (m AND NOT 0x0f)"
    by (simp add: bit.conj_disj_distrib[symmetric])
  then have "m = m AND mask 4" using assms by (simp add: mask_eq_exp_minus_1)
  then have "unat m < 16" using and_mask_less_size[of 4 m] by (simp add: word_size word_less_nat_alt)
  then have "unat m \<in> {0, 1, 2, 3, 4, 5, 6, 7, 8, 9, 10, 11, 12, 13, 14, 15}"
    by (simp only: insert_iff empty_iff simp_thms) arith
  then show ?thesis by (simp add: word_unat_eq_iff)
qed

lemma topic_mask_unique:
  assumes low: "m AND NOT 0x0f = 0"
    and bits: "m AND push_bit 0 1 = 0 \<longleftrightarrow> t0 = None" "m AND push_bit (Suc 0) 1 = 0 \<longleftrightarrow> t1 = None"
      "m AND push_bit 2 1 = 0 \<longleftrightarrow> t2 = None" "m AND push_bit 3 1 = 0 \<longleftrightarrow> t3 = None"
  shows "m = topic_mask t0 t1 t2 t3"
  using bits u8_low_nibble[OF low]
  by (auto simp: topic_mask_def u8_from_bool_def)

lemma read_optional_append [simp]:
  "(m AND push_bit i 1 = 0 \<longleftrightarrow> t = None) \<Longrightarrow> read_optional_b256 (write_optional_b256 t @ rest) m i = Inr (t, rest)"
  by (cases t) (auto simp: read_optional_b256_def write_optional_b256_def)

lemma read_optional_Inr_iff:
  "read_optional_b256 c m i = Inr (t, rest) \<longleftrightarrow>
     c = write_optional_b256 t @ rest \<and> (m AND push_bit i 1 = 0 \<longleftrightarrow> t = None)"
  by (cases t) (auto simp: read_optional_b256_def write_optional_b256_def bind_res_Inr_iff readers_Inr_iff)

definition sized_row :: "log_row \<Rightarrow> bool" where
  "sized_row row \<longleftrightarrow> unat (lr_data_len row) = length (lr_data row)"

lemma read_presence [simp]:
  "read_optional_b256 (write_optional_b256 (lr_topic0 row) @ rest) (topic_presence_mask row) 0 = Inr (lr_topic0 row, rest)"
  "read_optional_b256 (write_optional_b256 (lr_topic1 row) @ rest) (topic_presence_mask row) (Suc 0) = Inr (lr_topic1 row, rest)"
  "read_optional_b256 (write_optional_b256 (lr_topic2 row) @ rest) (topic_presence_mask row) 2 = Inr (lr_topic2 row, rest)"
  "read_optional_b256 (write_optional_b256 (lr_topic3 row) @ rest) (topic_presence_mask row) 3 = Inr (lr_topic3 row, rest)"
  using presence_bits[of row] by (simp_all only: read_optional_Inr_iff One_nat_def refl simp_thms)

lemma decode_wal_row:
  assumes "sized_row row"
  shows "decode_row (wal_row_bytes row @ rest) = Inr (row, rest)"
proof -
  have "topic_presence_mask row AND - 16 = 0" using presence_bits(5)[of row] by simp
  then show ?thesis using assms
    by (simp add: decode_row_def wal_row_bytes_def sized_row_def Let_def)
qed

lemma source_from_u8_Some_iff: "source_from_u8 b = Some s \<longleftrightarrow> b = source_as_u8 s"
  by (cases s) (auto simp: source_from_u8_def source_as_u8_def)

lemma drop_Cons_split:
  assumes "n < length c" and "drop n c = b # rest"
  obtains d where "length d = n" and "c = d @ b # rest"
  using assms that[of "take n c"] append_take_drop_id[of n c] by auto

lemma decode_wal_row_only:
  assumes "decode_row c = Inr (row, rest)"
  shows "c = wal_row_bytes row @ rest \<and> sized_row row"
  using assms
  apply (simp only: decode_row_def bind_res_Inr_iff readers_Inr_iff read_optional_Inr_iff if_Inl_eq_Inr_iff Let_def
      ok_or_simps source_from_u8_Some_iff split_paired_Ex prod.case One_nat_def not_not not_le
      sum.inject prod.inject)
  apply (elim exE conjE)
  apply hypsubst
  apply (drule topic_mask_unique, assumption, assumption, assumption, assumption)
  apply (erule (1) drop_Cons_split)
  apply hypsubst
  apply (simp add: wal_row_bytes_def sized_row_def topic_presence_mask_eq)
  done

lemma decode_wal_row_iff:
  "decode_row c = Inr (row, rest) \<longleftrightarrow> c = wal_row_bytes row @ rest \<and> sized_row row"
  using decode_wal_row decode_wal_row_only by blast

lemma decode_loop_iff:
  "decode_loop n c = Inr (rows, rest) \<longleftrightarrow>
     c = concat (map wal_row_bytes rows) @ rest \<and> length rows = n \<and> list_all sized_row rows"
proof (induction n arbitrary: c rows)
  case 0
  show ?case by auto
next
  case (Suc n)
  show ?case
    by (cases rows) (auto simp: bind_res_Inr_iff decode_wal_row_iff Suc)
qed

lemma length_write_optional [simp]: "length (write_optional_b256 t) = (if t = None then 0 else 32)"
  by (cases t) (simp_all add: write_optional_b256_def)

lemma count_topic_mask:
  "mask_count_ones (topic_mask t0 t1 t2 t3) =
     of_bool (t0 \<noteq> None) + of_bool (t1 \<noteq> None) + of_bool (t2 \<noteq> None) + of_bool (t3 \<noteq> None)"
  by (cases t0; cases t1; cases t2; cases t3; simp add: topic_mask_def u8_from_bool_def mask_count_ones_def upt_rec)

lemma length_wal_row_bytes: "length (wal_row_bytes row) = row_payload_len row + length (lr_data row)"
  by (simp add: wal_row_bytes_def row_payload_len_def WAL_MIN_ROW_BYTES_def topic_presence_mask_eq count_topic_mask)

lemma wal_row_bytes_min: "118 \<le> length (wal_row_bytes row)"
  by (simp add: length_wal_row_bytes row_payload_len_def WAL_MIN_ROW_BYTES_def)

lemma concat_rows_min: "118 * length rows \<le> length (concat (map wal_row_bytes rows))"
proof (induction rows)
  case (Cons row rows)
  then show ?case using wal_row_bytes_min[of row] by simp
qed simp

lemma try_u32_None_iff: "try_u32 n = None \<longleftrightarrow> 2 ^ 32 \<le> n"
  by (auto simp: try_u32_def)

lemma payload_len_step:
  "(case Option.bind (usize_checked_add a b) (\<lambda>len. usize_checked_add len c) of
      None \<Rightarrow> None | Some len \<Rightarrow> if try_u32 len \<noteq> None then Some len else None) =
    (if a + b + c < 2 ^ 32 then Some (a + b + c) else None)"
  by (auto simp: usize_checked_add_def usize_limit_def try_u32_None_iff split: option.splits)

lemma payload_len_loop_iff:
  "a < 2 ^ 32 \<Longrightarrow> payload_len_loop a rows = Inr n \<longleftrightarrow>
     list_all sized_row rows \<and> n = a + length (concat (map wal_row_bytes rows)) \<and> n < 2 ^ 32"
proof (induction rows arbitrary: a)
  case (Cons row rows)
  show ?case
  proof (cases "a + length (wal_row_bytes row) < 2 ^ 32")
    case True
    then show ?thesis using Cons.IH[OF True]
      by (auto simp: validate_row_data_def sized_row_def payload_len_step length_wal_row_bytes bind_res_Inr_iff add.assoc)
  next
    case False
    then show ?thesis
      by (auto simp: payload_len_step length_wal_row_bytes bind_res_Inr_iff add.assoc)
  qed
qed auto

lemma encode_rows_iff:
  "encode_rows rows = Inr data \<longleftrightarrow>
     list_all sized_row rows \<and> data = WAL_BINARY_MAGIC @ to_le_bytes WAL_BINARY_VERSION @ concat (map wal_row_bytes rows)
     \<and> length data < 2 ^ 32"
proof -
  have "(\<exists>w. try_u32 (length rows) = Some w) \<longleftrightarrow> length rows < 2 ^ 32"
    using try_u32_None_iff[of "length rows"] by (cases "try_u32 (length rows)") auto
  moreover have "length WAL_BINARY_MAGIC = 4" by (simp add: WAL_BINARY_MAGIC_def)
  moreover have "length (concat (map wal_row_bytes rows)) < 2 ^ 32 \<Longrightarrow> length rows < 2 ^ 32"
    using concat_rows_min[of rows] by linarith
  ultimately show ?thesis
    by (auto simp: encode_rows_def validated_payload_len_def bind_res_Inr_iff payload_len_loop_iff)
qed

lemma wal_payload_canonical_helper:
  assumes "length data < 2 ^ 32" and "8 \<le> length data" and "take 4 data = WAL_BINARY_MAGIC"
  shows "decode_rows json data n = Inr rows \<longleftrightarrow> encode_rows rows = Inr data \<and> length rows = n"
proof -
  have magic: "read_exact 4 data = Inr (WAL_BINARY_MAGIC, drop 4 data)" and long: "\<not> length data < 4 + 4"
    using assms by (simp_all add: read_exact_def)
  have data: "data = WAL_BINARY_MAGIC @ rest \<longleftrightarrow> drop 4 data = rest" for rest
    using assms(3) append_take_drop_id[of 4 data] by (metis same_append_eq)
  have count: "\<not> (length data - 8) div 118 < length rows"
    if known: "data = WAL_BINARY_MAGIC @ to_le_bytes WAL_BINARY_VERSION @ concat (map wal_row_bytes rows)"
  proof -
    have "length data - 8 = length (concat (map wal_row_bytes rows))"
      unfolding known by (simp add: WAL_BINARY_MAGIC_def)
    then show ?thesis using concat_rows_min[of rows] by (simp add: div_less_iff_less_mult)
  qed
  show ?thesis
    using assms count
    by (auto simp: decode_rows_def magic long bind_res_Inr_iff readers_Inr_iff if_Inl_eq_Inr_iff decode_loop_iff
        encode_rows_iff data WAL_MIN_ROW_BYTES_def)
qed

lemma validate_rows_data_iff: "validate_rows_data rows = Inr () \<longleftrightarrow> list_all sized_row rows"
  by (induction rows) (auto simp: validate_row_data_def sized_row_def bind_res_Inr_iff split: if_splits)

lemma legacy_payload:
  assumes "length data < 8 \<or> take 4 data \<noteq> WAL_BINARY_MAGIC"
  shows "decode_rows json data n = Inr rows \<longleftrightarrow> json data = Inr rows \<and> length rows = n \<and> list_all sized_row rows"
proof (cases "json data")
  case (Inl e)
  then show ?thesis using assms by (auto simp: decode_rows_def map_err_def)
next
  case (Inr xs)
  have "map_err f (validate_rows_data xs) = Inr () \<longleftrightarrow> list_all sized_row xs" for f :: "error \<Rightarrow> error"
    using validate_rows_data_iff[of xs] by (cases "validate_rows_data xs") (simp_all add: map_err_def)
  then show ?thesis using Inr assms by (auto simp: decode_rows_def bind_res_Inr_iff map_err_def[of _ "Inr xs"])
qed

text \<open>
  C6. What a payload that fits the u32 length of a frame decodes to.  Data of at
  least eight bytes that starts with the magic is binary, and binary data is
  canonical: \<^const>\<open>decode_rows\<close> succeeds with some rows exactly when
  \<^const>\<open>encode_rows\<close> writes that data for them and the header's row count is theirs.
  All other data is legacy JSON: it succeeds exactly with the rows the JSON
  decoder reads, when their number is the header's row count and each row's
  declared length is that of its data.  A payload that \<^const>\<open>encode_rows\<close> writes is
  never taken for JSON.
\<close>

theorem wal_payload_canonical:
  assumes "length data < 2 ^ 32"
  shows "(decode_rows json data n = Inr rows \<longleftrightarrow>
      (if 8 \<le> length data \<and> take 4 data = WAL_BINARY_MAGIC
       then encode_rows rows = Inr data \<and> length rows = n
       else json data = Inr rows \<and> length rows = n \<and> list_all sized_row rows))
    \<and> (encode_rows rows = Inr data \<longrightarrow> 8 \<le> length data \<and> take 4 data = WAL_BINARY_MAGIC)"
proof -
  have "encode_rows rows = Inr data \<longrightarrow> 8 \<le> length data \<and> take 4 data = WAL_BINARY_MAGIC"
    by (auto simp: encode_rows_iff WAL_BINARY_MAGIC_def)
  then show ?thesis using wal_payload_canonical_helper[OF assms] legacy_payload by (simp add: not_le)
qed

section \<open>Recovery\<close>

lemma batch_new_iff:
  "batch_new crc rows = Inr b \<longleftrightarrow>
     encode_rows rows = Inr (eb_serialized b) \<and> length rows = unat (eb_row_count b)
     \<and> length (eb_serialized b) = unat (eb_payload_len b) \<and> eb_checksum b = crc (eb_serialized b)"
proof (cases b)
  case (fields ser rc pl ck)
  then show ?thesis
    by (simp add: batch_new_def bind_res_Inr_iff try_u32_Some_iff) metis
qed

lemma length_frame_bytes: "length (frame_bytes b) = 12 + length (eb_serialized b)"
  by (simp add: frame_bytes_def)

lemma decode_own_batch:
  assumes "batch_new crc rows = Inr b"
  shows "decode_rows json (eb_serialized b) (unat (eb_row_count b)) = Inr rows"
proof -
  have enc: "encode_rows rows = Inr (eb_serialized b)" and n: "length rows = unat (eb_row_count b)"
    using assms by (simp_all add: batch_new_iff)
  then have "length (eb_serialized b) < 2 ^ 32" "8 \<le> length (eb_serialized b)"
    "take 4 (eb_serialized b) = WAL_BINARY_MAGIC"
    by (auto simp: encode_rows_iff WAL_BINARY_MAGIC_def)
  then show ?thesis using wal_payload_canonical_helper enc n by simp
qed

lemma frame_split:
  "take 8 (frame_bytes b) = to_le_bytes (eb_row_count b) @ to_le_bytes (eb_payload_len b)"
  "drop 8 (frame_bytes b) = eb_serialized b @ to_le_bytes (eb_checksum b)"
  by (simp_all add: frame_bytes_def)

lemma read_exact_frame_header:
  "read_exact 8 (to_le_bytes (rc :: u32) @ to_le_bytes (pl :: u32) @ rest) = Inr (to_le_bytes rc @ to_le_bytes pl, rest)"
  using read_exact_append[of "to_le_bytes rc @ to_le_bytes pl" 8 rest] by simp

text \<open>A reader that holds a complete frame returns its rows and the bytes behind it.\<close>

lemma read_complete_frame:
  assumes "batch_new crc rows = Inr b" and "length (frame_bytes b) \<le> remaining"
  shows "read_entry_with_limit crc json (frame_bytes b @ rest) remaining None =
    Inr (Some (rows, length (frame_bytes b)), rest)"
proof -
  have b: "length (eb_serialized b) = unat (eb_payload_len b)" "eb_checksum b = crc (eb_serialized b)"
    using assms(1) by (simp_all add: batch_new_iff)
  have room: "\<not> remaining < 8" "\<not> remaining - 8 < unat (eb_payload_len b)"
    "min (remaining - 8 - unat (eb_payload_len b)) 4 = 4"
    using assms(2) b(1) by (simp_all add: length_frame_bytes)
  show ?thesis
    using b room decode_own_batch[OF assms(1)]
    by (simp add: read_entry_with_limit_def Let_def frame_bytes_def read_exact_frame_header)
qed

text \<open>A torn frame is either ignored or reported; it never yields rows.\<close>

lemma read_torn_frame:
  assumes "batch_new crc rows = Inr b" and "k < length (frame_bytes b)"
  shows "read_entry_with_limit crc json (take k (frame_bytes b)) k None =
    (if k < 8 \<or> length (frame_bytes b) - 4 \<le> k then Inr (None, [])
     else Inl (InvalidData ''payload length exceeds remaining WAL bytes; preserve the WAL for inspection''))"
proof -
  have b: "length (eb_serialized b) = unat (eb_payload_len b)" "eb_checksum b = crc (eb_serialized b)"
    using assms(1) by (simp_all add: batch_new_iff)
  have "k < 8 \<or> (8 \<le> k \<and> k < 8 + length (eb_serialized b))
      \<or> (k = 8 + length (eb_serialized b) + (k - 8 - length (eb_serialized b)) \<and> k - 8 - length (eb_serialized b) < 4)"
    using assms(2) unfolding length_frame_bytes by linarith
  then consider "k < 8" | "8 \<le> k" "k < 8 + length (eb_serialized b)"
    | j where "k = 8 + length (eb_serialized b) + j" "j < 4" by blast
  then show ?thesis
  proof cases
    case 1
    then show ?thesis using assms(2) by (simp add: read_entry_with_limit_def read_exact_def)
  next
    case 2
    then have "k - 8 < unat (eb_payload_len b)" using b(1) by simp
    then show ?thesis using 2 b(1)
      by (simp add: read_entry_with_limit_def Let_def frame_bytes_def read_exact_frame_header length_frame_bytes)
  next
    case 3
    then have "take k (frame_bytes b) = to_le_bytes (eb_row_count b) @ to_le_bytes (eb_payload_len b)
        @ eb_serialized b @ take j (to_le_bytes (eb_checksum b))"
      by (simp add: frame_bytes_def)
    moreover have "read_exact j (take j (to_le_bytes (eb_checksum b))) = Inr (take j (to_le_bytes (eb_checksum b)), [])"
      using 3 by (simp add: read_exact_def)
    ultimately show ?thesis using 3 b decode_own_batch[OF assms(1)]
      by (simp add: read_entry_with_limit_def Let_def read_exact_frame_header length_frame_bytes)
  qed
qed

text \<open>Appending batches one after the other.\<close>

fun wal_append_all :: "crc32 \<Rightarrow> wal_file \<Rightarrow> log_row list list \<Rightarrow> wal_file res" where
  "wal_append_all crc file [] = Inr file"
| "wal_append_all crc file (rows # batches) =
     bind_res (wal_append crc file rows) (\<lambda>file. wal_append_all crc file batches)"

definition file_bytes :: "wal_file \<Rightarrow> bytes" where
  "file_bytes file = (case file of None \<Rightarrow> [] | Some bytes \<Rightarrow> bytes)"

lemma wal_append_Inr_iff:
  "wal_append crc file rows = Inr file' \<longleftrightarrow>
     (\<exists>b. batch_new crc rows = Inr b \<and> file' = Some (file_bytes file @ frame_bytes b))"
  by (auto simp: wal_append_def wal_append_encoded_def bind_res_Inr_iff file_bytes_def)

lemma wal_append_all_frames:
  "wal_append_all crc wal batches = Inr wal' \<Longrightarrow>
     \<exists>bs. list_all2 (\<lambda>rows b. batch_new crc rows = Inr b) batches bs
        \<and> file_bytes wal' = file_bytes wal @ concat (map frame_bytes bs)"
proof (induction batches arbitrary: wal)
  case (Cons rows batches)
  from Cons.prems obtain b mid where b: "batch_new crc rows = Inr b" and mid: "mid = Some (file_bytes wal @ frame_bytes b)"
    and rest: "wal_append_all crc mid batches = Inr wal'"
    by (auto simp: bind_res_Inr_iff wal_append_Inr_iff)
  from Cons.IH[OF rest] obtain bs where "list_all2 (\<lambda>rows b. batch_new crc rows = Inr b) batches bs"
    "file_bytes wal' = file_bytes mid @ concat (map frame_bytes bs)" by blast
  then show ?case using b mid by (intro exI[of _ "b # bs"]) (simp add: file_bytes_def)
qed simp

text \<open>The loop consumes complete frames and keeps their rows.\<close>

lemma read_complete_frames:
  assumes "list_all2 (\<lambda>rows b. batch_new crc rows = Inr b) batches bs"
    and "offset + length (concat (map frame_bytes bs)) \<le> file_len"
  shows "read_entries_loop crc json None file_len (concat (map frame_bytes bs) @ rest) offset acc =
    read_entries_loop crc json None file_len rest (offset + length (concat (map frame_bytes bs))) (acc @ concat batches)"
  using assms
proof (induction batches bs arbitrary: offset acc rule: list_all2_induct)
  case (Cons rows batches b bs)
  have "length (frame_bytes b) \<le> file_len - offset" and "offset < file_len"
    using Cons.prems by (simp_all add: length_frame_bytes)
  note step = read_complete_frame[OF Cons.hyps(1) this(1)] this(2)
  have "read_entries_loop crc json None file_len (concat (map frame_bytes (b # bs)) @ rest) offset acc =
      read_entries_loop crc json None file_len (concat (map frame_bytes bs) @ rest) (offset + length (frame_bytes b)) (acc @ rows)"
    by (subst read_entries_loop.simps) (simp add: step)
  then show ?case using Cons by (simp add: add.assoc)
qed simp

lemma read_torn_log:
  assumes frames: "list_all2 (\<lambda>rows b. batch_new crc rows = Inr b) batches bs"
    and b: "batch_new crc rows = Inr b"
    and torn: "torn = concat (map frame_bytes bs) @ take k (frame_bytes b)"
  shows "read_entries crc json torn (length torn) =
    (if length (frame_bytes b) \<le> k then Inr (concat batches @ rows)
     else if k < 8 \<or> length (frame_bytes b) - 4 \<le> k then Inr (concat batches)
     else Inl (InvalidData (''entry at byte '' @ show_nat (length (concat (map frame_bytes bs))) @ '': ''
            @ ''payload length exceeds remaining WAL bytes; preserve the WAL for inspection'')))"
proof -
  let ?off = "length (concat (map frame_bytes bs))"
  have loop: "read_entries_loop crc json None (length torn) torn 0 [] =
      read_entries_loop crc json None (length torn) (take k (frame_bytes b)) ?off (concat batches)"
    unfolding torn by (subst read_complete_frames[OF frames]) simp_all
  show ?thesis
  proof (cases "length (frame_bytes b) \<le> k")
    case True
    then have "torn = concat (map frame_bytes (bs @ [b]))" and "take k (frame_bytes b) = frame_bytes b @ []"
      by (simp_all add: torn)
    then show ?thesis using True read_complete_frame[OF b order_refl, of json "[]"] loop
      by (simp add: read_entries_def read_entries_with_limit_def read_entries_loop.simps[of crc json None _ "frame_bytes b"]
          read_entries_loop.simps[of crc json None _ "[]"] length_frame_bytes)
  next
    case False
    then have "length torn - ?off = k" "k = 0 \<or> ?off < length torn" by (auto simp: torn)
    then show ?thesis using False read_torn_frame[OF b, of k json] loop
      by (auto simp: read_entries_def read_entries_with_limit_def
          read_entries_loop.simps[of crc json None _ "take k (frame_bytes b)"] torn)
  qed
qed

text \<open>
  The checksum of a checkpoint is that of one payload: feeding the row bytes of
  each batch behind one header gives what \<^const>\<open>encode_rows\<close> writes for all rows.
\<close>

fun checksum_batches :: "bytes \<Rightarrow> encoded_batch list \<Rightarrow> bytes res" where
  "checksum_batches checksum [] = Inr checksum"
| "checksum_batches checksum (b # bs) =
     bind_res (extend_checkpoint_checksum b checksum) (\<lambda>checksum. checksum_batches checksum bs)"

lemma checksum_batches_rows:
  assumes "list_all2 (\<lambda>rows b. batch_new crc rows = Inr b) batches bs"
  shows "checksum_batches checksum bs = Inr (checksum @ concat (map wal_row_bytes (concat batches)))"
  using assms
proof (induction batches bs arbitrary: checksum rule: list_all2_induct)
  case (Cons rows batches b bs)
  have "eb_serialized b = WAL_BINARY_MAGIC @ to_le_bytes WAL_BINARY_VERSION @ concat (map wal_row_bytes rows)"
    using Cons.hyps(1) by (simp add: batch_new_iff encode_rows_iff)
  then show ?case using Cons.IH
    by (simp add: extend_checkpoint_checksum_def WAL_BINARY_MAGIC_def)
qed simp

lemma checkpoint_checksum_single_payload:
  assumes "list_all2 (\<lambda>rows b. batch_new crc rows = Inr b) batches bs"
    and "encode_rows (concat batches) = Inr data"
  shows "checksum_batches checkpoint_checksum bs = Inr data"
  using checksum_batches_rows[OF assms(1)] assms(2) by (simp add: checkpoint_checksum_def encode_rows_iff)

text \<open>
  C5. Recovery after a crash during an append: whatever prefix of the new frame
  reached the file, reading it back gives every row of the earlier batches, the
  rows of the new batch only when its frame is complete, and otherwise the rows of
  the earlier batches alone or the error that asks to preserve the log; a frame is
  never replayed in part.
\<close>

theorem wal_crash_recovery:
  assumes "wal_append_all crc None batches = Inr wal"
    and "wal_append crc wal rows = Inr (Some full)"
    and "length (file_bytes wal) \<le> k"
  shows "wal_read_all crc json path (Some (take k full)) (take k full) =
    (if length full \<le> k then Inr (concat batches @ rows)
     else if k < length (file_bytes wal) + 8 \<or> length full - 4 \<le> k then Inr (concat batches)
     else Inl (InvalidData (''cannot recover WAL '' @ path @ '': '' @ ''entry at byte '' @ show_nat (length (file_bytes wal))
       @ '': '' @ ''payload length exceeds remaining WAL bytes; preserve the WAL for inspection'')))"
proof -
  obtain bs where bs: "list_all2 (\<lambda>rows b. batch_new crc rows = Inr b) batches bs"
    and wal: "file_bytes wal = concat (map frame_bytes bs)"
    using wal_append_all_frames[OF assms(1)] by (auto simp: file_bytes_def)
  obtain b where b: "batch_new crc rows = Inr b" and full: "full = file_bytes wal @ frame_bytes b"
    using assms(2) by (auto simp: wal_append_Inr_iff)
  obtain j where k: "k = length (file_bytes wal) + j" using assms(3) le_Suc_ex by blast
  have "take k full = concat (map frame_bytes bs) @ take j (frame_bytes b)" by (simp add: full k wal)
  note torn = read_torn_log[OF bs b this, of json]
  have "4 \<le> length (frame_bytes b)" by (simp add: length_frame_bytes)
  then show ?thesis unfolding wal_read_all_def option.case torn
    by (auto simp: full k wal)
qed

section \<open>Witnesses\<close>

definition sample_row :: log_row where
  "sample_row = \<lparr>lr_block_number = 7, lr_block_hash = 1, lr_timestamp = 2, lr_tx_hash = 3, lr_tx_index = 4,
     lr_log_index = 5, lr_address = 6, lr_topic0 = Some 8, lr_topic1 = None, lr_topic2 = None, lr_topic3 = None,
     lr_data = [1, 2], lr_data_len = 2, lr_source = Trace\<rparr>"

definition sample_payload :: bytes where
  "sample_payload = WAL_BINARY_MAGIC @ to_le_bytes WAL_BINARY_VERSION @ wal_row_bytes sample_row"

definition sample_crc :: crc32 where
  "sample_crc bs = of_nat (sum_list (map unat bs))"

definition sample_batch :: encoded_batch where
  "sample_batch = \<lparr>eb_serialized = sample_payload, eb_row_count = 1, eb_payload_len = 160,
     eb_checksum = sample_crc sample_payload\<rparr>"

lemma length_sample_payload: "length sample_payload = 160"
  by (simp add: sample_payload_def length_wal_row_bytes row_payload_len_def topic_presence_mask_eq count_topic_mask
      WAL_MIN_ROW_BYTES_def WAL_BINARY_MAGIC_def) (simp add: sample_row_def)

lemma encode_sample: "encode_rows [sample_row] = Inr sample_payload"
  unfolding encode_rows_iff length_sample_payload
  by (simp add: sample_payload_def sized_row_def sample_row_def)

lemma batch_sample: "batch_new sample_crc [sample_row] = Inr sample_batch"
  by (simp add: batch_new_iff sample_batch_def encode_sample length_sample_payload)

theorem wal_payload_canonical_witness:
  "decode_rows (\<lambda>_. Inl ''json'') sample_payload 1 = Inr [sample_row]
     \<and> decode_rows (\<lambda>_. Inr [sample_row]) [91, 93] 1 = Inr [sample_row]"
  using wal_payload_canonical[of sample_payload "\<lambda>_. Inl ''json''" 1 "[sample_row]"] length_sample_payload encode_sample
    wal_payload_canonical[of "[91, 93]" "\<lambda>_. Inr [sample_row]" 1 "[sample_row]"]
  by (simp add: sample_payload_def WAL_BINARY_MAGIC_def sized_row_def sample_row_def)

theorem wal_crash_recovery_witness:
  "wal_read_all sample_crc (\<lambda>_. Inl ''json'') ''wal'' (Some (take 179 (frame_bytes sample_batch @ frame_bytes sample_batch)))
     (take 179 (frame_bytes sample_batch @ frame_bytes sample_batch)) = Inr [sample_row]
   \<and> wal_read_all sample_crc (\<lambda>_. Inl ''json'') ''wal'' (Some (take 343 (frame_bytes sample_batch @ frame_bytes sample_batch)))
     (take 343 (frame_bytes sample_batch @ frame_bytes sample_batch)) = Inr [sample_row]
   \<and> wal_read_all sample_crc (\<lambda>_. Inl ''json'') ''wal'' (Some (take 344 (frame_bytes sample_batch @ frame_bytes sample_batch)))
     (take 344 (frame_bytes sample_batch @ frame_bytes sample_batch)) = Inr [sample_row, sample_row]"
proof -
  have "wal_append_all sample_crc None [[sample_row]] = Inr (Some (frame_bytes sample_batch))"
    "wal_append sample_crc (Some (frame_bytes sample_batch)) [sample_row] =
       Inr (Some (frame_bytes sample_batch @ frame_bytes sample_batch))"
    by (simp_all add: wal_append_def wal_append_encoded_def batch_sample)
  note recovery = wal_crash_recovery[OF this]
  have "length (frame_bytes sample_batch) = 172"
    by (simp add: length_frame_bytes sample_batch_def length_sample_payload)
  then show ?thesis
    using recovery[of 179 "\<lambda>_. Inl ''json''" "''wal''"] recovery[of 343 "\<lambda>_. Inl ''json''" "''wal''"]
      recovery[of 344 "\<lambda>_. Inl ''json''" "''wal''"]
    by (simp add: file_bytes_def)
qed

end
