(* ===== verification/Roaring_Array.thy ===== *)
theory Roaring_Array
  imports Prelude
begin

text \<open>
  The array stores of the vendored Roaring bitmaps,
  \<^verbatim>\<open>src/vendor/roaring/src/bitmap/store/array_store/{mod,scalar}.rs\<close>, as built by
  the repository: the standard library feature without SIMD, in release mode
  (debug assertions off).  An array store is a strictly sorted vector of \<^verbatim>\<open>u16\<close>.
  Every operation keeps the vector sorted and is the set operation on its
  elements; the bit-level helpers of the bitmap stores come first.
\<close>

section \<open>Bits of a word\<close>

type_synonym u16 = "16 word"

definition bit_positions :: "'a::len word \<Rightarrow> nat list" where
  "bit_positions w = filter (bit w) [0..<LENGTH('a)]"

text \<open>\<^verbatim>\<open>count_ones\<close> and \<^verbatim>\<open>trailing_zeros\<close>.\<close>

definition pop_count :: "'a::len word \<Rightarrow> nat" where
  "pop_count w = length (bit_positions w)"

definition ctz :: "'a::len word \<Rightarrow> nat" where
  "ctz w = length (takeWhile (\<lambda>n. \<not> bit w n) [0..<LENGTH('a)])"

lemma set_bit_positions: "set (bit_positions w) = {n. bit w n}"
  by (auto simp: bit_positions_def dest: bit_imp_possible_bit)

lemma sorted_bit_positions: "sorted_wrt (<) (bit_positions w)"
  by (simp add: bit_positions_def sorted_wrt_filter)

lemma strict_sorted_unique:
  fixes xs ys :: "'a::linorder list"
  assumes "sorted_wrt (<) xs" and "sorted_wrt (<) ys" and "set xs = set ys"
  shows "xs = ys"
  using assms by (simp add: strict_sorted_equal)

lemma pop_count_card: "pop_count w = card {n. bit w n}"
proof -
  have "distinct (bit_positions w)" by (simp add: bit_positions_def)
  then show ?thesis using distinct_card[of "bit_positions w"] by (simp add: pop_count_def set_bit_positions)
qed

lemma pop_count_le: "pop_count (w :: 'a::len word) \<le> LENGTH('a)"
  unfolding pop_count_def bit_positions_def by (metis length_filter_le length_upt minus_nat.diff_0)

lemma ctz_bit:
  assumes "w \<noteq> 0"
  shows "bit w (ctz w)" and "n < ctz w \<Longrightarrow> \<not> bit w n"
proof -
  have "\<exists>n. bit w n" using assms by (metis bit_0_eq bit_eq_iff bot_apply bot_bool_def)
  then obtain k where k: "bit w k" "k < LENGTH('a)" by (meson bit_imp_le_length)
  let ?xs = "[0..<LENGTH('a)]"
  have "length (takeWhile (\<lambda>n. \<not> bit w n) ?xs) < length ?xs"
  proof (rule ccontr)
    assume "\<not> ?thesis"
    then have "takeWhile (\<lambda>n. \<not> bit w n) ?xs = ?xs"
      by (metis takeWhile_dropWhile_id length_append length_0_conv append_Nil2 length_takeWhile_le le_antisym not_less
          add_diff_cancel_left' diff_self_eq_0)
    then show False using k by (auto simp: takeWhile_eq_all_conv)
  qed
  then have "bit w (?xs ! ctz w)" "ctz w < LENGTH('a)"
    using nth_length_takeWhile[of "\<lambda>n. \<not> bit w n" ?xs] by (simp_all add: ctz_def)
  then show "bit w (ctz w)" by simp
  show "\<not> bit w n" if "n < ctz w"
    using that nth_mem[of n "takeWhile (\<lambda>n. \<not> bit w n) ?xs"] takeWhile_nth[of n "\<lambda>n. \<not> bit w n" ?xs]
      set_takeWhileD[of n "\<lambda>n. \<not> bit w n" ?xs] \<open>ctz w < LENGTH('a)\<close>
    by (simp add: ctz_def)
qed

text \<open>\<^verbatim>\<open>w & (w - 1)\<close> clears the lowest set bit.\<close>

lemma nat_and_pred_bit:
  "0 < (n :: nat) \<Longrightarrow> (\<forall>j < k. \<not> bit n j) \<Longrightarrow> bit n k \<Longrightarrow> bit (n AND (n - 1)) i \<longleftrightarrow> bit n i \<and> i \<noteq> k"
proof (induction n arbitrary: k i rule: less_induct)
  case (less n)
  show ?case
  proof (cases "odd n")
    case True
    then have "k = 0" using less.prems by (metis bit_0 gr_zeroI)
    obtain m where n: "n = 2 * m + 1" using True by (elim oddE)
    have "bit (n AND (n - 1)) i \<longleftrightarrow> bit n i \<and> bit (2 * m) i" by (simp add: n bit_and_iff)
    also have "\<dots> \<longleftrightarrow> bit n i \<and> i \<noteq> 0" by (cases i) (auto simp: n bit_Suc bit_0)
    finally show ?thesis using \<open>k = 0\<close> by simp
  next
    case False
    then obtain m where n: "n = 2 * m" by blast
    obtain k' where k: "k = Suc k'" using less.prems False by (cases k) (auto simp: bit_0)
    have m: "0 < m" "m < n" "\<forall>j < k'. \<not> bit m j" "bit m k'"
      using less.prems n k by (auto simp: bit_Suc)
    have pred: "n - 1 = 2 * (m - 1) + 1" using n m by simp
    show ?thesis
    proof (cases i)
      case 0
      then show ?thesis using False by (simp add: bit_and_iff k) (simp add: bit_0)
    next
      case (Suc i')
      have "bit (n AND (n - 1)) i \<longleftrightarrow> bit m i' \<and> bit (m - 1) i'"
        unfolding Suc bit_and_iff[of n] unfolding bit_Suc pred by (simp add: n)
      also have "\<dots> \<longleftrightarrow> bit (m AND (m - 1)) i'" by (simp add: bit_and_iff)
      finally show ?thesis using less.IH[OF m(2,1,3,4), of i'] by (simp add: Suc k n bit_Suc)
    qed
  qed
qed

lemma clear_lowest_bit:
  assumes "(w :: 'a::len word) \<noteq> 0"
  shows "bit (w AND (w - 1)) i \<longleftrightarrow> bit w i \<and> i \<noteq> ctz w"
proof -
  have pos: "0 < unat w" using assms by (simp add: unat_gt_0)
  have pred: "unat (w - 1) = unat w - 1" using assms by (simp add: unat_minus_one)
  have "bit (unat w AND (unat w - 1)) i \<longleftrightarrow> bit (unat w) i \<and> i \<noteq> ctz w"
    by (rule nat_and_pred_bit[OF pos]) (use ctz_bit[OF assms] in \<open>auto simp: bit_unsigned_iff\<close>)
  then have "bit (unat (w AND (w - 1))) i \<longleftrightarrow> bit (unat w) i \<and> i \<noteq> ctz w"
    by (simp add: unsigned_and_eq pred)
  then show ?thesis by (simp add: bit_unsigned_iff bit_imp_possible_bit)
qed

section \<open>Searching a sorted slice\<close>

text \<open>
  \<^verbatim>\<open>slice::partition_point\<close> and \<^verbatim>\<open>slice::binary_search\<close> on a sorted slice: the
  position of the element (\<open>Inr\<close>) or the position where it belongs (\<open>Inl\<close>).
\<close>

definition partition_point :: "('a \<Rightarrow> bool) \<Rightarrow> 'a list \<Rightarrow> usize" where
  "partition_point P xs = length (takeWhile P xs)"

definition binary_search :: "'a::linorder list \<Rightarrow> 'a \<Rightarrow> usize + usize" where
  "binary_search xs x =
     (let i = partition_point (\<lambda>y. y < x) xs
      in if i < length xs \<and> xs ! i = x then Inr i else Inl i)"

text \<open>\<^verbatim>\<open>Vec::insert\<close>.\<close>

definition vec_insert :: "usize \<Rightarrow> 'a \<Rightarrow> 'a list \<Rightarrow> 'a list" where
  "vec_insert i x xs = take i xs @ x # drop i xs"

definition vec_remove :: "usize \<Rightarrow> 'a list \<Rightarrow> 'a list" where
  "vec_remove i xs = take i xs @ drop (Suc i) xs"

lemma sorted_partition:
  fixes xs :: "'a::linorder list"
  assumes "sorted_wrt (<) xs"
  shows "take (partition_point (\<lambda>y. y < x) xs) xs = filter (\<lambda>y. y < x) xs"
    and "drop (partition_point (\<lambda>y. y < x) xs) xs = filter (\<lambda>y. x \<le> y) xs"
proof -
  have tw: "takeWhile (\<lambda>y. y < x) xs = filter (\<lambda>y. y < x) xs"
    using assms
  proof (induction xs)
    case (Cons y ys)
    have "\<not> y < x \<Longrightarrow> filter (\<lambda>y. y < x) ys = []"
      using Cons.prems by (auto simp: filter_empty_conv)
    then show ?case using Cons by simp
  qed simp
  show "take (partition_point (\<lambda>y. y < x) xs) xs = filter (\<lambda>y. y < x) xs"
    unfolding partition_point_def takeWhile_eq_take[symmetric] by (rule tw)
  have "dropWhile (\<lambda>y. y < x) xs = filter (\<lambda>y. x \<le> y) xs"
    using assms
  proof (induction xs)
    case (Cons y ys)
    have "\<not> y < x \<Longrightarrow> filter (\<lambda>y. x \<le> y) ys = ys"
      using Cons.prems by (auto simp: filter_id_conv)
    then show ?case using Cons by (auto simp: not_less)
  qed simp
  then show "drop (partition_point (\<lambda>y. y < x) xs) xs = filter (\<lambda>y. x \<le> y) xs"
    by (simp add: partition_point_def dropWhile_eq_drop[symmetric])
qed

lemma binary_search_Inr:
  assumes "binary_search xs x = Inr i"
  shows "i < length xs" and "xs ! i = x"
  using assms by (auto simp: binary_search_def Let_def split: if_splits)

lemma binary_search_Inl:
  fixes xs :: "'a::linorder list"
  assumes "sorted_wrt (<) xs" and "binary_search xs x = Inl i"
  shows "x \<notin> set xs" and "take i xs = filter (\<lambda>y. y < x) xs" and "drop i xs = filter (\<lambda>y. x < y) xs"
proof -
  let ?i = "partition_point (\<lambda>y. y < x) xs"
  have i: "i = ?i" and no: "\<not> (?i < length xs \<and> xs ! ?i = x)"
    using assms(2) by (auto simp: binary_search_def Let_def split: if_splits)
  show "take i xs = filter (\<lambda>y. y < x) xs" using sorted_partition[OF assms(1)] i by simp
  have drop: "drop i xs = filter (\<lambda>y. x \<le> y) xs" using sorted_partition[OF assms(1)] i by simp
  have "x \<notin> set (drop i xs)"
  proof
    assume mem: "x \<in> set (drop i xs)"
    then have "drop i xs \<noteq> []" by auto
    then have len: "i < length xs" and split: "drop i xs = xs ! i # drop (Suc i) xs" by (auto simp: Cons_nth_drop_Suc)
    have "sorted_wrt (<) (drop i xs)" by (simp add: assms(1) sorted_wrt_drop)
    then have "\<forall>y \<in> set (drop (Suc i) xs). xs ! i < y" unfolding split by simp
    moreover have "x \<le> xs ! i" using drop split by (metis (mono_tags) filter_is_subset in_mono list.set_intros(1) mem_Collect_eq set_filter)
    ultimately show False using mem no i len unfolding split by auto
  qed
  then show "x \<notin> set xs" unfolding drop by simp
  then show "drop i xs = filter (\<lambda>y. x < y) xs" unfolding drop by (intro filter_cong) (auto simp: le_less)
qed

lemma binary_search_mem_iff:
  fixes xs :: "'a::linorder list"
  assumes "sorted_wrt (<) xs"
  shows "(\<exists>i. binary_search xs x = Inr i) \<longleftrightarrow> x \<in> set xs"
  using binary_search_Inl(1)[OF assms, of x] binary_search_Inr[of xs x]
  by (cases "binary_search xs x") (auto intro: nth_mem)

lemma sorted_around:
  fixes xs :: "'a::linorder list"
  assumes "sorted_wrt (<) xs"
  shows "sorted_wrt (<) (filter (\<lambda>y. y < x) xs @ x # filter (\<lambda>y. x < y) xs)"
  using assms by (auto simp: sorted_wrt_append sorted_wrt_filter)

lemma sorted_vec_insert:
  fixes xs :: "'a::linorder list"
  assumes "sorted_wrt (<) xs" and "binary_search xs x = Inl i"
  shows "sorted_wrt (<) (vec_insert i x xs)" and "set (vec_insert i x xs) = insert x (set xs)"
    and "length (vec_insert i x xs) = Suc (length xs)" 
proof -
  have eq: "vec_insert i x xs = filter (\<lambda>y. y < x) xs @ x # filter (\<lambda>y. x < y) xs"
    using binary_search_Inl[OF assms] by (simp add: vec_insert_def)
  show "sorted_wrt (<) (vec_insert i x xs)" unfolding eq by (rule sorted_around[OF assms(1)])
  show "set (vec_insert i x xs) = insert x (set xs)"
    using binary_search_Inl(1)[OF assms] unfolding eq by (auto simp: not_less_iff_gr_or_eq)
  show "length (vec_insert i x xs) = Suc (length xs)" by (simp add: vec_insert_def)
qed

section \<open>Array stores\<close>

type_synonym array_store = "u16 list"

text \<open>The inclusive range \<^verbatim>\<open>start..=end\<close> as the iterator yields it.\<close>

definition range_inclusive :: "u16 \<Rightarrow> u16 \<Rightarrow> u16 list" where
  "range_inclusive a b = map of_nat [unat a..<Suc (unat b)]"

definition array_insert :: "u16 \<Rightarrow> array_store \<Rightarrow> array_store \<times> bool" where
  "array_insert x vec = (case binary_search vec x of Inr _ \<Rightarrow> (vec, False) | Inl loc \<Rightarrow> (vec_insert loc x vec, True))"

definition range_positions :: "u16 \<Rightarrow> u16 \<Rightarrow> array_store \<Rightarrow> usize \<times> usize" where
  "range_positions a b vec =
     (let pos_start = (case binary_search vec a of Inr i \<Rightarrow> i | Inl i \<Rightarrow> i)
      in (pos_start, pos_start + (case binary_search (drop pos_start vec) b of Inr i \<Rightarrow> i + 1 | Inl i \<Rightarrow> i)))"

definition array_insert_range :: "u16 \<Rightarrow> u16 \<Rightarrow> array_store \<Rightarrow> array_store \<times> u64" where
  "array_insert_range a b vec =
     (let (pos_start, pos_end) = range_positions a b vec
      in (take pos_start vec @ range_inclusive a b @ drop pos_end vec,
          ucast b - ucast a + 1 - of_nat (pos_end - pos_start)))"

definition array_remove :: "u16 \<Rightarrow> array_store \<Rightarrow> array_store \<times> bool" where
  "array_remove x vec = (case binary_search vec x of Inr loc \<Rightarrow> (vec_remove loc vec, True) | Inl _ \<Rightarrow> (vec, False))"

definition array_remove_range :: "u16 \<Rightarrow> u16 \<Rightarrow> array_store \<Rightarrow> array_store \<times> u64" where
  "array_remove_range a b vec =
     (let (pos_start, pos_end) = range_positions a b vec
      in (take pos_start vec @ drop pos_end vec, of_nat (pos_end - pos_start)))"

definition array_contains :: "u16 \<Rightarrow> array_store \<Rightarrow> bool" where
  "array_contains x vec = (case binary_search vec x of Inr _ \<Rightarrow> True | Inl _ \<Rightarrow> False)"

definition array_min :: "array_store \<Rightarrow> u16 option" where
  "array_min vec = (case vec of [] \<Rightarrow> None | x # _ \<Rightarrow> Some x)"

definition array_max :: "array_store \<Rightarrow> u16 option" where
  "array_max vec = last_opt vec"

definition array_push :: "u16 \<Rightarrow> array_store \<Rightarrow> array_store \<times> bool" where
  "array_push x vec =
     (if (case array_max vec of None \<Rightarrow> True | Some m \<Rightarrow> m < x) then (vec @ [x], True) else (vec, False))"

definition array_rank :: "u16 \<Rightarrow> array_store \<Rightarrow> u64" where
  "array_rank x vec = (case binary_search vec x of Inr i \<Rightarrow> of_nat i + 1 | Inl i \<Rightarrow> of_nat i)"

fun try_from_loop :: "usize \<Rightarrow> u16 \<Rightarrow> u16 list \<Rightarrow> string option" where
  "try_from_loop i prev [] = None"
| "try_from_loop i prev (x # xs) =
     (if x < prev then Some (''An element was out of order at index: '' @ show_nat i)
      else if x = prev then Some (''Duplicate element found at index: '' @ show_nat i)
      else try_from_loop (Suc i) x xs)"

definition array_try_from :: "u16 list \<Rightarrow> string + array_store" where
  "array_try_from vec =
     (case vec of
        [] \<Rightarrow> Inr []
      | x # xs \<Rightarrow> (case try_from_loop 1 x xs of Some e \<Rightarrow> Inl e | None \<Rightarrow> Inr vec))"

text \<open>The merges of \<^verbatim>\<open>scalar.rs\<close>; the visitor collects what it is given.\<close>

fun scalar_or :: "u16 list \<Rightarrow> u16 list \<Rightarrow> u16 list" where
  "scalar_or (a # lhs) (b # rhs) =
     (if a < b then a # scalar_or lhs (b # rhs)
      else if b < a then b # scalar_or (a # lhs) rhs
      else a # scalar_or lhs rhs)"
| "scalar_or lhs rhs = lhs @ rhs"

fun scalar_and :: "u16 list \<Rightarrow> u16 list \<Rightarrow> u16 list" where
  "scalar_and (a # lhs) (b # rhs) =
     (if a < b then scalar_and lhs (b # rhs)
      else if b < a then scalar_and (a # lhs) rhs
      else a # scalar_and lhs rhs)"
| "scalar_and lhs rhs = []"

fun scalar_sub :: "u16 list \<Rightarrow> u16 list \<Rightarrow> u16 list" where
  "scalar_sub (a # lhs) (b # rhs) =
     (if a < b then a # scalar_sub lhs (b # rhs)
      else if b < a then scalar_sub (a # lhs) rhs
      else scalar_sub lhs rhs)"
| "scalar_sub lhs rhs = lhs"

text \<open>
  \<^verbatim>\<open>retain\<close> with the closures of the assigning operators: the closure's cursor
  \<open>i\<close> moves over the right operand as the elements of the left one are visited.
\<close>

definition advance_cursor :: "u16 list \<Rightarrow> usize \<Rightarrow> u16 \<Rightarrow> usize" where
  "advance_cursor rhs i x =
     i + (let p = partition_point (\<lambda>y. y < x) (drop i rhs) in if p < length (drop i rhs) then p else length rhs)"

fun and_retain :: "u16 list \<Rightarrow> usize \<Rightarrow> u16 list \<Rightarrow> u16 list" where
  "and_retain rhs i [] = []"
| "and_retain rhs i (x # xs) =
     (let i = advance_cursor rhs i x
      in if (case get rhs i of None \<Rightarrow> False | Some y \<Rightarrow> x = y) then x # and_retain rhs i xs else and_retain rhs i xs)"

fun sub_retain :: "u16 list \<Rightarrow> usize \<Rightarrow> u16 list \<Rightarrow> u16 list" where
  "sub_retain rhs i [] = []"
| "sub_retain rhs i (x # xs) =
     (let i = advance_cursor rhs i x
      in if (case get rhs i of None \<Rightarrow> True | Some y \<Rightarrow> x \<noteq> y) then x # sub_retain rhs i xs else sub_retain rhs i xs)"

subsection \<open>Array operations are set operations\<close>

lemma array_insert_correct:
  assumes "sorted_wrt (<) vec"
  shows "sorted_wrt (<) (fst (array_insert x vec))" and "set (fst (array_insert x vec)) = insert x (set vec)"
    and "snd (array_insert x vec) \<longleftrightarrow> x \<notin> set vec"
proof -
  show "sorted_wrt (<) (fst (array_insert x vec))" and "set (fst (array_insert x vec)) = insert x (set vec)"
    using assms sorted_vec_insert[OF assms, of x] binary_search_Inr[of vec x]
    by (auto simp: array_insert_def split: sum.splits)
  show "snd (array_insert x vec) \<longleftrightarrow> x \<notin> set vec"
    using binary_search_Inl(1)[OF assms, of x] binary_search_Inr[of vec x]
    by (auto simp: array_insert_def split: sum.splits)
qed

lemma array_contains_correct: "sorted_wrt (<) vec \<Longrightarrow> array_contains x vec \<longleftrightarrow> x \<in> set vec"
  using binary_search_mem_iff[of vec x] by (auto simp: array_contains_def split: sum.splits)

lemma vec_remove_filter:
  fixes xs :: "'a::linorder list"
  assumes "sorted_wrt (<) xs" and "i < length xs"
  shows "vec_remove i xs = filter (\<lambda>y. y \<noteq> xs ! i) xs"
proof -
  have split: "xs = take i xs @ xs ! i # drop (Suc i) xs" using assms(2) by (simp add: id_take_nth_drop)
  have "sorted_wrt (<) (take i xs @ xs ! i # drop (Suc i) xs)" using assms(1) split by simp
  then have "filter (\<lambda>y. y \<noteq> xs ! i) (take i xs) = take i xs"
    "filter (\<lambda>y. y \<noteq> xs ! i) (drop (Suc i) xs) = drop (Suc i) xs"
    by (auto simp: sorted_wrt_append filter_id_conv)
  then have "filter (\<lambda>y. y \<noteq> xs ! i) (take i xs @ xs ! i # drop (Suc i) xs) = vec_remove i xs"
    by (simp add: vec_remove_def)
  then show ?thesis using split by simp
qed

lemma array_remove_correct:
  assumes "sorted_wrt (<) vec"
  shows "fst (array_remove x vec) = filter (\<lambda>y. y \<noteq> x) vec" and "snd (array_remove x vec) \<longleftrightarrow> x \<in> set vec"
proof -
  have "x \<notin> set vec \<Longrightarrow> filter (\<lambda>y. y \<noteq> x) vec = vec" by (auto simp: filter_id_conv)
  then show "fst (array_remove x vec) = filter (\<lambda>y. y \<noteq> x) vec"
    using vec_remove_filter[OF assms] binary_search_Inr[of vec x] binary_search_Inl(1)[OF assms, of x]
    by (auto simp: array_remove_def split: sum.splits)
  show "snd (array_remove x vec) \<longleftrightarrow> x \<in> set vec"
    using binary_search_Inl(1)[OF assms, of x] binary_search_Inr[of vec x]
    by (auto simp: array_remove_def split: sum.splits)
qed

lemma binary_search_pos:
  assumes "sorted_wrt (<) vec"
  shows "(case binary_search vec a of Inr i \<Rightarrow> i | Inl i \<Rightarrow> i) = partition_point (\<lambda>y. y < a) vec"
  by (auto simp: binary_search_def Let_def)

lemma binary_search_end:
  fixes vec :: "'a::linorder list"
  assumes "sorted_wrt (<) vec"
  shows "drop (case binary_search vec b of Inr i \<Rightarrow> i + 1 | Inl i \<Rightarrow> i) vec = filter (\<lambda>y. b < y) vec"
proof (cases "binary_search vec b")
  case (Inl i)
  then show ?thesis using binary_search_Inl(3)[OF assms Inl] by simp
next
  case (Inr i)
  then have i: "i < length vec" "vec ! i = b" and pp: "i = partition_point (\<lambda>y. y < b) vec"
    using binary_search_Inr[OF Inr] Inr by (auto simp: binary_search_def Let_def split: if_splits)
  have ge: "drop i vec = filter (\<lambda>y. b \<le> y) vec" using sorted_partition(2)[OF assms] pp by simp
  have "drop i vec = b # drop (Suc i) vec" using i by (metis Cons_nth_drop_Suc)
  moreover have "sorted_wrt (<) (drop i vec)" by (simp add: assms sorted_wrt_drop)
  ultimately have "\<forall>y \<in> set (drop (Suc i) vec). b < y" by simp
  then have "drop (Suc i) vec = filter (\<lambda>y. b < y) (drop i vec)"
    using \<open>drop i vec = b # drop (Suc i) vec\<close> by (simp add: filter_id_conv)
  also have "\<dots> = filter (\<lambda>y. b < y) vec" unfolding ge by (auto intro: filter_cong)
  finally show ?thesis using Inr by simp
qed

lemma binary_search_end_le: "(case binary_search vec b of Inr i \<Rightarrow> i + 1 | Inl i \<Rightarrow> i) \<le> length vec"
proof (cases "binary_search vec b")
  case (Inl i)
  then show ?thesis
    by (auto simp: binary_search_def Let_def partition_point_def length_takeWhile_le split: if_splits)
next
  case (Inr i)
  then show ?thesis using binary_search_Inr(1)[OF Inr] by simp
qed

lemma range_positions_correct:
  assumes "sorted_wrt (<) vec" and "a \<le> b" and "range_positions a b vec = (i, j)"
  shows "take i vec = filter (\<lambda>y. y < a) vec" and "drop j vec = filter (\<lambda>y. b < y) vec"
    and "j - i = length (filter (\<lambda>y. a \<le> y \<and> y \<le> b) vec)" and "i \<le> j" and "j \<le> length vec"
proof -
  have i: "i = partition_point (\<lambda>y. y < a) vec"
    and j: "j = i + (case binary_search (drop i vec) b of Inr i \<Rightarrow> i + 1 | Inl i \<Rightarrow> i)"
    using assms(3) binary_search_pos[OF assms(1)] by (auto simp: range_positions_def Let_def)
  show take: "take i vec = filter (\<lambda>y. y < a) vec" using sorted_partition(1)[OF assms(1)] i by simp
  have ge: "drop i vec = filter (\<lambda>y. a \<le> y) vec" using sorted_partition(2)[OF assms(1)] i by simp
  have s: "sorted_wrt (<) (drop i vec)" by (simp add: assms(1) sorted_wrt_drop)
  have "drop j vec = filter (\<lambda>y. b < y) (drop i vec)"
    using binary_search_end[OF s, of b] unfolding j by (simp add: add.commute)
  also have "\<dots> = filter (\<lambda>y. b < y) vec" unfolding ge using assms(2) by (auto intro: filter_cong)
  finally show drop: "drop j vec = filter (\<lambda>y. b < y) vec" .
  show "i \<le> j" by (simp add: j)
  have "(case binary_search (drop i vec) b of Inr i \<Rightarrow> i + 1 | Inl i \<Rightarrow> i) \<le> length (drop i vec)"
    by (rule binary_search_end_le)
  moreover have "i \<le> length vec" by (simp add: i partition_point_def length_takeWhile_le)
  ultimately show le: "j \<le> length vec" by (simp add: j)
  have "length vec = length (filter (\<lambda>y. y < a) vec) + length (filter (\<lambda>y. a \<le> y) vec)"
    using sum_length_filter_compl[of "\<lambda>y. y < a" vec] by (simp add: not_less)
  moreover have "length (filter (\<lambda>y. a \<le> y) vec) =
      length (filter (\<lambda>y. a \<le> y \<and> y \<le> b) vec) + length (filter (\<lambda>y. b < y) vec)"
    using assms(2) by (induction vec) auto
  moreover have "length (take i vec) = i" "length (drop j vec) = length vec - j" using \<open>i \<le> length vec\<close> by simp_all
  ultimately show "j - i = length (filter (\<lambda>y. a \<le> y \<and> y \<le> b) vec)"
    using le unfolding take drop by linarith
qed

lemma set_range_inclusive: "set (range_inclusive a b) = {a..b}"
proof -
  have "x \<in> set (range_inclusive a b) \<longleftrightarrow> unat a \<le> unat x \<and> unat x \<le> unat b" for x
  proof
    assume "x \<in> set (range_inclusive a b)"
    then obtain n where n: "x = of_nat n" "unat a \<le> n" "n \<le> unat b" by (auto simp: range_inclusive_def)
    then have "n < 2 ^ 16" using unsigned_less[of b, where ?'a = nat] by simp
    then show "unat a \<le> unat x \<and> unat x \<le> unat b" using n by (simp add: unat_of_nat_less)
  next
    assume "unat a \<le> unat x \<and> unat x \<le> unat b"
    then have "unat x \<in> set [unat a..<Suc (unat b)]" by (simp add: less_Suc_eq_le del: upt_Suc)
    then have "of_nat (unat x) \<in> set (range_inclusive a b)" unfolding range_inclusive_def set_map by (rule imageI)
    then show "x \<in> set (range_inclusive a b)" by simp
  qed
  then show ?thesis by (intro set_eqI) (simp only: word_le_nat_alt atLeastAtMost_iff)
qed

lemma sorted_range_inclusive: "sorted_wrt (<) (range_inclusive a b)"
  unfolding range_inclusive_def sorted_wrt_map
proof (rule sorted_wrt_mono_rel[of _ "(<)"])
  have "unat b < 2 ^ 16" using unsigned_less[of b, where ?'a = nat] by simp
  then show "(of_nat x :: u16) < of_nat y"
    if "x \<in> set [unat a..<Suc (unat b)]" and "y \<in> set [unat a..<Suc (unat b)]" and "x < y" for x y
    using that by (simp add: word_less_nat_alt unat_of_nat_less less_Suc_eq_le del: upt_Suc)
qed (rule sorted_wrt_upt)

lemma array_insert_range_correct:
  assumes "sorted_wrt (<) vec" and "a \<le> b"
  shows "sorted_wrt (<) (fst (array_insert_range a b vec))" and "set (fst (array_insert_range a b vec)) = {a..b} \<union> set vec"
proof -
  obtain i j where ij: "range_positions a b vec = (i, j)" by fastforce
  have eq: "fst (array_insert_range a b vec) =
      filter (\<lambda>y. y < a) vec @ range_inclusive a b @ filter (\<lambda>y. b < y) vec"
    using range_positions_correct[OF assms ij] by (simp add: array_insert_range_def ij)
  have "\<And>x y. \<lbrakk>x < a; b < y\<rbrakk> \<Longrightarrow> x < y" using assms(2) by (meson less_trans order.strict_trans1)
  then show "sorted_wrt (<) (fst (array_insert_range a b vec))" unfolding eq
    using assms by (auto simp: sorted_wrt_append sorted_wrt_filter sorted_range_inclusive set_range_inclusive
        intro: less_le_trans le_less_trans)
  show "set (fst (array_insert_range a b vec)) = {a..b} \<union> set vec" unfolding eq
    by (auto simp: set_range_inclusive not_less)
qed

lemma array_remove_range_correct:
  assumes "sorted_wrt (<) vec" and "a \<le> b"
  shows "fst (array_remove_range a b vec) = filter (\<lambda>y. \<not> (a \<le> y \<and> y \<le> b)) vec"
proof -
  obtain i j where ij: "range_positions a b vec = (i, j)" by fastforce
  have eq: "fst (array_remove_range a b vec) = filter (\<lambda>y. y < a) vec @ filter (\<lambda>y. b < y) vec"
    using range_positions_correct[OF assms ij] by (simp add: array_remove_range_def ij)
  have "\<And>x y. \<lbrakk>x < a; b < y\<rbrakk> \<Longrightarrow> x < y" using assms(2) by (meson less_trans order.strict_trans1)
  then have "sorted_wrt (<) (filter (\<lambda>y. y < a) vec @ filter (\<lambda>y. b < y) vec)"
    using assms(1) by (auto simp: sorted_wrt_append sorted_wrt_filter)
  then show ?thesis unfolding eq
    by (rule strict_sorted_unique) (use assms in \<open>auto simp: sorted_wrt_filter not_le intro: leI\<close>)
qed

lemma try_from_loop_iff: "try_from_loop i prev xs = None \<longleftrightarrow> sorted_wrt (<) (prev # xs)"
  by (induction i prev xs rule: try_from_loop.induct) (auto simp: not_less less_le intro: less_trans)

lemma array_try_from_iff: "array_try_from vec = Inr vec' \<longleftrightarrow> vec' = vec \<and> sorted_wrt (<) vec"
proof (cases vec)
  case (Cons x xs)
  then show ?thesis using try_from_loop_iff[of 1 x xs] by (auto simp: array_try_from_def split: option.splits)
qed (auto simp: array_try_from_def)

lemma scalar_or_set: "set (scalar_or lhs rhs) = set lhs \<union> set rhs"
  by (induction lhs rhs rule: scalar_or.induct) auto

lemma scalar_or_sorted: "sorted_wrt (<) lhs \<Longrightarrow> sorted_wrt (<) rhs \<Longrightarrow> sorted_wrt (<) (scalar_or lhs rhs)"
  by (induction lhs rhs rule: scalar_or.induct) (auto simp: scalar_or_set not_less le_less intro: less_trans)

lemma scalar_and_correct:
  "sorted_wrt (<) lhs \<Longrightarrow> sorted_wrt (<) rhs \<Longrightarrow> scalar_and lhs rhs = filter (\<lambda>x. x \<in> set rhs) lhs"
proof (induction lhs rhs rule: scalar_and.induct)
  case (1 a lhs b rhs)
  consider "a < b" | "b < a" | "a = b" by (meson linorder_cases)
  then show ?case
  proof cases
    case 1
    then have "a \<notin> set (b # rhs)" using \<open>sorted_wrt (<) (b # rhs)\<close> by auto
    then show ?thesis using 1 "1.IH" "1.prems" by simp
  next
    case 2
    then have "\<not> a < b" by auto
    moreover have "filter (\<lambda>x. x \<in> set (b # rhs)) (a # lhs) = filter (\<lambda>x. x \<in> set rhs) (a # lhs)"
      using 2 \<open>sorted_wrt (<) (a # lhs)\<close> by (intro filter_cong) auto
    ultimately show ?thesis using 2 "1.IH" "1.prems" by simp
  next
    case 3
    then have "filter (\<lambda>x. x \<in> set (b # rhs)) lhs = filter (\<lambda>x. x \<in> set rhs) lhs"
      using \<open>sorted_wrt (<) (a # lhs)\<close> by (intro filter_cong) auto
    then show ?thesis using 3 "1.IH" "1.prems" by simp
  qed
qed simp_all

lemma scalar_sub_correct:
  "sorted_wrt (<) lhs \<Longrightarrow> sorted_wrt (<) rhs \<Longrightarrow> scalar_sub lhs rhs = filter (\<lambda>x. x \<notin> set rhs) lhs"
proof (induction lhs rhs rule: scalar_sub.induct)
  case (1 a lhs b rhs)
  consider "a < b" | "b < a" | "a = b" by (meson linorder_cases)
  then show ?case
  proof cases
    case 1
    then have "a \<notin> set (b # rhs)" using \<open>sorted_wrt (<) (b # rhs)\<close> by auto
    then show ?thesis using 1 "1.IH" "1.prems" by simp
  next
    case 2
    then have "\<not> a < b" by auto
    moreover have "filter (\<lambda>x. x \<notin> set (b # rhs)) (a # lhs) = filter (\<lambda>x. x \<notin> set rhs) (a # lhs)"
      using 2 \<open>sorted_wrt (<) (a # lhs)\<close> by (intro filter_cong) auto
    ultimately show ?thesis using 2 "1.IH" "1.prems" by simp
  next
    case 3
    then have "filter (\<lambda>x. x \<notin> set (b # rhs)) lhs = filter (\<lambda>x. x \<notin> set rhs) lhs"
      using \<open>sorted_wrt (<) (a # lhs)\<close> by (intro filter_cong) auto
    then show ?thesis using 3 "1.IH" "1.prems" by simp
  qed
qed simp_all

lemma advance_cursor_correct:
  assumes "sorted_wrt (<) rhs" and before: "\<forall>y \<in> set (take i rhs). y < x"
  shows "\<forall>y \<in> set (take (advance_cursor rhs i x) rhs). y < x"
    and "get rhs (advance_cursor rhs i x) = Some x \<longleftrightarrow> x \<in> set rhs"
proof -
  let ?p = "partition_point (\<lambda>y. y < x) (drop i rhs)"
  have s: "sorted_wrt (<) (drop i rhs)" by (simp add: assms(1) sorted_wrt_drop)
  have skipped: "\<forall>y \<in> set (take ?p (drop i rhs)). y < x" using sorted_partition(1)[OF s] by simp
  have left: "drop ?p (drop i rhs) = filter (\<lambda>y. x \<le> y) (drop i rhs)" using sorted_partition(2)[OF s] by simp
  have small: "\<forall>y \<in> set (take (i + ?p) rhs). y < x" using before skipped unfolding take_add set_append by blast
  have "set rhs = set (take (i + ?p) rhs) \<union> set (drop (i + ?p) rhs)"
    using append_take_drop_id[of "i + ?p" rhs] by (metis set_append)
  then have mem: "x \<in> set rhs \<longleftrightarrow> x \<in> set (drop (i + ?p) rhs)" using small by blast
  show "get rhs (advance_cursor rhs i x) = Some x \<longleftrightarrow> x \<in> set rhs"
  proof (cases "?p < length (drop i rhs)")
    case True
    then have adv: "advance_cursor rhs i x = i + ?p" and lt: "i + ?p < length rhs" by (auto simp: advance_cursor_def)
    have split: "drop (i + ?p) rhs = rhs ! (i + ?p) # drop (Suc (i + ?p)) rhs" using lt by (simp add: Cons_nth_drop_Suc)
    have "sorted_wrt (<) (drop (i + ?p) rhs)" by (simp add: assms(1) sorted_wrt_drop)
    then have later: "\<forall>y \<in> set (drop (Suc (i + ?p)) rhs). rhs ! (i + ?p) < y" unfolding split by simp
    have "drop (i + ?p) rhs = filter (\<lambda>y. x \<le> y) (drop i rhs)" using left by (simp add: add.commute)
    then have "rhs ! (i + ?p) \<in> set (filter (\<lambda>y. x \<le> y) (drop i rhs))" unfolding split by (metis list.set_intros(1))
    then have "x \<le> rhs ! (i + ?p)" by simp
    then have "x \<in> set rhs \<longleftrightarrow> rhs ! (i + ?p) = x" unfolding mem split using later by auto
    then show ?thesis using lt by (simp add: adv get_def)
  next
    case False
    then have "drop (i + ?p) rhs = []" by auto
    moreover have "get rhs (advance_cursor rhs i x) = None" using False by (simp add: advance_cursor_def get_def)
    ultimately show ?thesis by (simp add: mem)
  qed
  show "\<forall>y \<in> set (take (advance_cursor rhs i x) rhs). y < x"
  proof (cases "?p < length (drop i rhs)")
    case True
    then have "advance_cursor rhs i x = i + ?p" by (simp add: advance_cursor_def)
    then show ?thesis using small by metis
  next
    case False
    then have "length rhs \<le> advance_cursor rhs i x" "length rhs \<le> i + ?p" by (auto simp: advance_cursor_def)
    then have "take (advance_cursor rhs i x) rhs = take (i + ?p) rhs" by (metis take_all)
    then show ?thesis using small by metis
  qed
qed

lemma retain_step:
  assumes "sorted_wrt (<) rhs" and "\<forall>y \<in> set (take i rhs). y < x" and "sorted_wrt (<) (x # xs)"
  shows "\<forall>z \<in> set xs. \<forall>y \<in> set (take (advance_cursor rhs i x) rhs). y < z"
  using advance_cursor_correct(1)[OF assms(1,2)] assms(3) by (auto intro: less_trans)

lemma and_retain_correct:
  "sorted_wrt (<) rhs \<Longrightarrow> sorted_wrt (<) xs \<Longrightarrow> \<forall>x \<in> set xs. \<forall>y \<in> set (take i rhs). y < x \<Longrightarrow>
     and_retain rhs i xs = filter (\<lambda>x. x \<in> set rhs) xs"
proof (induction xs arbitrary: i)
  case (Cons x xs)
  have before: "\<forall>y \<in> set (take i rhs). y < x" using Cons.prems(3) by simp
  have "and_retain rhs (advance_cursor rhs i x) xs = filter (\<lambda>x. x \<in> set rhs) xs"
    using Cons.IH Cons.prems retain_step[OF Cons.prems(1) before Cons.prems(2)] by simp
  then show ?case using advance_cursor_correct(2)[OF Cons.prems(1) before]
    by (auto simp: Let_def split: option.splits)
qed simp

lemma sub_retain_correct:
  "sorted_wrt (<) rhs \<Longrightarrow> sorted_wrt (<) xs \<Longrightarrow> \<forall>x \<in> set xs. \<forall>y \<in> set (take i rhs). y < x \<Longrightarrow>
     sub_retain rhs i xs = filter (\<lambda>x. x \<notin> set rhs) xs"
proof (induction xs arbitrary: i)
  case (Cons x xs)
  have before: "\<forall>y \<in> set (take i rhs). y < x" using Cons.prems(3) by simp
  have "sub_retain rhs (advance_cursor rhs i x) xs = filter (\<lambda>x. x \<notin> set rhs) xs"
    using Cons.IH Cons.prems retain_step[OF Cons.prems(1) before Cons.prems(2)] by simp
  then show ?case using advance_cursor_correct(2)[OF Cons.prems(1) before]
    by (auto simp: Let_def split: option.splits)
qed simp

end
