(* ===== verification/Roaring_Store.thy ===== *)
theory Roaring_Store
  imports Roaring_Array
begin

text \<open>
  Bitmap stores, stores and containers of the vendored Roaring bitmaps:
  \<^verbatim>\<open>src/vendor/roaring/src/bitmap/store/bitmap_store.rs\<close>, \<^verbatim>\<open>store/mod.rs\<close> and
  \<^verbatim>\<open>container.rs\<close>.  A bitmap store is 1024 words of 64 bits with a cached
  cardinality; a container is an array store up to 4096 values and a bitmap store
  above.  The set a store holds is the set of the natural numbers of its \<^verbatim>\<open>u16\<close>
  values; every operation is shown to be the set operation and to keep the
  representation invariant.
\<close>

section \<open>Bitmap stores\<close>

definition BITMAP_LENGTH :: usize where
  "BITMAP_LENGTH = 1024"

definition ARRAY_LIMIT :: u64 where
  "ARRAY_LIMIT = 4096"

record bitmap_store =
  bs_len :: u64
  bs_bits :: "u64 list"

definition key :: "u16 \<Rightarrow> usize" where
  "key i = unat i div 64"

definition bit_of :: "u16 \<Rightarrow> nat" where
  "bit_of i = unat i mod 64"

definition bitmap_new :: bitmap_store where
  "bitmap_new = \<lparr>bs_len = 0, bs_bits = replicate BITMAP_LENGTH 0\<rparr>"

definition bitmap_try_from :: "u64 \<Rightarrow> u64 list \<Rightarrow> string + bitmap_store" where
  "bitmap_try_from len bits =
     (let actual_len = of_nat (sum_list (map pop_count bits))
      in if len \<noteq> actual_len
         then Inl (''Expected cardinality was '' @ show_nat (unat len) @ '' but was '' @ show_nat (unat actual_len))
         else Inr \<lparr>bs_len = len, bs_bits = bits\<rparr>)"

text \<open>
  The words of a whole little-endian buffer.  The general case writes the bytes
  at \<open>byte_offset\<close> into a zeroed buffer; on a full buffer both cases coincide.
\<close>

definition from_lsb0_bytes_unchecked :: "bytes \<Rightarrow> usize \<Rightarrow> u64 \<Rightarrow> bitmap_store res" where
  "from_lsb0_bytes_unchecked bytes byte_offset bits_set =
     (if byte_offset + length bytes \<le> BITMAP_LENGTH * 8
      then Inr \<lparr>bs_len = bits_set,
                bs_bits = map from_le_bytes (chunks_exact 8
                  (if length bytes = BITMAP_LENGTH * 8 then bytes
                   else replicate byte_offset 0 @ bytes @ replicate (BITMAP_LENGTH * 8 - byte_offset - length bytes) 0))\<rparr>
      else Inl (Panic ''assertion failed: byte_offset + bytes.len() <= BITMAP_BYTES''))"

definition bitmap_insert :: "u16 \<Rightarrow> bitmap_store \<Rightarrow> bitmap_store \<times> bool" where
  "bitmap_insert i store =
     (let old_w = bs_bits store ! key i; new_w = old_w OR push_bit (bit_of i) 1;
          inserted = drop_bit (bit_of i) (old_w XOR new_w)
      in (\<lparr>bs_len = bs_len store + inserted, bs_bits = (bs_bits store)[key i := new_w]\<rparr>, inserted \<noteq> 0))"

definition bitmap_remove :: "u16 \<Rightarrow> bitmap_store \<Rightarrow> bitmap_store \<times> bool" where
  "bitmap_remove i store =
     (let old_w = bs_bits store ! key i; new_w = old_w AND NOT (push_bit (bit_of i) 1);
          removed = drop_bit (bit_of i) (old_w XOR new_w)
      in (\<lparr>bs_len = bs_len store - removed, bs_bits = (bs_bits store)[key i := new_w]\<rparr>, removed \<noteq> 0))"

definition bitmap_contains :: "u16 \<Rightarrow> bitmap_store \<Rightarrow> bool" where
  "bitmap_contains i store \<longleftrightarrow> bs_bits store ! key i AND push_bit (bit_of i) 1 \<noteq> 0"

definition end_mask :: "nat \<Rightarrow> u64" where
  "end_mask end_bit = (if end_bit = 63 then - 1 else push_bit (end_bit + 1) 1 - 1)"

definition start_mask :: "nat \<Rightarrow> u64" where
  "start_mask start_bit = NOT (push_bit start_bit 1 - 1)"

text \<open>The loop over the full words between the two ends.\<close>

fun fill_words :: "usize list \<Rightarrow> nat \<Rightarrow> u64 list \<Rightarrow> nat \<times> u64 list" where
  "fill_words [] existed bits = (existed, bits)"
| "fill_words (i # is) existed bits = fill_words is (existed + pop_count (bits ! i)) (bits[i := - 1])"

definition bitmap_insert_range :: "u16 \<Rightarrow> u16 \<Rightarrow> bitmap_store \<Rightarrow> bitmap_store \<times> u64" where
  "bitmap_insert_range a b store =
     (if key a = key b
      then
        let m = end_mask (bit_of b) AND start_mask (bit_of a);
            existed = pop_count (bs_bits store ! key a AND m);
            bits = (bs_bits store)[key a := bs_bits store ! key a OR m];
            inserted = ucast (b - a + 1) - of_nat existed
        in (\<lparr>bs_len = bs_len store + inserted, bs_bits = bits\<rparr>, inserted)
      else
        let m = start_mask (bit_of a);
            existed = pop_count (bs_bits store ! key a AND m);
            bits = (bs_bits store)[key a := bs_bits store ! key a OR m];
            (existed, bits) = fill_words [key a + 1..<key b] existed bits;
            m = end_mask (bit_of b);
            existed = existed + pop_count (bits ! key b AND m);
            bits = bits[key b := bits ! key b OR m];
            inserted = ucast b - ucast a + 1 - of_nat existed
        in (\<lparr>bs_len = bs_len store + inserted, bs_bits = bits\<rparr>, inserted))"

text \<open>\<^verbatim>\<open>while bit != 0 { push(trailing_zeros); bit &= bit - 1 }\<close>.\<close>

function word_values :: "u64 \<Rightarrow> nat list" where
  "word_values w = (if w = 0 then [] else ctz w # word_values (w AND (w - 1)))"
  by pat_completeness auto
termination
proof (relation "measure pop_count", simp)
  fix w :: u64 assume "w \<noteq> 0"
  have "{n. bit (w AND (w - 1)) n} \<subset> {n. bit w n}"
    using clear_lowest_bit[OF \<open>w \<noteq> 0\<close>] ctz_bit(1)[OF \<open>w \<noteq> 0\<close>] by auto
  moreover have "finite {n. bit w n}" by (metis List.finite_set set_bit_positions)
  ultimately show "(w AND (w - 1), w) \<in> measure pop_count" by (simp add: pop_count_card psubset_card_mono)
qed

declare word_values.simps [simp del]

definition to_array_store :: "bitmap_store \<Rightarrow> array_store" where
  "to_array_store store =
     concat (map (\<lambda>(i, w). map (\<lambda>n. of_nat (n + 64 * i)) (word_values w)) (enumerate 0 (bs_bits store)))"

definition bitmap_min :: "bitmap_store \<Rightarrow> u16 option" where
  "bitmap_min store =
     map_option (\<lambda>(i, w). of_nat (i * 64 + ctz w)) (find (\<lambda>(_, w). w \<noteq> 0) (enumerate 0 (bs_bits store)))"

definition bitmap_max :: "bitmap_store \<Rightarrow> u16 option" where
  "bitmap_max store =
     map_option (\<lambda>(i, w). of_nat (i * 64 + (63 - leading_zeros w)))
       (find (\<lambda>(_, w). w \<noteq> 0) (rev (enumerate 0 (bs_bits store))))"

definition op_bitmaps :: "(u64 \<Rightarrow> u64 \<Rightarrow> u64) \<Rightarrow> bitmap_store \<Rightarrow> bitmap_store \<Rightarrow> bitmap_store" where
  "op_bitmaps op bits1 bits2 =
     (let bits = map2 op (bs_bits bits1) (bs_bits bits2)
      in \<lparr>bs_len = sum_list (map (\<lambda>w. of_nat (pop_count w)) bits), bs_bits = bits\<rparr>)"

fun bitmap_or_array :: "bitmap_store \<Rightarrow> array_store \<Rightarrow> bitmap_store" where
  "bitmap_or_array store [] = store"
| "bitmap_or_array store (i # is) =
     (let old_w = bs_bits store ! key i; new_w = old_w OR push_bit (bit_of i) 1
      in bitmap_or_array \<lparr>bs_len = bs_len store + drop_bit (bit_of i) (old_w XOR new_w),
                          bs_bits = (bs_bits store)[key i := new_w]\<rparr> is)"

fun bitmap_sub_array :: "bitmap_store \<Rightarrow> array_store \<Rightarrow> bitmap_store" where
  "bitmap_sub_array store [] = store"
| "bitmap_sub_array store (i # is) =
     (let old_w = bs_bits store ! key i; new_w = old_w AND NOT (push_bit (bit_of i) 1)
      in bitmap_sub_array \<lparr>bs_len = bs_len store - drop_bit (bit_of i) (old_w XOR new_w),
                           bs_bits = (bs_bits store)[key i := new_w]\<rparr> is)"

fun set_bits_of :: "array_store \<Rightarrow> u64 list \<Rightarrow> u64 list" where
  "set_bits_of [] bits = bits"
| "set_bits_of (i # is) bits = set_bits_of is (bits[key i := bits ! key i OR push_bit (bit_of i) 1])"

definition to_bitmap_store :: "array_store \<Rightarrow> bitmap_store" where
  "to_bitmap_store vec = \<lparr>bs_len = of_nat (length vec), bs_bits = set_bits_of vec (replicate BITMAP_LENGTH 0)\<rparr>"

section \<open>Stores\<close>

datatype store = Array array_store | Bitmap bitmap_store

definition store_new :: store where
  "store_new = Array []"

definition store_with_capacity :: "usize \<Rightarrow> store" where
  "store_with_capacity capacity = (if capacity \<le> unat ARRAY_LIMIT then Array [] else Bitmap bitmap_new)"

fun store_insert :: "u16 \<Rightarrow> store \<Rightarrow> store \<times> bool" where
  "store_insert i (Array vec) = (let (vec, fresh) = array_insert i vec in (Array vec, fresh))"
| "store_insert i (Bitmap bits) = (let (bits, fresh) = bitmap_insert i bits in (Bitmap bits, fresh))"

definition store_insert_range :: "u16 \<Rightarrow> u16 \<Rightarrow> store \<Rightarrow> store \<times> u64" where
  "store_insert_range a b store =
     (if b < a then (store, 0)
      else case store of
          Array vec \<Rightarrow> (let (vec, n) = array_insert_range a b vec in (Array vec, n))
        | Bitmap bits \<Rightarrow> (let (bits, n) = bitmap_insert_range a b bits in (Bitmap bits, n)))"

fun store_remove :: "u16 \<Rightarrow> store \<Rightarrow> store \<times> bool" where
  "store_remove i (Array vec) = (let (vec, gone) = array_remove i vec in (Array vec, gone))"
| "store_remove i (Bitmap bits) = (let (bits, gone) = bitmap_remove i bits in (Bitmap bits, gone))"

fun store_contains :: "u16 \<Rightarrow> store \<Rightarrow> bool" where
  "store_contains i (Array vec) = array_contains i vec"
| "store_contains i (Bitmap bits) = bitmap_contains i bits"

fun store_len :: "store \<Rightarrow> u64" where
  "store_len (Array vec) = of_nat (length vec)"
| "store_len (Bitmap bits) = bs_len bits"

fun store_is_empty :: "store \<Rightarrow> bool" where
  "store_is_empty (Array vec) \<longleftrightarrow> vec = []"
| "store_is_empty (Bitmap bits) \<longleftrightarrow> bs_len bits = 0"

fun store_min :: "store \<Rightarrow> u16 option" where
  "store_min (Array vec) = array_min vec"
| "store_min (Bitmap bits) = bitmap_min bits"

fun store_max :: "store \<Rightarrow> u16 option" where
  "store_max (Array vec) = array_max vec"
| "store_max (Bitmap bits) = bitmap_max bits"

text \<open>
  The assigning operators.  The owned and the borrowing variants move or clone
  their operands and compute the same store.
\<close>

fun store_bitor_assign :: "store \<Rightarrow> store \<Rightarrow> store" where
  "store_bitor_assign (Array vec1) (Array vec2) = Array (scalar_or vec1 vec2)"
| "store_bitor_assign (Bitmap bits1) (Array vec2) = Bitmap (bitmap_or_array bits1 vec2)"
| "store_bitor_assign (Bitmap bits1) (Bitmap bits2) = Bitmap (op_bitmaps (OR) bits1 bits2)"
| "store_bitor_assign (Array vec1) (Bitmap bits2) = Bitmap (bitmap_or_array bits2 vec1)"

fun store_bitand_assign :: "store \<Rightarrow> store \<Rightarrow> store" where
  "store_bitand_assign (Array vec1) (Array vec2) =
     (let (lhs, rhs) = (if length vec2 < length vec1 then (vec2, vec1) else (vec1, vec2)) in Array (and_retain rhs 0 lhs))"
| "store_bitand_assign (Bitmap bits1) (Bitmap bits2) = Bitmap (op_bitmaps (AND) bits1 bits2)"
| "store_bitand_assign (Array vec1) (Bitmap bits2) = Array (filter (\<lambda>x. bitmap_contains x bits2) vec1)"
| "store_bitand_assign (Bitmap bits1) (Array vec2) = Array (filter (\<lambda>x. bitmap_contains x bits1) vec2)"

fun store_sub_assign :: "store \<Rightarrow> store \<Rightarrow> store" where
  "store_sub_assign (Array vec1) (Array vec2) = Array (sub_retain vec2 0 vec1)"
| "store_sub_assign (Bitmap bits1) (Array vec2) = Bitmap (bitmap_sub_array bits1 vec2)"
| "store_sub_assign (Bitmap bits1) (Bitmap bits2) = Bitmap (op_bitmaps (\<lambda>l r. l AND NOT r) bits1 bits2)"
| "store_sub_assign (Array vec1) (Bitmap bits2) = Array (filter (\<lambda>x. \<not> bitmap_contains x bits2) vec1)"

section \<open>Containers\<close>

record container =
  ct_key :: u16
  ct_store :: store

definition container_new :: "u16 \<Rightarrow> container" where
  "container_new k = \<lparr>ct_key = k, ct_store = store_new\<rparr>"

fun correct_store :: "store \<Rightarrow> store" where
  "correct_store (Bitmap bits) = (if bs_len bits \<le> ARRAY_LIMIT then Array (to_array_store bits) else Bitmap bits)"
| "correct_store (Array vec) =
     (if ARRAY_LIMIT < of_nat (length vec) then Bitmap (to_bitmap_store vec) else Array vec)"

definition ensure_correct_store :: "container \<Rightarrow> container" where
  "ensure_correct_store c = c\<lparr>ct_store := correct_store (ct_store c)\<rparr>"

definition container_len :: "container \<Rightarrow> u64" where
  "container_len c = store_len (ct_store c)"

definition container_is_empty :: "container \<Rightarrow> bool" where
  "container_is_empty c = store_is_empty (ct_store c)"

definition container_insert :: "u16 \<Rightarrow> container \<Rightarrow> container \<times> bool" where
  "container_insert i c =
     (case store_insert i (ct_store c) of
        (store, True) \<Rightarrow> (ensure_correct_store (c\<lparr>ct_store := store\<rparr>), True)
      | (store, False) \<Rightarrow> (c\<lparr>ct_store := store\<rparr>, False))"

definition container_remove :: "u16 \<Rightarrow> container \<Rightarrow> container \<times> bool" where
  "container_remove i c =
     (case store_remove i (ct_store c) of
        (store, True) \<Rightarrow> (ensure_correct_store (c\<lparr>ct_store := store\<rparr>), True)
      | (store, False) \<Rightarrow> (c\<lparr>ct_store := store\<rparr>, False))"

definition container_contains :: "u16 \<Rightarrow> container \<Rightarrow> bool" where
  "container_contains i c = store_contains i (ct_store c)"

definition container_bitor_assign :: "container \<Rightarrow> container \<Rightarrow> container" where
  "container_bitor_assign c rhs = ensure_correct_store (c\<lparr>ct_store := store_bitor_assign (ct_store c) (ct_store rhs)\<rparr>)"

definition container_bitand_assign :: "container \<Rightarrow> container \<Rightarrow> container" where
  "container_bitand_assign c rhs = ensure_correct_store (c\<lparr>ct_store := store_bitand_assign (ct_store c) (ct_store rhs)\<rparr>)"

definition container_sub_assign :: "container \<Rightarrow> container \<Rightarrow> container" where
  "container_sub_assign c rhs = ensure_correct_store (c\<lparr>ct_store := store_sub_assign (ct_store c) (ct_store rhs)\<rparr>)"

section \<open>The set of a bitmap store\<close>

declare push_bit_of_1 [simp del] drop_bit_xor [simp del] drop_bit_or [simp del] drop_bit_and [simp del]

definition words_set :: "u64 list \<Rightarrow> nat set" where
  "words_set ws = {n. n div 64 < length ws \<and> bit (ws ! (n div 64)) (n mod 64)}"

definition bitmap_ok :: "bitmap_store \<Rightarrow> bool" where
  "bitmap_ok store \<longleftrightarrow> length (bs_bits store) = 1024 \<and> unat (bs_len store) = card (words_set (bs_bits store))"

lemma words_set_Nil [simp]: "words_set [] = {}"
  by (simp add: words_set_def)

lemma bit_u64_less: "bit (w :: u64) j \<Longrightarrow> j < 64"
  using bit_imp_le_length[of w j] by simp

lemma words_set_snoc: "words_set (ws @ [w]) = words_set ws \<union> (\<lambda>j. 64 * length ws + j) ` {j. bit w j}"
proof (rule set_eqI)
  fix n
  have "n \<in> (\<lambda>j. 64 * length ws + j) ` {j. bit w j} \<longleftrightarrow> n div 64 = length ws \<and> bit w (n mod 64)"
  proof
    assume "n \<in> (\<lambda>j. 64 * length ws + j) ` {j. bit w j}"
    then obtain j where "n = 64 * length ws + j" "bit w j" by blast
    then show "n div 64 = length ws \<and> bit w (n mod 64)" using bit_u64_less[of w j] by simp
  next
    assume "n div 64 = length ws \<and> bit w (n mod 64)"
    moreover have "64 * (n div 64) + n mod 64 = n" by simp
    ultimately show "n \<in> (\<lambda>j. 64 * length ws + j) ` {j. bit w j}"
      by (intro image_eqI[of _ _ "n mod 64"]) auto
  qed
  then show "n \<in> words_set (ws @ [w]) \<longleftrightarrow> n \<in> words_set ws \<union> (\<lambda>j. 64 * length ws + j) ` {j. bit w j}"
    by (auto simp: words_set_def nth_append less_Suc_eq)
qed

lemma words_set_bound: "n \<in> words_set ws \<Longrightarrow> n < 64 * length ws"
  by (auto simp: words_set_def)

lemma finite_words_set [simp]: "finite (words_set ws)"
  by (rule finite_subset[of _ "{..<64 * length ws}"]) (auto dest: words_set_bound)

lemma card_words_set: "card (words_set ws) = sum_list (map pop_count ws)"
proof (induction ws rule: rev_induct)
  case (snoc w ws)
  have "words_set ws \<inter> (\<lambda>j. 64 * length ws + j) ` {j. bit w j} = {}"
    by (auto dest: words_set_bound)
  moreover have "finite {j. bit w j}" by (metis List.finite_set set_bit_positions)
  moreover have "card ((\<lambda>j. 64 * length ws + j) ` {j. bit w j}) = pop_count w"
    by (simp add: card_image pop_count_card)
  ultimately show ?case using snoc by (simp add: words_set_snoc card_Un_disjoint)
qed simp

lemma key_less [simp]: "key i < 1024"
proof -
  have "unat i < 65536" using unsigned_less[of i, where ?'a = nat] by simp
  then show ?thesis by (simp add: key_def)
qed

lemma bit_of_less [simp]: "bit_of i < 64"
  by (simp add: bit_of_def)

lemma key_bit_of: "n div 64 = key i \<and> n mod 64 = bit_of i \<longleftrightarrow> n = unat i"
  unfolding key_def bit_of_def by (metis mult_div_mod_eq)

lemma words_set_eqI:
  assumes "length ws = length ws'" and "\<And>k j. k < length ws \<Longrightarrow> j < 64 \<Longrightarrow> bit (ws ! k) j \<longleftrightarrow> bit (ws' ! k) j"
  shows "words_set ws = words_set ws'"
  using assms by (auto simp: words_set_def)

lemma words_set_inject:
  assumes "length ws = length ws'" and "words_set ws = words_set ws'"
  shows "ws = ws'"
proof (rule nth_equalityI)
  fix k assume k: "k < length ws"
  show "ws ! k = ws' ! k"
  proof (rule bit_word_eqI)
    fix j :: nat assume "j < LENGTH(64)"
    then have "(k * 64 + j) div 64 = k" "(k * 64 + j) mod 64 = j" by simp_all
    moreover have "k * 64 + j \<in> words_set ws \<longleftrightarrow> k * 64 + j \<in> words_set ws'" using assms(2) by simp
    ultimately show "bit (ws ! k) j = bit (ws' ! k) j" using k assms(1) by (simp add: words_set_def)
  qed
qed (fact assms)

lemma bit_or_single: "b < 64 \<Longrightarrow> bit ((w :: u64) OR push_bit b 1) j \<longleftrightarrow> bit w j \<or> j = b"
  by (auto simp: bit_simps)

lemma bit_clear_single: "b < 64 \<Longrightarrow> bit ((w :: u64) AND NOT (push_bit b 1)) j \<longleftrightarrow> bit w j \<and> j \<noteq> b"
  by (auto simp: bit_simps dest: bit_u64_less)

lemma inserted_single: "b < 64 \<Longrightarrow> drop_bit b ((w :: u64) XOR (w OR push_bit b 1)) = (if bit w b then 0 else 1)"
  by (rule bit_word_eqI) (auto simp: bit_simps)

lemma removed_single: "b < 64 \<Longrightarrow> drop_bit b ((w :: u64) XOR (w AND NOT (push_bit b 1))) = (if bit w b then 1 else 0)"
  by (rule bit_word_eqI) (auto simp: bit_simps dest: bit_u64_less intro: gr0I)

lemma and_push_bit_1_nonzero: "b < 64 \<Longrightarrow> (w :: u64) AND push_bit b 1 \<noteq> 0 \<longleftrightarrow> bit w b"
proof
  assume "bit w b" "b < 64"
  then have "bit (w AND push_bit b 1) b" by (simp add: bit_simps)
  then show "w AND push_bit b 1 \<noteq> 0" by (metis bit_0_eq bot_apply bot_bool_def)
next
  assume "w AND push_bit b 1 \<noteq> 0"
  then obtain j where "bit (w AND push_bit b 1) j" by (metis bit_0_eq bit_eq_iff bot_apply bot_bool_def)
  then show "bit w b" by (auto simp: bit_simps)
qed

lemma mem_words_set: "length ws = 1024 \<Longrightarrow> unat i \<in> words_set ws \<longleftrightarrow> bit (ws ! key i) (bit_of i)"
  using key_less[of i] by (simp add: words_set_def key_def bit_of_def)

lemma words_set_set:
  assumes "length ws = 1024"
  shows "words_set (ws[key i := ws ! key i OR push_bit (bit_of i) 1]) = insert (unat i) (words_set ws)"
proof (rule set_eqI)
  fix n
  show "n \<in> words_set (ws[key i := ws ! key i OR push_bit (bit_of i) 1]) \<longleftrightarrow> n \<in> insert (unat i) (words_set ws)"
    using key_bit_of[of n i] key_less[of i] assms
    by (cases "n div 64 = key i") (auto simp: words_set_def bit_or_single simp del: key_less)
qed

lemma words_set_clear:
  assumes "length ws = 1024"
  shows "words_set (ws[key i := ws ! key i AND NOT (push_bit (bit_of i) 1)]) = words_set ws - {unat i}"
proof (rule set_eqI)
  fix n
  show "n \<in> words_set (ws[key i := ws ! key i AND NOT (push_bit (bit_of i) 1)]) \<longleftrightarrow> n \<in> words_set ws - {unat i}"
    using key_bit_of[of n i] key_less[of i] assms
    by (cases "n div 64 = key i") (auto simp: words_set_def bit_clear_single simp del: key_less)
qed

lemma card_words_set_le: "length ws = 1024 \<Longrightarrow> card (words_set ws) \<le> 65536"
  using card_mono[of "{..<65536}" "words_set ws"] words_set_bound[of _ ws] by fastforce

lemma bitmap_insert_correct:
  assumes "bitmap_ok store"
  shows "bitmap_ok (fst (bitmap_insert i store))"
    and "words_set (bs_bits (fst (bitmap_insert i store))) = insert (unat i) (words_set (bs_bits store))"
    and "snd (bitmap_insert i store) \<longleftrightarrow> unat i \<notin> words_set (bs_bits store)"
proof -
  have len: "length (bs_bits store) = 1024" "unat (bs_len store) = card (words_set (bs_bits store))"
    using assms by (simp_all add: bitmap_ok_def)
  note mem = mem_words_set[OF len(1), of i]
  show set: "words_set (bs_bits (fst (bitmap_insert i store))) = insert (unat i) (words_set (bs_bits store))"
    using words_set_set[OF len(1)] by (simp add: bitmap_insert_def Let_def)
  show "snd (bitmap_insert i store) \<longleftrightarrow> unat i \<notin> words_set (bs_bits store)"
    by (simp add: bitmap_insert_def Let_def inserted_single mem)
  have bound: "unat (bs_len store) < 2 ^ 64 - 1" using card_words_set_le[OF len(1)] len(2) by simp
  have "unat (bs_len (fst (bitmap_insert i store))) = card (words_set (bs_bits (fst (bitmap_insert i store))))"
  proof (cases "unat i \<in> words_set (bs_bits store)")
    case True
    then show ?thesis unfolding set using mem len(2)
      by (simp add: bitmap_insert_def Let_def inserted_single insert_absorb)
  next
    case False
    then have "bs_len (fst (bitmap_insert i store)) = bs_len store + 1" using mem
      by (simp add: bitmap_insert_def Let_def inserted_single)
    then show ?thesis unfolding set using False bound len(2) by (simp add: unat_word_ariths)
  qed
  then show "bitmap_ok (fst (bitmap_insert i store))"
    using len by (simp add: bitmap_ok_def) (simp add: bitmap_insert_def Let_def)
qed

lemma bitmap_remove_correct:
  assumes "bitmap_ok store"
  shows "bitmap_ok (fst (bitmap_remove i store))"
    and "words_set (bs_bits (fst (bitmap_remove i store))) = words_set (bs_bits store) - {unat i}"
    and "snd (bitmap_remove i store) \<longleftrightarrow> unat i \<in> words_set (bs_bits store)"
proof -
  have len: "length (bs_bits store) = 1024" "unat (bs_len store) = card (words_set (bs_bits store))"
    using assms by (simp_all add: bitmap_ok_def)
  note mem = mem_words_set[OF len(1), of i]
  show set: "words_set (bs_bits (fst (bitmap_remove i store))) = words_set (bs_bits store) - {unat i}"
    using words_set_clear[OF len(1)] by (simp add: bitmap_remove_def Let_def)
  show "snd (bitmap_remove i store) \<longleftrightarrow> unat i \<in> words_set (bs_bits store)"
    by (simp add: bitmap_remove_def Let_def removed_single mem)
  have "unat (bs_len (fst (bitmap_remove i store))) = card (words_set (bs_bits (fst (bitmap_remove i store))))"
  proof (cases "unat i \<in> words_set (bs_bits store)")
    case False
    then show ?thesis unfolding set using mem len(2)
      by (simp add: bitmap_remove_def Let_def removed_single)
  next
    case True
    then have "bs_len (fst (bitmap_remove i store)) = bs_len store - 1" using mem
      by (simp add: bitmap_remove_def Let_def removed_single)
    moreover have "0 < card (words_set (bs_bits store))" using True by (auto simp: card_gt_0_iff)
    then have "bs_len store \<noteq> 0" using len(2) by (metis less_irrefl unat_0)
    ultimately show ?thesis unfolding set using True len(2) by (simp add: unat_minus_one)
  qed
  then show "bitmap_ok (fst (bitmap_remove i store))"
    using len by (simp add: bitmap_ok_def) (simp add: bitmap_remove_def Let_def)
qed

lemma bitmap_contains_correct:
  "bitmap_ok store \<Longrightarrow> bitmap_contains i store \<longleftrightarrow> unat i \<in> words_set (bs_bits store)"
proof -
  assume "bitmap_ok store"
  then have "length (bs_bits store) = 1024" by (simp add: bitmap_ok_def)
  moreover have "(w :: u64) AND push_bit b 1 \<noteq> 0 \<longleftrightarrow> bit w b" if "b < 64" for w b
    using that by (simp add: and_push_bit_1_nonzero)
  ultimately show ?thesis by (simp add: bitmap_contains_def mem_words_set)
qed

lemma bitmap_or_array_correct:
  "bitmap_ok store \<Longrightarrow> bitmap_ok (bitmap_or_array store vec)
     \<and> words_set (bs_bits (bitmap_or_array store vec)) = words_set (bs_bits store) \<union> unat ` set vec"
proof (induction vec arbitrary: store)
  case (Cons i vec)
  have "bitmap_or_array store (i # vec) = bitmap_or_array (fst (bitmap_insert i store)) vec"
    by (simp add: bitmap_insert_def Let_def)
  then show ?case using Cons.IH[OF bitmap_insert_correct(1)[OF Cons.prems]] bitmap_insert_correct(2)[OF Cons.prems, of i]
    by simp
qed simp

lemma bitmap_sub_array_correct:
  "bitmap_ok store \<Longrightarrow> bitmap_ok (bitmap_sub_array store vec)
     \<and> words_set (bs_bits (bitmap_sub_array store vec)) = words_set (bs_bits store) - unat ` set vec"
proof (induction vec arbitrary: store)
  case (Cons i vec)
  have "bitmap_sub_array store (i # vec) = bitmap_sub_array (fst (bitmap_remove i store)) vec"
    by (simp add: bitmap_remove_def Let_def)
  then show ?case using Cons.IH[OF bitmap_remove_correct(1)[OF Cons.prems]] bitmap_remove_correct(2)[OF Cons.prems, of i]
    by auto
qed simp

lemma set_bits_of_correct:
  "length bits = 1024 \<Longrightarrow> length (set_bits_of vec bits) = 1024 \<and> words_set (set_bits_of vec bits) = words_set bits \<union> unat ` set vec"
proof (induction vec arbitrary: bits)
  case (Cons i vec)
  have "length (bits[key i := bits ! key i OR push_bit (bit_of i) 1]) = 1024" using Cons.prems by simp
  from Cons.IH[OF this] show ?case using words_set_set[OF Cons.prems, of i] by auto
qed simp

lemma words_set_zero [simp]: "words_set (replicate n 0) = {}"
  by (auto simp: words_set_def)

lemma card_unat_set: "distinct vec \<Longrightarrow> card (unat ` set (vec :: u16 list)) = length vec"
  by (subst card_image) (auto simp: distinct_card inj_on_def word_unat_eq_iff)

lemma strict_sorted_distinct: "sorted_wrt (<) (xs :: 'a::linorder list) \<Longrightarrow> distinct xs"
  by (simp add: strict_sorted_iff)

lemma u16_list_length: "sorted_wrt (<) (vec :: u16 list) \<Longrightarrow> length vec \<le> 65536"
proof -
  assume "sorted_wrt (<) vec"
  then have "length vec = card (unat ` set vec)" using card_unat_set strict_sorted_distinct by metis
  also have "\<dots> \<le> card {..<65536 :: nat}"
  proof (rule card_mono)
    show "unat ` set vec \<subseteq> {..<65536}" using unsigned_less[where ?'a = nat and ?'b = 16] by auto
  qed simp
  finally show ?thesis by simp
qed

lemma to_bitmap_store_correct:
  assumes "sorted_wrt (<) vec"
  shows "bitmap_ok (to_bitmap_store vec)" and "words_set (bs_bits (to_bitmap_store vec)) = unat ` set vec"
proof -
  show set: "words_set (bs_bits (to_bitmap_store vec)) = unat ` set vec"
    using set_bits_of_correct[of "replicate 1024 0" vec] by (simp add: to_bitmap_store_def BITMAP_LENGTH_def)
  have "length (bs_bits (to_bitmap_store vec)) = 1024"
    using set_bits_of_correct[of "replicate 1024 0" vec] by (simp add: to_bitmap_store_def BITMAP_LENGTH_def)
  moreover have "unat (bs_len (to_bitmap_store vec)) = length vec"
    using u16_list_length[OF assms] by (simp add: to_bitmap_store_def unat_of_nat_less)
  ultimately show "bitmap_ok (to_bitmap_store vec)"
    using card_unat_set[OF strict_sorted_distinct[OF assms]] by (simp add: bitmap_ok_def set)
qed

lemma op_bitmaps_correct:
  assumes "bitmap_ok b1" and "bitmap_ok b2"
    and op: "\<And>x y j. j < 64 \<Longrightarrow> bit (op x y) j \<longleftrightarrow> f (bit x j) (bit y j)" and "\<not> f False False"
  shows "bitmap_ok (op_bitmaps op b1 b2)"
    and "words_set (bs_bits (op_bitmaps op b1 b2)) =
      {n. f (n \<in> words_set (bs_bits b1)) (n \<in> words_set (bs_bits b2))}"
proof -
  have len: "length (bs_bits b1) = 1024" "length (bs_bits b2) = 1024" using assms by (simp_all add: bitmap_ok_def)
  let ?ws = "map2 op (bs_bits b1) (bs_bits b2)"
  show "words_set (bs_bits (op_bitmaps op b1 b2)) =
      {n. f (n \<in> words_set (bs_bits b1)) (n \<in> words_set (bs_bits b2))}"
  proof (rule set_eqI)
    fix n
    show "n \<in> words_set (bs_bits (op_bitmaps op b1 b2)) \<longleftrightarrow>
        n \<in> {n. f (n \<in> words_set (bs_bits b1)) (n \<in> words_set (bs_bits b2))}"
      using len assms(4) by (cases "n div 64 < 1024") (simp_all add: op_bitmaps_def Let_def words_set_def op)
  qed
  have "sum_list (map (\<lambda>w. of_nat (pop_count w)) ws) = (of_nat (sum_list (map pop_count ws)) :: u64)" for ws :: "u64 list"
    by (induction ws) simp_all
  then have "bs_len (op_bitmaps op b1 b2) = of_nat (card (words_set ?ws))"
    by (simp add: op_bitmaps_def Let_def card_words_set)
  moreover have "card (words_set ?ws) \<le> 65536" using len by (intro card_words_set_le) simp
  ultimately have "unat (bs_len (op_bitmaps op b1 b2)) = card (words_set ?ws)" by (simp add: unat_of_nat_less)
  then show "bitmap_ok (op_bitmaps op b1 b2)" using len by (simp add: bitmap_ok_def op_bitmaps_def Let_def)
qed

subsection \<open>From words to arrays\<close>

lemma word_values_correct: "word_values w = bit_positions w"
proof (induction w rule: word_values.induct)
  case (1 w)
  show ?case
  proof (cases "w = 0")
    case True
    then show ?thesis by (simp add: word_values.simps bit_positions_def)
  next
    case False
    have "ctz w # bit_positions (w AND (w - 1)) = bit_positions w"
    proof (rule strict_sorted_unique)
      have "n \<in> set (bit_positions (w AND (w - 1))) \<Longrightarrow> ctz w < n" for n
        using clear_lowest_bit[OF False, of n] ctz_bit(2)[OF False, of n]
        by (auto simp: set_bit_positions intro: linorder_neqE_nat)
      then show "sorted_wrt (<) (ctz w # bit_positions (w AND (w - 1)))" by (simp add: sorted_bit_positions)
      show "set (ctz w # bit_positions (w AND (w - 1))) = set (bit_positions w)"
        using clear_lowest_bit[OF False] ctz_bit(1)[OF False] by (auto simp: set_bit_positions)
    qed (rule sorted_bit_positions)
    then show ?thesis using 1 False by (subst word_values.simps) simp
  qed
qed

definition words_values :: "u64 list \<Rightarrow> u16 list" where
  "words_values ws = concat (map (\<lambda>(i, w). map (\<lambda>n. of_nat (n + 64 * i)) (bit_positions w)) (enumerate 0 ws))"

lemma words_values_snoc:
  "words_values (ws @ [w]) = words_values ws @ map (\<lambda>n. of_nat (n + 64 * length ws)) (bit_positions w)"
  by (simp add: words_values_def enumerate_append_eq)

lemma words_values_correct:
  "length ws \<le> 1024 \<Longrightarrow> sorted_wrt (<) (words_values ws) \<and> unat ` set (words_values ws) = words_set ws"
proof (induction ws rule: rev_induct)
  case Nil
  show ?case by (simp add: words_values_def)
next
  case (snoc w ws)
  have IH: "sorted_wrt (<) (words_values ws)" "unat ` set (words_values ws) = words_set ws" using snoc by simp_all
  have small: "n < 64" if "n \<in> set (bit_positions w)" for n using that bit_u64_less by (simp add: set_bit_positions)
  have val: "unat (of_nat (n + 64 * length ws) :: u16) = n + 64 * length ws" if "n \<in> set (bit_positions w)" for n
    using small[OF that] snoc.prems by (intro unat_of_nat_less) simp
  have "sorted_wrt (<) (map (\<lambda>n. of_nat (n + 64 * length ws) :: u16) (bit_positions w))"
    unfolding sorted_wrt_map
    by (rule sorted_wrt_mono_rel[OF _ sorted_bit_positions]) (simp add: word_less_nat_alt val del: of_nat_add)
  moreover have "x < of_nat (n + 64 * length ws)" if x: "x \<in> set (words_values ws)" and n: "n \<in> set (bit_positions w)" for x n
    using words_set_bound[of "unat x" ws] IH(2) x val[OF n] by (simp add: word_less_nat_alt image_iff del: of_nat_add) fastforce
  ultimately have "sorted_wrt (<) (words_values (ws @ [w]))"
    unfolding words_values_snoc using IH(1) by (auto simp: sorted_wrt_append simp del: of_nat_add)
  moreover have "unat ` set (words_values (ws @ [w])) = words_set (ws @ [w])"
  proof -
    have "unat ` set (map (\<lambda>n. of_nat (n + 64 * length ws) :: u16) (bit_positions w)) = (\<lambda>j. 64 * length ws + j) ` {j. bit w j}"
      unfolding set_map image_image set_bit_positions[symmetric]
      by (rule image_cong) (simp_all add: val del: of_nat_add)
    then show ?thesis unfolding words_values_snoc words_set_snoc set_append image_Un IH(2) by simp
  qed
  ultimately show ?case by blast
qed

lemma to_array_store_correct:
  assumes "bitmap_ok store"
  shows "sorted_wrt (<) (to_array_store store)" and "unat ` set (to_array_store store) = words_set (bs_bits store)"
proof -
  have "to_array_store store = words_values (bs_bits store)"
    by (simp add: to_array_store_def words_values_def word_values_correct)
  then show "sorted_wrt (<) (to_array_store store)" and "unat ` set (to_array_store store) = words_set (bs_bits store)"
    using words_values_correct[of "bs_bits store"] assms by (simp_all add: bitmap_ok_def)
qed

subsection \<open>Inserting a range\<close>

lemma bit_end_mask:
  assumes "e < 64"
  shows "bit (end_mask e) j \<longleftrightarrow> j \<le> e"
proof (cases "e = 63")
  case True
  then show ?thesis by (auto simp: end_mask_def bit_minus_1_iff possible_bit_word)
next
  case False
  then have "end_mask e = mask (Suc e)" by (simp add: end_mask_def push_bit_of_1 mask_eq_exp_minus_1)
  then show ?thesis using assms False by (auto simp: bit_mask_iff possible_bit_word)
qed

lemma bit_start_mask: "s < 64 \<Longrightarrow> bit (start_mask s) j \<longleftrightarrow> s \<le> j \<and> j < 64"
  by (auto simp: start_mask_def push_bit_of_1 bit_not_iff bit_mask_iff possible_bit_word simp flip: mask_eq_exp_minus_1)

text \<open>The part of word \<open>k\<close> that the range \<open>a..=b\<close> covers.\<close>

definition range_word :: "u16 \<Rightarrow> u16 \<Rightarrow> nat \<Rightarrow> u64" where
  "range_word a b k =
     (if k < key a \<or> key b < k then 0
      else (if k = key a then start_mask (bit_of a) else - 1) AND (if k = key b then end_mask (bit_of b) else - 1))"

lemma split_64: "unat i = 64 * key i + bit_of i"
  by (simp add: key_def bit_of_def)

lemma lex_64: "j < 64 \<Longrightarrow> b < 64 \<Longrightarrow> (k < k' \<or> k = k' \<and> j < b) \<longleftrightarrow> 64 * k + j < 64 * k' + (b :: nat)"
  by (cases k k' rule: linorder_cases) auto

lemma bit_range_word:
  assumes "a \<le> b"
  shows "bit (range_word a b k) j \<longleftrightarrow> j < 64 \<and> unat a \<le> 64 * k + j \<and> 64 * k + j \<le> unat b"
proof (cases "j < 64")
  case True
  have ab: "64 * key a + bit_of a \<le> 64 * key b + bit_of b"
    using assms by (simp add: word_le_nat_alt flip: split_64)
  have "(k < key a \<or> k = key a \<and> j < bit_of a) \<longleftrightarrow> 64 * k + j < 64 * key a + bit_of a"
    using True bit_of_less[of a] by (rule lex_64)
  moreover have "(key b < k \<or> k = key b \<and> bit_of b < j) \<longleftrightarrow> 64 * key b + bit_of b < 64 * k + j"
    using lex_64[of "bit_of b" j "key b" k] True bit_of_less[of b] by auto
  ultimately show ?thesis using True ab unfolding split_64
    by (auto simp: range_word_def bit_and_iff bit_start_mask bit_end_mask bit_minus_1_iff possible_bit_word not_less not_le)
next
  case False
  then show ?thesis using bit_u64_less by blast
qed

lemma words_set_or_range:
  assumes "length ws = 1024" and "length ws' = 1024" and "a \<le> b"
    and eq: "\<And>k. k < 1024 \<Longrightarrow> ws' ! k = ws ! k OR range_word a b k"
  shows "words_set ws' = words_set ws \<union> {unat a..unat b}"
proof (rule set_eqI)
  fix n :: nat
  have n: "64 * (n div 64) + n mod 64 = n" by simp
  have "unat b < 65536" using unsigned_less[of b, where ?'a = nat] by simp
  then have "n div 64 < 1024" if "n \<le> unat b" using that by (simp add: div_less_iff_less_mult)
  then show "n \<in> words_set ws' \<longleftrightarrow> n \<in> words_set ws \<union> {unat a..unat b}"
    using assms n by (auto simp: words_set_def eq bit_or_iff bit_range_word)
qed

lemma card_words_set_range:
  assumes "length ws = 1024" and "a \<le> b"
  shows "card (words_set ws \<inter> {unat a..unat b}) = (\<Sum>k\<in>{key a..key b}. pop_count (ws ! k AND range_word a b k))"
proof -
  let ?m = "map (\<lambda>k. ws ! k AND range_word a b k) [0..<1024]"
  have "words_set ws \<inter> {unat a..unat b} = words_set ?m"
  proof (rule set_eqI)
    fix n :: nat
    have "64 * (n div 64) + n mod 64 = n" by simp
    then show "n \<in> words_set ws \<inter> {unat a..unat b} \<longleftrightarrow> n \<in> words_set ?m"
      using assms by (auto simp: words_set_def bit_and_iff bit_range_word)
  qed
  then have "card (words_set ws \<inter> {unat a..unat b}) = sum_list (map (\<lambda>k. pop_count (ws ! k AND range_word a b k)) [0..<1024])"
    by (simp only: card_words_set map_map o_def)
  also have "\<dots> = (\<Sum>k\<in>{..<1024}. pop_count (ws ! k AND range_word a b k))"
    by (simp only: interv_sum_list_conv_sum_set_nat set_upt atLeast0LessThan)
  also have "\<dots> = (\<Sum>k\<in>{key a..key b}. pop_count (ws ! k AND range_word a b k))"
  proof (rule sum.mono_neutral_right)
    show "{key a..key b} \<subseteq> {..<1024}" using key_less[of b] by (auto intro: le_less_trans)
    show "\<forall>k\<in>{..<1024} - {key a..key b}. pop_count (ws ! k AND range_word a b k) = 0"
      by (auto simp: range_word_def pop_count_def bit_positions_def)
  qed simp
  finally show ?thesis .
qed

lemma fill_words_correct:
  "distinct is \<Longrightarrow> set is \<subseteq> {..<length bits} \<Longrightarrow> fill_words is existed bits = (existed', bits') \<Longrightarrow>
     existed' = existed + (\<Sum>i\<in>set is. pop_count (bits ! i)) \<and> length bits' = length bits
     \<and> (\<forall>k < length bits. bits' ! k = (if k \<in> set is then - 1 else bits ! k))"
proof (induction "is" existed bits arbitrary: existed' bits' rule: fill_words.induct)
  case (2 i js existed bits)
  have step: "fill_words js (existed + pop_count (bits ! i)) (bits[i := - 1]) = (existed', bits')" using 2(4) by simp
  have "existed' = existed + pop_count (bits ! i) + (\<Sum>j\<in>set js. pop_count (bits[i := - 1] ! j)) \<and> length bits' = length bits
     \<and> (\<forall>k < length bits. bits' ! k = (if k \<in> set js then - 1 else bits[i := - 1] ! k))"
    using 2(1)[OF _ _ step] 2(2,3) by auto
  moreover have "(\<Sum>j\<in>set js. pop_count (bits[i := - 1] ! j)) = (\<Sum>j\<in>set js. pop_count (bits ! j))"
    using 2(2) by (intro sum.cong refl arg_cong[of _ _ pop_count] nth_list_update_neq) auto
  ultimately show ?case using 2(2,3) by (auto simp: nth_list_update)
qed simp

lemma insert_range_core:
  assumes ok: "bitmap_ok store" and "a \<le> b" and len: "length ws' = 1024"
    and eq: "\<And>k. k < 1024 \<Longrightarrow> ws' ! k = bs_bits store ! k OR range_word a b k"
    and existed: "existed = (\<Sum>k\<in>{key a..key b}. pop_count (bs_bits store ! k AND range_word a b k))"
    and inserted: "inserted = of_nat (unat b - unat a + 1) - of_nat existed"
  shows "bitmap_ok \<lparr>bs_len = bs_len store + inserted, bs_bits = ws'\<rparr>"
    and "words_set ws' = words_set (bs_bits store) \<union> {unat a..unat b}"
proof -
  let ?ws = "bs_bits store"
  have l: "length ?ws = 1024" and card: "unat (bs_len store) = card (words_set ?ws)" using ok by (simp_all add: bitmap_ok_def)
  show set: "words_set ws' = words_set ?ws \<union> {unat a..unat b}" by (rule words_set_or_range[OF l len assms(2) eq])
  have ab: "unat a \<le> unat b" using assms(2) by (simp add: word_le_nat_alt)
  have ex: "existed = card (words_set ?ws \<inter> {unat a..unat b})" using card_words_set_range[OF l assms(2)] existed by simp
  then have "existed \<le> unat b - unat a + 1"
    using card_mono[of "{unat a..unat b}" "words_set ?ws \<inter> {unat a..unat b}"] ab by simp
  then have ins: "inserted = of_nat (unat b - unat a + 1 - existed)" unfolding inserted by (simp only: of_nat_diff)
  have "card (words_set ws') + existed = card (words_set ?ws) + (unat b - unat a + 1)"
    unfolding set ex using card_Un_Int[of "words_set ?ws" "{unat a..unat b}"] ab by simp
  then have "card (words_set ws') = card (words_set ?ws) + (unat b - unat a + 1 - existed)"
    using \<open>existed \<le> unat b - unat a + 1\<close> by simp
  moreover have "bs_len store = of_nat (card (words_set ?ws))" by (simp flip: card)
  ultimately have "bs_len store + inserted = of_nat (card (words_set ws'))" unfolding ins by (simp only: of_nat_add)
  moreover have "card (words_set ws') < 2 ^ 64" using card_words_set_le[OF len] by simp
  ultimately show "bitmap_ok \<lparr>bs_len = bs_len store + inserted, bs_bits = ws'\<rparr>"
    using len by (simp add: bitmap_ok_def unat_of_nat_less)
qed

lemma unat_u16_less: "unat (i :: u16) < 65536"
  using unsigned_less[of i, where ?'a = nat] by simp

lemma u64_of_unat_u16: "(ucast (i :: u16) :: u64) = of_nat (unat i)"
  by (simp add: unsigned_of_nat)

lemma insert_range_same_word:
  assumes ok: "bitmap_ok store" and "a \<le> b" and "key a = key b"
  shows "bitmap_ok (fst (bitmap_insert_range a b store))
    \<and> words_set (bs_bits (fst (bitmap_insert_range a b store))) = words_set (bs_bits store) \<union> {unat a..unat b}"
proof -
  let ?ws = "bs_bits store" and ?m = "end_mask (bit_of b) AND start_mask (bit_of a)"
  let ?ws' = "?ws[key a := ?ws ! key a OR ?m]"
  have len: "length ?ws = 1024" using ok by (simp add: bitmap_ok_def)
  have ab: "unat a \<le> unat b" using assms(2) by (simp add: word_le_nat_alt)
  have rw: "range_word a b k = (if k = key a then ?m else 0)" for k
    using assms(3) by (auto simp: range_word_def and.commute)
  have "Suc (bit_of b - bit_of a) < 65536" using bit_of_less[of b] by linarith
  then have "unat (b - a + 1) = unat b - unat a + 1"
    using assms(2,3) ab unat_u16_less[of b] split_64[of a] split_64[of b]
    by (simp add: unat_word_ariths unat_sub word_le_nat_alt)
  then have "(ucast (b - a + 1) :: u64) = of_nat (unat b - unat a + 1)" by (simp only: u64_of_unat_u16)
  then have ins: "ucast (b - a + 1) - of_nat (pop_count (?ws ! key a AND ?m)) =
      (of_nat (unat b - unat a + 1) :: u64) - of_nat (pop_count (?ws ! key a AND ?m))" by simp
  show ?thesis
    using insert_range_core[OF ok assms(2), of ?ws' _ "ucast (b - a + 1) - of_nat (pop_count (?ws ! key a AND ?m))", OF _ _ _ ins]
      len assms(3) by (simp add: bitmap_insert_range_def Let_def rw nth_list_update)
qed

lemma insert_range_words:
  assumes ok: "bitmap_ok store" and "a \<le> b" and lt: "key a < key b"
  shows "bitmap_ok (fst (bitmap_insert_range a b store))
    \<and> words_set (bs_bits (fst (bitmap_insert_range a b store))) = words_set (bs_bits store) \<union> {unat a..unat b}"
proof -
  let ?ws = "bs_bits store" and ?s = "start_mask (bit_of a)" and ?e = "end_mask (bit_of b)"
  let ?ws1 = "?ws[key a := ?ws ! key a OR ?s]"
  have len: "length ?ws = 1024" using ok by (simp add: bitmap_ok_def)
  obtain ex2 ws2 where fill: "fill_words [key a + 1..<key b] (pop_count (?ws ! key a AND ?s)) ?ws1 = (ex2, ws2)" by fastforce
  have "set [key a + 1..<key b] \<subseteq> {..<length ?ws1}" using key_less[of b] len by (auto intro: less_trans)
  note fc = fill_words_correct[OF distinct_upt this fill]
  have ws2: "length ws2 = 1024" "\<And>k. k < 1024 \<Longrightarrow> ws2 ! k =
      (if k \<in> {key a + 1..<key b} then - 1 else if k = key a then ?ws ! key a OR ?s else ?ws ! k)"
    using fc len by (auto simp: nth_list_update)
  have rw: "range_word a b k = (if k = key a then ?s else if k = key b then ?e else if key a < k \<and> k < key b then - 1 else 0)" for k
    using lt by (auto simp: range_word_def)
  have nth: "ws2[key b := ws2 ! key b OR ?e] ! k = ?ws ! k OR range_word a b k" if "k < 1024" for k
    using that lt ws2 key_less[of b] by (auto simp: rw nth_list_update)
  have "(\<Sum>k\<in>{key a + 1..<key b}. pop_count (?ws1 ! k)) = (\<Sum>k\<in>{key a + 1..<key b}. pop_count (?ws ! k))"
    by (intro sum.cong refl arg_cong[of _ _ pop_count] nth_list_update_neq) simp
  then have "ex2 = pop_count (?ws ! key a AND ?s) + (\<Sum>k\<in>{key a + 1..<key b}. pop_count (?ws ! k))"
    using fc by (simp only: set_upt)
  moreover have "{key a..key b} = insert (key a) (insert (key b) {key a + 1..<key b})" using lt by auto
  moreover have "(\<Sum>k\<in>{key a + 1..<key b}. pop_count (?ws ! k AND range_word a b k)) = (\<Sum>k\<in>{key a + 1..<key b}. pop_count (?ws ! k))"
    by (intro sum.cong) (auto simp: rw)
  moreover have "ws2 ! key b = ?ws ! key b" using ws2(2)[of "key b"] lt by simp
  ultimately have ex3: "ex2 + pop_count (ws2 ! key b AND ?e) = (\<Sum>k\<in>{key a..key b}. pop_count (?ws ! k AND range_word a b k))"
    using lt by (simp add: rw)
  have ins: "ucast b - ucast a + 1 - of_nat (ex2 + pop_count (ws2 ! key b AND ?e)) =
      (of_nat (unat b - unat a + 1) :: u64) - of_nat (ex2 + pop_count (ws2 ! key b AND ?e))"
    using assms(2) unfolding word_le_nat_alt by (simp only: u64_of_unat_u16 of_nat_diff of_nat_add of_nat_1)
  have "length (ws2[key b := ws2 ! key b OR ?e]) = 1024" using ws2 by simp
  note insert_range_core[OF ok assms(2) this nth ex3 ins]
  moreover have "fst (bitmap_insert_range a b store) =
      \<lparr>bs_len = bs_len store + (ucast b - ucast a + 1 - of_nat (ex2 + pop_count (ws2 ! key b AND ?e))),
       bs_bits = ws2[key b := ws2 ! key b OR ?e]\<rparr>"
    using lt fill by (simp add: bitmap_insert_range_def Let_def)
  ultimately show ?thesis by simp
qed

lemma bitmap_insert_range_correct:
  assumes "bitmap_ok store" and "a \<le> b"
  shows "bitmap_ok (fst (bitmap_insert_range a b store))"
    and "words_set (bs_bits (fst (bitmap_insert_range a b store))) = words_set (bs_bits store) \<union> {unat a..unat b}"
proof -
  have "key a \<le> key b" using assms(2) by (simp add: key_def div_le_mono word_le_nat_alt)
  then show "bitmap_ok (fst (bitmap_insert_range a b store))"
    and "words_set (bs_bits (fst (bitmap_insert_range a b store))) = words_set (bs_bits store) \<union> {unat a..unat b}"
    using insert_range_same_word[OF assms] insert_range_words[OF assms] by (auto simp: le_less)
qed

subsection \<open>Smallest and largest value\<close>

lemma strict_sorted_ends:
  fixes xs :: "'a::linorder list"
  assumes "sorted_wrt (<) xs" and "x \<in> set xs"
  shows "hd xs \<le> x" and "x \<le> last xs"
proof -
  show "hd xs \<le> x" using assms by (cases xs) (auto simp: less_imp_le)
  have "xs = butlast xs @ [last xs]" using assms(2) by (metis append_butlast_last_id empty_iff list.set(1))
  then have "sorted_wrt (<) (butlast xs @ [last xs])" and "x \<in> set (butlast xs @ [last xs])" using assms by simp_all
  then show "x \<le> last xs" by (auto simp: sorted_wrt_append less_imp_le)
qed

lemma bit_positions_Nil_iff: "bit_positions w = [] \<longleftrightarrow> w = 0"
proof -
  have "bit_positions w = [] \<longleftrightarrow> {n. bit w n} = {}" by (metis set_bit_positions set_empty)
  also have "\<dots> \<longleftrightarrow> w = 0" by (metis (mono_tags) bit_0_eq bit_word_eqI bot_apply bot_bool_def empty_Collect_eq)
  finally show ?thesis .
qed

lemma hd_bit_positions: "w \<noteq> 0 \<Longrightarrow> hd (bit_positions w) = ctz w"
proof -
  assume "w \<noteq> 0"
  moreover have "bit w (hd (bit_positions w))"
    using hd_in_set[of "bit_positions w"] \<open>w \<noteq> 0\<close> by (simp add: bit_positions_Nil_iff set_bit_positions)
  moreover have "hd (bit_positions w) \<le> ctz w"
    using strict_sorted_ends(1)[OF sorted_bit_positions] ctz_bit(1)[OF \<open>w \<noteq> 0\<close>] by (simp add: set_bit_positions)
  ultimately show ?thesis using ctz_bit(2) by (metis le_neq_implies_less)
qed

lemma last_bit_positions:
  assumes "(w :: u64) \<noteq> 0"
  shows "last (bit_positions w) = 63 - leading_zeros w"
proof -
  let ?L = "bit_len (unat w)"
  have pos: "0 < unat w" using assms by (simp add: unat_gt_0)
  have L: "0 < ?L" "?L \<le> 64" using pos bit_len_word_le[of w] by simp_all
  have "63 - leading_zeros w = ?L - 1" using L by (simp add: leading_zeros_def)
  moreover have top: "bit w (?L - 1)"
  proof -
    have "unat w < 2 * 2 ^ (?L - 1)" using bit_len_upper[of "unat w"] L by (metis Suc_diff_1 power_Suc)
    then have "unat w div 2 ^ (?L - 1) = 1"
      using bit_len_lower[OF pos] by (intro div_nat_eqI) simp_all
    then have "bit (unat w) (?L - 1)" by (simp add: bit_iff_odd)
    then show ?thesis by (simp add: bit_unsigned_iff)
  qed
  moreover have above: "n \<le> ?L - 1" if "bit w n" for n
  proof (rule ccontr)
    assume "\<not> n \<le> ?L - 1"
    then have "(2 :: nat) ^ ?L \<le> 2 ^ n" by simp
    then have "unat w div 2 ^ n = 0" using bit_len_upper[of "unat w"] by (simp add: order.strict_trans2)
    then have "\<not> bit (unat w) n" by (simp add: bit_iff_odd)
    then show False using that by (simp add: bit_unsigned_iff bit_imp_le_length)
  qed
  moreover have "bit w (last (bit_positions w))"
    using last_in_set[of "bit_positions w"] assms by (simp add: bit_positions_Nil_iff set_bit_positions)
  moreover have "?L - 1 \<le> last (bit_positions w)"
    using strict_sorted_ends(2)[OF sorted_bit_positions] top by (simp add: set_bit_positions)
  ultimately show ?thesis by (metis le_antisym)
qed

lemma bitmap_min_correct: "bitmap_min store = array_min (words_values (bs_bits store))"
proof -
  have "map_option (\<lambda>(i, w). of_nat (i * 64 + ctz w)) (find (\<lambda>(_, w). w \<noteq> 0) (enumerate 0 ws)) = array_min (words_values ws)"
    for ws :: "u64 list"
  proof (induction ws rule: rev_induct)
    case Nil
    show ?case by (simp add: words_values_def array_min_def)
  next
    case (snoc w ws)
    have find: "find P (xs @ ys) = (case find P xs of None \<Rightarrow> find P ys | Some x \<Rightarrow> Some x)" for P and xs ys :: "(nat \<times> u64) list"
      by (induction xs) auto
    show ?case
    proof (cases "words_values ws")
      case Nil
      then have none: "find (\<lambda>(_, w). w \<noteq> 0) (enumerate 0 ws) = None" using snoc by (simp add: array_min_def)
      show ?thesis
      proof (cases "w = 0")
        case True
        then show ?thesis using Nil none by (simp add: enumerate_append_eq find words_values_snoc array_min_def bit_positions_def)
      next
        case False
        then obtain xs where "bit_positions w = ctz w # xs" using hd_bit_positions bit_positions_Nil_iff by (metis list.exhaust_sel)
        then show ?thesis using Nil none False
          by (simp add: enumerate_append_eq find words_values_snoc array_min_def add.commute mult.commute)
      qed
    next
      case (Cons x xs)
      then show ?thesis using snoc by (auto simp: enumerate_append_eq find words_values_snoc array_min_def split: option.splits)
    qed
  qed
  then show ?thesis by (simp add: bitmap_min_def)
qed

lemma bitmap_max_correct: "bitmap_max store = array_max (words_values (bs_bits store))"
proof -
  have "map_option (\<lambda>(i, w). of_nat (i * 64 + (63 - leading_zeros w)))
      (find (\<lambda>(_, w). w \<noteq> 0) (rev (enumerate 0 ws))) = array_max (words_values ws)" for ws :: "u64 list"
  proof (induction ws rule: rev_induct)
    case Nil
    show ?case by (simp add: words_values_def array_max_def)
  next
    case (snoc w ws)
    show ?case
    proof (cases "w = 0")
      case True
      then show ?thesis using snoc by (simp add: enumerate_append_eq words_values_snoc bit_positions_def)
    next
      case False
      then show ?thesis using last_bit_positions[OF False]
        by (simp add: enumerate_append_eq words_values_snoc array_max_def last_opt_def bit_positions_Nil_iff last_map
            add.commute mult.commute)
    qed
  qed
  then show ?thesis by (simp add: bitmap_max_def)
qed

section \<open>Stores as sets\<close>

fun store_set :: "store \<Rightarrow> nat set" where
  "store_set (Array vec) = unat ` set vec"
| "store_set (Bitmap bits) = words_set (bs_bits bits)"

fun store_ok :: "store \<Rightarrow> bool" where
  "store_ok (Array vec) \<longleftrightarrow> sorted_wrt (<) vec"
| "store_ok (Bitmap bits) \<longleftrightarrow> bitmap_ok bits"

text \<open>Up to 4096 values a canonical store is an array, above it a bitmap.\<close>

fun canonical_store :: "store \<Rightarrow> bool" where
  "canonical_store (Array vec) \<longleftrightarrow> sorted_wrt (<) vec \<and> length vec \<le> 4096"
| "canonical_store (Bitmap bits) \<longleftrightarrow> bitmap_ok bits \<and> 4096 < unat (bs_len bits)"

lemma unat_u16_inject [simp]: "unat (x :: u16) = unat y \<longleftrightarrow> x = y"
  by (rule word_unat_eq_iff[symmetric])

lemma unat_mem_iff [simp]: "unat x \<in> unat ` set vec \<longleftrightarrow> (x :: u16) \<in> set vec"
  by (auto simp: image_iff)

lemma canonical_ok: "canonical_store s \<Longrightarrow> store_ok s"
  by (cases s) simp_all

lemma finite_store_set [simp]: "finite (store_set s)"
  by (cases s) simp_all

lemma store_set_bound:
  assumes "store_ok s"
  shows "store_set s \<subseteq> {..<65536}"
proof (cases s)
  case (Array vec)
  then show ?thesis using unat_u16_less by auto
next
  case (Bitmap bits)
  then show ?thesis using assms words_set_bound[of _ "bs_bits bits"] by (auto simp: bitmap_ok_def)
qed

lemma store_len_card: "store_ok s \<Longrightarrow> unat (store_len s) = card (store_set s)"
proof (cases s)
  case (Array vec)
  assume "store_ok s"
  then have "sorted_wrt (<) vec" using Array by simp
  then have "length vec \<le> 65536" "card (unat ` set vec) = length vec"
    using u16_list_length card_unat_set strict_sorted_distinct by blast+
  then show ?thesis using Array by (simp add: unat_of_nat_less)
qed (simp add: bitmap_ok_def)

lemma store_is_empty_iff: "store_ok s \<Longrightarrow> store_is_empty s \<longleftrightarrow> store_set s = {}"
proof (cases s)
  case (Bitmap bits)
  assume "store_ok s"
  then have "unat (bs_len bits) = card (words_set (bs_bits bits))" using Bitmap by (simp add: bitmap_ok_def)
  then show ?thesis using Bitmap by (metis card_0_eq finite_words_set store_is_empty.simps(2) store_set.simps(2) unat_eq_zero)
qed simp

lemma store_insert_correct:
  assumes "store_ok s"
  shows "store_ok (fst (store_insert i s))" and "store_set (fst (store_insert i s)) = insert (unat i) (store_set s)"
    and "snd (store_insert i s) \<longleftrightarrow> unat i \<notin> store_set s"
  using assms array_insert_correct[of _ i] bitmap_insert_correct[of _ i]
  by (cases s; simp add: case_prod_unfold Let_def)+

lemma store_remove_correct:
  assumes "store_ok s"
  shows "store_ok (fst (store_remove i s))" and "store_set (fst (store_remove i s)) = store_set s - {unat i}"
    and "snd (store_remove i s) \<longleftrightarrow> unat i \<in> store_set s"
  using assms array_remove_correct[of _ i] bitmap_remove_correct[of _ i]
  by (cases s; auto simp: case_prod_unfold Let_def sorted_wrt_filter)+

lemma store_contains_correct: "store_ok s \<Longrightarrow> store_contains i s \<longleftrightarrow> unat i \<in> store_set s"
  by (cases s) (simp_all add: array_contains_correct bitmap_contains_correct)

lemma unat_image_atLeastAtMost: "unat ` {a..b :: u16} = {unat a..unat b}"
proof (rule set_eqI)
  fix n
  show "n \<in> unat ` {a..b} \<longleftrightarrow> n \<in> {unat a..unat b}"
  proof
    assume n: "n \<in> {unat a..unat b}"
    then have "n < 2 ^ 16" using unat_u16_less[of b] by simp
    then have "unat (of_nat n :: u16) = n" by (simp add: unat_of_nat_less)
    then show "n \<in> unat ` {a..b}" using n by (intro image_eqI[of _ _ "of_nat n"]) (auto simp: word_le_nat_alt)
  qed (auto simp: word_le_nat_alt)
qed

lemma store_insert_range_correct:
  assumes "store_ok s" and "a \<le> b"
  shows "store_ok (fst (store_insert_range a b s))"
    and "store_set (fst (store_insert_range a b s)) = store_set s \<union> {unat a..unat b}"
  using assms array_insert_range_correct[OF _ assms(2)] bitmap_insert_range_correct[OF _ assms(2)]
  by (cases s; auto simp: store_insert_range_def case_prod_unfold Let_def image_Un unat_image_atLeastAtMost)+

lemma store_bitor_correct:
  assumes "store_ok s" and "store_ok t"
  shows "store_ok (store_bitor_assign s t) \<and> store_set (store_bitor_assign s t) = store_set s \<union> store_set t"
proof (cases s; cases t)
  fix b1 b2 assume "s = Bitmap b1" "t = Bitmap b2"
  then show ?thesis using assms op_bitmaps_correct[of b1 b2 "(OR)" "(\<or>)"] by (auto simp: bit_or_iff)
qed (use assms in \<open>auto simp: scalar_or_set scalar_or_sorted bitmap_or_array_correct image_Un\<close>)

lemma store_bitand_correct:
  assumes "store_ok s" and "store_ok t"
  shows "store_ok (store_bitand_assign s t) \<and> store_set (store_bitand_assign s t) = store_set s \<inter> store_set t"
proof (cases s; cases t)
  fix b1 b2 assume "s = Bitmap b1" "t = Bitmap b2"
  then show ?thesis using assms op_bitmaps_correct[of b1 b2 "(AND)" "(\<and>)"] by (auto simp: bit_and_iff)
next
  fix v1 v2 assume "s = Array v1" "t = Array v2"
  then show ?thesis using assms by (auto simp: and_retain_correct sorted_wrt_filter image_iff)
qed (use assms in \<open>auto simp: bitmap_contains_correct sorted_wrt_filter\<close>)

lemma store_sub_correct:
  assumes "store_ok s" and "store_ok t"
  shows "store_ok (store_sub_assign s t) \<and> store_set (store_sub_assign s t) = store_set s - store_set t"
proof (cases s; cases t)
  fix b1 b2 assume "s = Bitmap b1" "t = Bitmap b2"
  then show ?thesis using assms op_bitmaps_correct[of b1 b2 "\<lambda>l r. l AND NOT r" "\<lambda>p q. p \<and> \<not> q"]
    by (auto simp: bit_and_iff bit_not_iff)
next
  fix v1 v2 assume "s = Array v1" "t = Array v2"
  then show ?thesis using assms by (auto simp: sub_retain_correct sorted_wrt_filter)
qed (use assms in \<open>auto simp: bitmap_contains_correct bitmap_sub_array_correct sorted_wrt_filter\<close>)

lemma correct_store_correct:
  assumes "store_ok s"
  shows "canonical_store (correct_store s) \<and> store_set (correct_store s) = store_set s"
proof (cases s)
  case (Array vec)
  then have "sorted_wrt (<) vec" using assms by simp
  moreover have "unat (of_nat (length vec) :: u64) = length vec"
    using u16_list_length[OF \<open>sorted_wrt (<) vec\<close>] by (simp add: unat_of_nat_less)
  ultimately show ?thesis using Array to_bitmap_store_correct[of vec]
    by (auto simp: ARRAY_LIMIT_def word_less_nat_alt to_bitmap_store_def)
next
  case (Bitmap bits)
  then have ok: "bitmap_ok bits" using assms by simp
  note arr = to_array_store_correct[OF ok]
  have "length (to_array_store bits) = unat (bs_len bits)"
    using card_unat_set[OF strict_sorted_distinct[OF arr(1)]] arr(2) ok by (simp add: bitmap_ok_def)
  then show ?thesis using Bitmap ok arr by (auto simp: ARRAY_LIMIT_def word_le_nat_alt)
qed

text \<open>A canonical store is determined by its set.\<close>

lemma canonical_store_unique:
  assumes "canonical_store s" and "canonical_store t" and "store_set s = store_set t"
  shows "s = t"
proof -
  have card: "unat (store_len s) = unat (store_len t)"
    using store_len_card[OF canonical_ok[OF assms(1)]] store_len_card[OF canonical_ok[OF assms(2)]] assms(3) by simp
  have short: "unat (of_nat (length v) :: u64) = length v" if "length v \<le> 4096" for v :: "u16 list"
    using that by (simp add: unat_of_nat_less)
  show ?thesis
  proof (cases s; cases t)
    fix v1 v2 assume st: "s = Array v1" "t = Array v2"
    have "inj (unat :: u16 \<Rightarrow> nat)" by (simp add: inj_def)
    then have "set v1 = set v2" using assms(3) st by (simp add: inj_image_eq_iff)
    then show ?thesis using st assms strict_sorted_unique[of v1 v2] by simp
  next
    fix b1 b2 assume st: "s = Bitmap b1" "t = Bitmap b2"
    then have "bs_bits b1 = bs_bits b2" using assms by (intro words_set_inject) (auto simp: bitmap_ok_def)
    moreover have "bs_len b1 = bs_len b2" using st card by (simp add: word_unat_eq_iff)
    ultimately show ?thesis using st by simp
  next
    fix v b assume st: "s = Array v" "t = Bitmap b"
    then show ?thesis using assms card short[of v] by simp
  next
    fix b v assume st: "s = Bitmap b" "t = Array v"
    then show ?thesis using assms card short[of v] by simp
  qed
qed

end
