(* ===== verification/Roaring_Bitmap.thy ===== *)
theory Roaring_Bitmap
  imports Roaring_Store
begin

text \<open>
  Roaring bitmaps, \<^verbatim>\<open>src/vendor/roaring/src/bitmap/{util,inherent,ops,cmp,multiops}.rs\<close>:
  a vector of containers sorted by the high half of their values.  Every
  operation the indexer uses is shown to be the operation on sets of \<^verbatim>\<open>u32\<close> and
  to keep the representation canonical, so that two bitmaps are equal exactly
  when their sets are.
\<close>

section \<open>Containers\<close>

definition container_ok :: "container \<Rightarrow> bool" where
  "container_ok c \<longleftrightarrow> canonical_store (ct_store c) \<and> store_set (ct_store c) \<noteq> {}"

definition container_set :: "container \<Rightarrow> nat set" where
  "container_set c = (\<lambda>x. 65536 * unat (ct_key c) + x) ` store_set (ct_store c)"

lemma ensure_correct_key [simp]: "ct_key (ensure_correct_store c) = ct_key c"
  by (simp add: ensure_correct_store_def)

lemma ensure_correct_canonical:
  "store_ok (ct_store c) \<Longrightarrow> canonical_store (ct_store (ensure_correct_store c))
     \<and> store_set (ct_store (ensure_correct_store c)) = store_set (ct_store c)"
  using correct_store_correct[of "ct_store c"] by (simp add: ensure_correct_store_def)

lemma container_insert_correct:
  assumes "canonical_store (ct_store c)"
  shows "ct_key (fst (container_insert i c)) = ct_key c" and "canonical_store (ct_store (fst (container_insert i c)))"
    and "store_set (ct_store (fst (container_insert i c))) = insert (unat i) (store_set (ct_store c))"
    and "snd (container_insert i c) \<longleftrightarrow> unat i \<notin> store_set (ct_store c)"
proof -
  obtain s f where sf: "store_insert i (ct_store c) = (s, f)" by fastforce
  note ins = store_insert_correct[OF canonical_ok[OF assms], of i, unfolded sf, simplified]
  have same: "s = ct_store c" if "\<not> f"
  proof (cases "ct_store c")
    case (Array vec)
    then show ?thesis using that sf by (auto simp: array_insert_def split: sum.splits)
  next
    case (Bitmap bits)
    then have mem: "unat i \<in> words_set (bs_bits bits)" and ok: "bitmap_ok bits" using ins(3) that assms by simp_all
    have "bs_bits bits ! key i OR push_bit (bit_of i) 1 = bs_bits bits ! key i"
      using mem ok by (intro bit_word_eqI) (auto simp: bit_or_single mem_words_set bitmap_ok_def)
    then show ?thesis using sf Bitmap by (auto simp: bitmap_insert_def Let_def)
  qed
  show "ct_key (fst (container_insert i c)) = ct_key c" by (cases f) (simp_all add: container_insert_def sf)
  show "canonical_store (ct_store (fst (container_insert i c)))"
    using ensure_correct_canonical[of "c\<lparr>ct_store := s\<rparr>"] ins(1) same assms by (cases f) (auto simp: container_insert_def sf)
  show "store_set (ct_store (fst (container_insert i c))) = insert (unat i) (store_set (ct_store c))"
    using ensure_correct_canonical[of "c\<lparr>ct_store := s\<rparr>"] ins by (cases f) (auto simp: container_insert_def sf)
  show "snd (container_insert i c) \<longleftrightarrow> unat i \<notin> store_set (ct_store c)"
    using ins(3) by (cases f) (auto simp: container_insert_def sf)
qed

lemma container_op_correct:
  assumes "canonical_store (ct_store c)" and "canonical_store (ct_store d)"
  shows "canonical_store (ct_store (container_bitor_assign c d))
      \<and> store_set (ct_store (container_bitor_assign c d)) = store_set (ct_store c) \<union> store_set (ct_store d)"
    and "canonical_store (ct_store (container_bitand_assign c d))
      \<and> store_set (ct_store (container_bitand_assign c d)) = store_set (ct_store c) \<inter> store_set (ct_store d)"
    and "canonical_store (ct_store (container_sub_assign c d))
      \<and> store_set (ct_store (container_sub_assign c d)) = store_set (ct_store c) - store_set (ct_store d)"
proof -
  note ok = canonical_ok[OF assms(1)] canonical_ok[OF assms(2)]
  note store_bitor_correct[OF ok] store_bitand_correct[OF ok] store_sub_correct[OF ok]
  then show "canonical_store (ct_store (container_bitor_assign c d))
      \<and> store_set (ct_store (container_bitor_assign c d)) = store_set (ct_store c) \<union> store_set (ct_store d)"
    "canonical_store (ct_store (container_bitand_assign c d))
      \<and> store_set (ct_store (container_bitand_assign c d)) = store_set (ct_store c) \<inter> store_set (ct_store d)"
    "canonical_store (ct_store (container_sub_assign c d))
      \<and> store_set (ct_store (container_sub_assign c d)) = store_set (ct_store c) - store_set (ct_store d)"
    using ensure_correct_canonical
    by (simp_all add: container_bitor_assign_def container_bitand_assign_def container_sub_assign_def)
qed

lemma container_op_key [simp]:
  "ct_key (container_bitor_assign c d) = ct_key c" "ct_key (container_bitand_assign c d) = ct_key c"
  "ct_key (container_sub_assign c d) = ct_key c"
  by (simp_all add: container_bitor_assign_def container_bitand_assign_def container_sub_assign_def)

section \<open>Bitmaps\<close>

type_synonym roaring = "container list"

definition split :: "u32 \<Rightarrow> u16 \<times> u16" where
  "split v = (ucast (drop_bit 16 v), ucast v)"

definition join :: "u16 \<Rightarrow> u16 \<Rightarrow> u32" where
  "join high low = push_bit 16 (ucast high) + ucast low"

definition search_key :: "u16 \<Rightarrow> roaring \<Rightarrow> usize + usize" where
  "search_key k cs = binary_search (map ct_key cs) k"

definition roaring_insert :: "u32 \<Rightarrow> roaring \<Rightarrow> roaring \<times> bool" where
  "roaring_insert v cs =
     (let (k, i) = split v;
          (cs, loc) = (case search_key k cs of Inr loc \<Rightarrow> (cs, loc) | Inl loc \<Rightarrow> (vec_insert loc (container_new k) cs, loc));
          (c, fresh) = container_insert i (cs ! loc)
      in (cs[loc := c], fresh))"

definition roaring_remove :: "u32 \<Rightarrow> roaring \<Rightarrow> roaring \<times> bool" where
  "roaring_remove v cs =
     (let (k, i) = split v
      in case search_key k cs of
           Inr loc \<Rightarrow>
             (let (c, gone) = container_remove i (cs ! loc)
              in if gone then (if container_is_empty c then vec_remove loc cs else cs[loc := c], True) else (cs[loc := c], False))
         | Inl _ \<Rightarrow> (cs, False))"

definition roaring_contains :: "u32 \<Rightarrow> roaring \<Rightarrow> bool" where
  "roaring_contains v cs =
     (let (k, i) = split v
      in case search_key k cs of Inr loc \<Rightarrow> container_contains i (cs ! loc) | Inl _ \<Rightarrow> False)"

definition roaring_len :: "roaring \<Rightarrow> u64" where
  "roaring_len cs = sum_list (map container_len cs)"

definition roaring_is_empty :: "roaring \<Rightarrow> bool" where
  "roaring_is_empty cs \<longleftrightarrow> cs = []"

definition roaring_min :: "roaring \<Rightarrow> u32 option" where
  "roaring_min cs =
     (case cs of [] \<Rightarrow> None | c # _ \<Rightarrow> map_option (join (ct_key c)) (store_min (ct_store c)))"

definition roaring_max :: "roaring \<Rightarrow> u32 option" where
  "roaring_max cs =
     Option.bind (last_opt cs) (\<lambda>c. map_option (join (ct_key c)) (store_max (ct_store c)))"

text \<open>\<^verbatim>\<open>|=\<close> by reference, and by value after swapping for the bigger map.\<close>

fun bitor_assign :: "roaring \<Rightarrow> roaring \<Rightarrow> roaring" where
  "bitor_assign cs [] = cs"
| "bitor_assign cs (c # rhs) =
     (case search_key (ct_key c) cs of
        Inl loc \<Rightarrow> bitor_assign (vec_insert loc c cs) rhs
      | Inr loc \<Rightarrow> bitor_assign (cs[loc := container_bitor_assign (cs ! loc) c]) rhs)"

definition bitor_assign_owned :: "roaring \<Rightarrow> roaring \<Rightarrow> roaring" where
  "bitor_assign_owned cs rhs =
     (if roaring_len cs < roaring_len rhs then bitor_assign rhs cs else bitor_assign cs rhs)"

text \<open>\<^verbatim>\<open>&=\<close> and \<^verbatim>\<open>-=\<close>: the closures of \<^verbatim>\<open>retain_mut\<close> change a container and decide whether it stays.\<close>

definition bitand_assign :: "roaring \<Rightarrow> roaring \<Rightarrow> roaring" where
  "bitand_assign cs rhs =
     concat (map (\<lambda>c. case search_key (ct_key c) rhs of
         Inr loc \<Rightarrow> (let c = container_bitand_assign c (rhs ! loc) in if \<not> container_is_empty c then [c] else [])
       | Inl _ \<Rightarrow> []) cs)"

definition bitand_assign_owned :: "roaring \<Rightarrow> roaring \<Rightarrow> roaring" where
  "bitand_assign_owned cs rhs = (if length rhs < length cs then bitand_assign rhs cs else bitand_assign cs rhs)"

definition sub_assign :: "roaring \<Rightarrow> roaring \<Rightarrow> roaring" where
  "sub_assign cs rhs =
     concat (map (\<lambda>c. case search_key (ct_key c) rhs of
         Inr loc \<Rightarrow> (let c = container_sub_assign c (rhs ! loc) in if \<not> container_is_empty c then [c] else [])
       | Inl _ \<Rightarrow> [c]) cs)"

text \<open>The union of many borrowed bitmaps (\<^verbatim>\<open>MultiOps::union\<close>), with copy-on-write erased.\<close>

fun store_to_bitmap :: "store \<Rightarrow> store" where
  "store_to_bitmap (Array vec) = Bitmap (to_bitmap_store vec)"
| "store_to_bitmap (Bitmap bits) = Bitmap bits"

fun merge_store :: "store \<Rightarrow> store \<Rightarrow> store" where
  "merge_store (Array vec1) (Array vec2) = store_bitor_assign (store_to_bitmap (Array vec1)) (Array vec2)"
| "merge_store (Array vec1) (Bitmap bits2) = store_bitor_assign (Bitmap bits2) (Array vec1)"
| "merge_store (Bitmap bits1) rhs = store_bitor_assign (Bitmap bits1) rhs"

fun merge_container_ref :: "roaring \<Rightarrow> roaring \<Rightarrow> roaring" where
  "merge_container_ref cs [] = cs"
| "merge_container_ref cs (r # rhs) =
     (case search_key (ct_key r) cs of
        Inl loc \<Rightarrow> merge_container_ref (vec_insert loc r cs) rhs
      | Inr loc \<Rightarrow>
          merge_container_ref (cs[loc := (cs ! loc)\<lparr>ct_store := merge_store (ct_store (cs ! loc)) (ct_store r)\<rparr>]) rhs)"

definition collect_count :: "usize \<Rightarrow> usize" where
  "collect_count n = (if 50 < n then 10 else n)"

text \<open>
  The starting elements are sorted by falling number of containers.  The order
  of equal ones is not specified; the result does not depend on it.
\<close>

definition multi_or_ref :: "roaring list \<Rightarrow> roaring" where
  "multi_or_ref bitmaps =
     (let n = collect_count (length bitmaps)
      in case sort_key (\<lambda>b. - int (length b)) (take n bitmaps) of
           [] \<Rightarrow> []
         | c # start \<Rightarrow>
             let start = (if c = [] then [] else start)
             in map ensure_correct_store
                  (filter (\<lambda>c. \<not> container_is_empty c) (foldl merge_container_ref c (start @ drop n bitmaps))))"

section \<open>Bitmaps as sets\<close>

definition slot :: "roaring \<Rightarrow> u16 \<Rightarrow> nat set" where
  "slot cs k = \<Union> (store_set ` ct_store ` {c \<in> set cs. ct_key c = k})"

definition roaring_set :: "roaring \<Rightarrow> nat set" where
  "roaring_set cs = {n. n < 2 ^ 32 \<and> n mod 65536 \<in> slot cs (of_nat (n div 65536))}"

definition sorted_containers :: "roaring \<Rightarrow> bool" where
  "sorted_containers cs \<longleftrightarrow> sorted_wrt (<) (map ct_key cs)"

definition roaring_ok :: "roaring \<Rightarrow> bool" where
  "roaring_ok cs \<longleftrightarrow> sorted_containers cs \<and> (\<forall>c \<in> set cs. container_ok c)"

lemma slot_Nil [simp]: "slot [] k = {}"
  by (simp add: slot_def)

lemma slot_Cons: "slot (c # cs) k = (if ct_key c = k then store_set (ct_store c) else {}) \<union> slot cs k"
  by (auto simp: slot_def)

lemma slot_mem: "sorted_containers cs \<Longrightarrow> c \<in> set cs \<Longrightarrow> slot cs (ct_key c) = store_set (ct_store c)"
proof (induction cs)
  case (Cons d cs)
  show ?case
  proof (cases "c = d")
    case True
    have "\<forall>x \<in> set cs. ct_key x \<noteq> ct_key d" using Cons.prems(1) by (auto simp: sorted_containers_def)
    then have "slot cs (ct_key d) = {}" by (auto simp: slot_def)
    then show ?thesis by (simp add: slot_Cons True)
  next
    case False
    then have "c \<in> set cs" "ct_key d < ct_key c" using Cons.prems by (auto simp: sorted_containers_def)
    then show ?thesis using Cons by (auto simp: slot_Cons sorted_containers_def)
  qed
qed simp

lemma slot_nonempty_iff: "roaring_ok cs \<Longrightarrow> slot cs k \<noteq> {} \<longleftrightarrow> k \<in> ct_key ` set cs"
  by (auto simp: slot_def roaring_ok_def container_ok_def)

lemma search_key_Inr: "search_key k cs = Inr loc \<Longrightarrow> loc < length cs \<and> ct_key (cs ! loc) = k"
  using binary_search_Inr[of "map ct_key cs" k loc] by (auto simp: search_key_def)

lemma search_key_slot:
  assumes "sorted_containers cs"
  shows "search_key k cs = Inr loc \<Longrightarrow> slot cs k = store_set (ct_store (cs ! loc))"
    and "search_key k cs = Inl loc \<Longrightarrow> slot cs k = {}"
proof -
  show "slot cs k = store_set (ct_store (cs ! loc))" if "search_key k cs = Inr loc"
    using slot_mem[OF assms, of "cs ! loc"] search_key_Inr[OF that] by auto
  show "slot cs k = {}" if "search_key k cs = Inl loc"
    using binary_search_Inl(1)[of "map ct_key cs" k loc] assms that by (auto simp: search_key_def sorted_containers_def slot_def)
qed

lemma vec_insert_container:
  assumes "sorted_containers cs" and "search_key (ct_key c) cs = Inl loc"
  shows "sorted_containers (vec_insert loc c cs)" and "set (vec_insert loc c cs) = insert c (set cs)"
    and "slot (vec_insert loc c cs) k = (if k = ct_key c then store_set (ct_store c) else slot cs k)"
    and "vec_insert loc c cs ! loc = c" and "loc < length (vec_insert loc c cs)"
proof -
  have bs: "binary_search (map ct_key cs) (ct_key c) = Inl loc" and sorted: "sorted_wrt (<) (map ct_key cs)"
    using assms by (simp_all add: search_key_def sorted_containers_def)
  have loc: "loc \<le> length cs" using binary_search_end_le[of "map ct_key cs" "ct_key c"] bs by simp
  have "map ct_key (vec_insert loc c cs) = vec_insert loc (ct_key c) (map ct_key cs)"
    by (simp add: vec_insert_def take_map drop_map)
  then show "sorted_containers (vec_insert loc c cs)"
    using sorted_vec_insert(1)[OF sorted bs] by (simp add: sorted_containers_def)
  show set: "set (vec_insert loc c cs) = insert c (set cs)"
    by (simp add: vec_insert_def) (metis Un_insert_right append_take_drop_id set_append)
  have "slot cs (ct_key c) = {}" using search_key_slot(2)[OF assms] .
  then show "slot (vec_insert loc c cs) k = (if k = ct_key c then store_set (ct_store c) else slot cs k)"
    unfolding slot_def set by auto
  show "vec_insert loc c cs ! loc = c" "loc < length (vec_insert loc c cs)" using loc by (simp_all add: vec_insert_def nth_append)
qed

lemma update_container:
  assumes "sorted_containers cs" and "loc < length cs" and "ct_key c = ct_key (cs ! loc)"
  shows "sorted_containers (cs[loc := c])"
    and "slot (cs[loc := c]) k = (if k = ct_key c then store_set (ct_store c) else slot cs k)"
proof -
  have "map ct_key (cs[loc := c]) = map ct_key cs" using assms(2,3) by (metis list_update_id map_update nth_map)
  then show sorted: "sorted_containers (cs[loc := c])" using assms(1) by (simp add: sorted_containers_def)
  have mem: "c \<in> set (cs[loc := c])" using assms(2) by (simp add: set_update_memI)
  show "slot (cs[loc := c]) k = (if k = ct_key c then store_set (ct_store c) else slot cs k)"
  proof (cases "k = ct_key c")
    case True
    then show ?thesis using slot_mem[OF sorted mem] by simp
  next
    case False
    have "{d \<in> set (cs[loc := c]). ct_key d = k} = {d \<in> set cs. ct_key d = k}"
    proof (intro set_eqI iffI)
      fix d assume "d \<in> {d \<in> set (cs[loc := c]). ct_key d = k}"
      then show "d \<in> {d \<in> set cs. ct_key d = k}" using False set_update_subset_insert[of cs loc c] by auto
    next
      fix d assume "d \<in> {d \<in> set cs. ct_key d = k}"
      then obtain i where "i < length cs" "cs ! i = d" "ct_key d = k" by (auto simp: in_set_conv_nth)
      then show "d \<in> {d \<in> set (cs[loc := c]). ct_key d = k}"
        using False assms by (cases "i = loc") (auto simp: in_set_conv_nth intro!: exI[of _ i])
    qed
    then show ?thesis using False by (simp add: slot_def)
  qed
qed

lemma update_container_ok:
  assumes "roaring_ok cs" and "loc < length cs" and "ct_key c = ct_key (cs ! loc)" and "container_ok c"
  shows "roaring_ok (cs[loc := c])"
  using assms update_container(1)[of cs loc c] set_update_subset_insert[of cs loc c] by (auto simp: roaring_ok_def)

lemma roaring_set_eqI: "(\<And>k. slot cs k = slot ds k) \<Longrightarrow> roaring_set cs = roaring_set ds"
  by (simp add: roaring_set_def)

subsection \<open>Splitting a value\<close>

lemma split_value:
  assumes "split v = (k, i)"
  shows "unat k = unat v div 65536" and "unat i = unat v mod 65536"
proof -
  have small: "unat v div 65536 < 65536" using unsigned_less[of v, where ?'a = nat] by (simp add: less_mult_imp_div_less)
  show "unat k = unat v div 65536"
    using assms small by (auto simp: split_def unsigned_ucast_eq unat_drop_bit_eq drop_bit_eq_div take_bit_eq_mod unat_div)
  show "unat i = unat v mod 65536"
    using assms by (auto simp: split_def unsigned_ucast_eq take_bit_eq_mod)
qed

lemma high_eq_iff: "n < 2 ^ 32 \<Longrightarrow> (of_nat (n div 65536) :: u16) = k \<longleftrightarrow> n div 65536 = unat k"
proof -
  assume "n < 2 ^ 32"
  then have "n div 65536 < 2 ^ 16" by (simp add: less_mult_imp_div_less)
  then have "unat (of_nat (n div 65536) :: u16) = n div 65536" by (simp add: unsigned_of_nat take_bit_eq_mod)
  then show ?thesis by (metis word_unat_eq_iff)
qed

lemma value_eq_iff:
  assumes "split v = (k, i)" and "n < 2 ^ 32"
  shows "(of_nat (n div 65536) :: u16) = k \<and> n mod 65536 = unat i \<longleftrightarrow> n = unat v"
  unfolding high_eq_iff[OF assms(2)] split_value[OF assms(1)] by (metis div_mult_mod_eq)

lemma mem_roaring_set: "split v = (k, i) \<Longrightarrow> unat v \<in> roaring_set cs \<longleftrightarrow> unat i \<in> slot cs k"
  using unsigned_less[of v, where ?'a = nat] value_eq_iff[of v k i "unat v"] by (auto simp: roaring_set_def)

lemma join_value: "unat (join k i) = 65536 * unat k + unat i"
proof -
  have bound: "65536 * unat k + unat i < 2 ^ 32" using unat_u16_less[of k] unat_u16_less[of i] by simp
  have "join k i = of_nat (65536 * unat k + unat i)"
    by (simp add: join_def push_bit_eq_mult mult.commute)
  moreover have "unat (of_nat n :: u32) = n" if "n < 2 ^ 32" for n using that by (simp add: unsigned_of_nat take_bit_eq_mod)
  ultimately show ?thesis using bound by (simp only:)
qed

section \<open>Operations are set operations\<close>

lemma roaring_contains_correct:
  assumes "roaring_ok cs"
  shows "roaring_contains v cs \<longleftrightarrow> unat v \<in> roaring_set cs"
proof -
  obtain k i where ki: "split v = (k, i)" by fastforce
  have sorted: "sorted_containers cs" using assms by (simp add: roaring_ok_def)
  show ?thesis
  proof (cases "search_key k cs")
    case (Inl loc)
    then show ?thesis using search_key_slot(2)[OF sorted Inl] by (simp add: roaring_contains_def ki mem_roaring_set[OF ki])
  next
    case (Inr loc)
    then have "store_ok (ct_store (cs ! loc))"
      using search_key_Inr[OF Inr] assms by (auto simp: roaring_ok_def container_ok_def intro: canonical_ok)
    then show ?thesis using Inr search_key_slot(1)[OF sorted Inr]
      by (simp add: roaring_contains_def ki mem_roaring_set[OF ki] container_contains_def store_contains_correct)
  qed
qed

lemma open_container:
  assumes "roaring_ok cs"
    and ds: "(case search_key k cs of Inr loc \<Rightarrow> (cs, loc) | Inl loc \<Rightarrow> (vec_insert loc (container_new k) cs, loc)) = (ds, loc)"
  shows "sorted_containers ds \<and> loc < length ds \<and> ct_key (ds ! loc) = k \<and> canonical_store (ct_store (ds ! loc))
      \<and> (\<forall>k'. slot ds k' = slot cs k') \<and> (\<forall>c \<in> set ds. c = ds ! loc \<or> container_ok c)"
proof -
  have sorted: "sorted_containers cs" using assms by (simp add: roaring_ok_def)
  have new: "ct_key (container_new k) = k" "store_set (ct_store (container_new k)) = {}" "canonical_store (ct_store (container_new k))"
    by (simp_all add: container_new_def store_new_def)
  show ?thesis
  proof (cases "search_key k cs")
    case (Inl l)
    then have "search_key (ct_key (container_new k)) cs = Inl l" by (simp add: new)
    note v = vec_insert_container[OF sorted this]
    have "slot (vec_insert l (container_new k) cs) k' = slot cs k'" for k'
      using v(3)[of k'] search_key_slot(2)[OF sorted Inl] by (simp add: new)
    then show ?thesis using ds Inl v(1,2,4,5) new assms by (auto simp: roaring_ok_def)
  next
    case (Inr l)
    then have "cs ! l \<in> set cs" using search_key_Inr[OF Inr] by simp
    then show ?thesis using ds Inr search_key_Inr[OF Inr] sorted assms by (auto simp: roaring_ok_def container_ok_def)
  qed
qed

lemma replace_container_ok:
  assumes "sorted_containers ds" and "loc < length ds" and "\<forall>c \<in> set ds. c = ds ! loc \<or> container_ok c" and "container_ok c"
  shows "\<forall>e \<in> set (ds[loc := c]). container_ok e"
proof
  fix e assume "e \<in> set (ds[loc := c])"
  then obtain j where j: "j < length ds" "e = ds[loc := c] ! j" by (auto simp: in_set_conv_nth)
  show "container_ok e"
  proof (cases "j = loc")
    case False
    have "ds ! j \<noteq> ds ! loc" using assms(1,2) j False
      by (metis (no_types, opaque_lifting) distinct_map nth_eq_iff_index_eq sorted_containers_def strict_sorted_distinct)
    then show ?thesis using assms(3) j False by (auto simp: nth_mem)
  qed (use j assms in simp)
qed

lemma roaring_insert_correct:
  assumes "roaring_ok cs"
  shows "roaring_ok (fst (roaring_insert v cs))" and "roaring_set (fst (roaring_insert v cs)) = insert (unat v) (roaring_set cs)"
    and "snd (roaring_insert v cs) \<longleftrightarrow> unat v \<notin> roaring_set cs"
proof -
  obtain k i where ki: "split v = (k, i)" by fastforce
  obtain ds loc where ds: "(case search_key k cs of Inr loc \<Rightarrow> (cs, loc) | Inl loc \<Rightarrow> (vec_insert loc (container_new k) cs, loc)) = (ds, loc)"
    by fastforce
  note d = open_container[OF assms ds]
  define c where "c = fst (container_insert i (ds ! loc))"
  have res: "roaring_insert v cs = (ds[loc := c], snd (container_insert i (ds ! loc)))"
    using ds by (simp add: roaring_insert_def ki Let_def c_def split: sum.splits prod.splits)
  note ins = container_insert_correct[of "ds ! loc" i, folded c_def]
  have c: "ct_key c = k" "container_ok c" "store_set (ct_store c) = insert (unat i) (slot cs k)"
    using ins d slot_mem[of ds "ds ! loc"] by (auto simp: container_ok_def)
  have up: "sorted_containers (ds[loc := c])" "\<And>k'. slot (ds[loc := c]) k' = (if k' = k then insert (unat i) (slot cs k) else slot cs k')"
    using update_container[of ds loc c] d c by auto
  have "\<forall>e \<in> set (ds[loc := c]). container_ok e" using replace_container_ok d c(2) by blast
  then show "roaring_ok (fst (roaring_insert v cs))" using up by (simp add: res roaring_ok_def)
  show "roaring_set (fst (roaring_insert v cs)) = insert (unat v) (roaring_set cs)"
    using value_eq_iff[OF ki] unsigned_less[of v, where ?'a = nat] by (auto simp: res roaring_set_def up)
  show "snd (roaring_insert v cs) \<longleftrightarrow> unat v \<notin> roaring_set cs"
    using ins(4) d slot_mem[of ds "ds ! loc"] by (simp add: res mem_roaring_set[OF ki])
qed

lemma container_remove_correct:
  assumes "canonical_store (ct_store c)"
  shows "ct_key (fst (container_remove i c)) = ct_key c" and "canonical_store (ct_store (fst (container_remove i c)))"
    and "store_set (ct_store (fst (container_remove i c))) = store_set (ct_store c) - {unat i}"
    and "snd (container_remove i c) \<longleftrightarrow> unat i \<in> store_set (ct_store c)"
proof -
  obtain s f where sf: "store_remove i (ct_store c) = (s, f)" by fastforce
  note rem = store_remove_correct[OF canonical_ok[OF assms], of i, unfolded sf, simplified]
  have same: "s = ct_store c" if "\<not> f"
  proof (cases "ct_store c")
    case (Array vec)
    then show ?thesis using that sf by (auto simp: array_remove_def split: sum.splits)
  next
    case (Bitmap bits)
    then have mem: "unat i \<notin> words_set (bs_bits bits)" and ok: "bitmap_ok bits" using rem(3) that assms by simp_all
    have "bs_bits bits ! key i AND NOT (push_bit (bit_of i) 1) = bs_bits bits ! key i"
      using mem ok by (intro bit_word_eqI) (auto simp: bit_clear_single mem_words_set bitmap_ok_def)
    then show ?thesis using sf Bitmap that by (auto simp: bitmap_remove_def Let_def)
  qed
  show "ct_key (fst (container_remove i c)) = ct_key c" by (cases f) (simp_all add: container_remove_def sf)
  show "canonical_store (ct_store (fst (container_remove i c)))"
    using ensure_correct_canonical[of "c\<lparr>ct_store := s\<rparr>"] rem(1) same assms by (cases f) (auto simp: container_remove_def sf)
  show "store_set (ct_store (fst (container_remove i c))) = store_set (ct_store c) - {unat i}"
    using ensure_correct_canonical[of "c\<lparr>ct_store := s\<rparr>"] rem by (cases f) (auto simp: container_remove_def sf)
  show "snd (container_remove i c) \<longleftrightarrow> unat i \<in> store_set (ct_store c)"
    using rem(3) by (cases f) (auto simp: container_remove_def sf)
qed

lemma vec_remove_container:
  assumes "sorted_containers cs" and "loc < length cs"
  shows "sorted_containers (vec_remove loc cs)" and "set (vec_remove loc cs) \<subseteq> set cs"
    and "slot (vec_remove loc cs) k = (if k = ct_key (cs ! loc) then {} else slot cs k)"
proof -
  have cs: "cs = take loc cs @ cs ! loc # drop (Suc loc) cs" by (rule id_take_nth_drop[OF assms(2)])
  have rem: "vec_remove loc cs = take loc cs @ drop (Suc loc) cs" by (simp add: vec_remove_def)
  have ord: "sorted_wrt (<) (map ct_key (take loc cs) @ ct_key (cs ! loc) # map ct_key (drop (Suc loc) cs))"
    using assms(1) cs by (metis list.simps(9) map_append sorted_containers_def)
  then show "sorted_containers (vec_remove loc cs)" by (simp add: rem sorted_containers_def sorted_wrt_append)
  show "set (vec_remove loc cs) \<subseteq> set cs" using set_take_subset[of loc cs] set_drop_subset[of "Suc loc" cs] by (simp add: rem)
  have "set cs = insert (cs ! loc) (set (vec_remove loc cs))"
    unfolding rem by (subst cs) simp
  moreover have "\<forall>c \<in> set (vec_remove loc cs). ct_key c \<noteq> ct_key (cs ! loc)"
    using ord by (auto simp: rem sorted_wrt_append)
  ultimately show "slot (vec_remove loc cs) k = (if k = ct_key (cs ! loc) then {} else slot cs k)"
    unfolding slot_def by auto
qed

lemma roaring_remove_correct:
  assumes "roaring_ok cs"
  shows "roaring_ok (fst (roaring_remove v cs))" and "roaring_set (fst (roaring_remove v cs)) = roaring_set cs - {unat v}"
    and "snd (roaring_remove v cs) \<longleftrightarrow> unat v \<in> roaring_set cs"
proof -
  obtain k i where ki: "split v = (k, i)" by fastforce
  have sorted: "sorted_containers cs" using assms by (simp add: roaring_ok_def)
  have *: "roaring_ok (fst (roaring_remove v cs))
     \<and> (\<forall>k'. slot (fst (roaring_remove v cs)) k' = (if k' = k then slot cs k - {unat i} else slot cs k'))
     \<and> (snd (roaring_remove v cs) \<longleftrightarrow> unat i \<in> slot cs k)"
  proof (cases "search_key k cs")
    case (Inl loc)
    then show ?thesis using search_key_slot(2)[OF sorted Inl] assms by (auto simp: roaring_remove_def ki)
  next
    case (Inr loc)
    note loc = search_key_Inr[OF Inr]
    obtain c gone where c: "container_remove i (cs ! loc) = (c, gone)" by fastforce
    have can: "canonical_store (ct_store (cs ! loc))" "store_set (ct_store (cs ! loc)) \<noteq> {}"
      using loc assms by (auto simp: roaring_ok_def container_ok_def)
    note rem = container_remove_correct[OF can(1), of i, unfolded c, simplified]
    have sl: "slot cs k = store_set (ct_store (cs ! loc))" by (rule search_key_slot(1)[OF sorted Inr])
    have emp: "container_is_empty c \<longleftrightarrow> store_set (ct_store c) = {}"
      using rem(2) by (simp add: container_is_empty_def store_is_empty_iff canonical_ok)
    show ?thesis
    proof (cases "gone \<and> container_is_empty c")
      case True
      then show ?thesis using Inr c vec_remove_container[of cs loc] sorted loc assms rem emp sl
        by (auto simp: roaring_remove_def ki roaring_ok_def)
    next
      case False
      then have "container_ok c" using rem can emp by (auto simp: container_ok_def)
      then have "roaring_ok (cs[loc := c])" using update_container_ok[OF assms] loc rem(1) by simp
      then show ?thesis using False Inr c update_container(2)[of cs loc c] sorted loc rem sl
        by (auto simp: roaring_remove_def ki)
    qed
  qed
  then show "roaring_ok (fst (roaring_remove v cs))" by blast
  show "roaring_set (fst (roaring_remove v cs)) = roaring_set cs - {unat v}"
    using value_eq_iff[OF ki] * by (auto simp: roaring_set_def)
  show "snd (roaring_remove v cs) \<longleftrightarrow> unat v \<in> roaring_set cs" using * by (simp add: mem_roaring_set[OF ki])
qed

subsection \<open>Union, intersection and difference\<close>

lemma bitor_assign_slots:
  assumes "roaring_ok cs" and "\<forall>c \<in> set rhs. container_ok c"
  shows "roaring_ok (bitor_assign cs rhs) \<and> (\<forall>k. slot (bitor_assign cs rhs) k = slot cs k \<union> slot rhs k)"
  using assms
proof (induction rhs arbitrary: cs)
  case (Cons c rhs)
  have sorted: "sorted_containers cs" and c: "container_ok c" using Cons.prems by (simp_all add: roaring_ok_def)
  show ?case
  proof (cases "search_key (ct_key c) cs")
    case (Inl loc)
    note v = vec_insert_container[OF sorted Inl]
    have "roaring_ok (vec_insert loc c cs)" using v(1,2) c Cons.prems(1) by (simp add: roaring_ok_def)
    moreover have "slot (vec_insert loc c cs) k = slot cs k \<union> slot [c] k" for k
      using v(3)[of k] search_key_slot(2)[OF sorted Inl] by (auto simp: slot_Cons)
    ultimately show ?thesis using Cons Inl by (auto simp: slot_Cons)
  next
    case (Inr loc)
    note loc = search_key_Inr[OF Inr]
    let ?d = "container_bitor_assign (cs ! loc) c"
    have "container_ok (cs ! loc)" using loc Cons.prems(1) by (auto simp: roaring_ok_def)
    then have d: "container_ok ?d" "store_set (ct_store ?d) = slot cs (ct_key c) \<union> store_set (ct_store c)"
      using container_op_correct(1)[of "cs ! loc" c] c search_key_slot(1)[OF sorted Inr] by (auto simp: container_ok_def)
    have "roaring_ok (cs[loc := ?d])" using update_container_ok[OF Cons.prems(1)] loc d(1) by simp
    moreover have "slot (cs[loc := ?d]) k = slot cs k \<union> slot [c] k" for k
      using update_container(2)[OF sorted, of loc ?d k] loc d(2) by (auto simp: slot_Cons)
    ultimately show ?thesis using Cons Inr by (auto simp: slot_Cons)
  qed
qed simp

lemma slot_append: "slot (as @ bs) k = slot as k \<union> slot bs k"
  by (auto simp: slot_def)

lemma roaring_set_op:
  assumes "\<And>k. slot cs k = slot as k \<union> slot bs k"
  shows "roaring_set cs = roaring_set as \<union> roaring_set bs"
  using assms by (auto simp: roaring_set_def)

lemma bitor_assign_correct:
  assumes "roaring_ok cs" and "roaring_ok rhs"
  shows "roaring_ok (bitor_assign cs rhs)" and "roaring_set (bitor_assign cs rhs) = roaring_set cs \<union> roaring_set rhs"
  using bitor_assign_slots[of cs rhs] assms by (auto simp: roaring_ok_def intro!: roaring_set_op)

text \<open>What \<^verbatim>\<open>retain_mut\<close> keeps: a container is dropped, or changed under its key.\<close>

lemma retain_sorted:
  assumes "sorted_containers cs" and "\<forall>c \<in> set cs. f c = [] \<or> (\<exists>d. f c = [d] \<and> ct_key d = ct_key c)"
  shows "sorted_containers (concat (map f cs))"
  using assms
proof (induction cs)
  case (Cons c cs)
  have "ct_key c < ct_key e" if e: "e \<in> set (concat (map f cs))" for e
  proof -
    obtain d where d: "d \<in> set cs" "e \<in> set (f d)" using e by auto
    then have "ct_key e = ct_key d" using Cons.prems(2)[THEN bspec, of d] by auto
    then show ?thesis using Cons.prems(1) d(1) by (simp add: sorted_containers_def)
  qed
  then show ?case using Cons by (auto simp: sorted_containers_def)
qed (simp add: sorted_containers_def)

lemma retain_slot:
  assumes "\<forall>c \<in> set cs. slot (f c) k = slot [c] k \<inter> A"
  shows "slot (concat (map f cs)) k = slot cs k \<inter> A"
  using assms by (induction cs) (auto simp: slot_append slot_Cons)

lemma bitand_assign_correct:
  assumes "roaring_ok cs" and "roaring_ok rhs"
  shows "roaring_ok (bitand_assign cs rhs)" and "roaring_set (bitand_assign cs rhs) = roaring_set cs \<inter> roaring_set rhs"
proof -
  define f where "f = (\<lambda>c. case search_key (ct_key c) rhs of
         Inr loc \<Rightarrow> (let c = container_bitand_assign c (rhs ! loc) in if \<not> container_is_empty c then [c] else [])
       | Inl _ \<Rightarrow> [])"
  have res: "bitand_assign cs rhs = concat (map f cs)" by (simp add: bitand_assign_def f_def)
  have f: "(f c = [] \<or> (\<exists>d. f c = [d] \<and> ct_key d = ct_key c \<and> container_ok d))
      \<and> slot (f c) k = slot [c] k \<inter> slot rhs k" if "c \<in> set cs" for c k
  proof (cases "search_key (ct_key c) rhs")
    case (Inl loc)
    then show ?thesis using search_key_slot(2)[OF _ Inl] assms(2) by (auto simp: f_def roaring_ok_def slot_Cons)
  next
    case (Inr loc)
    have "container_ok (rhs ! loc)" "container_ok c" using search_key_Inr[OF Inr] that assms by (auto simp: roaring_ok_def)
    then show ?thesis using Inr container_op_correct(2)[of c "rhs ! loc"] search_key_slot(1)[OF _ Inr] assms(2)
      by (auto simp: f_def roaring_ok_def slot_Cons container_ok_def container_is_empty_def store_is_empty_iff canonical_ok)
  qed
  show "roaring_ok (bitand_assign cs rhs)"
    using retain_sorted[of cs f] f assms(1) by (fastforce simp: res roaring_ok_def)
  show "roaring_set (bitand_assign cs rhs) = roaring_set cs \<inter> roaring_set rhs"
    using retain_slot[of cs f] f by (auto simp: res roaring_set_def)
qed

lemma sub_assign_correct:
  assumes "roaring_ok cs" and "roaring_ok rhs"
  shows "roaring_ok (sub_assign cs rhs)" and "roaring_set (sub_assign cs rhs) = roaring_set cs - roaring_set rhs"
proof -
  define f where "f = (\<lambda>c. case search_key (ct_key c) rhs of
         Inr loc \<Rightarrow> (let c = container_sub_assign c (rhs ! loc) in if \<not> container_is_empty c then [c] else [])
       | Inl _ \<Rightarrow> [c])"
  have res: "sub_assign cs rhs = concat (map f cs)" by (simp add: sub_assign_def f_def)
  have f: "(f c = [] \<or> (\<exists>d. f c = [d] \<and> ct_key d = ct_key c \<and> container_ok d))
      \<and> slot (f c) k = slot [c] k \<inter> - slot rhs k" if "c \<in> set cs" for c k
  proof (cases "search_key (ct_key c) rhs")
    case (Inl loc)
    then show ?thesis using search_key_slot(2)[OF _ Inl] that assms by (auto simp: f_def roaring_ok_def slot_Cons)
  next
    case (Inr loc)
    have "container_ok (rhs ! loc)" "container_ok c" using search_key_Inr[OF Inr] that assms by (auto simp: roaring_ok_def)
    then show ?thesis using Inr container_op_correct(3)[of c "rhs ! loc"] search_key_slot(1)[OF _ Inr] assms(2)
      by (auto simp: f_def roaring_ok_def slot_Cons container_ok_def container_is_empty_def store_is_empty_iff canonical_ok)
  qed
  show "roaring_ok (sub_assign cs rhs)"
    using retain_sorted[of cs f] f assms(1) by (fastforce simp: res roaring_ok_def)
  show "roaring_set (sub_assign cs rhs) = roaring_set cs - roaring_set rhs"
    using retain_slot[of cs f] f by (auto simp: res roaring_set_def)
qed

lemma owned_ops_correct:
  assumes "roaring_ok cs" and "roaring_ok rhs"
  shows "roaring_ok (bitor_assign_owned cs rhs)" "roaring_set (bitor_assign_owned cs rhs) = roaring_set cs \<union> roaring_set rhs"
    "roaring_ok (bitand_assign_owned cs rhs)" "roaring_set (bitand_assign_owned cs rhs) = roaring_set cs \<inter> roaring_set rhs"
  using bitor_assign_correct[OF assms] bitor_assign_correct[OF assms(2,1)] bitand_assign_correct[OF assms] bitand_assign_correct[OF assms(2,1)]
  by (auto simp: bitor_assign_owned_def bitand_assign_owned_def)

subsection \<open>The union of many\<close>

text \<open>While many maps are merged, stores need not have the form their size calls for.\<close>

definition loose_ok :: "roaring \<Rightarrow> bool" where
  "loose_ok cs \<longleftrightarrow> sorted_containers cs \<and> (\<forall>c \<in> set cs. store_ok (ct_store c))"

lemma roaring_ok_loose: "roaring_ok cs \<Longrightarrow> loose_ok cs"
  by (auto simp: roaring_ok_def loose_ok_def container_ok_def canonical_ok)

lemma merge_store_correct:
  assumes "store_ok s" and "store_ok t"
  shows "store_ok (merge_store s t)" and "store_set (merge_store s t) = store_set s \<union> store_set t"
proof -
  have "store_ok (merge_store s t) \<and> store_set (merge_store s t) = store_set s \<union> store_set t"
    using assms to_bitmap_store_correct store_bitor_correct[of "Bitmap b" u for b u]
    by (cases s; cases t) (simp_all add: Un_commute del: store_bitor_assign.simps)
  then show "store_ok (merge_store s t)" "store_set (merge_store s t) = store_set s \<union> store_set t" by blast+
qed

lemma merge_container_ref_correct:
  assumes "loose_ok cs" and "\<forall>c \<in> set rhs. store_ok (ct_store c)"
  shows "loose_ok (merge_container_ref cs rhs) \<and> (\<forall>k. slot (merge_container_ref cs rhs) k = slot cs k \<union> slot rhs k)"
  using assms
proof (induction rhs arbitrary: cs)
  case (Cons c rhs)
  have sorted: "sorted_containers cs" and c: "store_ok (ct_store c)" using Cons.prems by (simp_all add: loose_ok_def)
  show ?case
  proof (cases "search_key (ct_key c) cs")
    case (Inl loc)
    note v = vec_insert_container[OF sorted Inl]
    have "loose_ok (vec_insert loc c cs)" using v(1,2) c Cons.prems(1) by (simp add: loose_ok_def)
    moreover have "slot (vec_insert loc c cs) k = slot cs k \<union> slot [c] k" for k
      using v(3)[of k] search_key_slot(2)[OF sorted Inl] by (auto simp: slot_Cons)
    ultimately show ?thesis using Cons Inl by (auto simp: slot_Cons)
  next
    case (Inr loc)
    note loc = search_key_Inr[OF Inr]
    let ?d = "(cs ! loc)\<lparr>ct_store := merge_store (ct_store (cs ! loc)) (ct_store c)\<rparr>"
    have "store_ok (ct_store (cs ! loc))" using loc Cons.prems(1) by (auto simp: loose_ok_def)
    then have d: "store_ok (ct_store ?d)" "store_set (ct_store ?d) = slot cs (ct_key c) \<union> store_set (ct_store c)"
      using merge_store_correct[of "ct_store (cs ! loc)" "ct_store c"] c search_key_slot(1)[OF sorted Inr] by simp_all
    have "loose_ok (cs[loc := ?d])" using update_container(1)[OF sorted, of loc ?d] loc d(1) Cons.prems(1)
        set_update_subset_insert[of cs loc ?d] by (auto simp: loose_ok_def)
    moreover have "slot (cs[loc := ?d]) k = slot cs k \<union> slot [c] k" for k
      using update_container(2)[OF sorted, of loc ?d k] loc d(2) by (auto simp: slot_Cons)
    ultimately show ?thesis using Cons Inr by (auto simp: slot_Cons)
  qed
qed simp

lemma merge_all_correct:
  assumes "loose_ok cs" and "\<forall>b \<in> set bs. loose_ok b"
  shows "loose_ok (foldl merge_container_ref cs bs)
     \<and> (\<forall>k. slot (foldl merge_container_ref cs bs) k = slot cs k \<union> (\<Union>b \<in> set bs. slot b k))"
  using assms
proof (induction bs arbitrary: cs)
  case (Cons b bs)
  have "\<forall>c \<in> set b. store_ok (ct_store c)" using Cons.prems(2) by (simp add: loose_ok_def)
  note m = merge_container_ref_correct[OF Cons.prems(1) this]
  then show ?case using Cons.IH[of "merge_container_ref cs b"] Cons.prems(2) by auto
qed simp

lemma tidy_correct:
  assumes "loose_ok cs"
  defines "ds \<equiv> map ensure_correct_store (filter (\<lambda>c. \<not> container_is_empty c) cs)"
  shows "roaring_ok ds" and "slot ds k = slot cs k"
proof -
  have "sorted_containers (filter (\<lambda>c. \<not> container_is_empty c) cs)"
    using assms by (auto simp: loose_ok_def sorted_containers_def sorted_wrt_map intro: sorted_wrt_filter)
  then show "roaring_ok ds" using assms ensure_correct_canonical
    by (auto simp: ds_def roaring_ok_def sorted_containers_def comp_def loose_ok_def container_ok_def
        container_is_empty_def store_is_empty_iff)
  have "\<forall>c \<in> set cs. store_ok (ct_store c)" using assms(1) by (simp add: loose_ok_def)
  then show "slot ds k = slot cs k"
    unfolding ds_def
    by (induction cs) (auto simp: slot_Cons ensure_correct_canonical container_is_empty_def store_is_empty_iff)
qed

lemma multi_or_ref_correct:
  assumes "\<forall>b \<in> set bs. roaring_ok b"
  shows "roaring_ok (multi_or_ref bs)" and "roaring_set (multi_or_ref bs) = (\<Union>b \<in> set bs. roaring_set b)"
proof -
  let ?n = "collect_count (length bs)" and ?key = "\<lambda>b :: roaring. - int (length b)"
  have set: "set (sort_key ?key (take ?n bs)) \<union> set (drop ?n bs) = set bs"
    using set_append[of "take ?n bs" "drop ?n bs"] by simp
  have *: "roaring_ok (multi_or_ref bs) \<and> (\<forall>k. slot (multi_or_ref bs) k = (\<Union>b \<in> set bs. slot b k))"
  proof (cases "sort_key ?key (take ?n bs)")
    case Nil
    then have "take ?n bs = []" using set_sort[of ?key "take ?n bs"] by simp
    then have "bs = []" by (auto simp: collect_count_def split: if_splits)
    then show ?thesis by (simp add: multi_or_ref_def collect_count_def roaring_ok_def sorted_containers_def)
  next
    case (Cons c rest)
    define start where "start = (if c = [] then [] else rest)"
    have sub: "set (start @ drop ?n bs) \<subseteq> set bs" "c \<in> set bs" using set Cons by (auto simp: start_def split: if_splits)
    have empty: "\<forall>b \<in> set rest. b = []" if "c = []"
      using sorted_sort_key[of ?key "take ?n bs"] Cons that by auto
    have all: "slot c k \<union> (\<Union>b \<in> set (start @ drop ?n bs). slot b k) = (\<Union>b \<in> set bs. slot b k)" for k
    proof -
      have "(\<Union>b \<in> set rest. slot b k) = (\<Union>b \<in> set start. slot b k)" using empty by (cases "c = []") (auto simp: start_def)
      then show ?thesis unfolding set[symmetric] Cons by auto
    qed
    have "loose_ok c" "\<forall>b \<in> set (start @ drop ?n bs). loose_ok b" using sub assms by (auto intro: roaring_ok_loose)
    note m = merge_all_correct[OF this]
    have "multi_or_ref bs = map ensure_correct_store
                  (filter (\<lambda>c. \<not> container_is_empty c) (foldl merge_container_ref c (start @ drop ?n bs)))"
      by (simp add: multi_or_ref_def Let_def Cons start_def)
    then show ?thesis using tidy_correct[OF m[THEN conjunct1]] m all by simp
  qed
  then show "roaring_ok (multi_or_ref bs)" by blast
  show "roaring_set (multi_or_ref bs) = (\<Union>b \<in> set bs. roaring_set b)" using * by (auto simp: roaring_set_def)
qed

section \<open>Equality, cardinality and extremes\<close>

lemma slot_bound: "loose_ok cs \<Longrightarrow> slot cs k \<subseteq> {..<65536}"
  using store_set_bound by (force simp: slot_def loose_ok_def)

lemma slot_of_roaring_set:
  assumes "loose_ok cs"
  shows "slot cs k = {x. x < 65536 \<and> 65536 * unat k + x \<in> roaring_set cs}"
proof -
  have "65536 * unat k + x \<in> roaring_set cs \<longleftrightarrow> x \<in> slot cs k" if "x < 65536" for x
  proof -
    have "65536 * unat k + x < 2 ^ 32" using unat_u16_less[of k] that by simp
    moreover have "(65536 * unat k + x) div 65536 = unat k" "(65536 * unat k + x) mod 65536 = x" using that by simp_all
    ultimately show ?thesis by (simp add: roaring_set_def)
  qed
  then show ?thesis using slot_bound[OF assms] by auto
qed

lemma container_eqI: "ct_key c = ct_key d \<Longrightarrow> ct_store c = ct_store d \<Longrightarrow> c = (d :: container)"
  by (cases c; cases d) simp

lemma roaring_unique:
  assumes "roaring_ok cs" and "roaring_ok ds" and "roaring_set cs = roaring_set ds"
  shows "cs = ds"
proof -
  have slots: "slot cs k = slot ds k" for k
    using slot_of_roaring_set roaring_ok_loose assms by simp
  have "set (map ct_key cs) = set (map ct_key ds)"
    using slot_nonempty_iff[OF assms(1)] slot_nonempty_iff[OF assms(2)] slots by auto
  then have keys: "map ct_key cs = map ct_key ds"
    using assms(1,2) strict_sorted_unique[of "map ct_key cs" "map ct_key ds"] by (simp add: roaring_ok_def sorted_containers_def)
  show ?thesis
  proof (rule nth_equalityI)
    show len: "length cs = length ds" using keys map_eq_imp_length_eq by blast
    fix i assume i: "i < length cs"
    have key: "ct_key (cs ! i) = ct_key (ds ! i)" using keys i len by (metis nth_map)
    have "store_set (ct_store (cs ! i)) = store_set (ct_store (ds ! i))"
      using slot_mem[of cs "cs ! i"] slot_mem[of ds "ds ! i"] slots key i len assms(1,2) by (simp add: roaring_ok_def)
    then have "ct_store (cs ! i) = ct_store (ds ! i)"
      using canonical_store_unique[of "ct_store (cs ! i)" "ct_store (ds ! i)"] i len assms(1,2)
      by (simp add: roaring_ok_def container_ok_def)
    then show "cs ! i = ds ! i" using key by (rule container_eqI[rotated])
  qed
qed

lemma roaring_set_Nil [simp]: "roaring_set [] = {}"
  by (simp add: roaring_set_def)

lemma roaring_set_Cons:
  assumes "store_ok (ct_store c)"
  shows "roaring_set (c # cs) = container_set c \<union> roaring_set cs"
proof -
  have set: "n \<in> container_set c \<longleftrightarrow> n < 2 ^ 32 \<and> of_nat (n div 65536) = ct_key c \<and> n mod 65536 \<in> store_set (ct_store c)" for n
  proof
    assume "n \<in> container_set c"
    then obtain x where x: "x \<in> store_set (ct_store c)" "n = 65536 * unat (ct_key c) + x" by (auto simp: container_set_def)
    then have "x < 65536" using store_set_bound[OF assms] by auto
    then show "n < 2 ^ 32 \<and> of_nat (n div 65536) = ct_key c \<and> n mod 65536 \<in> store_set (ct_store c)"
      using x unat_u16_less[of "ct_key c"] by simp
  next
    assume n: "n < 2 ^ 32 \<and> of_nat (n div 65536) = ct_key c \<and> n mod 65536 \<in> store_set (ct_store c)"
    then have "n = 65536 * unat (ct_key c) + n mod 65536" using high_eq_iff[of n "ct_key c"] by (metis mult_div_mod_eq)
    then show "n \<in> container_set c" using n unfolding container_set_def by blast
  qed
  show ?thesis
  proof (rule set_eqI)
    fix n
    show "n \<in> roaring_set (c # cs) \<longleftrightarrow> n \<in> container_set c \<union> roaring_set cs"
      unfolding set Un_iff by (cases "of_nat (n div 65536) = ct_key c") (auto simp: roaring_set_def slot_Cons)
  qed
qed

lemma container_set_less:
  assumes "sorted_containers (c # cs)" and "\<forall>d \<in> set (c # cs). store_ok (ct_store d)"
    and "m \<in> container_set c" and "n \<in> roaring_set cs"
  shows "m < n"
proof -
  obtain d where d: "d \<in> set cs" "ct_key d = of_nat (n div 65536)" "n < 2 ^ 32"
    using assms(4) by (auto simp: roaring_set_def slot_def)
  then have n: "n div 65536 = unat (ct_key d)" using high_eq_iff by metis
  have "ct_key c < ct_key d" using assms(1) d(1) by (simp add: sorted_containers_def)
  then have lt: "unat (ct_key c) < unat (ct_key d)" by (simp add: word_less_nat_alt)
  have "m < 65536 * unat (ct_key c) + 65536" using assms(2,3) store_set_bound[of "ct_store c"] by (auto simp: container_set_def)
  then have "m div 65536 < Suc (unat (ct_key c))" by (simp add: less_mult_imp_div_less)
  then have "m div 65536 < n div 65536" using n lt by linarith
  then show ?thesis by (meson div_le_mono leD leI)
qed

lemma finite_roaring_set [simp]: "finite (roaring_set cs)"
  by (rule finite_subset[of _ "{..<2 ^ 32}"]) (auto simp: roaring_set_def)

lemma card_roaring_set:
  assumes "loose_ok cs"
  shows "card (roaring_set cs) = sum_list (map (\<lambda>c. card (store_set (ct_store c))) cs)"
  using assms
proof (induction cs)
  case (Cons c cs)
  have ok: "sorted_containers (c # cs)" "\<forall>d \<in> set (c # cs). store_ok (ct_store d)" using Cons.prems by (simp_all add: loose_ok_def)
  have "card (roaring_set (c # cs)) = card (container_set c) + card (roaring_set cs)"
    using container_set_less[OF ok] ok(2)
    by (subst roaring_set_Cons) (auto intro!: card_Un_disjoint simp: container_set_def)
  moreover have "card (container_set c) = card (store_set (ct_store c))"
    by (simp add: container_set_def card_image inj_on_def)
  moreover have "loose_ok cs" using Cons.prems by (auto simp: loose_ok_def sorted_containers_def)
  ultimately show ?case using Cons.IH by simp
qed simp

lemma roaring_len_correct:
  assumes "loose_ok cs"
  shows "unat (roaring_len cs) = card (roaring_set cs)"
proof -
  have "roaring_len cs = of_nat (sum_list (map (\<lambda>c. card (store_set (ct_store c))) cs))"
    using assms
  proof (induction cs)
    case (Cons c cs)
    have "store_ok (ct_store c)" using Cons.prems by (simp add: loose_ok_def)
    then have "of_nat (unat (container_len c)) = (of_nat (card (store_set (ct_store c))) :: u64)"
      by (simp only: container_len_def store_len_card)
    then have "container_len c = of_nat (card (store_set (ct_store c)))" by simp
    moreover have "loose_ok cs" using Cons.prems by (auto simp: loose_ok_def sorted_containers_def)
    ultimately show ?case using Cons.IH by (simp add: roaring_len_def)
  qed (simp add: roaring_len_def)
  also have "\<dots> = of_nat (card (roaring_set cs))" using card_roaring_set[OF assms] by simp
  finally have len: "roaring_len cs = of_nat (card (roaring_set cs))" .
  have "card (roaring_set cs) \<le> card {..<2 ^ 32 :: nat}" by (rule card_mono) (auto simp: roaring_set_def)
  then show ?thesis by (simp add: len unsigned_of_nat take_bit_eq_mod)
qed

lemma roaring_is_empty_iff: "roaring_ok cs \<Longrightarrow> roaring_is_empty cs \<longleftrightarrow> roaring_set cs = {}"
  by (cases cs) (auto simp: roaring_is_empty_def roaring_set_Cons roaring_ok_def container_ok_def canonical_ok container_set_def)

lemma array_extremes:
  assumes "sorted_wrt (<) (vec :: u16 list)" and "vec \<noteq> []"
  shows "\<exists>m. array_min vec = Some m \<and> unat m = Min (unat ` set vec)" and "\<exists>m. array_max vec = Some m \<and> unat m = Max (unat ` set vec)"
proof -
  obtain x xs where x: "vec = x # xs" using assms(2) by (cases vec) auto
  then have "\<forall>y \<in> set xs. unat x \<le> unat y" using assms(1) by (auto simp: word_less_nat_alt)
  then have "Min (unat ` set vec) = unat x" by (intro Min_eqI) (auto simp: x)
  then show "\<exists>m. array_min vec = Some m \<and> unat m = Min (unat ` set vec)" by (simp add: array_min_def x)
  obtain ys y where y: "vec = ys @ [y]" using assms(2) by (cases vec rule: rev_cases) auto
  then have "\<forall>z \<in> set ys. unat z \<le> unat y" using assms(1) by (auto simp: sorted_wrt_append word_less_nat_alt)
  then have "Max (unat ` set vec) = unat y" by (intro Max_eqI) (auto simp: y)
  then show "\<exists>m. array_max vec = Some m \<and> unat m = Max (unat ` set vec)" by (simp add: array_max_def last_opt_def y)
qed

lemma store_extremes:
  assumes "store_ok s" and "store_set s \<noteq> {}"
  shows "\<exists>m. store_min s = Some m \<and> unat m = Min (store_set s)" and "\<exists>m. store_max s = Some m \<and> unat m = Max (store_set s)"
proof -
  have "(\<exists>m. store_min s = Some m \<and> unat m = Min (store_set s)) \<and> (\<exists>m. store_max s = Some m \<and> unat m = Max (store_set s))"
  proof (cases s)
    case (Array vec)
    then show ?thesis using array_extremes[of vec] assms by auto
  next
    case (Bitmap bits)
    have v: "sorted_wrt (<) (words_values (bs_bits bits))" "unat ` set (words_values (bs_bits bits)) = words_set (bs_bits bits)"
      using words_values_correct[of "bs_bits bits"] assms(1) Bitmap by (simp_all add: bitmap_ok_def)
    then have "words_values (bs_bits bits) \<noteq> []" using assms(2) Bitmap by auto
    from array_extremes[OF v(1) this] show ?thesis by (simp add: Bitmap bitmap_min_correct bitmap_max_correct v(2))
  qed
  then show "\<exists>m. store_min s = Some m \<and> unat m = Min (store_set s)" "\<exists>m. store_max s = Some m \<and> unat m = Max (store_set s)" by blast+
qed

lemma container_extremes:
  assumes "store_ok (ct_store c)" and "store_set (ct_store c) \<noteq> {}"
  shows "map_option unat (map_option (join (ct_key c)) (store_min (ct_store c))) = Some (Min (container_set c))"
    and "map_option unat (map_option (join (ct_key c)) (store_max (ct_store c))) = Some (Max (container_set c))"
proof -
  have mono: "mono (\<lambda>x. 65536 * unat (ct_key c) + x)" by (simp add: mono_def)
  show "map_option unat (map_option (join (ct_key c)) (store_min (ct_store c))) = Some (Min (container_set c))"
    using store_extremes(1)[OF assms] mono_Min_commute[OF mono finite_store_set assms(2)]
    by (auto simp: join_value container_set_def)
  show "map_option unat (map_option (join (ct_key c)) (store_max (ct_store c))) = Some (Max (container_set c))"
    using store_extremes(2)[OF assms] mono_Max_commute[OF mono finite_store_set assms(2)]
    by (auto simp: join_value container_set_def)
qed

lemma roaring_min_correct:
  assumes "roaring_ok cs"
  shows "map_option unat (roaring_min cs) = (if roaring_set cs = {} then None else Some (Min (roaring_set cs)))"
proof (cases cs)
  case (Cons c ds)
  have ok: "sorted_containers (c # ds)" "\<forall>d \<in> set (c # ds). store_ok (ct_store d)" "store_set (ct_store c) \<noteq> {}"
    using assms by (auto simp: Cons roaring_ok_def container_ok_def canonical_ok)
  have set: "roaring_set cs = container_set c \<union> roaring_set ds" using ok(2) by (simp add: Cons roaring_set_Cons)
  have ne: "container_set c \<noteq> {}" "finite (container_set c)" using ok(3) by (simp_all add: container_set_def)
  have "Min (roaring_set cs) = Min (container_set c)"
    using container_set_less[OF ok(1,2)] ne
    by (intro Min_eqI) (auto simp: set less_imp_le Min_in dest: Min_in)
  moreover have "roaring_set cs \<noteq> {}" using set ne by blast
  ultimately show ?thesis using container_extremes(1)[of c] ok by (simp add: roaring_min_def Cons)
qed (simp add: roaring_min_def)

lemma roaring_set_append:
  assumes "\<forall>c \<in> set (cs @ ds). store_ok (ct_store c)"
  shows "roaring_set (cs @ ds) = roaring_set cs \<union> roaring_set ds"
  using assms by (induction cs) (auto simp: roaring_set_Cons)

lemma roaring_max_correct:
  assumes "roaring_ok cs"
  shows "map_option unat (roaring_max cs) = (if roaring_set cs = {} then None else Some (Max (roaring_set cs)))"
proof (cases cs rule: rev_cases)
  case (snoc ds c)
  have ok: "sorted_containers (ds @ [c])" "\<forall>d \<in> set (ds @ [c]). store_ok (ct_store d)" "store_set (ct_store c) \<noteq> {}"
    using assms by (auto simp: snoc roaring_ok_def container_ok_def canonical_ok)
  have set: "roaring_set cs = roaring_set ds \<union> container_set c"
    unfolding snoc roaring_set_append[OF ok(2)] using ok(2) by (simp add: roaring_set_Cons)
  have ne: "container_set c \<noteq> {}" "finite (container_set c)" using ok(3) by (simp_all add: container_set_def)
  have below: "m < n" if m: "m \<in> roaring_set ds" and n: "n \<in> container_set c" for m n
    using ok(1,2) m n
  proof (induction ds)
    case (Cons d ds)
    have ok': "sorted_containers (d # (ds @ [c]))" "\<forall>e \<in> set (d # (ds @ [c])). store_ok (ct_store e)" using Cons.prems by simp_all
    have "n \<in> roaring_set (ds @ [c])" using Cons.prems(2,4) by (subst roaring_set_append) (auto simp: roaring_set_Cons)
    then show ?case using container_set_less[OF ok', of m n] Cons by (auto simp: roaring_set_Cons sorted_containers_def)
  qed simp
  have "Max (roaring_set cs) = Max (container_set c)"
    using below ne by (intro Max_eqI) (auto simp: set less_imp_le dest: Max_in)
  moreover have "roaring_set cs \<noteq> {}" using set ne by blast
  ultimately show ?thesis using container_extremes(2)[of c] ok by (simp add: roaring_max_def snoc last_opt_def)
qed (simp add: roaring_max_def last_opt_def)

section \<open>The interface of a row set\<close>

text \<open>
  What the indexer needs of a set of row numbers: insertion, union,
  intersection and difference that agree with the set the representation
  denotes, and one representation per set.
\<close>

locale row_set =
  fixes ok :: "'s \<Rightarrow> bool" and members :: "'s \<Rightarrow> nat set" and empty :: 's
    and ins :: "u32 \<Rightarrow> 's \<Rightarrow> 's" and union :: "'s \<Rightarrow> 's \<Rightarrow> 's"
  assumes empty: "ok empty" "members empty = {}"
    and ins: "ok s \<Longrightarrow> ok (ins v s)" "ok s \<Longrightarrow> members (ins v s) = insert (unat v) (members s)"
    and union: "ok s \<Longrightarrow> ok t \<Longrightarrow> ok (union s t)" "ok s \<Longrightarrow> ok t \<Longrightarrow> members (union s t) = members s \<union> members t"
    and unique: "ok s \<Longrightarrow> ok t \<Longrightarrow> members s = members t \<Longrightarrow> s = t"
begin

lemma insert_all: "ok s \<Longrightarrow> ok (foldl (\<lambda>s v. ins v s) s vs) \<and> members (foldl (\<lambda>s v. ins v s) s vs) = members s \<union> unat ` set vs"
  by (induction vs arbitrary: s) (auto simp: ins)

lemma insert_order: "set vs = set ws \<Longrightarrow> foldl (\<lambda>s v. ins v s) empty vs = foldl (\<lambda>s v. ins v s) empty ws"
  using insert_all[OF empty(1)] by (auto intro: unique)

lemma union_all:
  "ok s \<Longrightarrow> \<forall>t \<in> set ts. ok t \<Longrightarrow> ok (foldl union s ts) \<and> members (foldl union s ts) = members s \<union> (\<Union>t \<in> set ts. members t)"
  by (induction ts arbitrary: s) (auto simp: union)

lemma union_absorb: "ok s \<Longrightarrow> union s s = s"
  by (auto intro: unique simp: union)

end

lemma roaring_ok_Nil [simp]: "roaring_ok []"
  by (simp add: roaring_ok_def sorted_containers_def)

interpretation roaring_rows: row_set roaring_ok roaring_set "[]" "\<lambda>v cs. fst (roaring_insert v cs)" bitor_assign
  by unfold_locales
     (simp_all add: roaring_insert_correct bitor_assign_correct roaring_unique)

interpretation roaring_rows_owned: row_set roaring_ok roaring_set "[]" "\<lambda>v cs. fst (roaring_insert v cs)" bitor_assign_owned
  by unfold_locales
     (simp_all add: roaring_insert_correct owned_ops_correct roaring_unique)

section \<open>Properties\<close>

text \<open>
  C7. The Roaring operations the indexer calls are the operations on sets: on
  well-formed bitmaps (containers sorted by key, none empty, each stored as an
  array up to 4096 values and as a bit set above) \<^verbatim>\<open>insert\<close> and \<^verbatim>\<open>remove\<close> change
  exactly the value given and report whether it was new or present, \<^verbatim>\<open>contains\<close>
  is membership, \<^verbatim>\<open>|=\<close>, \<^verbatim>\<open>&=\<close> and \<^verbatim>\<open>-=\<close> (by reference and by value) are union,
  intersection and difference, \<^verbatim>\<open>len\<close> is the cardinality, \<^verbatim>\<open>min\<close> and \<^verbatim>\<open>max\<close> the
  extremes; and every result is well-formed again.
\<close>

theorem roaring_refines_sets:
  assumes "roaring_ok a" and "roaring_ok b"
  shows "roaring_ok (fst (roaring_insert v a)) \<and> roaring_set (fst (roaring_insert v a)) = insert (unat v) (roaring_set a) \<and> (snd (roaring_insert v a) \<longleftrightarrow> unat v \<notin> roaring_set a)
    \<and> roaring_ok (fst (roaring_remove v a)) \<and> roaring_set (fst (roaring_remove v a)) = roaring_set a - {unat v} \<and> (snd (roaring_remove v a) \<longleftrightarrow> unat v \<in> roaring_set a)
    \<and> (roaring_contains v a \<longleftrightarrow> unat v \<in> roaring_set a)
    \<and> roaring_ok (bitor_assign a b) \<and> roaring_set (bitor_assign a b) = roaring_set a \<union> roaring_set b
    \<and> bitor_assign_owned a b = bitor_assign a b
    \<and> roaring_ok (bitand_assign a b) \<and> roaring_set (bitand_assign a b) = roaring_set a \<inter> roaring_set b
    \<and> bitand_assign_owned a b = bitand_assign a b
    \<and> roaring_ok (sub_assign a b) \<and> roaring_set (sub_assign a b) = roaring_set a - roaring_set b
    \<and> unat (roaring_len a) = card (roaring_set a)
    \<and> map_option unat (roaring_min a) = (if roaring_set a = {} then None else Some (Min (roaring_set a)))
    \<and> map_option unat (roaring_max a) = (if roaring_set a = {} then None else Some (Max (roaring_set a)))"
  using roaring_insert_correct[OF assms(1), of v] roaring_remove_correct[OF assms(1), of v] roaring_contains_correct[OF assms(1), of v]
    bitor_assign_correct[OF assms] bitand_assign_correct[OF assms] sub_assign_correct[OF assms] owned_ops_correct[OF assms]
    roaring_len_correct[OF roaring_ok_loose[OF assms(1)]] roaring_min_correct[OF assms(1)] roaring_max_correct[OF assms(1)]
  by (intro conjI) (simp_all add: roaring_unique)

theorem roaring_refines_sets_witness:
  "roaring_ok (fst (roaring_insert 70000 []))
     \<and> roaring_set (bitor_assign (fst (roaring_insert 70000 [])) (fst (roaring_insert 5 []))) = {70000} \<union> {5}
     \<and> bitor_assign_owned (fst (roaring_insert 70000 [])) (fst (roaring_insert 5 []))
         = bitor_assign (fst (roaring_insert 70000 [])) (fst (roaring_insert 5 []))"
proof -
  have a: "roaring_ok (fst (roaring_insert 70000 []))" "roaring_set (fst (roaring_insert 70000 [])) = {70000}"
    using roaring_refines_sets[of "[]" "[]" 70000] by simp_all
  have b: "roaring_ok (fst (roaring_insert 5 []))" "roaring_set (fst (roaring_insert 5 [])) = {5}"
    using roaring_refines_sets[of "[]" "[]" 5] by simp_all
  show ?thesis using roaring_refines_sets[OF a(1) b(1)] a b by simp
qed

text \<open>
  C8. Two well-formed bitmaps are equal (\<^verbatim>\<open>derive(PartialEq)\<close> on the containers)
  exactly when they hold the same values, and the union of many borrowed
  bitmaps (\<^verbatim>\<open>MultiOps::union\<close>, which merges stores loosely and tidies up at the
  end) is the bitmap that folding \<^verbatim>\<open>|=\<close> gives, in whatever order the parts come.
\<close>

theorem roaring_multi_union_canonical:
  assumes "\<forall>b \<in> set bs. roaring_ok b" and "set cs = set bs"
  shows "multi_or_ref bs = foldl bitor_assign [] cs \<and> roaring_ok (multi_or_ref bs)
    \<and> (\<forall>b \<in> set bs. (b = multi_or_ref bs \<longleftrightarrow> roaring_set b = (\<Union>c \<in> set bs. roaring_set c)))"
proof -
  note m = multi_or_ref_correct[OF assms(1)]
  have "roaring_ok (foldl bitor_assign [] cs) \<and> roaring_set (foldl bitor_assign [] cs) = (\<Union>c \<in> set bs. roaring_set c)"
    using roaring_rows.union_all[of "[]" cs] assms by simp
  then have "multi_or_ref bs = foldl bitor_assign [] cs" using roaring_unique m by simp
  moreover have "\<forall>b \<in> set bs. (b = multi_or_ref bs \<longleftrightarrow> roaring_set b = (\<Union>c \<in> set bs. roaring_set c))"
    using roaring_unique m assms(1) by metis
  ultimately show ?thesis using m(1) by blast
qed

theorem roaring_multi_union_canonical_witness:
  "multi_or_ref [fst (roaring_insert 9 []), fst (roaring_insert 70000 [])]
     = foldl bitor_assign [] [fst (roaring_insert 70000 []), fst (roaring_insert 9 [])]"
  using roaring_multi_union_canonical[of "[fst (roaring_insert 9 []), fst (roaring_insert 70000 [])]"
      "[fst (roaring_insert 70000 []), fst (roaring_insert 9 [])]"]
  by (auto simp: roaring_insert_correct)

end
