(* ===== verification/Roaring_Serial.thy ===== *)
theory Roaring_Serial
  imports Roaring_Bitmap
begin

text \<open>
  The portable Roaring format: the writer and the general reader of
  \<^verbatim>\<open>src/vendor/roaring/src/bitmap/serialization.rs\<close> and the validating,
  query-time reader of \<^verbatim>\<open>query_decode.rs\<close>, which checks a whole bitmap and
  counts its heap bytes before it decodes it.  Readers take the bytes of the
  input and return what is left.  The heap size of a \<^verbatim>\<open>Container\<close> is the
  compiler's choice and is a parameter; failing allocations are not modelled.
\<close>

section \<open>Writing\<close>

definition SERIAL_COOKIE_NO_RUNCONTAINER :: u32 where
  "SERIAL_COOKIE_NO_RUNCONTAINER = 12346"

definition SERIAL_COOKIE :: u16 where
  "SERIAL_COOKIE = 12347"

definition NO_OFFSET_THRESHOLD :: usize where
  "NO_OFFSET_THRESHOLD = 4"

fun store_bytes :: "store \<Rightarrow> bytes" where
  "store_bytes (Array vec) = concat (map to_le_bytes vec)"
| "store_bytes (Bitmap bits) = concat (map to_le_bytes (bs_bits bits))"

definition container_size :: "container \<Rightarrow> usize" where
  "container_size c = (case ct_store c of Array vec \<Rightarrow> 8 + length vec * 2 | Bitmap _ \<Rightarrow> 8 + 8 * 1024)"

definition serialized_size :: "roaring \<Rightarrow> usize" where
  "serialized_size cs = 8 + sum_list (map container_size cs)"

definition description :: "container \<Rightarrow> bytes" where
  "description c = to_le_bytes (ct_key c) @ to_le_bytes (ucast (container_len c - 1) :: u16)"

fun offset_bytes :: "u32 \<Rightarrow> roaring \<Rightarrow> bytes" where
  "offset_bytes offset [] = []"
| "offset_bytes offset (c # cs) =
     to_le_bytes offset @
     offset_bytes (case ct_store c of Array vec \<Rightarrow> offset + of_nat (length vec) * 2 | Bitmap _ \<Rightarrow> offset + 8 * 1024) cs"

definition serialize_into :: "roaring \<Rightarrow> bytes" where
  "serialize_into cs =
     to_le_bytes SERIAL_COOKIE_NO_RUNCONTAINER @ to_le_bytes (of_nat (length cs) :: u32)
     @ concat (map description cs)
     @ offset_bytes (8 + 8 * of_nat (length cs)) cs
     @ concat (map (\<lambda>c. store_bytes (ct_store c)) cs)"

section \<open>The general reader\<close>

definition read_le :: "bytes \<Rightarrow> ('a::len word \<times> bytes) res" where
  "read_le reader =
     bind_res (read_exact (LENGTH('a) div 8) reader) (\<lambda>(bs, reader). Inr (from_le_bytes bs, reader))"

definition le_pair :: "bytes \<Rightarrow> u16 \<times> u16" where
  "le_pair bs = (from_le_bytes (take 2 bs), from_le_bytes (drop 2 bs))"

text \<open>\<^verbatim>\<open>bm[i / 8] & (1 << (i % 8)) != 0\<close>, which indexes the run flags.\<close>

definition is_run_container :: "bytes option \<Rightarrow> usize \<Rightarrow> bool res" where
  "is_run_container runs i =
     (case runs of
        None \<Rightarrow> Inr False
      | Some bm \<Rightarrow> bind_res (index bm (i div 8)) (\<lambda>b. Inr (b AND push_bit (i mod 8) 1 \<noteq> 0)))"

fun insert_runs :: "(u16 \<times> u16) list \<Rightarrow> store \<Rightarrow> store res" where
  "insert_runs [] store = Inr store"
| "insert_runs ((s, len) # runs) store =
     bind_res (ok_or (checked_add s len) (InvalidData ''invalid data''))
       (\<lambda>e. insert_runs runs (fst (store_insert_range s e store)))"

definition read_run_store :: "bytes \<Rightarrow> (store \<times> bytes) res" where
  "read_run_store reader =
     bind_res (read_le reader) (\<lambda>(runs :: u16, reader).
     bind_res (read_exact (4 * unat runs) reader) (\<lambda>(bs, reader).
       let intervals = map le_pair (chunks_exact 4 bs);
           cardinality = sum_list (map (\<lambda>(_, len). unat len) intervals)
       in bind_res (insert_runs intervals (store_with_capacity cardinality)) (\<lambda>store. Inr (store, reader))))"

definition read_array_store :: "usize \<Rightarrow> bytes \<Rightarrow> (store \<times> bytes) res" where
  "read_array_store cardinality reader =
     bind_res (read_exact (2 * cardinality) reader) (\<lambda>(bs, reader).
     bind_res (map_err InvalidData (array_try_from (map from_le_bytes (chunks_exact 2 bs)))) (\<lambda>array.
       Inr (Array array, reader)))"

definition read_bitmap_store :: "u64 \<Rightarrow> bytes \<Rightarrow> (store \<times> bytes) res" where
  "read_bitmap_store cardinality reader =
     bind_res (read_exact (8 * BITMAP_LENGTH) reader) (\<lambda>(bs, reader).
     bind_res (map_err InvalidData (bitmap_try_from cardinality (map from_le_bytes (chunks_exact 8 bs)))) (\<lambda>bitmap.
       Inr (Bitmap bitmap, reader)))"

text \<open>The loop over the descriptions, whose length was checked when they were read.\<close>

fun read_containers :: "bytes option \<Rightarrow> usize \<Rightarrow> (u16 \<times> u16) list \<Rightarrow> bytes \<Rightarrow> (roaring \<times> bytes) res" where
  "read_containers runs i [] reader = Inr ([], reader)"
| "read_containers runs i ((k, n) # descriptions) reader =
     (let cardinality = ucast n + 1 :: u64
      in bind_res (is_run_container runs i) (\<lambda>is_run.
         bind_res (if is_run then read_run_store reader
                   else if cardinality \<le> ARRAY_LIMIT then read_array_store (unat cardinality) reader
                   else read_bitmap_store cardinality reader) (\<lambda>(store, reader).
         bind_res (read_containers runs (Suc i) descriptions reader) (\<lambda>(cs, reader).
           Inr (\<lparr>ct_key = k, ct_store = store\<rparr> # cs, reader)))))"

definition read_cookie :: "bytes \<Rightarrow> ((usize \<times> bool \<times> bool) \<times> bytes) res" where
  "read_cookie reader =
     bind_res (read_le reader) (\<lambda>(cookie :: u32, reader).
       if cookie = SERIAL_COOKIE_NO_RUNCONTAINER
       then bind_res (read_le reader) (\<lambda>(n :: u32, reader). Inr ((unat n, True, False), reader))
       else if (ucast cookie :: u16) = SERIAL_COOKIE
       then let n = unat (drop_bit 16 cookie + 1) in Inr ((n, NO_OFFSET_THRESHOLD \<le> n, True), reader)
       else Inl (OtherError ''unknown cookie value''))"

definition deserialize_from :: "bytes \<Rightarrow> (roaring \<times> bytes) res" where
  "deserialize_from reader =
     bind_res (read_cookie reader) (\<lambda>((n, has_offsets, has_run_containers), reader).
     bind_res (if has_run_containers
               then bind_res (read_exact ((n + 7) div 8) reader) (\<lambda>(bm, reader). Inr (Some bm, reader))
               else Inr (None, reader)) (\<lambda>(runs, reader).
     if 65535 + 1 < n then Inl (OtherError ''size is greater than supported'')
     else
       bind_res (read_exact (n * 4) reader) (\<lambda>(descriptions, reader).
       bind_res (if has_offsets then bind_res (read_exact (n * 4) reader) (\<lambda>(_, reader). Inr reader) else Inr reader) (\<lambda>reader.
         read_containers runs 0 (map le_pair (chunks_exact 4 descriptions)) reader))))"

section \<open>The validating reader\<close>

definition DENSE_BYTES :: usize where
  "DENSE_BYTES = BITMAP_LENGTH * 8"

record prepared_bitmap =
  pb_descriptions :: bytes
  pb_runs :: "bytes option"
  pb_payload :: bytes
  pb_allocation_bytes :: usize

definition roaring_add :: "usize \<Rightarrow> usize \<Rightarrow> usize res" where
  "roaring_add a b = ok_or (usize_checked_add a b) (InvalidData ''Roaring allocation size overflow'')"

definition roaring_multiply :: "usize \<Rightarrow> usize \<Rightarrow> usize res" where
  "roaring_multiply a b = ok_or (usize_checked_mul a b) (InvalidData ''Roaring allocation size overflow'')"

definition cursor_take :: "usize \<Rightarrow> bytes \<Rightarrow> (bytes \<times> bytes) res" where
  "cursor_take len cursor =
     (if length cursor < len then Inl (InvalidData ''truncated Roaring bitmap'')
      else Inr (take len cursor, drop len cursor))"

definition cursor_u16 :: "bytes \<Rightarrow> (u16 \<times> bytes) res" where
  "cursor_u16 cursor = bind_res (cursor_take 2 cursor) (\<lambda>(bs, cursor). Inr (from_le_bytes bs, cursor))"

definition cursor_u32 :: "bytes \<Rightarrow> (u32 \<times> bytes) res" where
  "cursor_u32 cursor = bind_res (cursor_take 4 cursor) (\<lambda>(bs, cursor). Inr (from_le_bytes bs, cursor))"

text \<open>The checks on one container's payload.\<close>

fun check_runs :: "u16 option \<Rightarrow> usize \<Rightarrow> (u16 \<times> u16) list \<Rightarrow> usize res" where
  "check_runs previous_end actual [] = Inr actual"
| "check_runs previous_end actual ((start, len) # runs) =
     bind_res (ok_or (checked_add start len) (InvalidData ''Roaring run exceeds its container'')) (\<lambda>e.
       if (case previous_end of None \<Rightarrow> False | Some previous \<Rightarrow> start \<le> previous)
       then Inl (InvalidData ''Roaring runs overlap or are not ordered'')
       else bind_res (roaring_add actual (unat len + 1)) (\<lambda>actual. check_runs (Some e) actual runs))"

fun check_array :: "u16 option \<Rightarrow> u16 list \<Rightarrow> unit res" where
  "check_array previous [] = Inr ()"
| "check_array previous (x # xs) =
     (if (case previous of None \<Rightarrow> False | Some p \<Rightarrow> x \<le> p)
      then Inl (InvalidData ''Roaring array values are not strictly increasing'')
      else check_array (Some x) xs)"

definition check_store :: "bool \<Rightarrow> usize \<Rightarrow> bytes \<Rightarrow> bytes res" where
  "check_store is_run cardinality cursor =
     (if is_run then
        bind_res (cursor_u16 cursor) (\<lambda>(run_count, cursor).
        bind_res (roaring_multiply (unat run_count) 4) (\<lambda>len.
        bind_res (cursor_take len cursor) (\<lambda>(intervals, cursor).
        bind_res (check_runs None 0 (map le_pair (chunks_exact 4 intervals))) (\<lambda>actual.
          if actual \<noteq> cardinality then Inl (InvalidData ''Roaring run cardinality mismatch'') else Inr cursor))))
      else if cardinality \<le> unat ARRAY_LIMIT then
        bind_res (roaring_multiply cardinality 2) (\<lambda>len.
        bind_res (cursor_take len cursor) (\<lambda>(values, cursor).
        bind_res (check_array None (map from_le_bytes (chunks_exact 2 values))) (\<lambda>_. Inr cursor)))
      else
        bind_res (cursor_take DENSE_BYTES cursor) (\<lambda>(dense, cursor).
          if sum_list (map (\<lambda>w. pop_count (from_le_bytes w :: u64)) (chunks_exact 8 dense)) \<noteq> cardinality
          then Inl (InvalidData ''Roaring dense cardinality mismatch'') else Inr cursor))"

text \<open>
  The loop over the descriptions.  \<open>input_len\<close> is the length of the whole input,
  \<open>allocation_bytes\<close> the running count; the result is the count and the cursor.
\<close>

fun prepare_loop ::
  "usize \<Rightarrow> bytes option \<Rightarrow> bytes option \<Rightarrow> usize \<Rightarrow> u16 option \<Rightarrow> (u16 \<times> u16) list \<Rightarrow> usize \<Rightarrow> bytes \<Rightarrow> (usize \<times> bytes) res" where
  "prepare_loop input_len offsets runs i previous_key [] allocation_bytes cursor = Inr (allocation_bytes, cursor)"
| "prepare_loop input_len offsets runs i previous_key ((k, n) # descriptions) allocation_bytes cursor =
     (if (case previous_key of None \<Rightarrow> False | Some previous \<Rightarrow> k \<le> previous)
      then Inl (InvalidData ''Roaring container keys are not strictly increasing'')
      else
        bind_res (case offsets of
              None \<Rightarrow> Inr ()
            | Some offsets \<Rightarrow>
                bind_res (slice offsets (i * 4) (i * 4 + 4)) (\<lambda>bs.
                  ensure (unat (from_le_bytes bs :: u32) = input_len - length cursor)
                    (InvalidData ''noncontiguous Roaring container offset''))) (\<lambda>_.
        let cardinality = unat n + 1
        in bind_res (is_run_container runs i) (\<lambda>is_run.
           bind_res (check_store is_run cardinality cursor) (\<lambda>cursor.
           bind_res (if cardinality \<le> unat ARRAY_LIMIT then roaring_multiply cardinality 2 else Inr DENSE_BYTES) (\<lambda>bytes.
           bind_res (roaring_add allocation_bytes bytes) (\<lambda>allocation_bytes.
             prepare_loop input_len offsets runs (Suc i) (Some k) descriptions allocation_bytes cursor))))))"

definition prepare_header :: "bytes \<Rightarrow> ((usize \<times> bool \<times> bytes option) \<times> bytes) res" where
  "prepare_header cursor =
     bind_res (cursor_u32 cursor) (\<lambda>(cookie, cursor).
       if cookie = 12346
       then bind_res (cursor_u32 cursor) (\<lambda>(n, cursor).
         if 65536 < unat n then Inl (InvalidData ''too many Roaring containers'')
         else Inr ((unat n, True, None), cursor))
       else if (ucast cookie :: u16) = 12347
       then let n = unat (drop_bit 16 cookie + 1)
         in bind_res (cursor_take ((n + 7) div 8) cursor) (\<lambda>(runs, cursor). Inr ((n, 4 \<le> n, Some runs), cursor))
       else Inl (InvalidData ''invalid Roaring bitmap cookie''))"

definition prepare_deserialize :: "usize \<Rightarrow> bytes \<Rightarrow> prepared_bitmap res" where
  "prepare_deserialize size_of_container bytes =
     bind_res (prepare_header bytes) (\<lambda>((n, has_offsets, runs), cursor).
     bind_res (roaring_multiply n 4) (\<lambda>len.
     bind_res (cursor_take len cursor) (\<lambda>(descriptions, cursor).
     bind_res (if has_offsets
               then bind_res (roaring_multiply n 4) (\<lambda>len.
                    bind_res (cursor_take len cursor) (\<lambda>(offsets, cursor). Inr (Some offsets, cursor)))
               else Inr (None, cursor)) (\<lambda>(offsets, payload).
     bind_res (roaring_multiply n size_of_container) (\<lambda>allocation_bytes.
     bind_res (prepare_loop (length bytes) offsets runs 0 None (map le_pair (chunks_exact 4 descriptions)) allocation_bytes payload)
       (\<lambda>(allocation_bytes, cursor).
         if cursor \<noteq> [] then Inl (InvalidData ''trailing Roaring bitmap payload bytes'')
         else Inr \<lparr>pb_descriptions = descriptions, pb_runs = runs, pb_payload = payload,
                   pb_allocation_bytes = allocation_bytes\<rparr>))))))"

text \<open>Decoding of what was prepared; \<^verbatim>\<open>start + length\<close> wraps in release builds.\<close>

definition run_values :: "(u16 \<times> u16) list \<Rightarrow> u16 list" where
  "run_values runs = concat (map (\<lambda>(start, len). range_inclusive start (start + len)) runs)"

definition decode_store :: "bool \<Rightarrow> usize \<Rightarrow> bytes \<Rightarrow> (store \<times> bytes) res" where
  "decode_store is_run cardinality cursor =
     (if is_run then
        bind_res (cursor_u16 cursor) (\<lambda>(run_count, cursor).
        bind_res (roaring_multiply (unat run_count) 4) (\<lambda>len.
        bind_res (cursor_take len cursor) (\<lambda>(bs, cursor).
          let runs = map le_pair (chunks_exact 4 bs)
          in if cardinality \<le> unat ARRAY_LIMIT then Inr (Array (run_values runs), cursor)
             else Inr (Bitmap (foldl (\<lambda>bitmap (start, len). fst (bitmap_insert_range start (start + len) bitmap)) bitmap_new runs), cursor))))
      else if cardinality \<le> unat ARRAY_LIMIT then
        bind_res (roaring_multiply cardinality 2) (\<lambda>len.
        bind_res (cursor_take len cursor) (\<lambda>(bs, cursor). Inr (Array (map from_le_bytes (chunks_exact 2 bs)), cursor)))
      else
        bind_res (cursor_take DENSE_BYTES cursor) (\<lambda>(bs, cursor).
        bind_res (from_lsb0_bytes_unchecked bs 0 (of_nat cardinality)) (\<lambda>bitmap. Inr (Bitmap bitmap, cursor))))"

fun decode_containers :: "bytes option \<Rightarrow> usize \<Rightarrow> (u16 \<times> u16) list \<Rightarrow> bytes \<Rightarrow> roaring res" where
  "decode_containers runs i [] cursor = Inr []"
| "decode_containers runs i ((k, n) # descriptions) cursor =
     bind_res (is_run_container runs i) (\<lambda>is_run.
     bind_res (decode_store is_run (unat n + 1) cursor) (\<lambda>(store, cursor).
     bind_res (decode_containers runs (Suc i) descriptions cursor) (\<lambda>cs.
       Inr (\<lparr>ct_key = k, ct_store = store\<rparr> # cs))))"

definition prepared_deserialize :: "prepared_bitmap \<Rightarrow> roaring res" where
  "prepared_deserialize p =
     decode_containers (pb_runs p) 0 (map le_pair (chunks_exact 4 (pb_descriptions p))) (pb_payload p)"

definition heap_size_bytes :: "usize \<Rightarrow> usize \<Rightarrow> (container \<Rightarrow> usize) \<Rightarrow> roaring \<Rightarrow> usize res" where
  "heap_size_bytes size_of_container containers_capacity array_capacity cs =
     bind_res (roaring_multiply containers_capacity size_of_container) (\<lambda>bytes.
       foldl (\<lambda>acc c. bind_res acc (\<lambda>bytes.
           bind_res (case ct_store c of Array _ \<Rightarrow> roaring_multiply (array_capacity c) 2 | Bitmap _ \<Rightarrow> Inr DENSE_BYTES)
             (roaring_add bytes))) (Inr bytes) cs)"

section \<open>Reading back bytes\<close>

lemma chunks_exact_u16 [simp]: "chunks_exact 2 (concat (map to_le_bytes (ws :: u16 list))) = map to_le_bytes ws"
  by (rule chunks_exact_concat) simp_all

lemma chunks_exact_u64 [simp]: "chunks_exact 8 (concat (map to_le_bytes (ws :: u64 list))) = map to_le_bytes ws"
  by (rule chunks_exact_concat) simp_all

lemma length_u16_bytes [simp]: "length (concat (map to_le_bytes (ws :: u16 list))) = 2 * length ws"
  by (subst length_concat_map_const[of _ _ 2]) simp_all

lemma length_u64_bytes [simp]: "length (concat (map to_le_bytes (ws :: u64 list))) = 8 * length ws"
  by (subst length_concat_map_const[of _ _ 8]) simp_all

lemma from_to_le_bytes_u16 [simp]: "from_le_bytes (to_le_bytes (w :: u16)) = w"
  by (simp add: from_to_le_bytes)

lemma le_pair_description [simp]: "le_pair (description c) = (ct_key c, ucast (container_len c - 1))"
  by (simp add: le_pair_def description_def)

lemma length_description [simp]: "length (description c) = 4"
  by (simp add: description_def)

lemma cursor_take_append [simp]: "length bs = n \<Longrightarrow> cursor_take n (bs @ rest) = Inr (bs, rest)"
  by (simp add: cursor_take_def)

lemma read_le_append: "8 dvd LENGTH('a) \<Longrightarrow> read_le (to_le_bytes (w :: 'a::len word) @ rest) = Inr (w, rest)"
  by (simp add: read_le_def from_to_le_bytes)

lemma cursor_take_Inr_iff [res_simps]: "cursor_take n bs = Inr (a, b) \<longleftrightarrow> bs = a @ b \<and> length a = n"
  by (auto simp: cursor_take_def)

lemma roaring_multiply_Inr_iff [res_simps]: "roaring_multiply a b = Inr n \<longleftrightarrow> n = a * b \<and> a * b < usize_limit"
  by (auto simp: roaring_multiply_def usize_checked_mul_def ok_or_def)

lemma roaring_add_Inr_iff [res_simps]: "roaring_add a b = Inr n \<longleftrightarrow> n = a + b \<and> a + b < usize_limit"
  by (auto simp: roaring_add_def usize_checked_add_def ok_or_def)

lemma roaring_multiply_ok [simp]: "a * b < usize_limit \<Longrightarrow> roaring_multiply a b = Inr (a * b)"
  by (simp add: roaring_multiply_Inr_iff)

lemma roaring_add_ok [simp]: "a + b < usize_limit \<Longrightarrow> roaring_add a b = Inr (a + b)"
  by (simp add: roaring_add_Inr_iff)

section \<open>One container\<close>

lemma container_card:
  assumes "container_ok c"
  shows "unat (ucast (container_len c - 1) :: u16) + 1 = unat (container_len c)"
    and "(ucast (ucast (container_len c - 1) :: u16) :: u64) + 1 = container_len c"
proof -
  have ok: "store_ok (ct_store c)" "store_set (ct_store c) \<noteq> {}" using assms by (auto simp: container_ok_def canonical_ok)
  have len: "unat (container_len c) = card (store_set (ct_store c))" using store_len_card[OF ok(1)] by (simp add: container_len_def)
  have "card (store_set (ct_store c)) \<le> card {..<65536 :: nat}" by (rule card_mono) (use store_set_bound[OF ok(1)] in auto)
  then have le: "unat (container_len c) \<le> 65536" using len by simp
  have "unat (container_len c) \<noteq> 0" using ok(2) len by simp
  then have pos: "1 \<le> unat (container_len c)" by simp
  then have m1: "unat (container_len c - 1) = unat (container_len c) - 1" by (metis unat_1 unat_sub word_le_nat_alt)
  show *: "unat (ucast (container_len c - 1) :: u16) + 1 = unat (container_len c)"
    using le pos m1 by (simp add: unsigned_ucast_eq take_bit_eq_mod)
  have "unat ((ucast w :: u64) + 1) = unat w + 1" for w :: u16
  proof -
    have "unat (ucast w :: u64) = unat w" using unat_u16_less[of w] by (simp add: unsigned_ucast_eq take_bit_eq_mod)
    then show ?thesis using unat_u16_less[of w] by (simp add: unat_word_ariths(1))
  qed
  then have "unat ((ucast (ucast (container_len c - 1) :: u16) :: u64) + 1) = unat (container_len c)" using * by (simp only:)
  then show "(ucast (ucast (container_len c - 1) :: u16) :: u64) + 1 = container_len c" by (simp add: word_unat_eq_iff)
qed

lemma read_array_append:
  "sorted_wrt (<) vec \<Longrightarrow> read_array_store (length vec) (concat (map to_le_bytes vec) @ rest) = Inr (Array vec, rest)"
  using array_try_from_iff[of vec vec] by (simp add: read_array_store_def comp_def map_err_def)

lemma read_bitmap_append:
  assumes "bitmap_ok bits"
  shows "read_bitmap_store (bs_len bits) (concat (map to_le_bytes (bs_bits bits)) @ rest) = Inr (Bitmap bits, rest)"
proof -
  have "unat (bs_len bits) = sum_list (map pop_count (bs_bits bits))" using assms by (simp add: bitmap_ok_def card_words_set)
  then have "(of_nat (unat (bs_len bits)) :: u64) = of_nat (sum_list (map pop_count (bs_bits bits)))" by (simp only:)
  then have "(of_nat (sum_list (map pop_count (bs_bits bits))) :: u64) = bs_len bits" by simp
  then show ?thesis using assms
    by (simp add: read_bitmap_store_def comp_def bitmap_try_from_def Let_def map_err_def bitmap_ok_def BITMAP_LENGTH_def)
qed

lemma check_array_iff: "check_array previous xs = Inr u \<longleftrightarrow> sorted_wrt (<) xs \<and> (\<forall>p x. previous = Some p \<and> x \<in> set xs \<longrightarrow> p < x)"
proof (induction previous xs rule: check_array.induct)
  case (2 previous x xs)
  show ?case
  proof (cases "case previous of None \<Rightarrow> False | Some p \<Rightarrow> x \<le> p")
    case True
    then show ?thesis by (auto split: option.splits)
  next
    case False
    then have "\<forall>p. previous = Some p \<longrightarrow> p < x" by auto
    moreover have "check_array previous (x # xs) = check_array (Some x) xs" using False by (simp split: option.splits)
    ultimately show ?thesis using 2[OF False] by (auto intro: less_trans)
  qed
qed simp

lemma checked_add_u16:
  assumes "checked_add s len = Some (e :: u16)"
  shows "e = s + len" and "s \<le> e" and "unat e = unat s + unat len"
proof -
  show e: "e = s + len" using assms by (simp add: checked_add_def split: if_splits)
  show u: "unat e = unat s + unat len" using assms e by (simp add: checked_add_def unat_word_ariths(1) split: if_splits)
  show "s \<le> e" using u by (simp add: word_le_nat_alt)
qed

lemma length_range_inclusive: "a \<le> b \<Longrightarrow> length (range_inclusive a b) = unat b - unat a + 1"
  by (simp add: range_inclusive_def word_le_nat_alt)

lemma check_runs_values:
  assumes "check_runs previous_end actual runs = Inr m"
  shows "sorted_wrt (<) (run_values runs) \<and> (\<forall>p v. previous_end = Some p \<and> v \<in> set (run_values runs) \<longrightarrow> p < v)
    \<and> m = actual + length (run_values runs) \<and> (\<forall>(s, len) \<in> set runs. s \<le> s + len \<and> checked_add s len = Some (s + len))"
  using assms
proof (induction previous_end actual runs rule: check_runs.induct)
  case (1 previous_end actual)
  then show ?case by (simp add: run_values_def)
next
  case (2 previous_end actual s len runs)
  obtain e where e: "checked_add s len = Some e" using "2.prems" by (auto simp: ok_or_def bind_res_def split: option.splits)
  note add = checked_add_u16[OF e]
  have fresh: "\<not> (case previous_end of None \<Rightarrow> False | Some previous \<Rightarrow> s \<le> previous)"
    and rest: "check_runs (Some e) (actual + (unat len + 1)) runs = Inr m"
    using "2.prems" e by (auto simp: ok_or_def bind_res_Inr_iff roaring_add_Inr_iff split: if_splits)
  have o: "ok_or (checked_add s len) (InvalidData ''Roaring run exceeds its container'') = Inr e" by (simp add: ok_or_def e)
  have a: "roaring_add actual (unat len + 1) = Inr (actual + (unat len + 1))"
    using "2.prems" e fresh by (auto simp: ok_or_def bind_res_Inr_iff roaring_add_Inr_iff)
  have IH: "sorted_wrt (<) (run_values runs)" "\<forall>v \<in> set (run_values runs). e < v"
      "m = actual + (unat len + 1) + length (run_values runs)" "\<forall>(s, len) \<in> set runs. s \<le> s + len \<and> checked_add s len = Some (s + len)"
    using "2.IH"[OF o fresh a rest] by auto
  have vals: "run_values ((s, len) # runs) = range_inclusive s e @ run_values runs" by (simp add: run_values_def add(1))
  have "length (range_inclusive s e) = unat len + 1" using length_range_inclusive[OF add(2)] add(3) by simp
  moreover have "\<forall>p. previous_end = Some p \<longrightarrow> p < s" using fresh by auto
  ultimately show ?case unfolding vals using IH add e sorted_range_inclusive[of s e] set_range_inclusive[of s e]
    by (auto simp: sorted_wrt_append intro: le_less_trans less_le_trans less_trans)
qed

lemma run_range: "s \<le> s + len \<Longrightarrow> unat ` set (range_inclusive s (s + len)) = {unat s..unat (s + len :: u16)}"
  by (simp add: set_range_inclusive unat_image_atLeastAtMost)

lemma insert_runs_bitmap:
  assumes "bitmap_ok b" and "\<forall>(s, len) \<in> set runs. s \<le> s + len \<and> checked_add s len = Some (s + len)"
  shows "bitmap_ok (foldl (\<lambda>bitmap (start, len). fst (bitmap_insert_range start (start + len) bitmap)) b runs)
    \<and> words_set (bs_bits (foldl (\<lambda>bitmap (start, len). fst (bitmap_insert_range start (start + len) bitmap)) b runs))
        = words_set (bs_bits b) \<union> unat ` set (run_values runs)"
  using assms
proof (induction runs arbitrary: b)
  case (Cons r runs)
  obtain s len where r: "r = (s, len)" by fastforce
  have le: "s \<le> s + len" using Cons.prems(2) by (simp add: r)
  note ins = bitmap_insert_range_correct[OF Cons.prems(1) le]
  have "unat ` set (run_values (r # runs)) = {unat s..unat (s + len)} \<union> unat ` set (run_values runs)"
    using run_range[OF le] by (simp add: run_values_def r image_Un)
  then show ?case using Cons.IH[OF ins(1)] Cons.prems(2) ins(2) by (simp add: r Un_assoc)
qed (simp add: run_values_def)

lemma insert_runs_store:
  assumes "store_ok t" and "\<forall>(s, len) \<in> set runs. s \<le> s + len \<and> checked_add s len = Some (s + len)"
  shows "\<exists>t'. insert_runs runs t = Inr t' \<and> store_ok t' \<and> store_set t' = store_set t \<union> unat ` set (run_values runs)"
  using assms
proof (induction runs arbitrary: t)
  case (Cons r runs)
  obtain s len where r: "r = (s, len)" by fastforce
  have le: "s \<le> s + len" and add: "checked_add s len = Some (s + len)" using Cons.prems(2) by (simp_all add: r)
  note ins = store_insert_range_correct[OF Cons.prems(1) le]
  have "unat ` set (run_values (r # runs)) = {unat s..unat (s + len)} \<union> unat ` set (run_values runs)"
    using run_range[OF le] by (simp add: run_values_def r image_Un)
  then show ?case using Cons.IH[OF ins(1)] Cons.prems(2) ins(2) by (auto simp: r ok_or_def add Un_assoc)
qed (simp add: run_values_def)

lemma bitmap_new_ok [simp]: "bitmap_ok bitmap_new" "words_set (bs_bits bitmap_new) = {}"
  by (simp_all add: bitmap_new_def bitmap_ok_def BITMAP_LENGTH_def)

text \<open>The store that a reader makes of a payload that passes the checks.\<close>

definition read_store :: "bool \<Rightarrow> usize \<Rightarrow> bytes \<Rightarrow> (store \<times> bytes) res" where
  "read_store is_run cardinality reader =
     (if is_run then read_run_store reader
      else if cardinality \<le> unat ARRAY_LIMIT then read_array_store cardinality reader
      else read_bitmap_store (of_nat cardinality) reader)"

definition store_agrees :: "bool \<Rightarrow> usize \<Rightarrow> bytes \<Rightarrow> bytes \<Rightarrow> bool" where
  "store_agrees is_run n cursor rest \<longleftrightarrow>
     (\<exists>s t. decode_store is_run n cursor = Inr (s, rest) \<and> canonical_store s \<and> card (store_set s) = n
        \<and> read_store is_run n cursor = Inr (t, rest) \<and> store_ok t \<and> store_set t = store_set s \<and> (\<not> is_run \<longrightarrow> t = s))"

lemma check_run_store:
  assumes "check_store True n cursor = Inr rest" and "n \<le> 65536"
  shows "store_agrees True n cursor rest"
proof -
  obtain c1 c2 where c: "cursor = c1 @ c2 @ rest" "length c1 = 2" "length c2 = unat (from_le_bytes c1 :: u16) * 4"
    "unat (from_le_bytes c1 :: u16) * 4 < usize_limit" "check_runs None 0 (map le_pair (chunks_exact 4 c2)) = Inr n"
    using assms(1)
    by (simp only: check_store_def cursor_u16_def bind_res_Inr_iff cursor_take_Inr_iff roaring_multiply_Inr_iff
        split_paired_Ex prod.case sum.inject prod.inject if_True if_Inl_eq_Inr_iff) blast
  define runs where "runs = map le_pair (chunks_exact 4 c2)"
  note v = check_runs_values[OF c(5), folded runs_def]
  have card: "card (unat ` set (run_values runs)) = n" using card_unat_set[of "run_values runs"] v strict_sorted_distinct by fastforce
  have dec: "decode_store True n cursor =
      Inr (if n \<le> unat ARRAY_LIMIT then Array (run_values runs)
           else Bitmap (foldl (\<lambda>bitmap (start, len). fst (bitmap_insert_range start (start + len) bitmap)) bitmap_new runs), rest)"
    using c by (simp add: decode_store_def cursor_u16_def runs_def Let_def)
  have cap: "store_ok (store_with_capacity k)" "store_set (store_with_capacity k) = {}" for k by (simp_all add: store_with_capacity_def)
  have "\<forall>(s, len) \<in> set runs. s \<le> s + len \<and> checked_add s len = Some (s + len)" using v by blast
  from insert_runs_store[OF cap(1) this]
  obtain t where t: "insert_runs runs (store_with_capacity (sum_list (map (\<lambda>(_, len). unat len) runs))) = Inr t"
      "store_ok t" "store_set t = unat ` set (run_values runs)"
    unfolding cap(2) by (metis Un_empty_left)
  have "read_store True n cursor = Inr (t, rest)"
    using c t(1) by (simp add: read_store_def read_run_store_def read_le_def runs_def Let_def mult.commute)
  moreover have "\<exists>s. decode_store True n cursor = Inr (s, rest) \<and> canonical_store s \<and> store_set s = unat ` set (run_values runs)"
  proof (cases "n \<le> unat ARRAY_LIMIT")
    case True
    then have "decode_store True n cursor = Inr (Array (run_values runs), rest)" by (simp add: dec)
    moreover have "canonical_store (Array (run_values runs))" using v True by (simp add: ARRAY_LIMIT_def)
    ultimately show ?thesis by auto
  next
    case False
    have "\<forall>(s, len) \<in> set runs. s \<le> s + len \<and> checked_add s len = Some (s + len)" using v by blast
    note b = insert_runs_bitmap[OF bitmap_new_ok(1) this, unfolded bitmap_new_ok(2) Un_empty_left]
    have "unat (bs_len (foldl (\<lambda>bitmap (start, len). fst (bitmap_insert_range start (start + len) bitmap)) bitmap_new runs)) = n"
      using b card by (simp add: bitmap_ok_def)
    then have "canonical_store (Bitmap (foldl (\<lambda>bitmap (start, len). fst (bitmap_insert_range start (start + len) bitmap)) bitmap_new runs))"
      using b False by (simp add: ARRAY_LIMIT_def)
    then show ?thesis using b False by (simp add: dec)
  qed
  ultimately show ?thesis using t card unfolding store_agrees_def by auto
qed

lemma check_array_store:
  assumes "check_store False n cursor = Inr rest" and "n \<le> unat ARRAY_LIMIT"
  shows "store_agrees False n cursor rest"
proof -
  obtain c where c: "cursor = c @ rest" "length c = n * 2" "n * 2 < usize_limit"
    "check_array None (map from_le_bytes (chunks_exact 2 c)) = Inr ()"
    using assms
    by (auto simp: check_store_def bind_res_Inr_iff cursor_take_Inr_iff roaring_multiply_Inr_iff)
  define vec where "vec = (map from_le_bytes (chunks_exact 2 c) :: u16 list)"
  have sorted: "sorted_wrt (<) vec" using c(4) check_array_iff by (simp add: vec_def)
  have len: "length vec = n" using c(2) chunks_exact_exact(2)[of 2 c] by (simp add: vec_def)
  have "decode_store False n cursor = Inr (Array vec, rest)" using c assms(2) by (simp add: decode_store_def vec_def)
  moreover have "read_store False n cursor = Inr (Array vec, rest)"
    using c assms(2) sorted array_try_from_iff[of vec vec]
    by (simp add: read_store_def read_array_store_def vec_def map_err_def mult.commute)
  moreover have "canonical_store (Array vec)" using sorted len assms(2) by (simp add: ARRAY_LIMIT_def)
  moreover have "card (store_set (Array vec)) = n" using card_unat_set[of vec] sorted strict_sorted_distinct len by fastforce
  ultimately show ?thesis using canonical_ok unfolding store_agrees_def by blast
qed

lemma check_bitmap_store:
  assumes "check_store False n cursor = Inr rest" and "\<not> n \<le> unat ARRAY_LIMIT" and "n \<le> 65536"
  shows "store_agrees False n cursor rest"
proof -
  obtain c where c: "cursor = c @ rest" "length c = DENSE_BYTES"
    "sum_list (map (\<lambda>w. pop_count (from_le_bytes w :: u64)) (chunks_exact 8 c)) = n"
    using assms(1,2)
    by (auto simp: check_store_def bind_res_Inr_iff cursor_take_Inr_iff if_Inl_eq_Inr_iff)
  define ws where "ws = (map from_le_bytes (chunks_exact 8 c) :: u64 list)"
  have len: "length ws = 1024" using c(2) chunks_exact_exact(2)[of 8 c] by (simp add: ws_def DENSE_BYTES_def BITMAP_LENGTH_def)
  have sum: "sum_list (map pop_count ws) = n" using c(3) by (simp add: ws_def comp_def)
  let ?b = "\<lparr>bs_len = of_nat n, bs_bits = ws\<rparr>"
  have n: "unat (of_nat n :: u64) = n" using assms(3) by (simp add: unsigned_of_nat take_bit_eq_mod)
  have ok: "bitmap_ok ?b" using len sum n by (simp add: bitmap_ok_def card_words_set)
  have can: "canonical_store (Bitmap ?b)" "card (store_set (Bitmap ?b)) = n"
    using ok n assms(2) sum by (simp_all add: ARRAY_LIMIT_def card_words_set)
  have "decode_store False n cursor = Inr (Bitmap ?b, rest)"
    using c assms(2) by (simp add: decode_store_def from_lsb0_bytes_unchecked_def ws_def DENSE_BYTES_def)
  moreover have "read_store False n cursor = Inr (Bitmap ?b, rest)"
    using c assms(2) sum
    by (simp add: read_store_def read_bitmap_store_def bitmap_try_from_def ws_def comp_def map_err_def DENSE_BYTES_def mult.commute)
  ultimately show ?thesis using can canonical_ok unfolding store_agrees_def by blast
qed

lemma check_store_sound: "check_store is_run n cursor = Inr rest \<Longrightarrow> n \<le> 65536 \<Longrightarrow> store_agrees is_run n cursor rest"
  using check_run_store check_array_store check_bitmap_store by (cases is_run) metis+

section \<open>Whole bitmaps\<close>

lemma read_store_eq:
  "(if r then read_run_store reader
    else if (ucast (n :: u16) + 1 :: u64) \<le> ARRAY_LIMIT then read_array_store (unat (ucast n + 1 :: u64)) reader
    else read_bitmap_store (ucast n + 1) reader) = read_store r (unat n + 1) reader"
proof -
  have "unat (ucast n :: u64) = unat n" using unat_u16_less[of n] by (simp add: unsigned_ucast_eq take_bit_eq_mod)
  then have u: "unat (ucast n + 1 :: u64) = unat n + 1" using unat_u16_less[of n] by (simp add: unat_word_ariths(1))
  then have "(of_nat (unat n + 1) :: u64) = ucast n + 1" by (metis of_nat_unat ucast_id)
  then show ?thesis by (simp only: read_store_def word_le_nat_alt u)
qed

lemma read_containers_Cons:
  "read_containers runs i ((k, n) # ds) reader =
     bind_res (is_run_container runs i) (\<lambda>is_run.
     bind_res (read_store is_run (unat n + 1) reader) (\<lambda>(store, reader).
     bind_res (read_containers runs (Suc i) ds reader) (\<lambda>(cs, reader).
       Inr (\<lparr>ct_key = k, ct_store = store\<rparr> # cs, reader))))"
  by (simp only: read_containers.simps Let_def read_store_eq)

definition store_heap :: "store \<Rightarrow> usize" where
  "store_heap s = (case s of Array vec \<Rightarrow> length vec * 2 | Bitmap _ \<Rightarrow> DENSE_BYTES)"

lemma store_heap_card:
  assumes "canonical_store s"
  shows "store_heap s = (if card (store_set s) \<le> unat ARRAY_LIMIT then card (store_set s) * 2 else DENSE_BYTES)"
proof (cases s)
  case (Array vec)
  then have "card (store_set s) = length vec" using assms card_unat_set[of vec] strict_sorted_distinct by fastforce
  then show ?thesis using assms Array by (simp add: store_heap_def ARRAY_LIMIT_def)
next
  case (Bitmap bits)
  then show ?thesis using assms by (simp add: store_heap_def ARRAY_LIMIT_def bitmap_ok_def)
qed

definition bitmaps_agree :: "bytes option \<Rightarrow> usize \<Rightarrow> u16 option \<Rightarrow> (u16 \<times> u16) list \<Rightarrow> usize \<Rightarrow> bytes \<Rightarrow> bytes \<Rightarrow> bool" where
  "bitmaps_agree runs i prev ds heap cursor rest \<longleftrightarrow>
     (\<exists>cs ts. decode_containers runs i ds cursor = Inr cs \<and> roaring_ok cs \<and> (\<forall>p c. prev = Some p \<and> c \<in> set cs \<longrightarrow> p < ct_key c)
        \<and> heap = sum_list (map (\<lambda>c. store_heap (ct_store c)) cs) \<and> length cs = length ds
        \<and> read_containers runs i ds cursor = Inr (ts, rest)
        \<and> list_all2 (\<lambda>t c. ct_key t = ct_key c \<and> store_ok (ct_store t) \<and> store_set (ct_store t) = store_set (ct_store c)) ts cs
        \<and> (runs = None \<longrightarrow> ts = cs))"

lemma prepare_step:
  assumes "prepare_loop L offsets runs i prev ((k, n) # ds) alloc cursor = Inr (alloc', rest)"
  obtains r cursor' alloc'' where "\<forall>p. prev = Some p \<longrightarrow> p < k" and "is_run_container runs i = Inr r"
    and "check_store r (unat n + 1) cursor = Inr cursor'"
    and "alloc'' = alloc + (if unat n + 1 \<le> unat ARRAY_LIMIT then (unat n + 1) * 2 else DENSE_BYTES)"
    and "prepare_loop L offsets runs (Suc i) (Some k) ds alloc'' cursor' = Inr (alloc', rest)"
  using assms
  by (auto simp: bind_res_Inr_iff roaring_multiply_Inr_iff roaring_add_Inr_iff Let_def split: if_splits option.splits)

lemma prepare_loop_sound:
  assumes "prepare_loop L offsets runs i prev ds alloc cursor = Inr (alloc', rest)"
  shows "alloc \<le> alloc' \<and> bitmaps_agree runs i prev ds (alloc' - alloc) cursor rest"
  using assms
proof (induction ds arbitrary: i prev alloc cursor)
  case Nil
  then show ?case by (simp add: bitmaps_agree_def)
next
  case (Cons d ds)
  obtain k n where d: "d = (k, n)" by fastforce
  obtain r cursor' alloc'' where step: "\<forall>p. prev = Some p \<longrightarrow> p < k" "is_run_container runs i = Inr r"
      "check_store r (unat n + 1) cursor = Inr cursor'"
      "alloc'' = alloc + (if unat n + 1 \<le> unat ARRAY_LIMIT then (unat n + 1) * 2 else DENSE_BYTES)"
      "prepare_loop L offsets runs (Suc i) (Some k) ds alloc'' cursor' = Inr (alloc', rest)"
    using prepare_step Cons.prems unfolding d by metis
  have "store_agrees r (unat n + 1) cursor cursor'" using check_store_sound[OF step(3)] unat_u16_less[of n] by simp
  then obtain s t where st: "decode_store r (unat n + 1) cursor = Inr (s, cursor')" "canonical_store s" "card (store_set s) = unat n + 1"
      "read_store r (unat n + 1) cursor = Inr (t, cursor')" "store_ok t" "store_set t = store_set s" "\<not> r \<longrightarrow> t = s"
    unfolding store_agrees_def by blast
  obtain cs ts where IH: "decode_containers runs (Suc i) ds cursor' = Inr cs" "roaring_ok cs" "\<forall>c \<in> set cs. k < ct_key c"
      "alloc'' \<le> alloc'" "alloc' - alloc'' = sum_list (map (\<lambda>c. store_heap (ct_store c)) cs)" "length cs = length ds"
      "read_containers runs (Suc i) ds cursor' = Inr (ts, rest)"
      "list_all2 (\<lambda>t c. ct_key t = ct_key c \<and> store_ok (ct_store t) \<and> store_set (ct_store t) = store_set (ct_store c)) ts cs"
      "runs = None \<longrightarrow> ts = cs"
    using Cons.IH[OF step(5)] unfolding bitmaps_agree_def by blast
  let ?c = "\<lparr>ct_key = k, ct_store = s\<rparr>" and ?t = "\<lparr>ct_key = k, ct_store = t\<rparr>"
  have "container_ok ?c" using st(2,3) by (auto simp: container_ok_def)
  then have "roaring_ok (?c # cs)" using IH(2,3) by (simp add: roaring_ok_def sorted_containers_def)
  moreover have "decode_containers runs i (d # ds) cursor = Inr (?c # cs)" using IH(1) st(1) step(2) by (simp add: d)
  moreover have "read_containers runs i (d # ds) cursor = Inr (?t # ts, rest)"
    using IH(7) st(4) step(2) by (simp add: d read_containers_Cons del: read_containers.simps(2))
  moreover have "runs = None \<longrightarrow> t = s" using st(7) step(2) by (auto simp: is_run_container_def)
  moreover have "alloc'' = alloc + store_heap s" using step(4) store_heap_card[OF st(2)] st(3) by simp
  moreover have "\<forall>p c. prev = Some p \<and> c \<in> set (?c # cs) \<longrightarrow> p < ct_key c" using step(1) IH(3) by (auto intro: less_trans)
  ultimately show ?case using IH st(5,6)
    unfolding bitmaps_agree_def by (intro conjI exI[of _ "?c # cs"] exI[of _ "?t # ts"]) auto
qed

lemma run_header_count: "unat (drop_bit 16 (w :: u32) + 1) \<le> 65536"
proof -
  have "unat (drop_bit 16 w) = unat w div 65536" by (simp add: unat_drop_bit_eq drop_bit_eq_div unat_div)
  moreover have "unat w div 65536 < 65536" using unsigned_less[of w, where ?'a = nat] by (simp add: less_mult_imp_div_less)
  ultimately show ?thesis by (simp add: unat_word_ariths(1))
qed

lemma read_le_Inr_iff: "read_le bs = Inr (w :: 'a::len word, rest) \<longleftrightarrow> (\<exists>c. bs = c @ rest \<and> length c = LENGTH('a) div 8 \<and> w = from_le_bytes c)"
  by (auto simp: read_le_def bind_res_Inr_iff read_exact_Inr_iff)

lemma header_agrees:
  assumes "prepare_header bytes = Inr ((n, off, runs), cursor)"
  shows "n \<le> 65536 \<and> (\<exists>reader. read_cookie bytes = Inr ((n, off, runs \<noteq> None), reader)
     \<and> (case runs of None \<Rightarrow> reader = cursor | Some bm \<Rightarrow> read_exact ((n + 7) div 8) reader = Inr (bm, cursor)))"
proof -
  obtain cookie c where c: "cursor_u32 bytes = Inr (cookie, c)"
    using assms by (auto simp: prepare_header_def bind_res_Inr_iff)
  then have r: "read_le bytes = Inr (cookie, c)" by (auto simp: cursor_u32_def read_le_Inr_iff bind_res_Inr_iff cursor_take_Inr_iff)
  consider (plain) "cookie = 12346" | (runs) "cookie \<noteq> 12346" "(ucast cookie :: u16) = 12347"
    using assms c by (auto simp: prepare_header_def split: if_splits)
  then show ?thesis
  proof cases
    case plain
    then obtain m where m: "cursor_u32 c = Inr (m, cursor)" "n = unat m" "unat m \<le> 65536" "off" "runs = None"
      using assms c by (auto simp: prepare_header_def bind_res_Inr_iff split: if_splits)
    then have "read_le c = Inr (m, cursor)" by (auto simp: cursor_u32_def read_le_Inr_iff bind_res_Inr_iff cursor_take_Inr_iff)
    then show ?thesis using plain r m by (simp add: read_cookie_def SERIAL_COOKIE_NO_RUNCONTAINER_def)
  next
    case runs
    let ?n = "unat (drop_bit 16 cookie + 1)"
    obtain bm where bm: "cursor_take ((?n + 7) div 8) c = Inr (bm, cursor)" "n = ?n" "off = (4 \<le> ?n)" "runs = Some bm"
      using assms c runs by (auto simp: prepare_header_def bind_res_Inr_iff Let_def)
    then have "read_exact ((n + 7) div 8) c = Inr (bm, cursor)" unfolding bm(2) by (simp only: read_exact_Inr_iff cursor_take_Inr_iff)
    then show ?thesis using runs r bm run_header_count[of cookie]
      by (simp add: read_cookie_def SERIAL_COOKIE_NO_RUNCONTAINER_def SERIAL_COOKIE_def NO_OFFSET_THRESHOLD_def Let_def)
  qed
qed

lemma agreeing_sets:
  assumes "list_all2 (\<lambda>t c. ct_key t = ct_key c \<and> store_ok (ct_store t) \<and> store_set (ct_store t) = store_set (ct_store c)) ts cs"
  shows "slot ts k = slot cs k"
  using assms by (induction rule: list_all2_induct) (auto simp: slot_Cons)

lemma prepare_deserialize_parts:
  assumes "prepare_deserialize sz bytes = Inr p"
  obtains n off runs cursor offsets payload where "prepare_header bytes = Inr ((n, off, runs), cursor)"
    and "cursor_take (n * 4) cursor = Inr (pb_descriptions p, payload)"
    and "if off then \<exists>offs. offsets = Some offs \<and> cursor_take (n * 4) payload = Inr (offs, pb_payload p)
         else offsets = None \<and> pb_payload p = payload"
    and "prepare_loop (length bytes) offsets runs 0 None (map le_pair (chunks_exact 4 (pb_descriptions p))) (n * sz) (pb_payload p)
        = Inr (pb_allocation_bytes p, [])"
    and "pb_runs p = runs"
proof -
  obtain n off runs cursor where h: "prepare_header bytes = Inr ((n, off, runs), cursor)"
    using assms by (auto simp: prepare_deserialize_def bind_res_Inr_iff)
  show ?thesis
  proof (cases off)
    case True
    then obtain ds c offs c' a where "cursor_take (n * 4) cursor = Inr (ds, c)" "cursor_take (n * 4) c = Inr (offs, c')"
      "prepare_loop (length bytes) (Some offs) runs 0 None (map le_pair (chunks_exact 4 ds)) (n * sz) c' = Inr (a, [])"
      "p = \<lparr>pb_descriptions = ds, pb_runs = runs, pb_payload = c', pb_allocation_bytes = a\<rparr>"
      using assms h by (auto simp: prepare_deserialize_def bind_res_Inr_iff roaring_multiply_Inr_iff split: if_splits)
    then show ?thesis using that[OF h, of c "Some offs"] True by simp
  next
    case False
    then obtain ds c a where "cursor_take (n * 4) cursor = Inr (ds, c)"
      "prepare_loop (length bytes) None runs 0 None (map le_pair (chunks_exact 4 ds)) (n * sz) c = Inr (a, [])"
      "p = \<lparr>pb_descriptions = ds, pb_runs = runs, pb_payload = c, pb_allocation_bytes = a\<rparr>"
      using assms h by (auto simp: prepare_deserialize_def bind_res_Inr_iff roaring_multiply_Inr_iff split: if_splits)
    then show ?thesis using that[OF h, of c None] False by simp
  qed
qed

lemma prepare_deserialize_sound:
  assumes "prepare_deserialize sz bytes = Inr p"
  shows "\<exists>cs ds. prepared_deserialize p = Inr cs \<and> roaring_ok cs
      \<and> pb_allocation_bytes p = length cs * sz + sum_list (map (\<lambda>c. store_heap (ct_store c)) cs)
      \<and> deserialize_from bytes = Inr (ds, []) \<and> roaring_set ds = roaring_set cs \<and> (pb_runs p = None \<longrightarrow> ds = cs)"
proof -
  obtain n off runs cursor offsets payload where h: "prepare_header bytes = Inr ((n, off, runs), cursor)"
    and d: "cursor_take (n * 4) cursor = Inr (pb_descriptions p, payload)"
    and o: "if off then \<exists>offs. offsets = Some offs \<and> cursor_take (n * 4) payload = Inr (offs, pb_payload p)
         else offsets = None \<and> pb_payload p = payload"
    and l: "prepare_loop (length bytes) offsets runs 0 None (map le_pair (chunks_exact 4 (pb_descriptions p))) (n * sz) (pb_payload p)
        = Inr (pb_allocation_bytes p, [])" and pr: "pb_runs p = runs"
    using prepare_deserialize_parts[OF assms] by metis
  let ?ds = "map le_pair (chunks_exact 4 (pb_descriptions p))"
  obtain cs ts where a: "decode_containers runs 0 ?ds (pb_payload p) = Inr cs" "roaring_ok cs"
      "n * sz \<le> pb_allocation_bytes p" "pb_allocation_bytes p - n * sz = sum_list (map (\<lambda>c. store_heap (ct_store c)) cs)"
      "length cs = length ?ds" "read_containers runs 0 ?ds (pb_payload p) = Inr (ts, [])"
      "list_all2 (\<lambda>t c. ct_key t = ct_key c \<and> store_ok (ct_store t) \<and> store_set (ct_store t) = store_set (ct_store c)) ts cs"
      "runs = None \<longrightarrow> ts = cs"
    using prepare_loop_sound[OF l] unfolding bitmaps_agree_def by blast
  have len: "length cs = n" using d a(5) chunks_exact_exact(2)[of 4 "pb_descriptions p"] by (simp add: cursor_take_Inr_iff)
  obtain reader where rc: "n \<le> 65536" "read_cookie bytes = Inr ((n, off, runs \<noteq> None), reader)"
     "case runs of None \<Rightarrow> reader = cursor | Some bm \<Rightarrow> read_exact ((n + 7) div 8) reader = Inr (bm, cursor)"
    using header_agrees[OF h] by blast
  have descr: "read_exact (n * 4) cursor = Inr (pb_descriptions p, payload)" using d by (simp add: read_exact_Inr_iff cursor_take_Inr_iff)
  have offs: "(if off then bind_res (read_exact (n * 4) payload) (\<lambda>(_, reader). Inr reader) else Inr payload) = Inr (pb_payload p)"
    using o by (auto simp: bind_res_Inr_iff read_exact_Inr_iff cursor_take_Inr_iff split: if_splits)
  have "deserialize_from bytes = Inr (ts, [])"
    using rc descr offs a(6) by (cases runs) (auto simp: deserialize_from_def)
  moreover have "prepared_deserialize p = Inr cs" using a(1) pr by (simp add: prepared_deserialize_def)
  moreover have "pb_allocation_bytes p = length cs * sz + sum_list (map (\<lambda>c. store_heap (ct_store c)) cs)" using a(3,4) len by simp
  ultimately show ?thesis using a(2,8) pr roaring_set_eqI[OF agreeing_sets[OF a(7)]]
    by (intro exI[of _ cs] exI[of _ ts]) simp
qed

section \<open>Reading back what was written\<close>

lemma read_written_store:
  assumes "container_ok c"
  shows "read_store False (unat (container_len c)) (store_bytes (ct_store c) @ rest) = Inr (ct_store c, rest)"
proof (cases "ct_store c")
  case (Array vec)
  then have "sorted_wrt (<) vec" "length vec \<le> 4096" using assms by (simp_all add: container_ok_def)
  then show ?thesis using read_array_append[of vec rest] Array
    by (simp add: read_store_def container_len_def ARRAY_LIMIT_def unsigned_of_nat take_bit_eq_mod)
next
  case (Bitmap bits)
  then have "bitmap_ok bits" "4096 < unat (bs_len bits)" using assms by (simp_all add: container_ok_def)
  then show ?thesis using read_bitmap_append[of bits rest] Bitmap by (simp add: read_store_def container_len_def ARRAY_LIMIT_def)
qed

lemma check_written_store:
  assumes "container_ok c"
  shows "check_store False (unat (container_len c)) (store_bytes (ct_store c) @ rest) = Inr rest"
proof (cases "ct_store c")
  case (Array vec)
  then have "sorted_wrt (<) vec" "length vec \<le> 4096" using assms by (simp_all add: container_ok_def)
  then show ?thesis using Array check_array_iff[of None vec "()"]
    by (simp add: check_store_def container_len_def ARRAY_LIMIT_def unsigned_of_nat take_bit_eq_mod usize_limit_def comp_def)
next
  case (Bitmap bits)
  then have "bitmap_ok bits" "4096 < unat (bs_len bits)" using assms by (simp_all add: container_ok_def)
  then show ?thesis using Bitmap
    by (simp add: check_store_def container_len_def ARRAY_LIMIT_def DENSE_BYTES_def BITMAP_LENGTH_def bitmap_ok_def card_words_set comp_def)
qed

lemma read_written_containers:
  assumes "\<forall>c \<in> set cs. container_ok c"
  shows "read_containers None i (map (\<lambda>c. (ct_key c, ucast (container_len c - 1))) cs) (concat (map (\<lambda>c. store_bytes (ct_store c)) cs) @ rest)
    = Inr (cs, rest)"
  using assms
proof (induction cs arbitrary: i)
  case (Cons c cs)
  then have "read_store False (unat (ucast (container_len c - 1) :: u16) + 1)
      (store_bytes (ct_store c) @ concat (map (\<lambda>c. store_bytes (ct_store c)) cs) @ rest)
     = Inr (ct_store c, concat (map (\<lambda>c. store_bytes (ct_store c)) cs) @ rest)"
    using read_written_store[of c] container_card(1)[of c] by simp
  then show ?case using Cons by (simp add: is_run_container_def read_containers_Cons del: read_containers.simps(2))
qed simp

lemma length_offset_bytes [simp]: "length (offset_bytes off cs) = 4 * length cs"
  by (induction cs arbitrary: off) simp_all

lemma roaring_ok_length: "roaring_ok cs \<Longrightarrow> length cs \<le> 65536"
  using u16_list_length[of "map ct_key cs"] by (simp add: roaring_ok_def sorted_containers_def)

lemma deserialize_serialized:
  assumes "roaring_ok cs"
  shows "deserialize_from (serialize_into cs @ rest) = Inr (cs, rest)"
proof -
  have n: "unat (of_nat (length cs) :: u32) = length cs"
    using roaring_ok_length[OF assms] by (simp add: unsigned_of_nat take_bit_eq_mod)
  have cookie: "read_cookie (serialize_into cs @ rest) = Inr ((length cs, True, False),
      concat (map description cs) @ offset_bytes (8 + 8 * of_nat (length cs)) cs @ concat (map (\<lambda>c. store_bytes (ct_store c)) cs) @ rest)"
    using n by (simp add: read_cookie_def serialize_into_def read_le_append)
  have len: "length (concat (map description cs)) = length cs * 4" by (rule length_concat_map_const) simp
  have chunks: "map le_pair (chunks_exact 4 (concat (map description cs))) = map (\<lambda>c. (ct_key c, ucast (container_len c - 1))) cs"
    by (simp add: chunks_exact_concat comp_def)
  show ?thesis
    using roaring_ok_length[OF assms] read_written_containers[of cs 0 rest] assms
    by (simp add: deserialize_from_def cookie len chunks roaring_ok_def mult.commute)
qed

lemma serialized_size_correct: "length (serialize_into cs) = 8 + sum_list (map (\<lambda>c. 8 + length (store_bytes (ct_store c))) cs)"
  by (induction cs) (simp_all add: serialize_into_def)

lemma store_bytes_heap: "canonical_store s \<Longrightarrow> length (store_bytes s) = store_heap s \<and> store_heap s \<le> 8192"
  by (cases s) (simp_all add: store_heap_def DENSE_BYTES_def BITMAP_LENGTH_def bitmap_ok_def)

lemma next_offset:
  fixes off :: u32
  assumes "canonical_store (ct_store c)" and "unat off + length (store_bytes (ct_store c)) < 2 ^ 32"
  shows "unat (case ct_store c of Array vec \<Rightarrow> off + of_nat (length vec) * 2 | Bitmap _ \<Rightarrow> off + 8 * 1024)
    = unat off + length (store_bytes (ct_store c))"
proof -
  have "(case ct_store c of Array vec \<Rightarrow> off + of_nat (length vec) * 2 | Bitmap _ \<Rightarrow> off + 8 * 1024)
      = off + of_nat (length (store_bytes (ct_store c)))"
    using assms(1) by (cases "ct_store c") (simp_all add: bitmap_ok_def mult.commute)
  moreover have "unat (of_nat (length (store_bytes (ct_store c))) :: u32) = length (store_bytes (ct_store c))"
    using store_bytes_heap[OF assms(1)] by (simp add: unsigned_of_nat take_bit_eq_mod)
  ultimately show ?thesis using assms(2) by (simp only: unat_word_ariths(1) len_bit0 len_num1) simp
qed

lemma prepare_loop_ok:
  assumes "\<not> (case prev of None \<Rightarrow> False | Some previous \<Rightarrow> k \<le> previous)"
    and "slice offsets (i * 4) (i * 4 + 4) = Inr bs" and "unat (from_le_bytes bs :: u32) = L - length cursor"
    and "is_run_container runs i = Inr r" and "check_store r (unat n + 1) cursor = Inr cursor'"
    and "(if unat n + 1 \<le> unat ARRAY_LIMIT then roaring_multiply (unat n + 1) 2 else Inr DENSE_BYTES) = Inr h"
    and "alloc + h < usize_limit"
  shows "prepare_loop L (Some offsets) runs i prev ((k, n) # ds) alloc cursor
    = prepare_loop L (Some offsets) runs (Suc i) (Some k) ds (alloc + h) cursor'"
  unfolding prepare_loop.simps Let_def option.case(2) assms(2,4,5,6) bind_res_simps roaring_add_ok[OF assms(7)]
  using assms(1,3) by (simp add: ensure_def)

lemma prepare_written_containers:
  assumes "roaring_ok cs" and "\<forall>p c. prev = Some p \<and> c \<in> set cs \<longrightarrow> p < ct_key c" and "length pre = 4 * i"
    and "unat off + length (concat (map (\<lambda>c. store_bytes (ct_store c)) cs)) = L" and "L < 2 ^ 32"
    and "alloc + sum_list (map (\<lambda>c. store_heap (ct_store c)) cs) < usize_limit"
  shows "prepare_loop L (Some (pre @ offset_bytes off cs)) None i prev (map (\<lambda>c. (ct_key c, ucast (container_len c - 1))) cs) alloc
      (concat (map (\<lambda>c. store_bytes (ct_store c)) cs))
    = Inr (alloc + sum_list (map (\<lambda>c. store_heap (ct_store c)) cs), [])"
  using assms
proof (induction cs arbitrary: i prev pre off alloc)
  case (Cons c cs)
  let ?rest = "concat (map (\<lambda>c. store_bytes (ct_store c)) cs)" and ?n = "ucast (container_len c - 1) :: u16"
  let ?off = "case ct_store c of Array vec \<Rightarrow> off + of_nat (length vec) * 2 | Bitmap _ \<Rightarrow> off + 8 * 1024"
  have c: "container_ok c" "canonical_store (ct_store c)" using Cons.prems(1) by (simp_all add: roaring_ok_def container_ok_def)
  have fresh: "\<not> (case prev of None \<Rightarrow> False | Some previous \<Rightarrow> ct_key c \<le> previous)"
    using Cons.prems(2) by (auto split: option.splits simp: not_le)
  have off: "unat ?off = unat off + length (store_bytes (ct_store c))" by (rule next_offset[OF c(2)]) (use Cons.prems in simp)
  have slice: "slice (pre @ offset_bytes off (c # cs)) (i * 4) (i * 4 + 4) = Inr (to_le_bytes off)"
    using Cons.prems(3) by (simp add: slice_def)
  have check: "check_store False (unat ?n + 1) (store_bytes (ct_store c) @ ?rest) = Inr ?rest"
    using check_written_store[OF c(1)] container_card(1)[OF c(1)] by simp
  have card: "unat ?n + 1 = card (store_set (ct_store c))"
    using container_card(1)[OF c(1)] store_len_card[OF canonical_ok[OF c(2)]] by (simp add: container_len_def)
  have heap: "(if unat ?n + 1 \<le> unat ARRAY_LIMIT then roaring_multiply (unat ?n + 1) 2 else Inr DENSE_BYTES) = Inr (store_heap (ct_store c))"
    unfolding store_heap_card[OF c(2)] card by (auto simp: ARRAY_LIMIT_def usize_limit_def)
  have ok: "roaring_ok cs" "\<forall>p d. Some (ct_key c) = Some p \<and> d \<in> set cs \<longrightarrow> p < ct_key d"
    using Cons.prems(1) by (auto simp: roaring_ok_def sorted_containers_def)
  have rest: "prepare_loop L (Some ((pre @ to_le_bytes off) @ offset_bytes ?off cs)) None (Suc i) (Some (ct_key c))
      (map (\<lambda>c. (ct_key c, ucast (container_len c - 1))) cs) (alloc + store_heap (ct_store c)) ?rest
     = Inr (alloc + store_heap (ct_store c) + sum_list (map (\<lambda>c. store_heap (ct_store c)) cs), [])"
    by (rule Cons.IH[OF ok]) (use Cons.prems off in simp_all)
  have "unat (from_le_bytes (to_le_bytes off) :: u32) = L - length (store_bytes (ct_store c) @ ?rest)" using Cons.prems(4) by simp
  moreover have "alloc + store_heap (ct_store c) < usize_limit" using Cons.prems(6) by simp
  ultimately have "prepare_loop L (Some (pre @ offset_bytes off (c # cs))) None i prev
      ((ct_key c, ?n) # map (\<lambda>c. (ct_key c, ucast (container_len c - 1))) cs) alloc (store_bytes (ct_store c) @ ?rest)
    = prepare_loop L (Some (pre @ offset_bytes off (c # cs))) None (Suc i) (Some (ct_key c))
      (map (\<lambda>c. (ct_key c, ucast (container_len c - 1))) cs) (alloc + store_heap (ct_store c)) ?rest"
    by (intro prepare_loop_ok[OF fresh slice _ _ check heap]) (simp_all add: is_run_container_def)
  then show ?case using rest by (simp add: add.assoc)
qed simp

lemma serialized_bound:
  assumes "roaring_ok cs"
  shows "sum_list (map (\<lambda>c. store_heap (ct_store c)) cs) \<le> 65536 * 8192" and "length (serialize_into cs) < 2 ^ 32"
proof -
  have *: "sum_list (map f cs) \<le> length cs * b" if "\<forall>c \<in> set cs. f c \<le> b" for f :: "container \<Rightarrow> nat" and b
    using that by (induction cs) auto
  have each: "\<forall>c \<in> set cs. length (store_bytes (ct_store c)) = store_heap (ct_store c) \<and> store_heap (ct_store c) \<le> 8192"
    using store_bytes_heap assms by (simp add: roaring_ok_def container_ok_def)
  have len: "length cs \<le> 65536" by (rule roaring_ok_length[OF assms])
  have "sum_list (map (\<lambda>c. store_heap (ct_store c)) cs) \<le> length cs * 8192" by (rule *) (use each in simp)
  then show "sum_list (map (\<lambda>c. store_heap (ct_store c)) cs) \<le> 65536 * 8192" using len by linarith
  have "sum_list (map (\<lambda>c. 8 + length (store_bytes (ct_store c))) cs) \<le> length cs * 8200" by (rule *) (use each in auto)
  then show "length (serialize_into cs) < 2 ^ 32" using len by (simp add: serialized_size_correct)
qed

lemma prepare_serialized:
  assumes "roaring_ok cs" and "sz \<le> 2 ^ 32"
  shows "\<exists>p. prepare_deserialize sz (serialize_into cs) = Inr p \<and> pb_runs p = None"
proof -
  let ?stores = "concat (map (\<lambda>c. store_bytes (ct_store c)) cs)" and ?off = "8 + 8 * of_nat (length cs) :: u32"
  let ?heap = "sum_list (map (\<lambda>c. store_heap (ct_store c)) cs)"
  have len: "length cs \<le> 65536" by (rule roaring_ok_length[OF assms(1)])
  have n: "unat (of_nat (length cs) :: u32) = length cs" using len by (simp add: unsigned_of_nat take_bit_eq_mod)
  have off: "unat ?off = 8 + 8 * length cs" using len n by (simp add: unat_word_ariths)
  have header: "prepare_header (serialize_into cs) = Inr ((length cs, True, None), concat (map description cs) @ offset_bytes ?off cs @ ?stores)"
    using n len by (simp add: prepare_header_def serialize_into_def cursor_u32_def SERIAL_COOKIE_NO_RUNCONTAINER_def)
  have dl: "length (concat (map description cs)) = length cs * 4" by (rule length_concat_map_const) simp
  have chunks: "map le_pair (chunks_exact 4 (concat (map description cs))) = map (\<lambda>c. (ct_key c, ucast (container_len c - 1))) cs"
    by (simp add: chunks_exact_concat comp_def)
  have "length (serialize_into cs) = unat ?off + length ?stores" using dl by (simp add: serialize_into_def off)
  moreover have "length cs * sz \<le> 65536 * 2 ^ 32" using len assms(2) by (rule mult_le_mono)
  then have alloc: "length cs * sz + ?heap < usize_limit" "length cs * sz < usize_limit"
    using serialized_bound(1)[OF assms(1)] by (simp_all add: usize_limit_def)
  ultimately have loop: "prepare_loop (length (serialize_into cs)) (Some ([] @ offset_bytes ?off cs)) None 0 None
      (map (\<lambda>c. (ct_key c, ucast (container_len c - 1))) cs) (length cs * sz) ?stores = Inr (length cs * sz + ?heap, [])"
    using assms(1) serialized_bound(2)[OF assms(1)] by (intro prepare_written_containers) simp_all
  have mul: "length cs * 4 < usize_limit" using len by (simp add: usize_limit_def)
  show ?thesis
    unfolding prepare_deserialize_def header
    using loop alloc mul dl chunks by (simp add: mult.commute)
qed

lemma length_serialized:
  assumes "roaring_ok cs"
  shows "length (serialize_into cs) = serialized_size cs"
proof -
  have "container_size c = 8 + length (store_bytes (ct_store c))" if "c \<in> set cs" for c
    using assms that by (cases "ct_store c") (auto simp: container_size_def roaring_ok_def container_ok_def bitmap_ok_def)
  then show ?thesis unfolding serialized_size_correct serialized_size_def by (simp cong: map_cong)
qed

lemma prepared_serialized:
  assumes "roaring_ok cs" and "sz \<le> 2 ^ 32"
  shows "bind_res (prepare_deserialize sz (serialize_into cs)) prepared_deserialize = Inr cs"
proof -
  obtain p where p: "prepare_deserialize sz (serialize_into cs) = Inr p" "pb_runs p = None"
    using prepare_serialized[OF assms] by blast
  then show ?thesis using prepare_deserialize_sound[OF p(1)] deserialize_serialized[OF assms(1), of "[]"] by auto
qed

section \<open>Properties\<close>

text \<open>
  C10. Round trip of the portable format: a well-formed bitmap is written in
  \<^verbatim>\<open>serialized_size\<close> bytes, \<^verbatim>\<open>deserialize_from\<close> reads it back and leaves what
  follows, and the validating reader accepts it and decodes the same bitmap,
  for any container size up to 2^32 bytes.
\<close>

theorem roaring_serialization_roundtrip:
  assumes "roaring_ok cs" and "size_of_container \<le> 2 ^ 32"
  shows "length (serialize_into cs) = serialized_size cs
    \<and> deserialize_from (serialize_into cs @ rest) = Inr (cs, rest)
    \<and> bind_res (prepare_deserialize size_of_container (serialize_into cs)) prepared_deserialize = Inr cs"
  using length_serialized[OF assms(1)] deserialize_serialized[OF assms(1)] prepared_serialized[OF assms] by blast

theorem roaring_serialization_roundtrip_witness:
  "deserialize_from (serialize_into (fst (roaring_insert 70000 [])) @ [7]) = Inr (fst (roaring_insert 70000 []), [7])"
  using roaring_serialization_roundtrip[of "fst (roaring_insert 70000 [])" 32 "[7]"] by (simp add: roaring_insert_correct)

text \<open>
  C9. Bytes that pass \<^verbatim>\<open>prepare_deserialize\<close> decode: \<^verbatim>\<open>deserialize\<close> cannot fail
  or panic on them, its result is a well-formed bitmap (keys and values
  strictly increasing, cardinalities right, runs turned into the canonical
  store), the announced allocation is exactly the size of its containers and
  stores, and the general reader accepts the same bytes with the same set; on
  bytes without run containers it gives the identical bitmap.
\<close>

theorem prepared_bitmap_well_formed:
  assumes "prepare_deserialize size_of_container bytes = Inr p"
  shows "\<exists>cs ds. prepared_deserialize p = Inr cs \<and> roaring_ok cs
    \<and> pb_allocation_bytes p = length cs * size_of_container + sum_list (map (\<lambda>c. store_heap (ct_store c)) cs)
    \<and> deserialize_from bytes = Inr (ds, []) \<and> roaring_set ds = roaring_set cs \<and> (pb_runs p = None \<longrightarrow> ds = cs)"
  using assms by (rule prepare_deserialize_sound)

text \<open>One run container: the single run 5, 6, 7.\<close>

definition run_sample :: bytes where
  "run_sample = [59, 48, 0, 0, 1, 9, 0, 2, 0, 1, 0, 5, 0, 2, 0]"

lemma run_sample_accepted: "\<exists>p. prepare_deserialize 32 run_sample = Inr p"
  by (simp add: run_sample_def prepare_deserialize_def prepare_header_def cursor_u32_def cursor_u16_def cursor_take_def from_le_bytes_def
      usize_limit_def ok_or_def is_run_container_def check_store_def le_pair_def chunks_exact.simps Let_def checked_add_def index_def
      ARRAY_LIMIT_def drop_bit_eq_div)

theorem prepared_bitmap_well_formed_witness:
  "\<exists>p cs. prepare_deserialize 32 run_sample = Inr p \<and> prepared_deserialize p = Inr cs \<and> roaring_ok cs"
  using run_sample_accepted prepared_bitmap_well_formed[of 32 run_sample] by blast

text \<open>
  The general reader does not normalise runs.  Sized by the sum of the lengths
  minus one, the store of the run 0 to 4096 stays an array of 4097 values,
  which the writer would announce as a bit set.
\<close>

lemma oversized_run_array:
  "\<exists>s. read_run_store [1, 0, 0, 0, 0, 16] = Inr (s, []) \<and> \<not> canonical_store s"
proof -
  have "read_run_store [1, 0, 0, 0, 0, 16] = Inr (fst (store_insert_range 0 4096 (Array [])), [])"
    by (simp add: read_run_store_def read_le_def read_exact_def le_pair_def from_le_bytes_def chunks_exact.simps Let_def
        ok_or_def checked_add_def store_with_capacity_def ARRAY_LIMIT_def)
  moreover have "fst (store_insert_range 0 4096 (Array [])) = Array (fst (array_insert_range 0 4096 []))"
    by (simp add: store_insert_range_def case_prod_unfold Let_def)
  moreover have "length (fst (array_insert_range 0 4096 [])) = 4097"
    by (simp add: array_insert_range_def range_positions_def case_prod_unfold Let_def length_range_inclusive)
  ultimately show ?thesis by simp
qed

end
