(* ===== verification/Query_Ops.thy ===== *)
theory Query_Ops
  imports Roaring_Serial
begin

text \<open>
  The accounted operations of \<^verbatim>\<open>src/vendor/roaring/src/bitmap/query_ops.rs\<close>, as
  built without SIMD.  An operation is prepared, which computes its requested
  allocation with checked arithmetic, and then applied.  Allocations succeed and
  the observer admits each of them; what the allocator does shows in the capacity
  of a container vector, which decides whether it is reserved anew.  A failed
  application resets its operands; here its result is the error alone.
\<close>

section \<open>Sizes\<close>

text \<open>The sizes of \<^verbatim>\<open>Container\<close> and \<^verbatim>\<open>Cow<Container>\<close>, and the capacity allocated for a number of containers.\<close>

record vec_layout =
  vl_container :: usize
  vl_cow :: usize
  vl_alloc :: "usize \<Rightarrow> usize"

definition QUERY_DENSE :: usize where
  "QUERY_DENSE = 8192"

definition QUERY_TAIL :: usize where
  "QUERY_TAIL = 0"

datatype query_set_op = QueryUnion | QueryIntersection

definition query_overflow :: error where
  "query_overflow = InvalidInput ''query bitmap allocation overflow''"

definition query_add :: "usize \<Rightarrow> usize \<Rightarrow> usize res" where
  "query_add a b = ok_or (usize_checked_add a b) query_overflow"

definition query_bytes :: "usize \<Rightarrow> usize \<Rightarrow> usize res" where
  "query_bytes size_of n = ok_or (usize_checked_mul n size_of) query_overflow"

fun store_payload :: "store \<Rightarrow> usize res" where
  "store_payload (Array a) = query_bytes 2 (length a)"
| "store_payload (Bitmap _) = Inr QUERY_DENSE"

section \<open>Stores\<close>

fun query_normalize :: "store \<Rightarrow> store" where
  "query_normalize (Bitmap b) = (if bs_len b \<le> ARRAY_LIMIT then Array (to_array_store b) else Bitmap b)"
| "query_normalize (Array a) = (if ARRAY_LIMIT < of_nat (length a) then Bitmap (to_bitmap_store a) else Array a)"

definition array_union :: "array_store \<Rightarrow> array_store \<Rightarrow> array_store res" where
  "array_union a b =
     bind_res (bind_res (query_add (length a) (length b)) (\<lambda>n. query_add n QUERY_TAIL)) (\<lambda>_. Inr (scalar_or a b))"

definition array_intersect :: "array_store \<Rightarrow> array_store \<Rightarrow> array_store" where
  "array_intersect a b = and_retain b 0 a"

fun union_borrowed :: "store \<Rightarrow> store \<Rightarrow> store res" where
  "union_borrowed (Array a) (Array b) = bind_res (array_union a b) (\<lambda>a. Inr (Array a))"
| "union_borrowed (Bitmap a) (Array b) = Inr (Bitmap (bitmap_or_array a b))"
| "union_borrowed (Bitmap a) (Bitmap b) = Inr (Bitmap (op_bitmaps (OR) a b))"
| "union_borrowed (Array a) (Bitmap b) = Inr (Bitmap (bitmap_or_array b a))"

definition union_owned :: "store \<Rightarrow> store \<Rightarrow> store res" where
  "union_owned a b =
     (let (a, b) = (case (a, b) of (Array _, Bitmap _) \<Rightarrow> (b, a) | _ \<Rightarrow> (a, b)) in union_borrowed a b)"

fun intersect_owned :: "store \<Rightarrow> store \<Rightarrow> store" where
  "intersect_owned (Array a) (Array b) =
     (let (a, b) = (if length b < length a then (b, a) else (a, b)) in Array (array_intersect a b))"
| "intersect_owned (Bitmap a) (Bitmap b) = Bitmap (op_bitmaps (AND) a b)"
| "intersect_owned (Array a) (Bitmap b) = Array (filter (\<lambda>x. bitmap_contains x b) a)"
| "intersect_owned (Bitmap a) (Array b) = Array (filter (\<lambda>x. bitmap_contains x a) b)"

fun intersect_borrowed :: "store \<Rightarrow> store \<Rightarrow> store" where
  "intersect_borrowed (Array a) (Array b) =
     (if length b < length a then let smaller = b in Array (array_intersect smaller a) else Array (array_intersect a b))"
| "intersect_borrowed (Bitmap a) (Bitmap b) = Bitmap (op_bitmaps (AND) a b)"
| "intersect_borrowed (Array a) (Bitmap b) = Array (filter (\<lambda>x. bitmap_contains x b) a)"
| "intersect_borrowed (Bitmap a) (Array b) = (let out = Array b in intersect_owned out (Bitmap a))"

section \<open>Preparation\<close>

definition union_count :: "roaring \<Rightarrow> roaring \<Rightarrow> usize" where
  "union_count a b = length a + length (filter (\<lambda>c. \<not> is_ok (search_key (ct_key c) a)) b)"

fun union_cost :: "bool \<Rightarrow> store \<Rightarrow> store \<Rightarrow> usize res" where
  "union_cost owned (Array x) (Array y) =
     bind_res (query_add (length x) (length y)) (\<lambda>n.
     bind_res (query_add n QUERY_TAIL) (\<lambda>m.
     bind_res (query_bytes 2 m) (\<lambda>len. query_add len (if unat ARRAY_LIMIT < n then QUERY_DENSE else 0))))"
| "union_cost owned (Array _) (Bitmap _) = Inr (if \<not> owned then QUERY_DENSE else 0)"
| "union_cost owned (Bitmap _) _ = Inr 0"

definition intersection_cost :: "bool \<Rightarrow> store \<Rightarrow> store \<Rightarrow> usize res" where
  "intersection_cost owned lhs rhs =
     bind_res (if \<not> owned
               then case (lhs, rhs) of
                   (Array x, Array y) \<Rightarrow> if length y < length x then store_payload rhs else Inr 0
                 | (Bitmap _, Array _) \<Rightarrow> store_payload rhs
                 | _ \<Rightarrow> Inr 0
               else Inr 0) (\<lambda>clone.
     let normalize = (if ARRAY_LIMIT < min (store_len lhs) (store_len rhs)
                        \<or> (case (lhs, rhs) of (Bitmap _, Bitmap _) \<Rightarrow> True | _ \<Rightarrow> False) then QUERY_DENSE else 0)
     in bind_res (query_add clone normalize) (\<lambda>n. query_add n 0))"

fun extra_loop :: "query_set_op \<Rightarrow> bool \<Rightarrow> roaring \<Rightarrow> usize \<Rightarrow> usize \<Rightarrow> roaring \<Rightarrow> (usize \<times> usize) res" where
  "extra_loop op owned a total_bytes peak [] = Inr (total_bytes, peak)"
| "extra_loop op owned a total_bytes peak (rhs # b) =
     (case search_key (ct_key rhs) a of
        Inl _ \<Rightarrow>
          if op = QueryUnion \<and> \<not> owned
          then bind_res (store_payload (ct_store rhs)) (\<lambda>n.
               bind_res (query_add total_bytes n) (\<lambda>total_bytes. extra_loop op owned a total_bytes peak b))
          else extra_loop op owned a total_bytes peak b
      | Inr i \<Rightarrow>
          if op = QueryUnion
          then bind_res (union_cost owned (ct_store (a ! i)) (ct_store rhs)) (\<lambda>cost.
               bind_res (query_add total_bytes cost) (\<lambda>total_bytes. extra_loop op owned a total_bytes peak b))
          else bind_res (intersection_cost owned (ct_store (a ! i)) (ct_store rhs)) (\<lambda>n.
               extra_loop op owned a total_bytes (max peak n) b))"

text \<open>Each bitmap comes with the capacity of its container vector.\<close>

definition extra :: "vec_layout \<Rightarrow> roaring \<times> usize \<Rightarrow> roaring \<times> usize \<Rightarrow> query_set_op \<Rightarrow> bool \<Rightarrow> (usize \<times> usize) res" where
  "extra L a b op owned =
     (let (a, b) = (if owned \<and> (case op of QueryUnion \<Rightarrow> roaring_len (fst a) < roaring_len (fst b)
                                | QueryIntersection \<Rightarrow> length (fst b) < length (fst a))
                    then (b, a) else (a, b));
          (a, capacity) = a; (b, _) = b;
          count = (if op = QueryUnion then union_count a b else length a)
      in bind_res (if capacity < count then query_bytes (vl_container L) count else Inr 0) (\<lambda>total_bytes.
         bind_res (extra_loop op owned a total_bytes 0 b) (\<lambda>(total_bytes, peak).
         bind_res (query_add total_bytes peak) (\<lambda>bytes. Inr (bytes, count)))))"

definition reserve_containers :: "vec_layout \<Rightarrow> usize \<Rightarrow> usize \<Rightarrow> usize" where
  "reserve_containers L capacity count = (if capacity < count then vl_alloc L count else capacity)"

fun payload_sum :: "usize \<Rightarrow> roaring \<Rightarrow> usize res" where
  "payload_sum n [] = Inr n"
| "payload_sum n (c # cs) =
     bind_res (store_payload (ct_store c)) (\<lambda>m. bind_res (query_add n m) (\<lambda>n. payload_sum n cs))"

definition prepare_clone :: "vec_layout \<Rightarrow> roaring \<Rightarrow> usize res" where
  "prepare_clone L b = bind_res (query_bytes (vl_container L) (length b)) (\<lambda>n. payload_sum n b)"

text \<open>A borrowed right operand is not swapped, so its capacity is never read.\<close>

definition prepare_assign :: "vec_layout \<Rightarrow> roaring \<times> usize \<Rightarrow> roaring \<Rightarrow> query_set_op \<Rightarrow> (usize \<times> usize) res" where
  "prepare_assign L lhs rhs op = extra L lhs (rhs, 0) op False"

definition prepare_owned_assign :: "vec_layout \<Rightarrow> roaring \<times> usize \<Rightarrow> roaring \<times> usize \<Rightarrow> query_set_op \<Rightarrow> (usize \<times> usize) res" where
  "prepare_owned_assign L lhs rhs op = extra L lhs rhs op True"

text \<open>The containers of one key: how many sources have one, their capped cardinality, and the last of them.\<close>

fun key_hits :: "roaring list \<Rightarrow> u16 \<Rightarrow> nat \<times> u64 \<times> usize \<times> bool \<Rightarrow> (nat \<times> u64 \<times> usize \<times> bool) res" where
  "key_hits [] k st = Inr st"
| "key_hits (source # sources) k (hits, cardinality, single, oversized) =
     (case search_key k source of
        Inl _ \<Rightarrow> key_hits sources k (hits, cardinality, single, oversized)
      | Inr i \<Rightarrow>
          let s = ct_store (source ! i)
          in bind_res (store_payload s) (\<lambda>n.
               key_hits sources k (hits + 1, min (cardinality + store_len s) 65536, n,
                 case s of Array a \<Rightarrow> unat ARRAY_LIMIT < length a | Bitmap _ \<Rightarrow> False)))"

fun union_sizes :: "roaring list \<Rightarrow> nat list \<Rightarrow> usize \<times> usize \<times> usize \<Rightarrow> (usize \<times> usize \<times> usize) res" where
  "union_sizes sources [] st = Inr st"
| "union_sizes sources (k # keys) (count, payloads, normalization) =
     bind_res (key_hits sources (of_nat k) (0, 0, 0, False)) (\<lambda>(hits, cardinality, single, oversized).
       if 0 < hits
       then
         bind_res (query_add payloads (if hits = 1 then single else QUERY_DENSE)) (\<lambda>payloads.
         bind_res (if 1 < hits
                   then bind_res (query_bytes 2 (unat (min cardinality ARRAY_LIMIT))) (\<lambda>n. Inr (max normalization n))
                   else Inr (if oversized then max normalization QUERY_DENSE else normalization)) (\<lambda>normalization.
           union_sizes sources keys (count + 1, payloads, normalization)))
       else union_sizes sources keys (count, payloads, normalization))"

definition query_prefix :: "usize \<Rightarrow> usize" where
  "query_prefix n = (if n \<le> 50 then n else 10)"

definition iter_min :: "u16 list \<Rightarrow> u16 option" where
  "iter_min ks = (case ks of [] \<Rightarrow> None | k # ks \<Rightarrow> Some (fold min ks k))"

definition iter_max :: "u16 list \<Rightarrow> u16 option" where
  "iter_max ks = (case ks of [] \<Rightarrow> None | k # ks \<Rightarrow> Some (fold max ks k))"

definition prepare_union_refs :: "vec_layout \<Rightarrow> roaring list \<Rightarrow> (usize \<times> usize) res" where
  "prepare_union_refs L sources =
     (let min_key = iter_min (List.map_filter (\<lambda>b. case b of [] \<Rightarrow> None | c # _ \<Rightarrow> Some (ct_key c)) sources);
          max_key = iter_max (List.map_filter (\<lambda>b. map_option ct_key (last_opt b)) sources)
      in bind_res (case (min_key, max_key) of
           (Some min_key, Some max_key) \<Rightarrow>
             if 8 \<le> max_key - min_key then Inl (InvalidInput ''reference query union requires key span below eight'')
             else union_sizes sources [unat min_key..<unat max_key + 1] (0, 0, 0)
         | _ \<Rightarrow> Inr (0, 0, 0)) (\<lambda>(count, payloads, normalization).
         bind_res (query_add payloads normalization) (\<lambda>n.
         bind_res (bind_res (query_bytes 8 (query_prefix (length sources))) (query_add n)) (\<lambda>n.
         bind_res (bind_res (query_bytes (vl_cow L) count) (query_add n)) (\<lambda>n.
         bind_res (bind_res (query_bytes (vl_container L) count) (query_add n)) (\<lambda>n.
           Inr (n, count)))))))"

section \<open>Application\<close>

fun union_containers :: "(store \<Rightarrow> store \<Rightarrow> store res) \<Rightarrow> roaring \<Rightarrow> roaring \<Rightarrow> roaring res" where
  "union_containers union_store lhs [] = Inr lhs"
| "union_containers union_store lhs (c # rhs) =
     (case search_key (ct_key c) lhs of
        Inl i \<Rightarrow> union_containers union_store (vec_insert i c lhs) rhs
      | Inr i \<Rightarrow>
          bind_res (union_store (ct_store (lhs ! i)) (ct_store c)) (\<lambda>s.
            union_containers union_store (lhs[i := (lhs ! i)\<lparr>ct_store := query_normalize s\<rparr>]) rhs))"

fun intersect_containers :: "roaring \<Rightarrow> roaring \<Rightarrow> roaring" where
  "intersect_containers [] rhs = []"
| "intersect_containers (c # lhs) rhs =
     (case search_key (ct_key c) rhs of
        Inr j \<Rightarrow>
          let c = c\<lparr>ct_store := query_normalize (intersect_borrowed (ct_store c) (ct_store (rhs ! j)))\<rparr>
          in if \<not> container_is_empty c then c # intersect_containers lhs rhs else intersect_containers lhs rhs
      | Inl _ \<Rightarrow> intersect_containers lhs rhs)"

text \<open>The owned variant takes each matched container out of the right operand.\<close>

fun intersect_containers_owned :: "roaring \<Rightarrow> roaring \<Rightarrow> roaring" where
  "intersect_containers_owned [] rhs = []"
| "intersect_containers_owned (c # lhs) rhs =
     (case search_key (ct_key c) rhs of
        Inr j \<Rightarrow>
          let taken = rhs ! j; rhs = rhs[j := container_new (ct_key c)];
              c = c\<lparr>ct_store := query_normalize (intersect_owned (ct_store c) (ct_store taken))\<rparr>
          in if \<not> container_is_empty c then c # intersect_containers_owned lhs rhs else intersect_containers_owned lhs rhs
      | Inl _ \<Rightarrow> intersect_containers_owned lhs rhs)"

definition assign_apply :: "vec_layout \<Rightarrow> query_set_op \<Rightarrow> usize \<Rightarrow> roaring \<times> usize \<Rightarrow> roaring \<Rightarrow> (roaring \<times> usize) res" where
  "assign_apply L op count lhs rhs =
     (let (lhs, capacity) = lhs
      in if op = QueryUnion
         then bind_res (union_containers union_borrowed lhs rhs) (\<lambda>lhs. Inr (lhs, reserve_containers L capacity count))
         else Inr (intersect_containers lhs rhs, capacity))"

definition owned_assign_apply :: "vec_layout \<Rightarrow> query_set_op \<Rightarrow> usize \<Rightarrow> roaring \<times> usize \<Rightarrow> roaring \<times> usize \<Rightarrow> (roaring \<times> usize) res" where
  "owned_assign_apply L op count lhs rhs =
     (let (lhs, rhs) = (if (case op of QueryUnion \<Rightarrow> roaring_len (fst lhs) < roaring_len (fst rhs)
                            | QueryIntersection \<Rightarrow> length (fst rhs) < length (fst lhs))
                        then (rhs, lhs) else (lhs, rhs));
          (lhs, capacity) = lhs; (rhs, _) = rhs
      in if op = QueryUnion
         then bind_res (union_containers union_owned lhs rhs) (\<lambda>lhs. Inr (lhs, reserve_containers L capacity count))
         else Inr (intersect_containers_owned lhs rhs, capacity))"

text \<open>
  \<^verbatim>\<open>PreparedUnionRefs::materialize\<close>, with copy-on-write erased.  The order of
  starting sources with equally many containers is not specified; the result
  does not depend on it.
\<close>

fun merge_refs_store :: "store \<Rightarrow> store \<Rightarrow> store res" where
  "merge_refs_store (Array a) (Array b) = Inr (Bitmap (bitmap_or_array (to_bitmap_store a) b))"
| "merge_refs_store (Array a) (Bitmap b) = Inr (Bitmap (bitmap_or_array b a))"
| "merge_refs_store (Bitmap a) rhs = union_borrowed (Bitmap a) rhs"

fun merge_refs :: "roaring \<Rightarrow> roaring \<Rightarrow> roaring res" where
  "merge_refs containers [] = Inr containers"
| "merge_refs containers (rhs # source) =
     (case search_key (ct_key rhs) containers of
        Inl i \<Rightarrow> merge_refs (vec_insert i rhs containers) source
      | Inr i \<Rightarrow>
          bind_res (merge_refs_store (ct_store (containers ! i)) (ct_store rhs)) (\<lambda>s.
            merge_refs (containers[i := \<lparr>ct_key = ct_key rhs, ct_store = s\<rparr>]) source))"

fun merge_all_refs :: "roaring \<Rightarrow> roaring list \<Rightarrow> roaring res" where
  "merge_all_refs containers [] = Inr containers"
| "merge_all_refs containers (source # sources) =
     bind_res (merge_refs containers source) (\<lambda>containers. merge_all_refs containers sources)"

definition union_refs :: "roaring list \<Rightarrow> roaring res" where
  "union_refs sources =
     (let n = query_prefix (length sources);
          start = sort_key (\<lambda>b. - int (length b)) (take n sources)
      in bind_res (merge_all_refs [] (start @ drop n sources)) (\<lambda>containers.
           Inr (map (\<lambda>c. c\<lparr>ct_store := query_normalize (ct_store c)\<rparr>) (filter (\<lambda>c. \<not> container_is_empty c) containers))))"

section \<open>Application computes the ordinary operators\<close>

lemma query_normalize_eq: "query_normalize = correct_store"
proof
  show "query_normalize s = correct_store s" for s by (cases s) simp_all
qed

lemma query_add_ok: "a + b < usize_limit \<Longrightarrow> query_add a b = Inr (a + b)"
  by (simp add: query_add_def usize_checked_add_def)

lemma query_bytes_ok: "n * m < usize_limit \<Longrightarrow> query_bytes m n = Inr (n * m)"
  by (simp add: query_bytes_def usize_checked_mul_def)

lemma array_length: "sorted_wrt (<) (a :: u16 list) \<Longrightarrow> length a \<le> 65536"
  using card_mono[of "UNIV :: u16 set" "set a"] distinct_card[of a] by (simp add: strict_sorted_iff card_word)

lemma union_borrowed_ok:
  assumes "store_ok s" and "store_ok t"
  shows "union_borrowed s t = Inr (store_bitor_assign s t)"
proof (cases "\<exists>a b. s = Array a \<and> t = Array b")
  case True
  then obtain a b where st: "s = Array a" "t = Array b" by blast
  then have "length a \<le> 65536" "length b \<le> 65536" using assms array_length by simp_all
  then show ?thesis by (simp add: st array_union_def query_add_ok QUERY_TAIL_def usize_limit_def)
next
  case False
  then show ?thesis by (cases s; cases t) simp_all
qed

lemma union_owned_ok: "store_ok s \<Longrightarrow> store_ok t \<Longrightarrow> union_owned s t = Inr (store_bitor_assign s t)"
  using union_borrowed_ok[of s t] by (cases s; cases t) (simp_all add: union_owned_def)

lemma intersect_owned_eq: "intersect_owned s t = store_bitand_assign s t"
  by (cases s; cases t) (simp_all add: array_intersect_def)

lemma intersect_borrowed_eq: "intersect_borrowed s t = store_bitand_assign s t"
  by (cases s; cases t) (simp_all add: array_intersect_def)

lemma container_bitor_eq: "c\<lparr>ct_store := query_normalize (store_bitor_assign (ct_store c) (ct_store d))\<rparr> = container_bitor_assign c d"
  by (simp add: container_bitor_assign_def ensure_correct_store_def query_normalize_eq)

lemma container_bitand_eq: "c\<lparr>ct_store := query_normalize (store_bitand_assign (ct_store c) (ct_store d))\<rparr> = container_bitand_assign c d"
  by (simp add: container_bitand_assign_def ensure_correct_store_def query_normalize_eq)

lemma union_containers_ok:
  assumes "\<forall>c \<in> set cs. canonical_store (ct_store c)" and "\<forall>c \<in> set rhs. canonical_store (ct_store c)"
    and "\<And>s t. store_ok s \<Longrightarrow> store_ok t \<Longrightarrow> f s t = Inr (store_bitor_assign s t)"
  shows "union_containers f cs rhs = Inr (bitor_assign cs rhs)"
  using assms(1,2)
proof (induction rhs arbitrary: cs)
  case (Cons c rhs)
  show ?case
  proof (cases "search_key (ct_key c) cs")
    case (Inl i)
    have "\<forall>d \<in> set (vec_insert i c cs). canonical_store (ct_store d)"
      using Cons.prems by (auto simp: vec_insert_def dest: in_set_takeD in_set_dropD)
    then show ?thesis using Cons.IH Cons.prems(2) Inl by simp
  next
    case (Inr i)
    note i = search_key_Inr[OF Inr]
    then have can: "canonical_store (ct_store (cs ! i))" "canonical_store (ct_store c)" using Cons.prems by auto
    then have "canonical_store (ct_store (container_bitor_assign (cs ! i) c))" using container_op_correct(1) by blast
    then have "\<forall>d \<in> set (cs[i := container_bitor_assign (cs ! i) c]). canonical_store (ct_store d)"
      using Cons.prems(1) by (auto dest!: set_update_subset_insert[THEN subsetD])
    then show ?thesis using Cons.IH Cons.prems(2) Inr assms(3)[OF can[THEN canonical_ok]] by (simp add: container_bitor_eq)
  qed
qed simp

lemma intersect_containers_eq: "intersect_containers cs rhs = bitand_assign cs rhs"
  by (induction cs) (simp_all add: bitand_assign_def intersect_borrowed_eq container_bitand_eq Let_def split: sum.splits)

lemma intersect_containers_owned_eq:
  assumes "distinct (map ct_key cs)" and "map ct_key taken = map ct_key rhs"
    and "\<And>c j. c \<in> set cs \<Longrightarrow> search_key (ct_key c) rhs = Inr j \<Longrightarrow> taken ! j = rhs ! j"
  shows "intersect_containers_owned cs taken = intersect_containers cs rhs"
  using assms
proof (induction cs arbitrary: taken)
  case (Cons c cs)
  have search: "search_key k taken = search_key k rhs" for k using Cons.prems(2) by (simp add: search_key_def)
  show ?case
  proof (cases "search_key (ct_key c) rhs")
    case (Inl i)
    have "intersect_containers_owned cs taken = intersect_containers cs rhs" by (rule Cons.IH) (use Cons.prems in auto)
    then show ?thesis using Inl by (simp add: search)
  next
    case (Inr j)
    let ?t = "taken[j := container_new (ct_key c)]"
    note j = search_key_Inr[OF Inr]
    have "map ct_key ?t = map ct_key rhs"
      using Cons.prems(2) j by (simp add: map_update container_new_def list_update_same_conv)
    moreover have "?t ! i = rhs ! i" if "d \<in> set cs" "search_key (ct_key d) rhs = Inr i" for d i
    proof -
      have "ct_key d \<noteq> ct_key c" using Cons.prems(1) that(1) by (metis distinct.simps(2) image_eqI list.set_map list.simps(9))
      then have "i \<noteq> j" using j search_key_Inr[OF that(2)] by auto
      then show ?thesis using Cons.prems(3)[of d i] that by simp
    qed
    ultimately have "intersect_containers_owned cs ?t = intersect_containers cs rhs" using Cons.IH[of ?t] Cons.prems(1) by simp
    then show ?thesis using Inr Cons.prems(3)[of c j] by (simp add: search intersect_owned_eq intersect_borrowed_eq Let_def)
  qed
qed simp

lemma merge_refs_ok:
  assumes "loose_ok cs" and "\<forall>c \<in> set rhs. store_ok (ct_store c)"
  shows "merge_refs cs rhs = Inr (merge_container_ref cs rhs)"
  using assms
proof (induction rhs arbitrary: cs)
  case (Cons c rhs)
  have step: "loose_ok (merge_container_ref cs [c])" using merge_container_ref_correct[of cs "[c]"] Cons.prems by simp
  show ?case
  proof (cases "search_key (ct_key c) cs")
    case (Inl i)
    then show ?thesis using Cons.IH Cons.prems(2) step by simp
  next
    case (Inr i)
    note i = search_key_Inr[OF Inr]
    let ?s = "ct_store (cs ! i)"
    have ok: "store_ok ?s" "store_ok (ct_store c)" using Cons.prems i by (auto simp: loose_ok_def)
    have "merge_refs_store ?s (ct_store c) = Inr (merge_store ?s (ct_store c))"
      using union_borrowed_ok[OF ok] by (cases ?s; cases "ct_store c") simp_all
    moreover have "\<lparr>ct_key = ct_key c, ct_store = s\<rparr> = (cs ! i)\<lparr>ct_store := s\<rparr>" for s
      by (rule container_eqI) (use i in simp_all)
    ultimately show ?thesis using Cons.IH Cons.prems(2) step Inr by simp
  qed
qed simp

lemma merge_all_refs_ok:
  assumes "loose_ok cs" and "\<forall>b \<in> set bs. loose_ok b"
  shows "merge_all_refs cs bs = Inr (foldl merge_container_ref cs bs)"
  using assms
proof (induction bs arbitrary: cs)
  case (Cons b bs)
  have "\<forall>c \<in> set b. store_ok (ct_store c)" using Cons.prems(2) by (simp add: loose_ok_def)
  then have "merge_refs cs b = Inr (merge_container_ref cs b)" "loose_ok (merge_container_ref cs b)"
    using merge_refs_ok[OF Cons.prems(1)] merge_container_ref_correct[OF Cons.prems(1)] by blast+
  then show ?case using Cons.IH Cons.prems(2) by simp
qed simp

lemma union_refs_correct:
  assumes "\<forall>b \<in> set bs. roaring_ok b"
  shows "\<exists>u. union_refs bs = Inr u \<and> roaring_ok u \<and> roaring_set u = (\<Union>b \<in> set bs. roaring_set b)"
proof -
  define n where "n = query_prefix (length bs)"
  define start where "start = sort_key (\<lambda>b :: roaring. - int (length b)) (take n bs)"
  have set: "set (start @ drop n bs) = set bs" using set_append[of "take n bs" "drop n bs"] by (simp add: start_def)
  have loose: "loose_ok []" "\<forall>b \<in> set (start @ drop n bs). loose_ok b"
    unfolding set using assms roaring_ok_loose by (auto simp: loose_ok_def sorted_containers_def)
  note m = merge_all_correct[OF loose, unfolded set]
  let ?u = "map ensure_correct_store (filter (\<lambda>c. \<not> container_is_empty c) (foldl merge_container_ref [] (start @ drop n bs)))"
  have "(\<lambda>c. c\<lparr>ct_store := query_normalize (ct_store c)\<rparr>) = ensure_correct_store"
    by (simp add: fun_eq_iff ensure_correct_store_def query_normalize_eq)
  then have "union_refs bs = Inr ?u"
    using merge_all_refs_ok[OF loose] by (simp add: union_refs_def Let_def n_def start_def)
  moreover have "roaring_ok ?u" by (rule tidy_correct(1)[OF m[THEN conjunct1]])
  moreover have "roaring_set ?u = (\<Union>b \<in> set bs. roaring_set b)"
    unfolding roaring_set_def using tidy_correct(2)[OF m[THEN conjunct1]] m by auto
  ultimately show ?thesis by blast
qed

section \<open>Preparation does not overflow\<close>

text \<open>On canonical stores every summand is below \<open>2 ^ 15\<close>, and a bitmap has at most \<open>2 ^ 16\<close> containers.\<close>

lemma roaring_length: "roaring_ok b \<Longrightarrow> length b \<le> 65536"
  using array_length[of "map ct_key b"] by (simp add: roaring_ok_def sorted_containers_def)

lemma store_payload_ok:
  assumes "canonical_store s"
  shows "\<exists>n \<le> 8192. store_payload s = Inr n"
  using assms by (cases s) (auto simp: query_bytes_ok usize_limit_def QUERY_DENSE_def)

lemma union_cost_ok:
  assumes "canonical_store s" and "canonical_store t"
  shows "\<exists>n \<le> 2 ^ 15. union_cost owned s t = Inr n"
proof (cases "\<exists>a b. s = Array a \<and> t = Array b")
  case True
  then obtain a b where st: "s = Array a" "t = Array b" by blast
  then have "length a \<le> 4096" "length b \<le> 4096" using assms by simp_all
  then show ?thesis by (simp add: st query_add_ok query_bytes_ok usize_limit_def QUERY_TAIL_def QUERY_DENSE_def)
next
  case False
  then show ?thesis by (cases s; cases t) (simp_all add: QUERY_DENSE_def)
qed

lemma intersection_cost_ok:
  assumes "canonical_store t"
  shows "\<exists>n \<le> 2 ^ 15. intersection_cost owned s t = Inr n"
proof -
  obtain m where m: "m \<le> 8192" "store_payload t = Inr m" using store_payload_ok[OF assms] by blast
  have sum: "x \<le> 8192 \<Longrightarrow> y \<le> 8192 \<Longrightarrow> query_add x y = Inr (x + y) \<and> query_add (x + y) 0 = Inr (x + y)" for x y
    by (simp add: query_add_ok usize_limit_def)
  show ?thesis using m sum[of m 0] sum[of 0 0] sum[of 0 8192] sum[of m 8192]
    by (auto simp: intersection_cost_def QUERY_DENSE_def Let_def split: store.splits)
qed

lemma extra_loop_ok:
  assumes "\<forall>c \<in> set a. canonical_store (ct_store c)" and "\<forall>c \<in> set b. canonical_store (ct_store c)"
    and "n + 2 ^ 15 * length b < usize_limit" and "p \<le> 2 ^ 15"
  shows "\<exists>m q. extra_loop op owned a n p b = Inr (m, q) \<and> m \<le> n + 2 ^ 15 * length b \<and> q \<le> 2 ^ 15"
  using assms(2-)
proof (induction b arbitrary: n p)
  case (Cons c b)
  have can: "canonical_store (ct_store c)" "\<forall>c \<in> set b. canonical_store (ct_store c)" using Cons.prems(1) by simp_all
  have rest: "\<exists>m q. extra_loop op owned a n' p' b = Inr (m, q) \<and> m \<le> n + 2 ^ 15 * length (c # b) \<and> q \<le> 2 ^ 15"
    if "n' \<le> n + 2 ^ 15" "p' \<le> 2 ^ 15" for n' p'
  proof -
    have "n' + 2 ^ 15 * length b < usize_limit" using that(1) Cons.prems(2) by simp
    from Cons.IH[OF can(2) this that(2)] show ?thesis using that(1) by fastforce
  qed
  have add: "query_add n k = Inr (n + k)" if "k \<le> 2 ^ 15" for k using that Cons.prems(2) by (simp add: query_add_ok)
  obtain m where m: "m \<le> 8192" "store_payload (ct_store c) = Inr m" using store_payload_ok[OF can(1)] by blast
  show ?case
  proof (cases "search_key (ct_key c) a")
    case (Inl i)
    then show ?thesis using rest[of "n + m" p] rest[of n p] m add[of m] Cons.prems(3) by auto
  next
    case (Inr i)
    then have "canonical_store (ct_store (a ! i))" using search_key_Inr[OF Inr] assms(1) by simp
    then obtain u v where uv: "u \<le> 2 ^ 15" "union_cost owned (ct_store (a ! i)) (ct_store c) = Inr u"
        "v \<le> 2 ^ 15" "intersection_cost owned (ct_store (a ! i)) (ct_store c) = Inr v"
      using union_cost_ok[OF _ can(1)] intersection_cost_ok[OF can(1)] by blast
    then show ?thesis using Inr rest[of "n + u" p] rest[of n "max p v"] add[of u] Cons.prems(3) by auto
  qed
qed simp

lemma extra_ok:
  assumes "roaring_ok (fst a)" and "roaring_ok (fst b)" and "vl_container L \<le> 2 ^ 32"
  shows "\<exists>r. extra L a b op owned = Inr r"
proof -
  have main: "\<exists>r. bind_res (if cap < count then query_bytes (vl_container L) count else Inr 0) (\<lambda>n.
      bind_res (extra_loop op owned x n 0 y) (\<lambda>(n, peak). bind_res (query_add n peak) (\<lambda>bytes. Inr (bytes, count)))) = Inr r"
    if x: "roaring_ok x" and y: "roaring_ok y" and count: "count \<le> 2 ^ 17" for x y cap count
  proof -
    have prod: "count * vl_container L \<le> 2 ^ 17 * 2 ^ 32" by (rule mult_le_mono[OF count assms(3)])
    obtain n where n: "(if cap < count then query_bytes (vl_container L) count else Inr 0) = Inr n" "n \<le> 2 ^ 49"
      using prod by (cases "cap < count") (auto simp: query_bytes_ok usize_limit_def)
    have len: "length y \<le> 65536" by (rule roaring_length[OF y])
    have can: "\<forall>c \<in> set x. canonical_store (ct_store c)" "\<forall>c \<in> set y. canonical_store (ct_store c)"
      using x y by (auto simp: roaring_ok_def container_ok_def)
    have "n + 2 ^ 15 * length y < usize_limit" using n(2) len by (simp add: usize_limit_def)
    from extra_loop_ok[OF can this, of 0 op owned] obtain m q
      where mq: "extra_loop op owned x n 0 y = Inr (m, q)" "m \<le> n + 2 ^ 15 * length y" "q \<le> 2 ^ 15" by auto
    have "query_add m q = Inr (m + q)" using mq(2,3) n(2) len by (intro query_add_ok) (simp add: usize_limit_def)
    then show ?thesis using n(1) mq(1) by simp
  qed
  have counts: "union_count x y \<le> 2 ^ 17" "length x \<le> 2 ^ 17" if "roaring_ok x" "roaring_ok y" for x y
  proof -
    have "length (filter (\<lambda>c. \<not> is_ok (search_key (ct_key c) x)) y) \<le> 65536"
      by (rule order_trans[OF length_filter_le roaring_length[OF that(2)]])
    then show "union_count x y \<le> 2 ^ 17" "length x \<le> 2 ^ 17" using roaring_length[OF that(1)] by (simp_all add: union_count_def)
  qed
  define M where "M x cap y = (let count = (if op = QueryUnion then union_count x y else length x)
      in bind_res (if cap < count then query_bytes (vl_container L) count else Inr 0) (\<lambda>n.
         bind_res (extra_loop op owned x n 0 y) (\<lambda>(n, peak). bind_res (query_add n peak) (\<lambda>bytes. Inr (bytes, count)))))" for x cap y
  have M: "\<exists>r. M x cap y = Inr r" if "roaring_ok x" "roaring_ok y" for x cap y
    unfolding M_def Let_def by (rule main[OF that]) (use counts[OF that] in simp)
  obtain x cx y cy where "a = (x, cx)" "b = (y, cy)" by fastforce
  moreover from this have "extra L a b op owned = M x cx y \<or> extra L a b op owned = M y cy x"
    by (simp add: extra_def M_def Let_def)
  ultimately show ?thesis using M assms(1,2) by fastforce
qed

lemma payload_sum_ok:
  assumes "\<forall>c \<in> set cs. canonical_store (ct_store c)" and "n + 8192 * length cs < usize_limit"
  shows "\<exists>m. payload_sum n cs = Inr m"
  using assms
proof (induction cs arbitrary: n)
  case (Cons c cs)
  obtain m where m: "m \<le> 8192" "store_payload (ct_store c) = Inr m" using store_payload_ok[of "ct_store c"] Cons.prems(1) by auto
  then have "query_add n m = Inr (n + m)" using Cons.prems(2) by (intro query_add_ok) simp
  moreover have "\<exists>r. payload_sum (n + m) cs = Inr r" using Cons.IH[of "n + m"] Cons.prems m(1) by simp
  ultimately show ?case using m(2) by simp
qed simp

lemma prepare_clone_ok:
  assumes "roaring_ok b" and "vl_container L \<le> 2 ^ 32"
  shows "\<exists>n. prepare_clone L b = Inr n"
proof -
  have len: "length b \<le> 65536" by (rule roaring_length[OF assms(1)])
  have prod: "length b * vl_container L \<le> 65536 * 2 ^ 32" by (rule mult_le_mono[OF len assms(2)])
  then have "query_bytes (vl_container L) (length b) = Inr (length b * vl_container L)"
    by (intro query_bytes_ok) (simp add: usize_limit_def)
  moreover have "\<forall>c \<in> set b. canonical_store (ct_store c)" using assms(1) by (auto simp: roaring_ok_def container_ok_def)
  moreover have "length b * vl_container L + 8192 * length b < usize_limit" using prod len by (simp add: usize_limit_def)
  ultimately show ?thesis using payload_sum_ok by (simp add: prepare_clone_def)
qed

lemma key_hits_ok:
  assumes "\<forall>b \<in> set sources. roaring_ok b" and "single \<le> 8192"
  shows "\<exists>hits' cardinality' single' oversized'.
    key_hits sources k (hits, cardinality, single, oversized) = Inr (hits', cardinality', single', oversized') \<and> single' \<le> 8192"
  using assms
proof (induction sources arbitrary: hits cardinality single oversized)
  case (Cons b sources)
  show ?case
  proof (cases "search_key k b")
    case (Inl i)
    then show ?thesis using Cons by simp
  next
    case (Inr i)
    then have "canonical_store (ct_store (b ! i))"
      using search_key_Inr[OF Inr] Cons.prems(1) by (auto simp: roaring_ok_def container_ok_def)
    then obtain m where "m \<le> 8192" "store_payload (ct_store (b ! i)) = Inr m" using store_payload_ok by blast
    then show ?thesis using Inr Cons by (simp add: Let_def)
  qed
qed simp

lemma union_sizes_ok:
  assumes "\<forall>b \<in> set sources. roaring_ok b" and "payloads + 8192 * length keys < usize_limit" and "normalization \<le> 8192"
  shows "\<exists>count' payloads' normalization'.
    union_sizes sources keys (count, payloads, normalization) = Inr (count', payloads', normalization')
    \<and> count' \<le> count + length keys \<and> payloads' \<le> payloads + 8192 * length keys \<and> normalization' \<le> 8192"
  using assms(2,3)
proof (induction keys arbitrary: count payloads normalization)
  case (Cons k keys)
  let ?goal = "\<lambda>r. \<exists>count' payloads' normalization'. r = Inr (count', payloads', normalization')
      \<and> count' \<le> count + length (k # keys) \<and> payloads' \<le> payloads + 8192 * length (k # keys) \<and> normalization' \<le> 8192"
  obtain hits cardinality single oversized
    where h: "key_hits sources (of_nat k) (0, 0, 0, False) = Inr (hits, cardinality, single, oversized)" "single \<le> 8192"
    using key_hits_ok[OF assms(1), of 0] by blast
  have rest: "?goal (union_sizes sources keys (c, p, m))" if "c \<le> count + 1" "p \<le> payloads + 8192" "m \<le> 8192" for c p m
    using Cons.IH[of p m c] that Cons.prems(1) by fastforce
  have add: "query_add payloads x = Inr (payloads + x)" if "x \<le> 8192" for x using that Cons.prems(1) by (simp add: query_add_ok)
  have "unat (min cardinality ARRAY_LIMIT) \<le> 4096" by (auto simp: min_def ARRAY_LIMIT_def word_le_nat_alt)
  then have norm: "query_bytes 2 (unat (min cardinality ARRAY_LIMIT)) = Inr (unat (min cardinality ARRAY_LIMIT) * 2)"
      "unat (min cardinality ARRAY_LIMIT) * 2 \<le> 8192"
    by (simp_all add: query_bytes_ok usize_limit_def)
  define x where "x = (if hits = 1 then single else QUERY_DENSE)"
  define m where "m = (if 1 < hits then max normalization (unat (min cardinality ARRAY_LIMIT) * 2)
      else if oversized then max normalization QUERY_DENSE else normalization)"
  have bounds: "x \<le> 8192" "m \<le> 8192" using h(2) Cons.prems(2) norm(2) by (simp_all add: x_def m_def QUERY_DENSE_def)
  have "union_sizes sources (k # keys) (count, payloads, normalization) =
      (if 0 < hits then union_sizes sources keys (count + 1, payloads + x, m) else union_sizes sources keys (count, payloads, normalization))"
    using h(1) norm(1) add[OF h(2)] add[of QUERY_DENSE] by (auto simp: x_def m_def QUERY_DENSE_def)
  then show ?case using rest[of "count + 1" "payloads + x" m] rest[of count payloads normalization] bounds Cons.prems(2)
    by (cases "0 < hits") simp_all
qed simp

lemma iter_min_Some: "iter_min ks = Some m \<Longrightarrow> m \<in> set ks \<and> (\<forall>k \<in> set ks. m \<le> k)"
proof -
  assume "iter_min ks = Some m"
  then have "ks \<noteq> []" "m = Min (set ks)" by (auto simp: iter_min_def Min.set_eq_fold simp del: list.set split: list.splits)
  then show ?thesis using Min_in[of "set ks"] Min_le[of "set ks"] by simp
qed

lemma iter_max_Some: "iter_max ks = Some m \<Longrightarrow> m \<in> set ks \<and> (\<forall>k \<in> set ks. k \<le> m)"
proof -
  assume "iter_max ks = Some m"
  then have "ks \<noteq> []" "m = Max (set ks)" by (auto simp: iter_max_def Max.set_eq_fold simp del: list.set split: list.splits)
  then show ?thesis using Max_in[of "set ks"] Max_ge[of "set ks"] by simp
qed

text \<open>Every key of the sources is below every first key plus eight.\<close>

definition narrow_span :: "roaring list \<Rightarrow> bool" where
  "narrow_span bs \<longleftrightarrow>
     (\<forall>b \<in> set bs. \<forall>c \<in> set bs. b \<noteq> [] \<longrightarrow> c \<noteq> [] \<longrightarrow> unat (ct_key (last c)) < unat (ct_key (hd b)) + 8)"

lemma first_le_last: "roaring_ok b \<Longrightarrow> b \<noteq> [] \<Longrightarrow> ct_key (hd b) \<le> ct_key (last b)"
  by (cases b) (auto simp: roaring_ok_def sorted_containers_def intro: less_imp_le)

lemma prepare_union_refs_ok:
  assumes "\<forall>b \<in> set sources. roaring_ok b" and "narrow_span sources" and "vl_container L \<le> 2 ^ 32" and "vl_cow L \<le> 2 ^ 32"
  shows "\<exists>r. prepare_union_refs L sources = Inr r"
proof -
  let ?firsts = "List.map_filter (\<lambda>b. case b of [] \<Rightarrow> None | c # _ \<Rightarrow> Some (ct_key c)) sources"
  let ?lasts = "List.map_filter (\<lambda>b. map_option ct_key (last_opt b)) sources"
  let ?sizes = "case (iter_min ?firsts, iter_max ?lasts) of
      (Some min_key, Some max_key) \<Rightarrow>
        if 8 \<le> max_key - min_key then Inl (InvalidInput ''reference query union requires key span below eight'')
        else union_sizes sources [unat min_key..<unat max_key + 1] (0, 0, 0)
    | _ \<Rightarrow> Inr (0, 0, 0)"
  have "\<exists>c p m. ?sizes = Inr (c, p, m) \<and> c \<le> 8 \<and> p \<le> 65536 \<and> m \<le> 8192"
  proof (cases "\<exists>x y. iter_min ?firsts = Some x \<and> iter_max ?lasts = Some y")
    case True
    then obtain x y where xy: "iter_min ?firsts = Some x" "iter_max ?lasts = Some y" by blast
    obtain b where b: "b \<in> set sources" "b \<noteq> []" "x = ct_key (hd b)"
      using iter_min_Some[OF xy(1)] by (auto simp: map_filter_def split: list.splits)
    obtain c where c: "c \<in> set sources" "c \<noteq> []" "y = ct_key (last c)"
      using iter_max_Some[OF xy(2)] by (auto simp: map_filter_def last_opt_def split: if_splits)
    have "ct_key (last b) \<in> set ?lasts" using b by (force simp: map_filter_def last_opt_def)
    then have le: "x \<le> y" using iter_max_Some[OF xy(2)] first_le_last[of b] b assms(1) by force
    have span: "unat y < unat x + 8" using assms(2) b c by (auto simp: narrow_span_def)
    then have "unat (y - x) < 8" using le by (simp add: unat_sub word_le_nat_alt)
    then have "\<not> 8 \<le> y - x" by (simp add: word_le_nat_alt)
    moreover have "length [unat x..<unat y + 1] \<le> 8" unfolding length_upt using span by linarith
    ultimately show ?thesis
      using union_sizes_ok[OF assms(1), of 0 "[unat x..<unat y + 1]" 0 0] xy by (fastforce simp: usize_limit_def)
  qed (auto split: option.splits)
  then obtain c p m where s: "?sizes = Inr (c, p, m)" "c \<le> 8" "p \<le> 65536" "m \<le> 8192" by blast
  have prods: "c * vl_cow L \<le> 8 * 2 ^ 32" "c * vl_container L \<le> 8 * 2 ^ 32"
    by (rule mult_le_mono[OF s(2) assms(4)], rule mult_le_mono[OF s(2) assms(3)])
  have pre: "query_prefix (length sources) * 8 \<le> 400" by (simp add: query_prefix_def)
  show ?thesis unfolding prepare_union_refs_def Let_def s(1) using s(3,4) prods pre
    by (simp add: query_add_ok query_bytes_ok usize_limit_def)
qed

end
