(* ===== verification/Query_Bitmap.thy ===== *)
theory Query_Bitmap
  imports Query_Ops
begin

text \<open>
  The query-owned bitmaps of \<^verbatim>\<open>src/crates/logex-index/src/query_bitmap.rs\<close>: a
  bitmap with the capacity of its container vector.  The memory budget admits
  every reservation, so the charges that follow the allocations are erased; the
  preparations, with their errors, are not.
\<close>

section \<open>Operations\<close>

definition query_decode :: "usize \<Rightarrow> bytes \<Rightarrow> roaring res" where
  "query_decode size_of_container data =
     bind_res (prepare_deserialize size_of_container data) prepared_deserialize"

type_synonym query_bitmap = "roaring \<times> usize"

definition query_empty :: query_bitmap where
  "query_empty = ([], 0)"

definition try_clone :: "vec_layout \<Rightarrow> roaring \<Rightarrow> query_bitmap res" where
  "try_clone L b = bind_res (prepare_clone L b) (\<lambda>_. Inr (b, vl_alloc L (length b)))"

definition assign_owned :: "vec_layout \<Rightarrow> query_bitmap \<Rightarrow> query_bitmap \<Rightarrow> query_set_op \<Rightarrow> query_bitmap res" where
  "assign_owned L left right operation =
     bind_res (prepare_owned_assign L left right operation) (\<lambda>(_, count). owned_assign_apply L operation count left right)"

definition query_union :: "vec_layout \<Rightarrow> query_bitmap \<Rightarrow> query_bitmap \<Rightarrow> query_bitmap res" where
  "query_union L self other = assign_owned L self other QueryUnion"

definition query_intersection :: "vec_layout \<Rightarrow> query_bitmap \<Rightarrow> query_bitmap \<Rightarrow> query_bitmap res" where
  "query_intersection L self other = assign_owned L self other QueryIntersection"

definition union_ref :: "vec_layout \<Rightarrow> query_bitmap \<Rightarrow> roaring \<Rightarrow> query_bitmap res" where
  "union_ref L self other =
     bind_res (prepare_assign L self other QueryUnion) (\<lambda>(_, count). assign_apply L QueryUnion count self other)"

fun union_ref_all :: "vec_layout \<Rightarrow> query_bitmap \<Rightarrow> roaring list \<Rightarrow> query_bitmap res" where
  "union_ref_all L result [] = Inr result"
| "union_ref_all L result (b # bitmaps) = bind_res (union_ref L result b) (\<lambda>result. union_ref_all L result bitmaps)"

text \<open>Whether the bitmaps span more than eight containers; the loop leaves at the first that does.\<close>

fun wide_span :: "u32 \<Rightarrow> u32 \<Rightarrow> roaring list \<Rightarrow> bool" where
  "wide_span first_key last_key [] = False"
| "wide_span first_key last_key (b # bitmaps) =
     (case (roaring_min b, roaring_max b) of
        (Some low, Some high) \<Rightarrow>
          (let first_key = min first_key (drop_bit 16 low); last_key = max last_key (drop_bit 16 high)
           in 8 \<le> last_key - first_key \<or> wide_span first_key last_key bitmaps)
      | _ \<Rightarrow> wide_span first_key last_key bitmaps)"

definition query_union_all :: "vec_layout \<Rightarrow> roaring list \<Rightarrow> roaring res" where
  "query_union_all L bitmaps =
     (case bitmaps of
        [] \<Rightarrow> Inr (fst query_empty)
      | [bitmap] \<Rightarrow> bind_res (try_clone L bitmap) (\<lambda>result. Inr (fst result))
      | _ \<Rightarrow>
          if wide_span (- 1) 0 bitmaps
          then bind_res (union_ref_all L query_empty bitmaps) (\<lambda>result. Inr (fst result))
          else bind_res (prepare_union_refs L bitmaps) (\<lambda>_. union_refs bitmaps))"

section \<open>The operators on sets\<close>

lemma union_ref_ok:
  assumes "roaring_ok (fst self)" and "roaring_ok b" and "vl_container L \<le> 2 ^ 32"
  shows "\<exists>capacity. union_ref L self b = Inr (bitor_assign (fst self) b, capacity)"
proof -
  obtain n count where "prepare_assign L self b QueryUnion = Inr (n, count)"
    using extra_ok[OF assms(1), of "(b, 0)" L QueryUnion False] assms(2,3) by (auto simp: prepare_assign_def)
  moreover have "union_containers union_borrowed (fst self) b = Inr (bitor_assign (fst self) b)"
    by (rule union_containers_ok) (use assms union_borrowed_ok in \<open>auto simp: roaring_ok_def container_ok_def\<close>)
  ultimately show ?thesis by (simp add: union_ref_def assign_apply_def case_prod_beta')
qed

lemma union_ref_all_ok:
  assumes "roaring_ok (fst self)" and "\<forall>b \<in> set bs. roaring_ok b" and "vl_container L \<le> 2 ^ 32"
  shows "\<exists>capacity. union_ref_all L self bs = Inr (foldl bitor_assign (fst self) bs, capacity)"
  using assms(1,2)
proof (induction bs arbitrary: self)
  case Nil
  then show ?case by (cases self) simp
next
  case (Cons b bs)
  obtain capacity where "union_ref L self b = Inr (bitor_assign (fst self) b, capacity)"
    using union_ref_ok[OF Cons.prems(1) _ assms(3), of b] Cons.prems(2) by auto
  then show ?case using Cons.IH[of "(bitor_assign (fst self) b, capacity)"] bitor_assign_correct(1)[OF Cons.prems(1)] Cons.prems(2)
    by simp
qed

lemma assign_owned_correct:
  assumes "roaring_ok (fst a)" and "roaring_ok (fst b)" and "vl_container L \<le> 2 ^ 32"
  shows "\<exists>capacity. query_union L a b = Inr (bitor_assign_owned (fst a) (fst b), capacity)"
    and "\<exists>capacity. query_intersection L a b = Inr (bitand_assign_owned (fst a) (fst b), capacity)"
proof -
  obtain n count where u: "prepare_owned_assign L a b QueryUnion = Inr (n, count)"
    using extra_ok[OF assms, of QueryUnion True] by (auto simp: prepare_owned_assign_def)
  obtain m size where i: "prepare_owned_assign L a b QueryIntersection = Inr (m, size)"
    using extra_ok[OF assms, of QueryIntersection True] by (auto simp: prepare_owned_assign_def)
  have union: "union_containers union_owned x y = Inr (bitor_assign x y)" if "roaring_ok x" "roaring_ok y" for x y
    by (rule union_containers_ok) (use that union_owned_ok in \<open>auto simp: roaring_ok_def container_ok_def\<close>)
  have inter: "intersect_containers_owned x y = bitand_assign x y" if "roaring_ok x" for x y
    using intersect_containers_owned_eq[of x y y] that
    by (simp add: intersect_containers_eq roaring_ok_def sorted_containers_def strict_sorted_iff)
  show "\<exists>capacity. query_union L a b = Inr (bitor_assign_owned (fst a) (fst b), capacity)"
    using u union assms(1,2)
    by (simp add: query_union_def assign_owned_def owned_assign_apply_def bitor_assign_owned_def case_prod_beta' Let_def)
  show "\<exists>capacity. query_intersection L a b = Inr (bitand_assign_owned (fst a) (fst b), capacity)"
    using i inter assms(1,2)
    by (simp add: query_intersection_def assign_owned_def owned_assign_apply_def bitand_assign_owned_def case_prod_beta' Let_def)
qed

section \<open>The union of many\<close>

lemma unat_key [simp]: "unat (ucast (k :: u16) :: u32) = unat k"
  using unat_u16_less[of k] by (simp add: unsigned_ucast_eq take_bit_nat_eq_self)

lemma join_high: "drop_bit 16 (join k i) = ucast k"
proof (rule word_unat_eq_iff[THEN iffD2])
  show "unat (drop_bit 16 (join k i)) = unat (ucast k :: u32)"
    using unat_u16_less[of k] unat_u16_less[of i] by (simp add: unat_drop_bit_eq drop_bit_eq_div unat_div join_value)
qed

lemma roaring_ends:
  assumes "roaring_ok b" and "b \<noteq> []"
  obtains low high where "roaring_min b = Some low" "drop_bit 16 low = ucast (ct_key (hd b))"
    "roaring_max b = Some high" "drop_bit 16 high = ucast (ct_key (last b))"
proof -
  have ok: "store_ok (ct_store c)" "store_set (ct_store c) \<noteq> {}" if "c \<in> set b" for c
    using assms(1) that by (auto simp: roaring_ok_def container_ok_def canonical_ok)
  obtain i where i: "store_min (ct_store (hd b)) = Some i" using store_extremes(1)[OF ok, of "hd b"] assms(2) by auto
  obtain j where j: "store_max (ct_store (last b)) = Some j" using store_extremes(2)[OF ok, of "last b"] assms(2) by auto
  show thesis
  proof (rule that)
    show "roaring_min b = Some (join (ct_key (hd b)) i)" using i assms(2) by (cases b) (simp_all add: roaring_min_def)
    show "roaring_max b = Some (join (ct_key (last b)) j)" using j assms(2) by (simp add: roaring_max_def last_opt_def)
  qed (rule join_high)+
qed

text \<open>The first and the last keys of the bitmaps that have containers.\<close>

definition first_keys :: "roaring list \<Rightarrow> u32 set" where
  "first_keys bs = {ucast (ct_key (hd b)) | b. b \<in> set bs \<and> b \<noteq> []}"

definition last_keys :: "roaring list \<Rightarrow> u32 set" where
  "last_keys bs = {ucast (ct_key (last b)) | b. b \<in> set bs \<and> b \<noteq> []}"

lemma keys_simps [simp]:
  "first_keys [] = {}" "first_keys ([] # bs) = first_keys bs"
  "b \<noteq> [] \<Longrightarrow> first_keys (b # bs) = insert (ucast (ct_key (hd b))) (first_keys bs)"
  "last_keys [] = {}" "last_keys ([] # bs) = last_keys bs"
  "b \<noteq> [] \<Longrightarrow> last_keys (b # bs) = insert (ucast (ct_key (last b))) (last_keys bs)"
  by (auto simp: first_keys_def last_keys_def)

declare wide_span.simps(2) [simp del]

lemma span_step:
  assumes "roaring_ok b" and "b \<noteq> []"
  shows "wide_span first_key last_key (b # bs) \<longleftrightarrow>
    (let f = min first_key (ucast (ct_key (hd b))); l = max last_key (ucast (ct_key (last b))) in 8 \<le> l - f \<or> wide_span f l bs)"
  by (rule roaring_ends[OF assms]) (simp add: wide_span.simps)

lemma span_skip [simp]: "wide_span first_key last_key ([] # bs) = wide_span first_key last_key bs"
  by (simp add: roaring_min_def wide_span.simps)

lemma word_span:
  fixes x y :: u32
  assumes "x \<le> y" and "\<not> 8 \<le> y - x"
  shows "unat y < unat x + 8"
  using assms by (simp add: word_le_nat_alt unat_sub not_le)

lemma narrow_from:
  assumes "\<forall>b \<in> set bs. roaring_ok b" and "first_key \<le> last_key" and "unat last_key < unat first_key + 8"
    and "\<not> wide_span first_key last_key bs" and "x \<in> insert first_key (first_keys bs)" and "y \<in> insert last_key (last_keys bs)"
  shows "unat y < unat x + 8"
  using assms
proof (induction bs arbitrary: first_key last_key x y)
  case (Cons b bs)
  show ?case
  proof (cases "b = []")
    case True
    then show ?thesis using Cons.IH[of first_key last_key x y] Cons.prems by simp
  next
    case False
    let ?f = "min first_key (ucast (ct_key (hd b)))" and ?l = "max last_key (ucast (ct_key (last b)))"
    have ok: "\<not> 8 \<le> ?l - ?f" "\<not> wide_span ?f ?l bs" using Cons.prems(1,4) False by (simp_all add: span_step Let_def)
    have le: "?f \<le> ?l" using Cons.prems(2) by (meson max.coboundedI1 min.coboundedI1)
    have "\<exists>x' \<in> insert ?f (first_keys bs). x' \<le> x" "\<exists>y' \<in> insert ?l (last_keys bs). y \<le> y'"
      using Cons.prems(5,6) False by auto
    then obtain x' y' where x': "x' \<in> insert ?f (first_keys bs)" "x' \<le> x" and y': "y' \<in> insert ?l (last_keys bs)" "y \<le> y'"
      by blast
    have "unat y' < unat x' + 8"
      using Cons.IH[OF _ le word_span[OF le ok(1)] ok(2) x'(1) y'(1)] Cons.prems(1) by simp
    then show ?thesis using x'(2) y'(2) by (simp add: word_le_nat_alt)
  qed
qed simp

lemma narrow_keys:
  assumes "\<forall>b \<in> set bs. roaring_ok b" and "\<not> wide_span (- 1) 0 bs" and "x \<in> first_keys bs" and "y \<in> last_keys bs"
  shows "unat y < unat x + 8"
  using assms
proof (induction bs)
  case (Cons b bs)
  show ?case
  proof (cases "b = []")
    case True
    then show ?thesis using Cons by simp
  next
    case False
    let ?f = "ucast (ct_key (hd b)) :: u32" and ?l = "ucast (ct_key (last b)) :: u32"
    have ok: "\<not> 8 \<le> ?l - ?f" "\<not> wide_span ?f ?l bs" using Cons.prems(1,2) False by (simp_all add: span_step Let_def)
    have le: "?f \<le> ?l" using first_le_last[of b] Cons.prems(1) False by (simp add: word_le_nat_alt)
    show ?thesis using narrow_from[OF _ le word_span[OF le ok(1)] ok(2)] Cons.prems(1,3,4) False by simp
  qed
qed simp

lemma narrow_span_iff_keys: "narrow_span bs \<longleftrightarrow> (\<forall>x \<in> first_keys bs. \<forall>y \<in> last_keys bs. unat y < unat x + 8)"
  by (fastforce simp: narrow_span_def first_keys_def last_keys_def)

text \<open>
  Every union succeeds: the span check that selects the reference union is at
  least as strict as the check that prepares it, and no allowance overflows.
\<close>

lemma query_union_all_correct:
  assumes "\<forall>b \<in> set bs. roaring_ok b" and "vl_container L \<le> 2 ^ 32" and "vl_cow L \<le> 2 ^ 32"
  shows "\<exists>u. query_union_all L bs = Inr u \<and> roaring_ok u \<and> roaring_set u = (\<Union>b \<in> set bs. roaring_set b)"
proof (cases bs rule: remdups_adj.cases)
  case 1
  then show ?thesis by (simp add: query_union_all_def query_empty_def)
next
  case (2 b)
  then show ?thesis using prepare_clone_ok[of b L] assms by (auto simp: query_union_all_def try_clone_def)
next
  case (3 b c cs)
  have all: "query_union_all L bs = (if wide_span (- 1) 0 bs then bind_res (union_ref_all L query_empty bs) (\<lambda>result. Inr (fst result))
      else bind_res (prepare_union_refs L bs) (\<lambda>_. union_refs bs))"
    unfolding query_union_all_def 3 by simp
  show ?thesis
  proof (cases "wide_span (- 1) 0 bs")
    case True
    have "\<exists>capacity. union_ref_all L query_empty bs = Inr (foldl bitor_assign [] bs, capacity)"
      using union_ref_all_ok[of query_empty bs L] assms by (simp add: query_empty_def)
    then show ?thesis using all True roaring_rows.union_all[of "[]" bs] assms(1) by auto
  next
    case False
    then have "narrow_span bs" using narrow_keys[OF assms(1)] by (simp add: narrow_span_iff_keys)
    then obtain n where "prepare_union_refs L bs = Inr n" using prepare_union_refs_ok[OF assms(1) _ assms(2,3)] by blast
    then show ?thesis using all False union_refs_correct[OF assms(1)] by simp
  qed
qed

end
