(* ===== verification/Bitmap_Decode.thy ===== *)
theory Bitmap_Decode
  imports Query_Bitmap
begin

text \<open>
  The bitmaps of an index: \<^verbatim>\<open>decode_bitmap\<close> of
  \<^verbatim>\<open>src/crates/logex-index/src/btree.rs\<close>, which checks the layout of a serialized
  bitmap before it decodes it and takes a direct route for dense containers;
  the parts of the vendored bitmap library that route uses (\<^verbatim>\<open>from_lsb0_bytes\<close>
  and the union of owned bitmaps); and the union of the bitmaps of a range of
  entries.
\<close>

section \<open>Bitmaps from bytes\<close>

definition array_from_lsb0_bytes :: "bytes \<Rightarrow> usize \<Rightarrow> array_store" where
  "array_from_lsb0_bytes bytes byte_offset =
     (let chunks = chunks_exact 8 bytes; remainder = drop (8 * length chunks) bytes;
          values = (\<lambda>bit_index w. map (\<lambda>n. ucast (of_nat n + of_nat bit_index :: u32)) (word_values w))
      in concat (map (\<lambda>(i, chunk). values ((byte_offset + i * 8) * 8) (from_le_bytes chunk)) (enumerate 0 chunks))
         @ concat (map (\<lambda>(i, byte). values ((byte_offset + (length bytes - length remainder) + i) * 8) (ucast byte))
             (enumerate 0 remainder)))"

definition store_from_lsb0_bytes :: "bytes \<Rightarrow> usize \<Rightarrow> store option res" where
  "store_from_lsb0_bytes bytes byte_offset =
     (if \<not> byte_offset + length bytes \<le> BITMAP_LENGTH * 8
      then Inl (Panic ''assertion failed: byte_offset + bytes.len() <= BITMAP_LENGTH * size_of::<u64>()'')
      else
        let chunks = chunks_exact 8 bytes; remainder = drop (8 * length chunks) bytes;
            bits_set = of_nat (sum_list (map (\<lambda>chunk. pop_count (from_le_bytes chunk :: u64)) chunks)
              + sum_list (map pop_count remainder)) :: u64
        in if bits_set = 0 then Inr None
           else if bits_set < ARRAY_LIMIT then Inr (Some (Array (array_from_lsb0_bytes bytes byte_offset)))
           else bind_res (from_lsb0_bytes_unchecked bytes byte_offset bits_set) (\<lambda>b. Inr (Some (Bitmap b))))"

definition push_container :: "u16 \<Rightarrow> bytes \<Rightarrow> usize \<Rightarrow> roaring \<Rightarrow> roaring res" where
  "push_container k bytes byte_offset containers =
     bind_res (store_from_lsb0_bytes bytes byte_offset) (\<lambda>store.
       Inr (case store of None \<Rightarrow> containers | Some store \<Rightarrow> containers @ [\<lparr>ct_key = k, ct_store = store\<rparr>]))"

definition split_at :: "usize \<Rightarrow> 'a list \<Rightarrow> ('a list \<times> 'a list) res" where
  "split_at n xs = (if n \<le> length xs then Inr (take n xs, drop n xs) else Inl (Panic ''mid > len''))"

fun full_containers :: "usize list \<Rightarrow> bytes \<Rightarrow> roaring \<Rightarrow> (bytes \<times> roaring) res" where
  "full_containers [] bytes containers = Inr (bytes, containers)"
| "full_containers (k # keys) bytes containers =
     bind_res (split_at (BITMAP_LENGTH * 8) bytes) (\<lambda>(src, rest).
     bind_res (push_container (of_nat k) src 0 containers) (full_containers keys rest))"

text \<open>\<^verbatim>\<open>RoaringBitmap::from_lsb0_bytes\<close> from an offset that is a multiple of eight, and from any offset.\<close>

definition aligned_lsb0_bytes :: "u32 \<Rightarrow> bytes \<Rightarrow> roaring res" where
  "aligned_lsb0_bytes offset bytes =
     (if bytes = [] then Inr []
      else
        bind_res (ok_or (Option.bind (try_u32 (length bytes)) (\<lambda>len_bytes.
                         Option.bind (checked_mul len_bytes 8) (\<lambda>len_bits. checked_add offset (len_bits - 1))))
                   (Panic ''offset + bytes.len() must be <= 2^32'')) (\<lambda>end_bit_inc.
        let start_container = unat offset div 65536; start_offset = unat offset mod 65536 div 8;
            end_container_inc = unat end_bit_inc div 65536; end_offset = (unat end_bit_inc mod 65536 + 1) div 8
        in bind_res (if start_offset \<noteq> 0
                     then bind_res (split_at ((if end_container_inc = start_container then end_offset else BITMAP_LENGTH * 8) - start_offset) bytes) (\<lambda>(src, rest).
                          bind_res (push_container (of_nat start_container) src start_offset []) (\<lambda>containers.
                            Inr (start_container + 1, rest, containers)))
                     else Inr (start_container, bytes, [])) (\<lambda>(start_container, bytes, containers).
           bind_res (full_containers [start_container..<end_container_inc] bytes containers) (\<lambda>(bytes, containers).
             if bytes \<noteq> [] then push_container (of_nat end_container_inc) bytes 0 containers else Inr containers))))"

fun shift_bytes :: "nat \<Rightarrow> u8 \<Rightarrow> bytes \<Rightarrow> bytes" where
  "shift_bytes amount carry [] = (if carry \<noteq> 0 then [carry] else [])"
| "shift_bytes amount carry (byte # bytes) =
     (push_bit amount byte OR carry) # shift_bytes amount (drop_bit (8 - amount) byte) bytes"

definition from_lsb0_bytes :: "u32 \<Rightarrow> bytes \<Rightarrow> roaring res" where
  "from_lsb0_bytes offset bytes =
     (if unat offset mod 8 \<noteq> 0
      then let shift = unat offset mod 8 in aligned_lsb0_bytes (offset - of_nat shift) (shift_bytes shift 0 bytes)
      else aligned_lsb0_bytes offset bytes)"

section \<open>The union of owned bitmaps\<close>

fun merge_container_owned :: "roaring \<Rightarrow> roaring \<Rightarrow> roaring" where
  "merge_container_owned cs [] = cs"
| "merge_container_owned cs (r # rhs) =
     (case search_key (ct_key r) cs of
        Inl loc \<Rightarrow> merge_container_owned (vec_insert loc r cs) rhs
      | Inr loc \<Rightarrow>
          (let lhs = cs ! loc;
               (lhs, r) = (case (ct_store lhs, ct_store r) of
                   (Array vec1, Array _) \<Rightarrow> (lhs\<lparr>ct_store := store_to_bitmap (Array vec1)\<rparr>, r)
                 | (Array _, Bitmap _) \<Rightarrow> (r, lhs)
                 | _ \<Rightarrow> (lhs, r))
           in merge_container_owned (cs[loc := lhs\<lparr>ct_store := store_bitor_assign (ct_store lhs) (ct_store r)\<rparr>]) rhs))"

fun collect_results :: "'a res list \<Rightarrow> 'a list res" where
  "collect_results [] = Inr []"
| "collect_results (r # rs) = bind_res r (\<lambda>x. bind_res (collect_results rs) (\<lambda>xs. Inr (x # xs)))"

fun merge_results :: "roaring \<Rightarrow> roaring res list \<Rightarrow> roaring res" where
  "merge_results containers [] = Inr containers"
| "merge_results containers (b # bitmaps) =
     bind_res b (\<lambda>b. merge_results (merge_container_owned containers b) bitmaps)"

definition try_multi_or_owned :: "roaring res list \<Rightarrow> roaring res" where
  "try_multi_or_owned bitmaps =
     (let n = collect_count (length bitmaps)
      in bind_res (collect_results (take n bitmaps)) (\<lambda>start.
         case sort_key (\<lambda>b. - int (length b)) start of
           [] \<Rightarrow> Inr []
         | c # start \<Rightarrow>
             let start = (if c = [] then [] else start)
             in bind_res (merge_results c (map Inr start @ drop n bitmaps)) (\<lambda>containers.
                  Inr (map ensure_correct_store (filter (\<lambda>c. \<not> container_is_empty c) containers)))))"

section \<open>Checked decoding\<close>

definition take_bytes :: "bytes \<Rightarrow> usize \<Rightarrow> usize \<Rightarrow> (bytes \<times> usize) res" where
  "take_bytes data position len =
     bind_res (ok_or (usize_checked_add position len) (InvalidData ''index extent overflows'')) (\<lambda>end_position.
       if end_position \<le> length data then Inr (take len (drop position data), end_position)
       else Inl (InvalidData ''truncated index entry''))"

fun invalid_error :: "error \<Rightarrow> error" where
  "invalid_error (InvalidData m) = InvalidData m"
| "invalid_error (InvalidInput m) = InvalidData m"
| "invalid_error (OtherError m) = InvalidData m"
| "invalid_error (Unsupported m) = InvalidData m"
| "invalid_error (UnexpectedEof m) = InvalidData m"
| "invalid_error (Panic m) = Panic m"

definition deserialize_bitmap :: "bytes \<Rightarrow> roaring res" where
  "deserialize_bitmap data =
     bind_res (map_err invalid_error (deserialize_from data)) (\<lambda>(bitmap, _). Inr bitmap)"

definition decode_dense_container :: "bytes \<Rightarrow> bytes \<Rightarrow> roaring res" where
  "decode_dense_container descr payload =
     (let (k, n) = le_pair descr; expected = ucast n + 1 :: u64
      in bind_res (from_lsb0_bytes (push_bit 16 (ucast k)) payload) (\<lambda>bitmap.
           if roaring_len bitmap \<noteq> expected then Inl (InvalidData ''Roaring dense container cardinality mismatch'')
           else Inr bitmap))"

definition decode_dense_bitmaps :: "bytes \<Rightarrow> bytes \<Rightarrow> roaring res" where
  "decode_dense_bitmaps descriptions payload =
     (case chunks_exact 4 descriptions of
        [descr] \<Rightarrow> decode_dense_container descr payload
      | descriptions \<Rightarrow>
          try_multi_or_owned (map (\<lambda>(i, descr).
            bind_res (slice payload (i * 8192) (i * 8192 + 8192)) (decode_dense_container descr))
            (enumerate 0 descriptions)))"

fun index_runs :: "u16 option \<Rightarrow> usize \<Rightarrow> (u16 \<times> u16) list \<Rightarrow> usize res" where
  "index_runs previous_end actual_cardinality [] = Inr actual_cardinality"
| "index_runs previous_end actual_cardinality ((start, length_minus_one) # runs) =
     bind_res (ok_or (checked_add start length_minus_one) (InvalidData ''Roaring run range exceeds its container'')) (\<lambda>e.
       if (case previous_end of None \<Rightarrow> False | Some previous_end \<Rightarrow> start \<le> previous_end)
       then Inl (InvalidData ''Roaring runs overlap or are not ordered'')
       else index_runs (Some e) (actual_cardinality + unat length_minus_one + 1) runs)"

text \<open>One container: the position behind its payload, and whether it is dense.\<close>

definition container_extent :: "bytes \<Rightarrow> bool \<Rightarrow> usize \<Rightarrow> usize \<Rightarrow> (usize \<times> bool) res" where
  "container_extent data is_run cardinality position =
     (if is_run then
        bind_res (take_bytes data position 2) (\<lambda>(bs, position).
        bind_res (take_bytes data position (unat (from_le_bytes bs :: u16) * 4)) (\<lambda>(runs, position).
        bind_res (index_runs None 0 (map le_pair (chunks_exact 4 runs))) (\<lambda>actual_cardinality.
          if actual_cardinality \<noteq> cardinality then Inl (InvalidData ''Roaring run cardinality mismatch'')
          else Inr (position, False))))
      else
        bind_res (take_bytes data position (if cardinality \<le> 4096 then cardinality * 2 else 8192)) (\<lambda>(_, position).
          Inr (position, 4096 < cardinality)))"

fun bitmap_decode_loop :: "bytes \<Rightarrow> bytes option \<Rightarrow> bytes option \<Rightarrow> usize \<Rightarrow> u16 option \<Rightarrow> (u16 \<times> u16) list \<Rightarrow> usize \<Rightarrow> bool \<Rightarrow> (usize \<times> bool) res" where
  "bitmap_decode_loop data offsets runs i previous [] position dense_only = Inr (position, dense_only)"
| "bitmap_decode_loop data offsets runs i previous ((k, n) # descriptions) position dense_only =
     (if (case previous of None \<Rightarrow> False | Some previous \<Rightarrow> k \<le> previous)
      then Inl (InvalidData ''Roaring container keys are not strictly increasing'')
      else
        bind_res (case offsets of
              None \<Rightarrow> Inr ()
            | Some offsets \<Rightarrow>
                bind_res (slice offsets (i * 4) (i * 4 + 4)) (\<lambda>bs.
                  ensure (unat (from_le_bytes bs :: u32) = position)
                    (InvalidData ''noncontiguous Roaring container offset''))) (\<lambda>_.
        bind_res (is_run_container runs i) (\<lambda>is_run.
        bind_res (container_extent data is_run (unat n + 1) position) (\<lambda>(position, dense).
          bitmap_decode_loop data offsets runs (Suc i) (Some k) descriptions position (dense_only \<and> dense)))))"

definition decode_header :: "bytes \<Rightarrow> ((usize \<times> bool \<times> bytes option) \<times> usize) res" where
  "decode_header data =
     bind_res (take_bytes data 0 4) (\<lambda>(bs, position).
     let cookie = from_le_bytes bs :: u32
     in if cookie = 12346
        then bind_res (take_bytes data position 4) (\<lambda>(bs, position). Inr ((unat (from_le_bytes bs :: u32), True, None), position))
        else if (ucast cookie :: u16) = 12347
        then let n = unat (drop_bit 16 cookie + 1)
          in bind_res (take_bytes data position ((n + 7) div 8)) (\<lambda>(runs, position). Inr ((n, 4 \<le> n, Some runs), position))
        else Inl (InvalidData ''invalid Roaring bitmap cookie''))"

definition decode_many :: "bytes \<Rightarrow> roaring res" where
  "decode_many data =
     bind_res (decode_header data) (\<lambda>((n, has_offsets, run_containers), position).
     if 65536 < n then Inl (InvalidData ''too many Roaring containers'')
     else
       bind_res (take_bytes data position (n * 4)) (\<lambda>(descriptions, position).
       bind_res (if has_offsets
                 then bind_res (take_bytes data position (n * 4)) (\<lambda>(offsets, position). Inr (Some offsets, position))
                 else Inr (None, position)) (\<lambda>(offsets, payload_start).
       bind_res (bitmap_decode_loop data offsets run_containers 0 None (map le_pair (chunks_exact 4 descriptions)) payload_start (n \<noteq> 0))
         (\<lambda>(position, dense_only).
           if position \<noteq> length data then Inl (InvalidData ''trailing bitmap payload bytes'')
           else if dense_only then decode_dense_bitmaps descriptions (drop payload_start data)
           else deserialize_bitmap data))))"

definition decode_bitmap :: "bytes \<Rightarrow> roaring res" where
  "decode_bitmap data =
     (if 16 \<le> length data \<and> (from_le_bytes (take 8 data) :: u64) = 12346 OR push_bit 32 1
      then
        let cardinality = unat (from_le_bytes (take 2 (drop 10 data)) :: u16) + 1;
            payload_len = (if cardinality \<le> 4096 then cardinality * 2 else 8192)
        in if take 4 (drop 12 data) \<noteq> to_le_bytes (16 :: u32) \<or> length data \<noteq> 16 + payload_len
           then Inl (InvalidData ''invalid single Roaring container extent'')
           else if 4096 < cardinality then decode_dense_bitmaps (take 4 (drop 8 data)) (drop 16 data)
           else deserialize_bitmap data
      else decode_many data)"

section \<open>The union of entries\<close>

text \<open>Whether the bitmaps span more than eight containers; the loop leaves at the first that does.\<close>

fun entries_span :: "u32 \<Rightarrow> u32 \<Rightarrow> ('k \<times> roaring) list \<Rightarrow> bool" where
  "entries_span first_container last_container [] = False"
| "entries_span first_container last_container ((_, bitmap) # entries) =
     (case (roaring_min bitmap, roaring_max bitmap) of
        (Some low, Some high) \<Rightarrow>
          (let first_container = min first_container (drop_bit 16 low); last_container = max last_container (drop_bit 16 high)
           in 8 \<le> last_container - first_container \<or> entries_span first_container last_container entries)
      | _ \<Rightarrow> entries_span first_container last_container entries)"

definition union_entries :: "('k \<times> roaring) list \<Rightarrow> roaring" where
  "union_entries entries =
     (case entries of
        [] \<Rightarrow> []
      | [(_, bitmap)] \<Rightarrow> bitmap
      | _ \<Rightarrow> if entries_span (- 1) 0 entries then foldl bitor_assign [] (map snd entries)
             else multi_or_ref (map snd entries))"

section \<open>Unions\<close>

lemma merge_container_owned_eq: "merge_container_owned cs rhs = merge_container_ref cs rhs"
proof (induction cs rhs rule: merge_container_ref.induct)
  case (2 cs r rhs)
  show ?case
  proof (cases "search_key (ct_key r) cs")
    case (Inl loc)
    then show ?thesis using 2(1)[OF Inl] by simp
  next
    case (Inr loc)
    have "(cs ! loc)\<lparr>ct_store := s\<rparr> = r\<lparr>ct_store := s\<rparr>" for s
      by (rule container_eqI) (use search_key_Inr[OF Inr] in simp_all)
    then show ?thesis using Inr 2(2)[OF Inr]
      by (cases "ct_store (cs ! loc)"; cases "ct_store r") (simp_all del: store_bitor_assign.simps)
  qed
qed simp

lemma collect_results_Inr [simp]: "collect_results (map Inr xs) = Inr xs"
  by (induction xs) simp_all

lemma merge_results_Inr [simp]: "merge_results cs (map Inr bs) = Inr (foldl merge_container_ref cs bs)"
  by (induction bs arbitrary: cs) (simp_all add: merge_container_owned_eq)

lemma try_multi_or_owned_eq: "try_multi_or_owned (map Inr bs) = Inr (multi_or_ref bs)"
proof -
  have "merge_results c (map Inr start @ map Inr rest) = Inr (foldl merge_container_ref c (start @ rest))" for c start rest
    unfolding map_append[symmetric] by (rule merge_results_Inr)
  then show ?thesis
    by (cases "sort_key (\<lambda>b. - int (length b)) (take (collect_count (length bs)) bs)")
       (simp_all add: try_multi_or_owned_def multi_or_ref_def Let_def take_map drop_map)
qed

lemma union_entries_correct:
  assumes "\<forall>e \<in> set entries. roaring_ok (snd e)"
  shows "roaring_ok (union_entries entries) \<and> roaring_set (union_entries entries) = (\<Union>e \<in> set entries. roaring_set (snd e))"
proof (cases entries rule: remdups_adj.cases)
  case (3 x y es)
  have ok: "\<forall>b \<in> set (map snd entries). roaring_ok b" using assms by auto
  have "union_entries entries = (if entries_span (- 1) 0 entries then foldl bitor_assign [] (map snd entries) else multi_or_ref (map snd entries))"
    unfolding union_entries_def 3 by (cases x; cases y) (simp del: entries_span.simps)
  moreover have "(\<Union>b \<in> set (map snd entries). roaring_set b) = (\<Union>e \<in> set entries. roaring_set (snd e))" by simp
  ultimately show ?thesis using multi_or_ref_correct[OF ok] roaring_rows.union_all[of "[]" "map snd entries"] ok by simp
qed (use assms in \<open>auto simp: union_entries_def split: prod.splits\<close>)

section \<open>Decoding what was serialized\<close>

lemma take_bytes_ok: "p + n \<le> length data \<Longrightarrow> p + n < usize_limit \<Longrightarrow> take_bytes data p n = Inr (take n (drop p data), p + n)"
  by (simp add: take_bytes_def usize_checked_add_def)

lemma from_lsb0_container:
  assumes "length payload = 8192"
  shows "from_lsb0_bytes (push_bit 16 (ucast k)) payload = push_container k payload 0 []"
proof -
  let ?off = "push_bit 16 (ucast (k :: u16)) :: u32"
  have off: "unat ?off = 65536 * unat k"
    using join_value[of k 0] by (simp add: join_def)
  have k: "unat k < 65536" using unat_u16_less[of k] by simp
  have "unat ?off + unat (65535 :: u32) < 2 ^ LENGTH(32)" using off k by simp
  then have last: "checked_add ?off 65535 = Some (?off + 65535)" "unat (?off + 65535) = 65536 * unat k + 65535"
    using off k by (simp_all add: checked_add_def unat_word_ariths(1))
  have "(65536 * unat k + 65535) div 65536 = unat k" by simp
  moreover have "payload \<noteq> []" using assms by auto
  ultimately show ?thesis using off last assms
    by (simp add: from_lsb0_bytes_def aligned_lsb0_bytes_def try_u32_def checked_mul_def Let_def ok_or_def)
qed

lemma decode_dense_container_written:
  assumes "container_ok c" and "ct_store c = Bitmap b"
  shows "decode_dense_container (description c) (store_bytes (ct_store c)) = Inr [c]"
proof -
  have ok: "bitmap_ok b" "4096 < unat (bs_len b)" using assms by (simp_all add: container_ok_def)
  have bytes: "store_bytes (ct_store c) = concat (map to_le_bytes (bs_bits b))" using assms(2) by simp
  have len: "length (store_bytes (ct_store c)) = 8192" using ok(1) unfolding bytes by (simp add: bitmap_ok_def)
  have words: "map from_le_bytes (chunks_exact 8 (store_bytes (ct_store c))) = bs_bits b" unfolding bytes by (simp add: comp_def)
  have "unat (bs_len b) = sum_list (map pop_count (bs_bits b))" using ok(1) by (simp add: bitmap_ok_def card_words_set)
  then have "sum_list (map (\<lambda>chunk. pop_count (from_le_bytes chunk :: u64)) (chunks_exact 8 (store_bytes (ct_store c)))) = unat (bs_len b)"
    unfolding words[symmetric] by (simp add: comp_def)
  moreover have "8 * length (chunks_exact 8 (store_bytes (ct_store c))) = 8192" using ok(1) unfolding bytes by (simp add: bitmap_ok_def)
  moreover have "\<not> bs_len b < ARRAY_LIMIT" "bs_len b \<noteq> 0" using ok(2) by (auto simp: ARRAY_LIMIT_def word_less_nat_alt)
  moreover have "\<lparr>bs_len = bs_len b, bs_bits = bs_bits b\<rparr> = b" by simp
  ultimately have "push_container (ct_key c) (store_bytes (ct_store c)) 0 [] = Inr [\<lparr>ct_key = ct_key c, ct_store = Bitmap b\<rparr>]"
    using len words
    by (simp add: push_container_def store_from_lsb0_bytes_def from_lsb0_bytes_unchecked_def BITMAP_LENGTH_def Let_def)
  also have "\<lparr>ct_key = ct_key c, ct_store = Bitmap b\<rparr> = c" using assms(2) by (simp add: container_eqI)
  finally have "from_lsb0_bytes (push_bit 16 (ucast (ct_key c))) (store_bytes (ct_store c)) = Inr [c]"
    using from_lsb0_container[OF len] by simp
  then show ?thesis using container_card(2)[OF assms(1)] by (simp add: decode_dense_container_def roaring_len_def)
qed

definition dense :: "container \<Rightarrow> bool" where
  "dense c \<longleftrightarrow> (case ct_store c of Array _ \<Rightarrow> False | Bitmap _ \<Rightarrow> True)"

lemma roaring_set_singletons: "(\<Union>c \<in> set cs. roaring_set [c]) = roaring_set cs"
proof (induction cs)
  case (Cons c cs)
  have "roaring_set [c] \<union> roaring_set cs = roaring_set (c # cs)" by (auto simp: roaring_set_def slot_Cons)
  then show ?case using Cons by simp
qed simp

lemma decode_dense_written:
  assumes "roaring_ok cs" and "\<forall>c \<in> set cs. dense c" and "cs \<noteq> []"
  shows "decode_dense_bitmaps (concat (map description cs)) (concat (map (\<lambda>c. store_bytes (ct_store c)) cs)) = Inr cs"
proof -
  let ?payload = "concat (map (\<lambda>c. store_bytes (ct_store c)) cs)"
  have each: "container_ok c" "length (store_bytes (ct_store c)) = 8192"
      "decode_dense_container (description c) (store_bytes (ct_store c)) = Inr [c]" if "c \<in> set cs" for c
  proof -
    show ok: "container_ok c" using assms(1) that by (simp add: roaring_ok_def)
    have "dense c" using assms(2) that by blast
    then obtain b where b: "ct_store c = Bitmap b" by (cases "ct_store c") (simp_all add: dense_def)
    show "length (store_bytes (ct_store c)) = 8192" using ok b by (simp add: container_ok_def bitmap_ok_def)
    show "decode_dense_container (description c) (store_bytes (ct_store c)) = Inr [c]" by (rule decode_dense_container_written[OF ok b])
  qed
  have chunks: "chunks_exact 4 (concat (map description cs)) = map description cs" by (simp add: chunks_exact_concat)
  show ?thesis
  proof (cases cs rule: remdups_adj.cases)
    case (2 c)
    then show ?thesis using each(3)[of c] chunks by (simp add: decode_dense_bitmaps_def)
  next
    case (3 c d ds)
    let ?f = "\<lambda>(i, descr). bind_res (slice ?payload (i * 8192) (i * 8192 + 8192)) (decode_dense_container descr)"
    have len: "length ?payload = length cs * 8192" by (rule length_concat_map_const) (use each(2) in simp)
    have "map ?f (enumerate 0 (map description cs)) = map Inr (map (\<lambda>c. [c]) cs)"
    proof (rule nth_equalityI)
      fix i assume "i < length (map ?f (enumerate 0 (map description cs)))"
      then have i: "i < length cs" by simp
      have "take 8192 (drop (i * 8192) ?payload) = store_bytes (ct_store (cs ! i))"
        by (rule concat_map_window) (use each(2) i in simp_all)
      moreover have "i * 8192 + 8192 \<le> length ?payload" using i len by simp
      ultimately have "slice ?payload (i * 8192) (i * 8192 + 8192) = Inr (store_bytes (ct_store (cs ! i)))" by (simp add: slice_def)
      then show "map ?f (enumerate 0 (map description cs)) ! i = map Inr (map (\<lambda>c. [c]) cs) ! i"
        using i each(3)[of "cs ! i"] by (simp add: nth_enumerate_eq)
    qed simp
    then have "decode_dense_bitmaps (concat (map description cs)) ?payload = Inr (multi_or_ref (map (\<lambda>c. [c]) cs))"
      unfolding decode_dense_bitmaps_def chunks using 3 try_multi_or_owned_eq[of "map (\<lambda>c. [c]) cs"] by simp
    moreover have "multi_or_ref (map (\<lambda>c. [c]) cs) = cs"
    proof (rule roaring_unique)
      have ok: "\<forall>b \<in> set (map (\<lambda>c. [c]) cs). roaring_ok b" using each(1) by (auto simp: roaring_ok_def sorted_containers_def)
      show "roaring_ok (multi_or_ref (map (\<lambda>c. [c]) cs))" by (rule multi_or_ref_correct(1)[OF ok])
      show "roaring_set (multi_or_ref (map (\<lambda>c. [c]) cs)) = roaring_set cs"
        unfolding multi_or_ref_correct(2)[OF ok] using roaring_set_singletons[of cs] by simp
    qed (rule assms(1))
    ultimately show ?thesis by simp
  qed (use assms(3) in simp)
qed

lemma container_extent_written:
  assumes "container_ok c" and "data = before @ store_bytes (ct_store c) @ rest" and "length data < 2 ^ 32"
  shows "container_extent data False (unat (ucast (container_len c - 1) :: u16) + 1) (length before)
    = Inr (length before + length (store_bytes (ct_store c)), dense c)"
proof -
  have canonical: "canonical_store (ct_store c)" using assms(1) by (simp add: container_ok_def)
  have size: "(if unat (container_len c) \<le> 4096 then unat (container_len c) * 2 else 8192) = length (store_bytes (ct_store c))"
    and dense: "4096 < unat (container_len c) \<longleftrightarrow> dense c"
    using canonical by (cases "ct_store c"; simp add: container_len_def dense_def bitmap_ok_def unat_of_nat_less)+
  have "length before + length (store_bytes (ct_store c)) \<le> length data" using assms(2) by simp
  then have "take_bytes data (length before) (length (store_bytes (ct_store c)))
      = Inr (store_bytes (ct_store c), length before + length (store_bytes (ct_store c)))"
    using assms(3) take_bytes_ok[of "length before" "length (store_bytes (ct_store c))" data] by (simp add: assms(2) usize_limit_def)
  then show ?thesis unfolding container_card(1)[OF assms(1)] container_extent_def size by (simp add: dense)
qed

lemma decode_written_containers:
  assumes "roaring_ok cs" and "\<forall>p c. prev = Some p \<and> c \<in> set cs \<longrightarrow> p < ct_key c" and "length pre = 4 * i"
    and "data = before @ concat (map (\<lambda>c. store_bytes (ct_store c)) cs)" and "unat off = length before" and "length data < 2 ^ 32"
  shows "bitmap_decode_loop data (Some (pre @ offset_bytes off cs)) None i prev (map (\<lambda>c. (ct_key c, ucast (container_len c - 1))) cs)
      (length before) d = Inr (length data, d \<and> (\<forall>c \<in> set cs. dense c))"
  using assms
proof (induction cs arbitrary: i prev pre off before d)
  case (Cons c cs)
  let ?rest = "concat (map (\<lambda>c. store_bytes (ct_store c)) cs)" and ?n = "ucast (container_len c - 1) :: u16"
  let ?off = "case ct_store c of Array vec \<Rightarrow> off + of_nat (length vec) * 2 | Bitmap _ \<Rightarrow> off + 8 * 1024"
  have c: "container_ok c" "canonical_store (ct_store c)" using Cons.prems(1) by (simp_all add: roaring_ok_def container_ok_def)
  have fresh: "\<not> (case prev of None \<Rightarrow> False | Some previous \<Rightarrow> ct_key c \<le> previous)"
    using Cons.prems(2) by (auto split: option.splits simp: not_le)
  have data: "data = before @ store_bytes (ct_store c) @ ?rest" using Cons.prems(4) by simp
  have "unat off + length (store_bytes (ct_store c)) < 2 ^ 32" using Cons.prems(5,6) data by simp
  note off = next_offset[OF c(2) this]
  have slice: "slice (pre @ offset_bytes off (c # cs)) (i * 4) (i * 4 + 4) = Inr (to_le_bytes off)"
    using Cons.prems(3) by (simp add: slice_def)
  note extent = container_extent_written[OF c(1) data Cons.prems(6)]
  have ok: "roaring_ok cs" "\<forall>p d. Some (ct_key c) = Some p \<and> d \<in> set cs \<longrightarrow> p < ct_key d"
    using Cons.prems(1) by (auto simp: roaring_ok_def sorted_containers_def)
  have "bitmap_decode_loop data (Some ((pre @ to_le_bytes off) @ offset_bytes ?off cs)) None (Suc i) (Some (ct_key c))
      (map (\<lambda>c. (ct_key c, ucast (container_len c - 1))) cs) (length (before @ store_bytes (ct_store c))) (d \<and> dense c)
     = Inr (length data, (d \<and> dense c) \<and> (\<forall>c \<in> set cs. dense c))"
    by (rule Cons.IH[OF ok]) (use Cons.prems(3,5,6) data off in simp_all)
  then show ?case
    unfolding list.map bitmap_decode_loop.simps if_not_P[OF fresh] option.case slice bind_res_simps
    using Cons.prems(5) extent by (simp add: is_run_container_def ensure_def)
qed simp

lemma decode_many_serialized:
  assumes "roaring_ok cs"
  shows "decode_many (serialize_into cs) = Inr cs"
proof -
  let ?stores = "concat (map (\<lambda>c. store_bytes (ct_store c)) cs)" and ?off = "8 + 8 * of_nat (length cs) :: u32"
  let ?descs = "concat (map description cs)" and ?cookie = "to_le_bytes SERIAL_COOKIE_NO_RUNCONTAINER @ to_le_bytes (of_nat (length cs) :: u32)"
  define data where "data = serialize_into cs"
  have data: "data = ?cookie @ ?descs @ offset_bytes ?off cs @ ?stores" by (simp add: data_def serialize_into_def)
  have n: "length cs \<le> 65536" by (rule roaring_ok_length[OF assms])
  have un: "unat (of_nat (length cs) :: u32) = length cs" using n by (simp add: unsigned_of_nat take_bit_eq_mod)
  have dl: "length ?descs = length cs * 4" by (rule length_concat_map_const) simp
  have len: "length data < 2 ^ 32" unfolding data_def by (rule serialized_bound(2)[OF assms])
  have tb: "take_bytes data p k = Inr (take k (drop p data), p + k)" if "p + k \<le> length data" for p k
    by (rule take_bytes_ok[OF that]) (use that len in \<open>simp add: usize_limit_def\<close>)
  have head: "take_bytes data 0 4 = Inr (to_le_bytes SERIAL_COOKIE_NO_RUNCONTAINER, 4)"
    "take_bytes data 4 4 = Inr (to_le_bytes (of_nat (length cs) :: u32), 8)"
    "take_bytes data 8 (length cs * 4) = Inr (?descs, 8 + length cs * 4)"
    "take_bytes data (8 + length cs * 4) (length cs * 4) = Inr (offset_bytes ?off cs, 8 + length cs * 4 + length cs * 4)"
    by (subst tb; simp add: data dl)+
  have header: "decode_header data = Inr ((length cs, True, None), 8)"
    using un by (simp add: decode_header_def head SERIAL_COOKIE_NO_RUNCONTAINER_def Let_def)
  have chunks: "map le_pair (chunks_exact 4 ?descs) = map (\<lambda>c. (ct_key c, ucast (container_len c - 1))) cs"
    by (simp add: chunks_exact_concat comp_def)
  let ?before = "?cookie @ ?descs @ offset_bytes ?off cs"
  have bl: "length ?before = 8 + length cs * 4 + length cs * 4" using dl by simp
  have "unat ?off = length ?before" using n un bl by (simp add: unat_word_ariths)
  then have loop: "bitmap_decode_loop data (Some ([] @ offset_bytes ?off cs)) None 0 None (map (\<lambda>c. (ct_key c, ucast (container_len c - 1))) cs)
      (length ?before) (length cs \<noteq> 0) = Inr (length data, length cs \<noteq> 0 \<and> (\<forall>c \<in> set cs. dense c))"
    using assms len by (intro decode_written_containers) (simp_all add: data)
  have payload: "drop (8 + length cs * 4 + length cs * 4) data = ?stores"
    unfolding data bl[symmetric] by (simp add: dl)
  have "decode_dense_bitmaps ?descs ?stores = Inr cs" if "length cs \<noteq> 0 \<and> (\<forall>c \<in> set cs. dense c)"
    using decode_dense_written[OF assms] that by simp
  moreover have "deserialize_bitmap data = Inr cs"
    using deserialize_serialized[OF assms, of "[]"] by (simp add: deserialize_bitmap_def data_def map_err_def)
  moreover have "\<not> 65536 < length cs" using n by simp
  ultimately have "decode_many data = Inr cs"
    unfolding decode_many_def header bind_res_simps prod.case head if_True chunks loop[unfolded bl append_Nil] payload by simp
  then show ?thesis by (simp add: data_def)
qed

text \<open>The index decoder and the accounted decoder read back what the bitmap library wrote.\<close>

lemma decode_bitmap_serialized:
  assumes "roaring_ok cs"
  shows "decode_bitmap (serialize_into cs) = Inr cs"
proof (cases "16 \<le> length (serialize_into cs) \<and> (from_le_bytes (take 8 (serialize_into cs)) :: u64) = 12346 OR push_bit 32 1")
  case False
  show ?thesis unfolding decode_bitmap_def if_not_P[OF False] by (rule decode_many_serialized[OF assms])
next
  case True
  have n: "length cs \<le> 65536" by (rule roaring_ok_length[OF assms])
  have "take 8 (serialize_into cs) = to_le_bytes SERIAL_COOKIE_NO_RUNCONTAINER @ to_le_bytes (of_nat (length cs) :: u32)"
    by (simp add: serialize_into_def)
  then have "(from_le_bytes (take 8 (serialize_into cs)) :: u64) = of_nat (12346 + 2 ^ 32 * length cs)"
    using n by (simp add: from_le_bytes_def nat_of_le_append to_le_bytes_def nat_of_le_nat_to_le SERIAL_COOKIE_NO_RUNCONTAINER_def
        unsigned_of_nat take_bit_eq_mod del: of_nat_add of_nat_mult)
  moreover have "(12346 OR push_bit 32 1 :: u64) = of_nat (12346 + 2 ^ 32 * 1)" by (simp add: push_bit_eq_mult)
  ultimately have "unat (of_nat (12346 + 2 ^ 32 * length cs) :: u64) = unat (of_nat (12346 + 2 ^ 32 * 1) :: u64)"
    using True by (simp del: of_nat_add of_nat_mult)
  then have "length cs = 1" using n by (simp add: unat_of_nat_less del: of_nat_add of_nat_mult)
  then obtain c where cs: "cs = [c]" by (auto simp: length_Suc_conv)
  have c: "container_ok c" "canonical_store (ct_store c)" using assms cs by (simp_all add: roaring_ok_def container_ok_def)
  let ?n = "ucast (container_len c - 1) :: u16"
  have data: "serialize_into cs = to_le_bytes SERIAL_COOKIE_NO_RUNCONTAINER @ to_le_bytes (1 :: u32) @ to_le_bytes (ct_key c)
      @ to_le_bytes ?n @ to_le_bytes (16 :: u32) @ store_bytes (ct_store c)"
    by (simp add: serialize_into_def cs description_def)
  have parts: "take 2 (drop 10 (serialize_into cs)) = to_le_bytes ?n" "take 4 (drop 12 (serialize_into cs)) = to_le_bytes (16 :: u32)"
    "take 4 (drop 8 (serialize_into cs)) = description c" "drop 16 (serialize_into cs) = store_bytes (ct_store c)"
    "length (serialize_into cs) = 16 + length (store_bytes (ct_store c))"
    unfolding data by (simp_all add: description_def)
  have card: "unat (from_le_bytes (to_le_bytes ?n) :: u16) + 1 = unat (container_len c)" using container_card(1)[OF c(1)] by simp
  have size: "(if unat (container_len c) \<le> 4096 then unat (container_len c) * 2 else 8192) = length (store_bytes (ct_store c))"
    and dense: "4096 < unat (container_len c) \<longleftrightarrow> dense c"
    using c(2) by (cases "ct_store c"; simp add: container_len_def dense_def bitmap_ok_def unat_of_nat_less)+
  have "decode_dense_bitmaps (description c) (store_bytes (ct_store c)) = Inr cs" if "dense c"
    using decode_dense_written[OF assms] that by (simp add: cs)
  moreover have "deserialize_bitmap (serialize_into cs) = Inr cs"
    using deserialize_serialized[OF assms, of "[]"] by (simp add: deserialize_bitmap_def map_err_def)
  ultimately show ?thesis using decode_many_serialized[OF assms]
    unfolding decode_bitmap_def parts card Let_def size by (simp add: dense)
qed

lemma query_decode_serialized: "roaring_ok cs \<Longrightarrow> sz \<le> 2 ^ 32 \<Longrightarrow> query_decode sz (serialize_into cs) = Inr cs"
  unfolding query_decode_def by (rule prepared_serialized)

end
