(* ===== verification/Index_File.thy ===== *)
theory Index_File
  imports Prelude
begin

text \<open>
  The page-checksummed container of index files,
  \<^verbatim>\<open>src/crates/logex-index/src/index_file.rs\<close>: a 48-byte header, the logical bytes,
  and eight fingerprint bytes per 4096-byte page.  The writer streams logical
  bytes through a page buffer; the reader keeps one verified page, one window of
  fingerprints and an unverified prefetched first page.  CRC-32 and XXH3 are
  parameters, files are byte lists that do not change while a reader is open,
  writes to the output succeed, and no query memory budget is set.  Lengths and
  positions are natural numbers below \<open>2 ^ 64\<close>, with the checks of the source
  where it makes them.  A failed \<^verbatim>\<open>read_exact_at\<close> leaves the cached page as it was;
  the code never looks at it again.
\<close>

record index_hashes =
  ih_crc32 :: "bytes \<Rightarrow> u32"
  ih_xxh3 :: "bytes \<Rightarrow> u64"
  ih_xxh3_seeded :: "u64 \<Rightarrow> bytes \<Rightarrow> u64"

section \<open>Layout\<close>

definition INDEX_MAGIC :: bytes where
  "INDEX_MAGIC = [76, 88, 73, 68, 88, 48, 48, 49]"

definition INDEX_VERSION :: u32 where
  "INDEX_VERSION = 5"

definition INDEX_HEADER_BYTES :: nat where
  "INDEX_HEADER_BYTES = 48"

definition PAGE_BYTES :: nat where
  "PAGE_BYTES = 4096"

definition CHECKSUM_BYTES :: nat where
  "CHECKSUM_BYTES = 8"

definition CHECKSUM_CACHE_BYTES :: nat where
  "CHECKSUM_CACHE_BYTES = 16 * 1024"

definition PAGE_DOMAIN :: bytes where
  "PAGE_DOMAIN = [76, 111, 103, 69, 120, 32, 105, 110, 100, 101, 120, 32, 112, 97, 103, 101]"

definition div_ceil :: "nat \<Rightarrow> nat \<Rightarrow> nat" where
  "div_ceil a b = (a + b - 1) div b"

definition physical_len :: "nat \<Rightarrow> nat res" where
  "physical_len logical_len =
     ok_or (Option.bind (usize_checked_mul (div_ceil logical_len PAGE_BYTES) CHECKSUM_BYTES) (\<lambda>checksums.
            Option.bind (usize_checked_add checksums logical_len) (\<lambda>body. usize_checked_add body INDEX_HEADER_BYTES)))
       (InvalidData ''index file length overflow'')"

definition file_context :: "nat \<Rightarrow> bytes \<Rightarrow> bytes" where
  "file_context logical_len file_id =
     PAGE_DOMAIN @ to_le_bytes INDEX_VERSION @ to_le_bytes (of_nat logical_len :: u64) @ file_id"

definition page_fingerprint :: "index_hashes \<Rightarrow> nat \<Rightarrow> bytes \<Rightarrow> nat \<Rightarrow> bytes \<Rightarrow> bytes" where
  "page_fingerprint H logical_len ctxt i page =
     (let len = min (logical_len - i * PAGE_BYTES) PAGE_BYTES;
          metadata = ctxt @ to_le_bytes (of_nat i :: u64) @ to_le_bytes (of_nat len :: u64);
          seed = ih_xxh3 H metadata
      in to_le_bytes (ih_xxh3_seeded H seed page))"

definition verify_page :: "index_hashes \<Rightarrow> nat \<Rightarrow> bytes \<Rightarrow> nat \<Rightarrow> bytes \<Rightarrow> bytes \<Rightarrow> unit res" where
  "verify_page H logical_len ctxt i page expected =
     ensure (page_fingerprint H logical_len ctxt i page = expected)
       (InvalidData ''index page checksum mismatch; rebuild derived indexes'')"

definition parse_header :: "index_hashes \<Rightarrow> bytes \<Rightarrow> nat \<Rightarrow> (nat \<times> bytes) option res" where
  "parse_header H header len =
     (if \<not> (8 \<le> length header \<and> take 8 header = INDEX_MAGIC) then Inr None
      else if length header < INDEX_HEADER_BYTES
        \<or> to_le_bytes (ih_crc32 H (take 44 header)) \<noteq> take 4 (drop 44 header)
        \<or> take 4 (drop 8 header) \<noteq> to_le_bytes INDEX_VERSION
        \<or> take 4 (drop 12 header) \<noteq> to_le_bytes (of_nat PAGE_BYTES :: u32)
        \<or> take 4 (drop 40 header) \<noteq> replicate 4 0
      then Inl (InvalidData ''invalid index integrity header'')
      else
        let logical_len = unat (from_le_bytes (take 8 (drop 16 header)) :: u64)
        in bind_res (physical_len logical_len) (\<lambda>physical.
             if physical \<noteq> len then Inl (InvalidData ''index integrity file length mismatch'')
             else Inr (Some (logical_len, take 16 (drop 24 header)))))"

text \<open>\<^verbatim>\<open>slice::chunks\<close>: the last chunk may be shorter.\<close>

fun chunks :: "nat \<Rightarrow> 'a list \<Rightarrow> 'a list list" where
  "chunks n xs = (if n = 0 \<or> xs = [] then [] else take n xs # chunks n (drop n xs))"

declare chunks.simps [simp del]

fun verify_pages :: "index_hashes \<Rightarrow> nat \<Rightarrow> bytes \<Rightarrow> bytes \<Rightarrow> nat \<Rightarrow> bytes list \<Rightarrow> unit res" where
  "verify_pages H logical_len ctxt checksums i [] = Inr ()"
| "verify_pages H logical_len ctxt checksums i (page # pages) =
     (let offset = i * CHECKSUM_BYTES
      in bind_res (slice checksums offset (offset + CHECKSUM_BYTES)) (\<lambda>expected.
         bind_res (verify_page H logical_len ctxt i page expected) (\<lambda>_.
           verify_pages H logical_len ctxt checksums (Suc i) pages)))"

definition verify_body :: "index_hashes \<Rightarrow> bytes \<Rightarrow> bytes \<Rightarrow> bytes \<Rightarrow> unit res" where
  "verify_body H logical checksums ctxt =
     verify_pages H (length logical) ctxt checksums 0 (chunks PAGE_BYTES logical)"

definition read_at :: "bytes \<Rightarrow> nat \<Rightarrow> nat \<Rightarrow> bytes res" where
  "read_at contents len offset =
     (if offset + len \<le> length contents then Inr (take len (drop offset contents))
      else Inl (UnexpectedEof ''failed to fill whole buffer''))"

text \<open>\<^verbatim>\<open>copy_from_slice\<close> into the front of a buffer.\<close>

definition overwrite :: "bytes \<Rightarrow> bytes \<Rightarrow> bytes" where
  "overwrite buf bs = bs @ drop (length bs) buf"

section \<open>The reader\<close>

record index_file =
  ix_file :: bytes
  ix_logical_len :: nat
  ix_protected :: bool
  ix_file_id :: "bytes option"
  ix_context :: bytes
  ix_position :: nat
  ix_page :: bytes
  ix_page_index :: "nat option"
  ix_page_len :: nat
  ix_prefetched_page :: bool
  ix_checksums :: bytes
  ix_checksum_start :: "nat option"
  ix_checksum_len :: nat

definition index_open :: "index_hashes \<Rightarrow> bytes \<Rightarrow> index_file res" where
  "index_open H contents =
     (let len = length contents;
          prefetch_len = min len (INDEX_HEADER_BYTES + PAGE_BYTES + CHECKSUM_BYTES)
      in bind_res (read_at contents prefetch_len 0) (\<lambda>bs.
         let prefetch = overwrite (replicate (INDEX_HEADER_BYTES + PAGE_BYTES + CHECKSUM_BYTES) 0) bs
         in bind_res (parse_header H (take (min prefetch_len INDEX_HEADER_BYTES) prefetch) len) (\<lambda>parsed.
         let protected = (parsed \<noteq> None);
             (logical_len, file_id) = (case parsed of Some p \<Rightarrow> p | None \<Rightarrow> (len, replicate 16 0));
             checksum_capacity = (if protected then min (div_ceil logical_len PAGE_BYTES * CHECKSUM_BYTES) CHECKSUM_CACHE_BYTES else 0);
             reader = \<lparr>ix_file = contents, ix_logical_len = logical_len, ix_protected = protected,
               ix_file_id = (if protected then Some file_id else None), ix_context = file_context logical_len file_id,
               ix_position = 0, ix_page = replicate PAGE_BYTES 0, ix_page_index = None, ix_page_len = 0,
               ix_prefetched_page = False, ix_checksums = replicate checksum_capacity 0,
               ix_checksum_start = None, ix_checksum_len = 0\<rparr>
         in if protected \<and> logical_len \<noteq> 0
            then
              let page_len = min logical_len PAGE_BYTES;
                  reader = reader\<lparr>ix_page_len := page_len, ix_page := overwrite (ix_page reader) (take page_len (drop INDEX_HEADER_BYTES prefetch)),
                             ix_prefetched_page := True\<rparr>
              in if len = prefetch_len
                 then
                   let footer = INDEX_HEADER_BYTES + logical_len
                   in Inr (reader\<lparr>ix_checksum_len := prefetch_len - footer,
                        ix_checksums := overwrite (ix_checksums reader) (take (prefetch_len - footer) (drop footer prefetch)),
                        ix_checksum_start := Some 0\<rparr>)
                 else Inr reader
            else Inr reader)))"

definition open_bound :: "index_hashes \<Rightarrow> bytes \<Rightarrow> bytes \<Rightarrow> index_file res" where
  "open_bound H contents expected_file_id =
     bind_res (index_open H contents) (\<lambda>reader.
       if ix_file_id reader \<noteq> Some expected_file_id
       then Inl (InvalidData ''index artifact does not match its publication binding'')
       else Inr reader)"

definition protected_file_id :: "index_hashes \<Rightarrow> bytes \<Rightarrow> bytes res" where
  "protected_file_id H contents =
     bind_res (read_at contents INDEX_HEADER_BYTES 0) (\<lambda>header.
     bind_res (parse_header H header (length contents)) (\<lambda>parsed.
       case parsed of Some (_, file_id) \<Rightarrow> Inr file_id
       | None \<Rightarrow> Inl (InvalidData ''index artifact has no publication identity'')))"

definition read_all_from_path_expected :: "index_hashes \<Rightarrow> bytes \<Rightarrow> bytes option \<Rightarrow> bytes res" where
  "read_all_from_path_expected H contents expected_file_id =
     bind_res (parse_header H contents (length contents)) (\<lambda>parsed.
       if (case expected_file_id of None \<Rightarrow> False | Some e \<Rightarrow> map_option snd parsed \<noteq> Some e)
       then Inl (InvalidData ''index artifact does not match its publication binding'')
       else case parsed of
           Some (logical_len, file_id) \<Rightarrow>
             (let rest = drop INDEX_HEADER_BYTES contents; body = take logical_len rest; checksums = drop logical_len rest
              in bind_res (verify_body H body checksums (file_context logical_len file_id)) (\<lambda>_. Inr body))
         | None \<Rightarrow> Inr contents)"

definition page_checksum :: "index_file \<Rightarrow> nat \<Rightarrow> index_file \<times> bytes res" where
  "page_checksum s i =
     (let checksum_offset = i * CHECKSUM_BYTES;
          start = checksum_offset div CHECKSUM_CACHE_BYTES * CHECKSUM_CACHE_BYTES;
          offset = checksum_offset - start
      in if ix_checksum_start s \<noteq> Some start
         then
           let checksum_bytes = div_ceil (ix_logical_len s) PAGE_BYTES * CHECKSUM_BYTES;
               len = min (checksum_bytes - start) CHECKSUM_CACHE_BYTES;
               s = s\<lparr>ix_checksum_start := None, ix_checksum_len := len\<rparr>
           in case bind_res (slice (ix_checksums s) 0 len) (\<lambda>_. read_at (ix_file s) len (INDEX_HEADER_BYTES + ix_logical_len s + start)) of
                Inl e \<Rightarrow> (s, Inl e)
              | Inr bs \<Rightarrow>
                  (let s = s\<lparr>ix_checksums := overwrite (ix_checksums s) bs, ix_checksum_start := Some start\<rparr>
                   in (s, slice (ix_checksums s) offset (offset + CHECKSUM_BYTES)))
         else (s, slice (ix_checksums s) offset (offset + CHECKSUM_BYTES)))"

definition load_page :: "index_hashes \<Rightarrow> index_file \<Rightarrow> nat \<Rightarrow> index_file \<times> unit res" where
  "load_page H s i =
     (if ix_page_index s = Some i then (s, Inr ())
      else
        let prefetched = (ix_prefetched_page s \<and> i = 0);
            start = i * PAGE_BYTES;
            s = s\<lparr>ix_prefetched_page := False, ix_page_index := None, ix_page_len := min (ix_logical_len s - start) PAGE_BYTES\<rparr>
        in case (if prefetched then Inr (ix_page s)
                 else bind_res (read_at (ix_file s) (ix_page_len s) (INDEX_HEADER_BYTES + start)) (\<lambda>bs. Inr (overwrite (ix_page s) bs))) of
             Inl e \<Rightarrow> (s, Inl e)
           | Inr page \<Rightarrow>
               (case page_checksum (s\<lparr>ix_page := page\<rparr>) i of
                  (s, Inl e) \<Rightarrow> (s, Inl e)
                | (s, Inr expected) \<Rightarrow>
                    (case verify_page H (ix_logical_len s) (ix_context s) i (take (ix_page_len s) (ix_page s)) expected of
                       Inl e \<Rightarrow> (s, Inl e)
                     | Inr _ \<Rightarrow> (s\<lparr>ix_page_index := Some i\<rparr>, Inr ()))))"

text \<open>The bulk path: every page of the destination is checked after one read.\<close>

fun verify_bulk :: "index_hashes \<Rightarrow> index_file \<Rightarrow> nat \<Rightarrow> bytes list \<Rightarrow> index_file \<times> unit res" where
  "verify_bulk H s i [] = (s, Inr ())"
| "verify_bulk H s i (page # pages) =
     (case page_checksum s i of
        (s, Inl e) \<Rightarrow> (s, Inl e)
      | (s, Inr expected) \<Rightarrow>
          (case verify_page H (ix_logical_len s) (ix_context s) i page expected of
             Inl e \<Rightarrow> (s, Inl e)
           | Inr _ \<Rightarrow> verify_bulk H s (Suc i) pages))"

text \<open>
  The copying loop of \<^verbatim>\<open>read\<close>, over the number of bytes still wanted.  A step that
  copies nothing would repeat for ever, so the loop is a partial function.
\<close>

partial_function (option) read_loop :: "index_hashes \<Rightarrow> index_file \<Rightarrow> nat \<Rightarrow> bytes \<Rightarrow> (index_file \<times> bytes res) option" where
  "read_loop H s len copied =
     (if length copied < len
      then
        let i = ix_position s div PAGE_BYTES
        in case load_page H s i of
             (s, Inl e) \<Rightarrow> Some (if copied = [] then (s, Inl e) else (s, Inr copied))
           | (s, Inr _) \<Rightarrow>
               (let offset = ix_position s mod PAGE_BYTES;
                    n = min (ix_page_len s - offset) (len - length copied)
                in read_loop H (s\<lparr>ix_position := ix_position s + n\<rparr>) len (copied @ take n (drop offset (ix_page s))))
      else Some (s, Inr copied))"

text \<open>\<^verbatim>\<open>read\<close> into a buffer of \<open>n\<close> bytes; the result is what was written to its front.\<close>

definition index_read :: "index_hashes \<Rightarrow> index_file \<Rightarrow> nat \<Rightarrow> (index_file \<times> bytes res) option" where
  "index_read H s n =
     (let len = min (ix_logical_len s - ix_position s) n
      in if len = 0 then Some (s, Inr [])
         else if \<not> ix_protected s
         then Some (case read_at (ix_file s) len (ix_position s) of
                Inl e \<Rightarrow> (s, Inl e)
              | Inr bs \<Rightarrow> (s\<lparr>ix_position := ix_position s + len\<rparr>, Inr bs))
         else
           let i = ix_position s div PAGE_BYTES; offset = ix_position s mod PAGE_BYTES
           in if (ix_page_index s = Some i \<or> ix_prefetched_page s \<and> i = 0) \<and> len \<le> PAGE_BYTES - offset
              then Some (case load_page H s i of
                     (s, Inl e) \<Rightarrow> (s, Inl e)
                   | (s, Inr _) \<Rightarrow> (s\<lparr>ix_position := ix_position s + len\<rparr>, Inr (take len (drop offset (ix_page s)))))
              else if PAGE_BYTES \<le> len \<and> ix_position s mod PAGE_BYTES = 0
              then
                let cnt = (if ix_position s + len = ix_logical_len s then len else len div PAGE_BYTES * PAGE_BYTES);
                    s = s\<lparr>ix_prefetched_page := False\<rparr>
                in Some (case read_at (ix_file s) cnt (INDEX_HEADER_BYTES + ix_position s) of
                     Inl e \<Rightarrow> (s, Inl e)
                   | Inr bs \<Rightarrow>
                       (case verify_bulk H s (ix_position s div PAGE_BYTES) (chunks PAGE_BYTES bs) of
                          (s, Inl e) \<Rightarrow> (s, Inl e)
                        | (s, Inr _) \<Rightarrow> (s\<lparr>ix_position := ix_position s + cnt\<rparr>, Inr bs)))
              else read_loop H s (if PAGE_BYTES \<le> len then min len (PAGE_BYTES - ix_position s mod PAGE_BYTES) else len) [])"

text \<open>\<^verbatim>\<open>Read::read_exact\<close> of the standard library over \<^verbatim>\<open>read\<close>.\<close>

partial_function (option) index_read_exact :: "index_hashes \<Rightarrow> index_file \<Rightarrow> nat \<Rightarrow> bytes \<Rightarrow> (index_file \<times> bytes res) option" where
  "index_read_exact H s n filled =
     (if n = 0 then Some (s, Inr filled)
      else Option.bind (index_read H s n) (\<lambda>(s, r).
        case r of
          Inl e \<Rightarrow> Some (s, Inl e)
        | Inr bs \<Rightarrow>
            if bs = [] then Some (s, Inl (UnexpectedEof ''failed to fill whole buffer''))
            else index_read_exact H s (n - length bs) (filled @ bs)))"

datatype seek_from = SeekStart nat | SeekCurrent int | SeekEnd int

definition checked_add_signed :: "nat \<Rightarrow> int \<Rightarrow> nat option" where
  "checked_add_signed a d = (let r = int a + d in if 0 \<le> r \<and> r < 2 ^ 64 then Some (nat r) else None)"

definition index_seek :: "index_file \<Rightarrow> seek_from \<Rightarrow> index_file \<times> nat res" where
  "index_seek s position =
     (case (case position of
              SeekStart v \<Rightarrow> Some v
            | SeekCurrent d \<Rightarrow> checked_add_signed (ix_position s) d
            | SeekEnd d \<Rightarrow> checked_add_signed (ix_logical_len s) d) of
        None \<Rightarrow> (s, Inl (InvalidInput ''index seek out of range''))
      | Some p \<Rightarrow> (s\<lparr>ix_position := p\<rparr>, Inr p))"

definition pending_unverified_prefix_for_bounded_route :: "index_file \<Rightarrow> nat \<Rightarrow> bytes option" where
  "pending_unverified_prefix_for_bounded_route s max_logical_len =
     (if ix_protected s \<and> ix_prefetched_page s \<and> PAGE_BYTES < ix_logical_len s \<and> ix_logical_len s \<le> max_logical_len
      then Some (take (ix_page_len s) (ix_page s)) else None)"

definition index_read_all :: "index_hashes \<Rightarrow> index_file \<Rightarrow> bytes res option" where
  "index_read_all H s =
     (let logical_len = ix_logical_len s
      in if ix_protected s \<and> PAGE_BYTES < logical_len
         then Some (bind_res (physical_len logical_len) (\<lambda>physical.
                bind_res (read_at (ix_file s) (physical - INDEX_HEADER_BYTES) INDEX_HEADER_BYTES) (\<lambda>data.
                bind_res (verify_body H (take logical_len data) (drop logical_len data) (ix_context s)) (\<lambda>_.
                  Inr (take logical_len data)))))
         else
           let (s, _) = index_seek s (SeekStart 0)
           in map_option snd (index_read_exact H s logical_len []))"

section \<open>The writer\<close>

record index_writer =
  iw_output :: bytes
  iw_logical_len :: nat
  iw_written :: nat
  iw_page :: bytes
  iw_flushed :: nat
  iw_failed :: bool
  iw_context :: bytes
  iw_checksums :: "bytes list"

definition finish_buffered_page :: "index_hashes \<Rightarrow> nat \<Rightarrow> nat \<Rightarrow> index_writer \<Rightarrow> index_writer" where
  "finish_buffered_page H len i w =
     w\<lparr>iw_output := iw_output w @ take (len - iw_flushed w) (drop (iw_flushed w) (iw_page w)),
       iw_checksums := iw_checksums w @ [page_fingerprint H (iw_logical_len w) (iw_context w) i (take len (iw_page w))],
       iw_flushed := 0\<rparr>"

function write_loop :: "index_hashes \<Rightarrow> index_writer \<Rightarrow> bytes \<Rightarrow> index_writer" where
  "write_loop H w remaining =
     (if remaining = [] then w
      else
        let offset = iw_written w mod PAGE_BYTES
        in if offset = 0 \<and> PAGE_BYTES \<le> length remaining
           then
             let cnt = length remaining div PAGE_BYTES * PAGE_BYTES;
                 first = iw_written w div PAGE_BYTES;
                 fingerprints = map (\<lambda>(k, page). page_fingerprint H (iw_logical_len w) (iw_context w) (first + k) page)
                   (enumerate 0 (chunks_exact PAGE_BYTES (take cnt remaining)))
             in write_loop H (w\<lparr>iw_output := iw_output w @ take cnt remaining, iw_checksums := iw_checksums w @ fingerprints,
                  iw_written := iw_written w + cnt\<rparr>) (drop cnt remaining)
           else
             let cnt = min (PAGE_BYTES - offset) (length remaining);
                 w = w\<lparr>iw_page := take offset (iw_page w) @ take cnt remaining @ drop (offset + cnt) (iw_page w),
                       iw_written := iw_written w + cnt\<rparr>;
                 w = (if offset + cnt = PAGE_BYTES then finish_buffered_page H PAGE_BYTES (iw_written w div PAGE_BYTES - 1) w else w)
             in write_loop H w (drop cnt remaining))"
  by pat_completeness auto
termination
proof (relation "measure (\<lambda>(H, w, remaining). length remaining)")
  show "wf (measure (\<lambda>(H :: index_hashes, w :: index_writer, remaining :: bytes). length remaining))" by simp
next
  fix H :: index_hashes and w :: index_writer and remaining :: bytes and offset cnt first :: nat and fingerprints :: "bytes list"
  assume a: "remaining \<noteq> []" "offset = iw_written w mod PAGE_BYTES" "offset = 0 \<and> PAGE_BYTES \<le> length remaining"
    "cnt = length remaining div PAGE_BYTES * PAGE_BYTES"
  have "PAGE_BYTES div PAGE_BYTES \<le> length remaining div PAGE_BYTES" using a(3) by (intro div_le_mono) simp
  then have "0 < cnt" using a(4) by (simp add: PAGE_BYTES_def)
  then show "((H, w\<lparr>iw_output := iw_output w @ take cnt remaining, iw_checksums := iw_checksums w @ fingerprints,
      iw_written := iw_written w + cnt\<rparr>, drop cnt remaining), H, w, remaining) \<in> measure (\<lambda>(H, w, remaining). length remaining)"
    using a(1) by simp
next
  fix H :: index_hashes and w w1 w2 :: index_writer and remaining :: bytes and offset cnt :: nat
  assume a: "remaining \<noteq> []" "offset = iw_written w mod PAGE_BYTES" "cnt = min (PAGE_BYTES - offset) (length remaining)"
  have "offset < PAGE_BYTES" using a(2) by (simp add: PAGE_BYTES_def)
  then have "0 < cnt" using a(1,3) by simp
  then show "((H, w2, drop cnt remaining), H, w, remaining) \<in> measure (\<lambda>(H, w, remaining). length remaining)"
    using a(1) by simp
qed

declare write_loop.simps [simp del]

definition write_bytes :: "index_hashes \<Rightarrow> index_writer \<Rightarrow> bytes \<Rightarrow> index_writer \<times> unit res" where
  "write_bytes H w bs =
     (if iw_logical_len w - iw_written w < length bs
      then (w, Inl (InvalidData ''index writer exceeded its declared logical length''))
      else (write_loop H w bs, Inr ()))"

definition flush_bytes :: "index_writer \<Rightarrow> index_writer" where
  "flush_bytes w =
     (let len = iw_written w mod PAGE_BYTES
      in w\<lparr>iw_output := iw_output w @ take (len - iw_flushed w) (drop (iw_flushed w) (iw_page w)), iw_flushed := len\<rparr>)"

text \<open>The calls a producer makes on the writer.  Writing nothing does not call \<^verbatim>\<open>write\<close>.\<close>

datatype write_op = WriteAll bytes | Flush

fun write_step :: "index_hashes \<Rightarrow> index_writer \<Rightarrow> write_op \<Rightarrow> index_writer \<times> unit res" where
  "write_step H w (WriteAll bs) =
     (if bs = [] then (w, Inr ())
      else if iw_failed w then (w, Inl (OtherError ''index writer previously failed''))
      else let (w, r) = write_bytes H w bs in (w\<lparr>iw_failed := \<not> is_ok r\<rparr>, r))"
| "write_step H w Flush =
     (if iw_failed w then (w, Inl (OtherError ''index writer previously failed''))
      else (flush_bytes w, Inr ()))"

fun write_ops :: "index_hashes \<Rightarrow> index_writer \<Rightarrow> write_op list \<Rightarrow> index_writer \<times> unit res list" where
  "write_ops H w [] = (w, [])"
| "write_ops H w (x # ops) =
     (let (w, r) = write_step H w x; (w, rs) = write_ops H w ops in (w, r # rs))"

definition index_header :: "index_hashes \<Rightarrow> nat \<Rightarrow> bytes \<Rightarrow> bytes" where
  "index_header H logical_len file_id =
     (let header = INDEX_MAGIC @ to_le_bytes INDEX_VERSION @ to_le_bytes (of_nat PAGE_BYTES :: u32)
            @ to_le_bytes (of_nat logical_len :: u64) @ file_id @ replicate 4 0
      in header @ to_le_bytes (ih_crc32 H header))"

text \<open>
  The producer is the sequence of its calls and what it makes of their results:
  it may pass an error on or swallow it.
\<close>

definition write_index_file :: "index_hashes \<Rightarrow> bytes \<Rightarrow> nat \<Rightarrow> write_op list \<Rightarrow> (unit res list \<Rightarrow> unit res) \<Rightarrow> bytes res" where
  "write_index_file H file_id logical_len ops outcome =
     bind_res (physical_len logical_len) (\<lambda>_.
     let w = \<lparr>iw_output = index_header H logical_len file_id, iw_logical_len = logical_len, iw_written = 0,
              iw_page = replicate PAGE_BYTES 0, iw_flushed = 0, iw_failed = False,
              iw_context = file_context logical_len file_id, iw_checksums = []\<rparr>;
         (w, rs) = write_ops H w ops
     in bind_res (outcome rs) (\<lambda>_.
        if iw_failed w then Inl (OtherError ''index writer previously failed'')
        else if iw_written w \<noteq> logical_len then Inl (InvalidData ''index writer produced an incomplete logical file'')
        else
          let w = (if logical_len mod PAGE_BYTES \<noteq> 0
                   then finish_buffered_page H (logical_len mod PAGE_BYTES) (logical_len div PAGE_BYTES) w else w)
          in Inr (iw_output w @ concat (iw_checksums w))))"

section \<open>The bytes a reader stands for\<close>

definition body_of :: "index_file \<Rightarrow> bytes" where
  "body_of s = (if ix_protected s then take (ix_logical_len s) (drop INDEX_HEADER_BYTES (ix_file s)) else ix_file s)"

definition page_of :: "index_file \<Rightarrow> nat \<Rightarrow> bytes" where
  "page_of s i = take PAGE_BYTES (drop (i * PAGE_BYTES) (body_of s))"

definition sum_of :: "index_file \<Rightarrow> nat \<Rightarrow> bytes" where
  "sum_of s i = take CHECKSUM_BYTES (drop (INDEX_HEADER_BYTES + ix_logical_len s + i * CHECKSUM_BYTES) (ix_file s))"

definition page_valid :: "index_hashes \<Rightarrow> index_file \<Rightarrow> nat \<Rightarrow> bool" where
  "page_valid H s i \<longleftrightarrow> (ix_protected s \<longrightarrow> page_fingerprint H (ix_logical_len s) (ix_context s) i (page_of s i) = sum_of s i)"

definition valid_range :: "index_hashes \<Rightarrow> index_file \<Rightarrow> nat \<Rightarrow> nat \<Rightarrow> bool" where
  "valid_range H s p n \<longleftrightarrow> (\<forall>j. p \<le> j \<and> j < p + n \<longrightarrow> page_valid H s (j div PAGE_BYTES))"

definition geometry :: "index_file \<Rightarrow> bool" where
  "geometry s \<longleftrightarrow>
     length (ix_file s) = (if ix_protected s
       then INDEX_HEADER_BYTES + ix_logical_len s + div_ceil (ix_logical_len s) PAGE_BYTES * CHECKSUM_BYTES
       else ix_logical_len s)"

definition sums_ok :: "index_file \<Rightarrow> bool" where
  "sums_ok s \<longleftrightarrow>
     (let all = div_ceil (ix_logical_len s) PAGE_BYTES * CHECKSUM_BYTES
      in length (ix_checksums s) = min all CHECKSUM_CACHE_BYTES
         \<and> (\<forall>t. ix_checksum_start s = Some t \<longrightarrow>
              (\<exists>len. len = min (all - t) CHECKSUM_CACHE_BYTES
                 \<and> take len (ix_checksums s) = take len (drop (INDEX_HEADER_BYTES + ix_logical_len s + t) (ix_file s)))))"

definition page_ok :: "index_hashes \<Rightarrow> index_file \<Rightarrow> bool" where
  "page_ok H s \<longleftrightarrow>
     length (ix_page s) = PAGE_BYTES
     \<and> (\<forall>i. ix_page_index s = Some i \<longrightarrow> i * PAGE_BYTES < ix_logical_len s \<and> page_valid H s i
          \<and> ix_page_len s = min (ix_logical_len s - i * PAGE_BYTES) PAGE_BYTES \<and> take (ix_page_len s) (ix_page s) = page_of s i)
     \<and> (ix_prefetched_page s \<longrightarrow> take (min (ix_logical_len s) PAGE_BYTES) (ix_page s) = page_of s 0)"

definition reader_ok :: "index_hashes \<Rightarrow> index_file \<Rightarrow> bool" where
  "reader_ok H s \<longleftrightarrow> geometry s \<and> (ix_protected s \<longrightarrow> sums_ok s \<and> page_ok H s)"

text \<open>What no operation changes.\<close>

definition same_file :: "index_file \<Rightarrow> index_file \<Rightarrow> bool" where
  "same_file s t \<longleftrightarrow> ix_file t = ix_file s \<and> ix_logical_len t = ix_logical_len s \<and> ix_protected t = ix_protected s
     \<and> ix_file_id t = ix_file_id s \<and> ix_context t = ix_context s"

lemmas layout_defs = INDEX_HEADER_BYTES_def PAGE_BYTES_def CHECKSUM_BYTES_def CHECKSUM_CACHE_BYTES_def

lemma same_file_refl [simp]: "same_file s s"
  by (simp add: same_file_def)

lemma same_file_trans: "same_file s t \<Longrightarrow> same_file t u \<Longrightarrow> same_file s u"
  by (simp add: same_file_def)

lemma same_file_views:
  assumes "same_file s t"
  shows "body_of t = body_of s" "page_of t = page_of s" "sum_of t = sum_of s" "page_valid H t = page_valid H s"
    "valid_range H t = valid_range H s" "geometry t = geometry s"
  using assms by (auto simp: same_file_def body_of_def page_of_def sum_of_def page_valid_def valid_range_def geometry_def fun_eq_iff)

lemma same_file_updates [simp]:
  "same_file s (s\<lparr>ix_position := p\<rparr>)" "same_file s (s\<lparr>ix_prefetched_page := b\<rparr>)" "same_file s (s\<lparr>ix_page := q\<rparr>)"
  "same_file s (s\<lparr>ix_page_index := q'\<rparr>)"
  "same_file s (s\<lparr>ix_checksums := a, ix_checksum_start := b', ix_checksum_len := c\<rparr>)"
  "same_file s (s\<lparr>ix_page := q, ix_page_index := q', ix_page_len := q'', ix_prefetched_page := b\<rparr>)"
  by (simp_all add: same_file_def)

lemma div_ceil_gr: "i < div_ceil n PAGE_BYTES \<longleftrightarrow> i * PAGE_BYTES < n"
proof -
  have "i < div_ceil n PAGE_BYTES \<longleftrightarrow> Suc i * 4096 \<le> n + 4095"
    unfolding div_ceil_def PAGE_BYTES_def by (simp add: Suc_le_eq[symmetric] less_eq_div_iff_mult_less_eq)
  then show ?thesis by (simp add: PAGE_BYTES_def) linarith
qed

lemma length_body: "geometry s \<Longrightarrow> length (body_of s) = ix_logical_len s"
  by (simp add: geometry_def body_of_def split: if_splits)

lemma page_of_file:
  assumes "ix_protected s"
  shows "page_of s i = take (min (ix_logical_len s - i * PAGE_BYTES) PAGE_BYTES) (drop (INDEX_HEADER_BYTES + i * PAGE_BYTES) (ix_file s))"
  using assms by (simp add: page_of_def body_of_def drop_take take_take min.commute add.commute)

lemma length_page_of: "geometry s \<Longrightarrow> length (page_of s i) = min (ix_logical_len s - i * PAGE_BYTES) PAGE_BYTES"
  by (simp add: page_of_def length_body)

section \<open>Caches\<close>

lemma take_drop_window: "a + b \<le> n \<Longrightarrow> take b (drop a (take n xs)) = take b (drop a xs)"
  by (simp add: drop_take min_def)

lemma page_checksum_correct:
  assumes "geometry s" and "ix_protected s" and "sums_ok s" and "i * PAGE_BYTES < ix_logical_len s"
  shows "\<exists>a b c. page_checksum s i = (s\<lparr>ix_checksums := a, ix_checksum_start := b, ix_checksum_len := c\<rparr>, Inr (sum_of s i))
    \<and> sums_ok (s\<lparr>ix_checksums := a, ix_checksum_start := b, ix_checksum_len := c\<rparr>)"
proof -
  define off where "off = i * CHECKSUM_BYTES"
  define start where "start = off div CHECKSUM_CACHE_BYTES * CHECKSUM_CACHE_BYTES"
  define all where "all = div_ceil (ix_logical_len s) PAGE_BYTES * CHECKSUM_BYTES"
  define len where "len = min (all - start) CHECKSUM_CACHE_BYTES"
  have i: "i < div_ceil (ix_logical_len s) PAGE_BYTES" using assms(4) by (simp add: div_ceil_gr)
  then have fit: "off + 8 \<le> all" by (simp add: off_def all_def CHECKSUM_BYTES_def)
  obtain q where q: "start = 8 * (2048 * q)" by (auto simp: start_def CHECKSUM_CACHE_BYTES_def intro: that[of "off div 16384"])
  have "start \<le> off" "off < start + 16384"
    using div_times_less_eq_dividend[of off 16384] dividend_less_div_times[of 16384 off] by (simp_all add: start_def CHECKSUM_CACHE_BYTES_def)
  then have "8 * (2048 * q) \<le> 8 * i" "8 * i < 8 * (2048 * q) + 8 * 2048" by (simp_all add: q off_def CHECKSUM_BYTES_def mult.commute)
  then have "2048 * q \<le> i" "i + 1 \<le> 2048 * q + 2048" by linarith+
  then have win: "off - start + 8 \<le> 16384" by (simp add: q off_def CHECKSUM_BYTES_def)
  have fits: "off - start + CHECKSUM_BYTES \<le> len" "start + len \<le> all" "start \<le> off"
    using fit win \<open>start \<le> off\<close> by (simp_all add: len_def CHECKSUM_BYTES_def CHECKSUM_CACHE_BYTES_def)
  have cks: "length (ix_checksums s) = min all CHECKSUM_CACHE_BYTES" using assms(3) by (simp add: sums_ok_def all_def Let_def)
  have len_le: "len \<le> length (ix_checksums s)" unfolding cks len_def by simp
  have flen: "length (ix_file s) = INDEX_HEADER_BYTES + ix_logical_len s + all" using assms(1,2) by (simp add: geometry_def all_def)
  let ?win = "take len (drop (INDEX_HEADER_BYTES + ix_logical_len s + start) (ix_file s))"
  have pick: "take CHECKSUM_BYTES (drop (off - start) ?win) = sum_of s i"
    using fits by (simp add: sum_of_def off_def drop_take take_take min_def add.commute add.left_commute)
  have read: "read_at (ix_file s) len (INDEX_HEADER_BYTES + ix_logical_len s + start) = Inr ?win"
    using fits flen by (simp add: read_at_def)
  have win: "length ?win = len" using fits flen by simp
  show ?thesis
  proof (cases "ix_checksum_start s = Some start")
    case True
    then have "take len (ix_checksums s) = ?win" using assms(3) by (auto simp: sums_ok_def Let_def all_def len_def)
    then have "take CHECKSUM_BYTES (drop (off - start) (ix_checksums s)) = sum_of s i"
      using pick fits(1) take_drop_window[of "off - start" CHECKSUM_BYTES len "ix_checksums s"] by (simp only:)
    then have "page_checksum s i = (s, Inr (sum_of s i))"
      using True fits(1) len_le by (simp add: page_checksum_def off_def[symmetric] start_def[symmetric] Let_def slice_def)
    moreover have "s\<lparr>ix_checksums := ix_checksums s, ix_checksum_start := ix_checksum_start s, ix_checksum_len := ix_checksum_len s\<rparr> = s" by simp
    ultimately show ?thesis using assms(3) by metis
  next
    case False
    let ?a = "overwrite (ix_checksums s) ?win"
    have "take CHECKSUM_BYTES (drop (off - start) ?a) = sum_of s i"
      using pick fits(1) win by (simp add: overwrite_def)
    then have "page_checksum s i = (s\<lparr>ix_checksums := ?a, ix_checksum_start := Some start, ix_checksum_len := len\<rparr>, Inr (sum_of s i))"
      using False fits(1) len_le read win
      by (simp add: page_checksum_def off_def[symmetric] start_def[symmetric] all_def[symmetric] len_def[symmetric] Let_def slice_def overwrite_def)
    moreover have "sums_ok (s\<lparr>ix_checksums := ?a, ix_checksum_start := Some start, ix_checksum_len := len\<rparr>)"
      using win cks len_le by (simp add: sums_ok_def all_def[symmetric] len_def[symmetric] Let_def overwrite_def)
    ultimately show ?thesis by blast
  qed
qed

definition mismatch :: error where
  "mismatch = InvalidData ''index page checksum mismatch; rebuild derived indexes''"

lemma verify_page_cases: "verify_page H L ctxt i page expected = (if page_fingerprint H L ctxt i page = expected then Inr () else Inl mismatch)"
  by (simp add: verify_page_def ensure_def mismatch_def)

lemma load_page_correct:
  assumes ok: "reader_ok H s" and prot: "ix_protected s" and i: "i * PAGE_BYTES < ix_logical_len s"
  shows "\<exists>s'. load_page H s i = (s', if page_valid H s i then Inr () else Inl mismatch) \<and> reader_ok H s' \<and> same_file s s'
    \<and> ix_position s' = ix_position s \<and> (page_valid H s i \<longrightarrow> ix_page_index s' = Some i)"
proof (cases "ix_page_index s = Some i")
  case True
  then have "page_valid H s i" using ok prot by (simp add: reader_ok_def page_ok_def)
  then show ?thesis using True ok by (simp add: load_page_def)
next
  case False
  define plen where "plen = min (ix_logical_len s - i * PAGE_BYTES) PAGE_BYTES"
  define s1 where "s1 = s\<lparr>ix_prefetched_page := False, ix_page_index := None, ix_page_len := plen\<rparr>"
  have geo: "geometry s" and pok: "page_ok H s" "sums_ok s" using ok prot by (simp_all add: reader_ok_def)
  have page: "page_of s i = take plen (drop (INDEX_HEADER_BYTES + i * PAGE_BYTES) (ix_file s))" "length (page_of s i) = plen"
    using page_of_file[OF prot, of i] length_page_of[OF geo, of i] by (simp_all add: plen_def)
  have read: "read_at (ix_file s) plen (INDEX_HEADER_BYTES + i * PAGE_BYTES) = Inr (page_of s i)"
    using geo prot i page(1) by (simp add: read_at_def geometry_def plen_def)
  obtain pg where pg: "(if ix_prefetched_page s \<and> i = 0 then Inr (ix_page s1)
      else bind_res (read_at (ix_file s1) (ix_page_len s1) (INDEX_HEADER_BYTES + i * PAGE_BYTES)) (\<lambda>bs. Inr (overwrite (ix_page s1) bs))) = Inr pg"
    "take plen pg = page_of s i" "length pg = PAGE_BYTES"
  proof (cases "ix_prefetched_page s \<and> i = 0")
    case True
    then show ?thesis using that[of "ix_page s"] pok(1) by (auto simp: s1_def page_ok_def plen_def)
  next
    case False
    have "plen \<le> PAGE_BYTES" by (simp add: plen_def)
    then show ?thesis using that[of "overwrite (ix_page s) (page_of s i)"] False read page(2) pok(1)
      by (simp add: s1_def overwrite_def page_ok_def)
  qed
  define s2 where "s2 = s1\<lparr>ix_page := pg\<rparr>"
  have same: "same_file s s2" by (simp add: same_file_def s2_def s1_def)
  have "sums_ok s2" using pok(2) by (simp add: sums_ok_def s2_def s1_def)
  then obtain a b c where sum: "page_checksum s2 i = (s2\<lparr>ix_checksums := a, ix_checksum_start := b, ix_checksum_len := c\<rparr>, Inr (sum_of s i))"
      "sums_ok (s2\<lparr>ix_checksums := a, ix_checksum_start := b, ix_checksum_len := c\<rparr>)"
    using page_checksum_correct[of s2 i] same_file_views[OF same] same geo prot i by (auto simp: same_file_def)
  define s3 where "s3 = s2\<lparr>ix_checksums := a, ix_checksum_start := b, ix_checksum_len := c\<rparr>"
  have same3: "same_file s s3" "ix_position s3 = ix_position s" by (simp_all add: same_file_def s3_def s2_def s1_def)
  have fp: "page_fingerprint H (ix_logical_len s3) (ix_context s3) i (take (ix_page_len s3) (ix_page s3)) = sum_of s i \<longleftrightarrow> page_valid H s i"
    using pg(2) prot by (simp add: s3_def s2_def s1_def page_valid_def)
  have load: "load_page H s i = (if page_valid H s i then (s3\<lparr>ix_page_index := Some i\<rparr>, Inr ()) else (s3, Inl mismatch))"
    unfolding load_page_def Let_def plen_def[symmetric] s1_def[symmetric] pg(1) sum.case s2_def[symmetric] sum(1) s3_def[symmetric]
      prod.case verify_page_cases fp
    using False by simp
  note views = same_file_views[OF same3(1)]
  have "reader_ok H s3" using geo sum(2) pg(3) views by (simp add: reader_ok_def page_ok_def s3_def[symmetric]) (simp add: s3_def s2_def s1_def)
  moreover have "reader_ok H (s3\<lparr>ix_page_index := Some i\<rparr>)" if "page_valid H s i"
  proof -
    let ?t = "s3\<lparr>ix_page_index := Some i\<rparr>"
    have st: "same_file s ?t" using same3 by (simp add: same_file_def)
    have "page_ok H ?t" using that i pg(2,3) same_file_views[OF st] by (simp add: page_ok_def s3_def s2_def s1_def plen_def)
    moreover have "sums_ok ?t" using sum(2) by (simp add: sums_ok_def s3_def)
    ultimately show ?thesis using geo same_file_views[OF st] by (simp add: reader_ok_def)
  qed
  ultimately show ?thesis using load same3 by (auto simp: same_file_def)
qed

section \<open>Reading\<close>

lemma reader_ok_position [simp]: "reader_ok H (s\<lparr>ix_position := p\<rparr>) = reader_ok H s"
proof -
  have same: "same_file s (s\<lparr>ix_position := p\<rparr>)" by simp
  show ?thesis by (simp add: reader_ok_def page_ok_def sums_ok_def same_file_views[OF same])
qed

lemma reader_ok_forget: "reader_ok H s \<Longrightarrow> reader_ok H (s\<lparr>ix_prefetched_page := False\<rparr>)"
proof -
  have same: "same_file s (s\<lparr>ix_prefetched_page := False\<rparr>)" by simp
  have "page_ok H s \<Longrightarrow> page_ok H (s\<lparr>ix_prefetched_page := False\<rparr>)"
    by (auto simp: page_ok_def same_file_views[OF same])
  then show "reader_ok H s \<Longrightarrow> reader_ok H (s\<lparr>ix_prefetched_page := False\<rparr>)"
    by (simp add: reader_ok_def sums_ok_def same_file_views[OF same])
qed

lemma valid_range_split: "valid_range H s p (a + b) \<longleftrightarrow> valid_range H s p a \<and> valid_range H s (p + a) b"
proof
  assume "valid_range H s p a \<and> valid_range H s (p + a) b"
  moreover have "j < p + a \<or> p + a \<le> j" for j by linarith
  ultimately show "valid_range H s p (a + b)" unfolding valid_range_def by (metis add.assoc)
qed (auto simp: valid_range_def)

lemma valid_range_0 [simp]: "valid_range H s p 0"
  by (auto simp: valid_range_def)

lemma valid_range_mono: "valid_range H s p n \<Longrightarrow> k \<le> n \<Longrightarrow> valid_range H s p k"
  by (auto simp: valid_range_def)

lemma position_page:
  shows "p div PAGE_BYTES * PAGE_BYTES \<le> p" and "p < p div PAGE_BYTES * PAGE_BYTES + PAGE_BYTES"
    and "p mod PAGE_BYTES < PAGE_BYTES" and "p div PAGE_BYTES * PAGE_BYTES + p mod PAGE_BYTES = p"
  using div_times_less_eq_dividend[of p PAGE_BYTES] dividend_less_div_times[of PAGE_BYTES p]
  by (simp_all add: PAGE_BYTES_def)

lemma div_page_eq: "j div PAGE_BYTES = i \<longleftrightarrow> i * PAGE_BYTES \<le> j \<and> j < i * PAGE_BYTES + PAGE_BYTES"
proof
  assume "i * PAGE_BYTES \<le> j \<and> j < i * PAGE_BYTES + PAGE_BYTES"
  then show "j div PAGE_BYTES = i" by (intro div_nat_eqI) (simp_all add: mult.commute)
qed (use position_page[of j] in auto)

lemma valid_in_page:
  assumes "0 < m" and "p mod PAGE_BYTES + m \<le> PAGE_BYTES"
  shows "valid_range H s p m \<longleftrightarrow> page_valid H s (p div PAGE_BYTES)"
proof -
  have "j div PAGE_BYTES = p div PAGE_BYTES" if "p \<le> j" "j < p + m" for j
    using that assms(2) position_page[of p] unfolding div_page_eq by linarith
  then show ?thesis unfolding valid_range_def using assms(1) by (metis le_refl less_add_same_cancel1)
qed

lemma page_window:
  assumes "geometry s" and "take plen page = page_of s (p div PAGE_BYTES)"
    and "p mod PAGE_BYTES + m \<le> plen" and "plen \<le> PAGE_BYTES"
  shows "take m (drop (p mod PAGE_BYTES) page) = take m (drop p (body_of s))"
proof -
  have "take m (drop (p mod PAGE_BYTES) page) = take m (drop (p mod PAGE_BYTES) (page_of s (p div PAGE_BYTES)))"
    using take_drop_window[OF assms(3), of page] assms(2) by simp
  also have "\<dots> = take m (drop (p mod PAGE_BYTES) (drop (p div PAGE_BYTES * PAGE_BYTES) (body_of s)))"
    unfolding page_of_def by (rule take_drop_window) (use assms in simp)
  also have "\<dots> = take m (drop p (body_of s))" by (simp add: position_page(4) add.commute)
  finally show ?thesis .
qed

lemma loaded_page:
  assumes "reader_ok H s" and "ix_protected s" and "ix_page_index s = Some i"
  shows "ix_page_len s = min (ix_logical_len s - i * PAGE_BYTES) PAGE_BYTES" and "take (ix_page_len s) (ix_page s) = page_of s i"
  using assms unfolding reader_ok_def page_ok_def by blast+

definition loop_spec :: "index_hashes \<Rightarrow> index_file \<Rightarrow> nat \<Rightarrow> bytes \<Rightarrow> index_file \<Rightarrow> bytes res \<Rightarrow> bool" where
  "loop_spec H s n copied s' r \<longleftrightarrow> reader_ok H s' \<and> same_file s s' \<and>
     ((\<exists>k \<le> n. valid_range H s (ix_position s) k \<and> r = Inr (copied @ take k (drop (ix_position s) (body_of s)))
         \<and> ix_position s' = ix_position s + k \<and> (k = 0 \<longrightarrow> n = 0 \<or> copied \<noteq> []))
      \<or> (r = Inl mismatch \<and> copied = [] \<and> ix_position s' = ix_position s \<and> \<not> valid_range H s (ix_position s) n))"

lemma loop_spec_step:
  assumes "loop_spec H s2 (n - m) (copied @ take m (drop (ix_position s) (body_of s))) s' r" and "same_file s s2"
    and "m \<le> n" and "length (take m (drop (ix_position s) (body_of s))) = m" and "0 < m" and "valid_range H s (ix_position s) m"
    and "ix_position s2 = ix_position s + m"
  shows "loop_spec H s n copied s' r"
proof -
  let ?p = "ix_position s"
  have "copied @ take m (drop ?p (body_of s)) \<noteq> []" using assms(4,5) by auto
  then obtain k where k: "k \<le> n - m" "valid_range H s (?p + m) k" "ix_position s' = ?p + m + k"
      "r = Inr ((copied @ take m (drop ?p (body_of s))) @ take k (drop (?p + m) (body_of s)))" "reader_ok H s'" "same_file s s'"
    using assms(1,7) same_file_views[OF assms(2)] same_file_trans[OF assms(2)] by (auto simp: loop_spec_def)
  have "take (m + k) (drop ?p (body_of s)) = take m (drop ?p (body_of s)) @ take k (drop (?p + m) (body_of s))"
    unfolding take_add drop_drop by (subst add.commute[of m ?p]) (rule refl)
  then show ?thesis using k assms(3,5,6) unfolding loop_spec_def
    by (intro conjI disjI1 exI[of _ "m + k"]) (simp_all add: valid_range_split)
qed

lemma read_loop_correct:
  assumes "reader_ok H s" and "ix_protected s" and "length copied + n = len" and "ix_position s + n \<le> ix_logical_len s"
  shows "\<exists>s' r. read_loop H s len copied = Some (s', r) \<and> loop_spec H s n copied s' r"
  using assms
proof (induction n arbitrary: s copied rule: less_induct)
  case (less n)
  let ?p = "ix_position s"
  show ?case
  proof (cases "n = 0")
    case True
    then show ?thesis using less.prems by (subst read_loop.simps) (simp add: loop_spec_def)
  next
    case False
    let ?i = "?p div PAGE_BYTES"
    have i: "?i * PAGE_BYTES < ix_logical_len s" using position_page(1)[of ?p] less.prems(4) False by linarith
    obtain s1 where s1: "load_page H s ?i = (s1, if page_valid H s ?i then Inr () else Inl mismatch)" "reader_ok H s1" "same_file s s1"
        "ix_position s1 = ?p" "page_valid H s ?i \<longrightarrow> ix_page_index s1 = Some ?i"
      using load_page_correct[OF less.prems(1,2) i] by blast
    show ?thesis
    proof (cases "page_valid H s ?i")
      case False
      have "\<not> valid_range H s ?p n" using False \<open>n \<noteq> 0\<close> by (auto simp: valid_range_def)
      moreover have "read_loop H s len copied = Some (s1, if copied = [] then Inl mismatch else Inr copied)"
        using s1(1) False less.prems(3) \<open>n \<noteq> 0\<close> by (subst read_loop.simps) (simp add: Let_def less.prems(3)[symmetric])
      moreover have "loop_spec H s n copied s1 (if copied = [] then Inl mismatch else Inr copied)"
      proof (cases "copied = []")
        case True
        then show ?thesis using s1(2-4) calculation(1) by (simp add: loop_spec_def)
      next
        case False
        then have "0 \<le> n \<and> valid_range H s ?p 0 \<and> Inr copied = (Inr (copied @ take 0 (drop ?p (body_of s))) :: bytes res)
            \<and> ix_position s1 = ?p + 0 \<and> ((0::nat) = 0 \<longrightarrow> n = 0 \<or> copied \<noteq> [])" using s1(4) by simp
        then show ?thesis using s1(2,3) False unfolding loop_spec_def by auto
      qed
      ultimately show ?thesis by blast
    next
      case True
      have prot: "ix_protected s1" "ix_logical_len s1 = ix_logical_len s" using s1(3) less.prems(2) by (simp_all add: same_file_def)
      define m where "m = min (ix_page_len s1 - ?p mod PAGE_BYTES) n"
      note loaded = loaded_page[OF s1(2) prot(1) s1(5)[rule_format, OF True]]
      have "?p mod PAGE_BYTES < ix_logical_len s - ?i * PAGE_BYTES" using position_page(4)[of ?p] less.prems(4) \<open>n \<noteq> 0\<close> by linarith
      then have plen: "?p mod PAGE_BYTES < ix_page_len s1" "ix_page_len s1 \<le> PAGE_BYTES"
        using loaded(1) prot(2) position_page(3)[of ?p] by simp_all
      have m: "0 < m" "m \<le> n" "?p mod PAGE_BYTES + m \<le> ix_page_len s1" using plen \<open>n \<noteq> 0\<close> by (auto simp: m_def)
      note views = same_file_views[OF s1(3)]
      have geo: "geometry s" using less.prems(1) by (simp add: reader_ok_def)
      have win: "take m (drop (?p mod PAGE_BYTES) (ix_page s1)) = take m (drop ?p (body_of s))"
        by (rule page_window[OF geo _ m(3) plen(2)]) (use loaded(2) views in simp)
      define s2 where "s2 = s1\<lparr>ix_position := ?p + m\<rparr>"
      let ?copied = "copied @ take m (drop ?p (body_of s))"
      have lenm: "length (take m (drop ?p (body_of s))) = m" using length_body[OF geo] less.prems(4) m(2) by simp
      have valid: "valid_range H s ?p m" using valid_in_page[OF m(1)] m(3) plen(2) True by simp
      have "read_loop H s len copied = read_loop H s2 len ?copied"
        using s1 True less.prems(3) \<open>n \<noteq> 0\<close> win
        by (subst read_loop.simps) (simp add: Let_def m_def[symmetric] s2_def less.prems(3)[symmetric])
      moreover have "same_file s s2" using s1(3) by (simp add: same_file_def s2_def)
      moreover have "\<exists>s' r. read_loop H s2 len ?copied = Some (s', r) \<and> loop_spec H s2 (n - m) ?copied s' r"
        by (rule less.IH) (use m lenm less.prems prot s1(2,4) in \<open>simp_all add: s2_def\<close>)
      ultimately show ?thesis using loop_spec_step[OF _ _ m(2) lenm m(1) valid] s1(4) by (auto simp: s2_def)
    qed
  qed
qed

subsection \<open>Runs of pages\<close>

lemma div_ceil_step:
  assumes "0 < b" and "0 < a"
  shows "div_ceil a b = Suc (div_ceil (a - b) b)"
proof -
  obtain c where c: "a = Suc c" using assms(2) by (cases a) auto
  have l: "div_ceil a b = Suc (c div b)" using assms(1) div_add_self2[of b c] by (simp add: div_ceil_def c)
  show ?thesis
  proof (cases "b \<le> c")
    case True
    then have "div_ceil (a - b) b = c div b" by (simp add: div_ceil_def c)
    then show ?thesis by (simp only: l)
  next
    case False
    then have "div_ceil (a - b) b = 0" "c div b = 0" using assms(1) by (simp_all add: div_ceil_def c)
    then show ?thesis by (simp only: l)
  qed
qed

lemma chunks_of_run:
  assumes "0 < n" and "i * n + c = length xs \<or> (n dvd c \<and> i * n + c \<le> length xs)"
  shows "chunks n (take c (drop (i * n) xs)) = map (\<lambda>k. take n (drop (k * n) xs)) [i..<i + div_ceil c n]"
  using assms(2)
proof (induction c arbitrary: i rule: less_induct)
  case (less c)
  show ?case
  proof (cases "c = 0")
    case True
    then show ?thesis using assms(1) by (simp add: chunks.simps div_ceil_def)
  next
    case False
    have len: "length (take c (drop (i * n) xs)) = c" using less.prems by auto
    then have ne: "take c (drop (i * n) xs) \<noteq> []" using False by auto
    have step: "chunks n (take c (drop (i * n) xs)) = take n (take c (drop (i * n) xs)) # chunks n (take (c - n) (drop (Suc i * n) xs))"
      using assms(1) ne by (subst chunks.simps) (simp add: drop_take add.commute)
    have head: "take n (take c (drop (i * n) xs)) = take n (drop (i * n) xs)"
    proof (cases "n \<le> c")
      case True
      then show ?thesis by (simp add: min_absorb1)
    next
      case False
      then have "i * n + c = length xs" using less.prems \<open>c \<noteq> 0\<close> by (auto dest: dvd_imp_le)
      then have "length (drop (i * n) xs) = c" by auto
      then show ?thesis using False by simp
    qed
    have rest: "chunks n (take (c - n) (drop (Suc i * n) xs)) = map (\<lambda>k. take n (drop (k * n) xs)) [Suc i..<Suc i + div_ceil (c - n) n]"
    proof (cases "n \<le> c")
      case True
      have "Suc i * n + (c - n) = length xs \<or> (n dvd c - n \<and> Suc i * n + (c - n) \<le> length xs)"
        using less.prems True by (auto intro: dvd_diff_nat)
      then show ?thesis using less.IH[of "c - n" "Suc i"] assms(1) False by simp
    next
      case False
      then show ?thesis using assms(1) by (simp add: chunks.simps div_ceil_def)
    qed
    have "[i..<i + div_ceil c n] = i # [Suc i..<Suc i + div_ceil (c - n) n]"
      using div_ceil_step[OF assms(1), of c] False by (simp add: upt_conv_Cons)
    then show ?thesis unfolding step head rest by simp
  qed
qed

lemma sums_ok_chain: "sums_ok (s\<lparr>ix_checksums := a, ix_checksum_start := b, ix_checksum_len := c\<rparr>) \<Longrightarrow>
    page_ok H s \<Longrightarrow> geometry s \<Longrightarrow> reader_ok H (s\<lparr>ix_checksums := a, ix_checksum_start := b, ix_checksum_len := c\<rparr>)"
proof -
  let ?t = "s\<lparr>ix_checksums := a, ix_checksum_start := b, ix_checksum_len := c\<rparr>"
  have same: "same_file s ?t" by simp
  assume "sums_ok ?t" and "page_ok H s" and "geometry s"
  then show "reader_ok H ?t" by (auto simp: reader_ok_def page_ok_def same_file_views[OF same])
qed

lemma verify_bulk_correct:
  assumes "reader_ok H s" and "ix_protected s" and "0 < m \<Longrightarrow> (i + m - 1) * PAGE_BYTES < ix_logical_len s"
  shows "\<exists>s'. verify_bulk H s i (map (page_of s) [i..<i + m]) = (s', if \<forall>k \<in> set [i..<i + m]. page_valid H s k then Inr () else Inl mismatch)
    \<and> reader_ok H s' \<and> same_file s s' \<and> ix_position s' = ix_position s"
  using assms
proof (induction m arbitrary: s i)
  case 0
  then show ?case by auto
next
  case (Suc m)
  have "i * PAGE_BYTES \<le> (i + m) * PAGE_BYTES" by simp
  moreover have "(i + m) * PAGE_BYTES < ix_logical_len s" using Suc.prems(3) by simp
  ultimately have i: "i * PAGE_BYTES < ix_logical_len s" by (rule le_less_trans)
  have ok: "geometry s" "sums_ok s" "page_ok H s" using Suc.prems(1,2) by (simp_all add: reader_ok_def)
  obtain a b c where sum: "page_checksum s i = (s\<lparr>ix_checksums := a, ix_checksum_start := b, ix_checksum_len := c\<rparr>, Inr (sum_of s i))"
      "sums_ok (s\<lparr>ix_checksums := a, ix_checksum_start := b, ix_checksum_len := c\<rparr>)"
    using page_checksum_correct[OF ok(1) Suc.prems(2) ok(2) i] by blast
  define t where "t = s\<lparr>ix_checksums := a, ix_checksum_start := b, ix_checksum_len := c\<rparr>"
  have t: "reader_ok H t" "same_file s t" "ix_position t = ix_position s" "ix_protected t"
    using sums_ok_chain[OF sum(2) ok(3,1)] Suc.prems(2) by (simp_all add: t_def)
  note views = same_file_views[OF t(2)]
  have pages: "[i..<i + Suc m] = i # [Suc i..<Suc i + m]" by (simp add: upt_conv_Cons)
  have split: "(\<forall>k \<in> set [i..<i + Suc m]. page_valid H s k) \<longleftrightarrow> page_valid H s i \<and> (\<forall>k \<in> set [Suc i..<Suc i + m]. page_valid H s k)"
    by (simp only: pages list.set ball_simps)
  have valid: "page_fingerprint H (ix_logical_len t) (ix_context t) i (page_of s i) = sum_of s i \<longleftrightarrow> page_valid H s i"
    using Suc.prems(2) by (simp add: page_valid_def t_def)
  have step: "verify_bulk H s i (map (page_of s) [i..<i + Suc m])
      = (if page_valid H s i then verify_bulk H t (Suc i) (map (page_of t) [Suc i..<Suc i + m]) else (t, Inl mismatch))"
    unfolding pages list.map verify_bulk.simps sum(1) t_def[symmetric] prod.case sum.case verify_page_cases valid views by simp
  show ?case
  proof (cases "page_valid H s i")
    case False
    then show ?thesis unfolding step split using t(1-3) by simp
  next
    case True
    have "0 < m \<Longrightarrow> (Suc i + m - 1) * PAGE_BYTES < ix_logical_len t" using Suc.prems(3) t(2) by (simp add: same_file_def)
    then obtain s' where "verify_bulk H t (Suc i) (map (page_of t) [Suc i..<Suc i + m])
        = (s', if \<forall>k \<in> set [Suc i..<Suc i + m]. page_valid H t k then Inr () else Inl mismatch)"
        "reader_ok H s'" "same_file t s'" "ix_position s' = ix_position t"
      using Suc.IH[OF t(1,4)] by blast
    then show ?thesis unfolding step split using True t(3) same_file_trans[OF t(2)] views(4) by auto
  qed
qed

definition read_spec :: "index_hashes \<Rightarrow> index_file \<Rightarrow> nat \<Rightarrow> index_file \<Rightarrow> bytes res \<Rightarrow> bool" where
  "read_spec H s n s' r \<longleftrightarrow> reader_ok H s' \<and> same_file s s' \<and>
     ((\<exists>k \<le> min n (ix_logical_len s - ix_position s). valid_range H s (ix_position s) k
         \<and> r = Inr (take k (drop (ix_position s) (body_of s)))
         \<and> ix_position s' = ix_position s + k \<and> (k = 0 \<longrightarrow> n = 0 \<or> ix_logical_len s \<le> ix_position s))
      \<or> (\<exists>e. r = Inl e \<and> \<not> valid_range H s (ix_position s) (min n (ix_logical_len s - ix_position s))))"

lemma read_specI:
  assumes "reader_ok H s'" and "same_file s s'" and "k \<le> min n (ix_logical_len s - ix_position s)" and "0 < k"
    and "valid_range H s (ix_position s) k" and "ix_position s' = ix_position s + k"
  shows "read_spec H s n s' (Inr (take k (drop (ix_position s) (body_of s))))"
  unfolding read_spec_def using assms by blast

lemma read_spec_failI:
  assumes "reader_ok H s'" and "same_file s s'" and "\<not> valid_range H s (ix_position s) k" and "k \<le> min n (ix_logical_len s - ix_position s)"
  shows "read_spec H s n s' (Inl e)"
  unfolding read_spec_def using assms valid_range_mono by blast

lemma read_cached:
  assumes "reader_ok H s" and "ix_protected s" and "0 < len" and "len = min (ix_logical_len s - ix_position s) n"
    and "len \<le> PAGE_BYTES - ix_position s mod PAGE_BYTES"
  shows "\<exists>s' r. (case load_page H s (ix_position s div PAGE_BYTES) of
       (t, Inl e) \<Rightarrow> (t, Inl e)
     | (t, Inr _) \<Rightarrow> (t\<lparr>ix_position := ix_position t + len\<rparr>, Inr (take len (drop (ix_position s mod PAGE_BYTES) (ix_page t))))) = (s', r)
     \<and> read_spec H s n s' r"
proof -
  let ?p = "ix_position s" and ?i = "ix_position s div PAGE_BYTES"
  have geo: "geometry s" using assms(1) by (simp add: reader_ok_def)
  have "?p < ix_logical_len s" using assms(3,4) by simp
  then have i: "?i * PAGE_BYTES < ix_logical_len s" using position_page(1)[of ?p] by linarith
  have range: "valid_range H s ?p len \<longleftrightarrow> page_valid H s ?i" by (rule valid_in_page) (use assms(3,5) position_page(3)[of ?p] in simp_all)
  obtain s1 where s1: "load_page H s ?i = (s1, if page_valid H s ?i then Inr () else Inl mismatch)" "reader_ok H s1" "same_file s s1"
      "ix_position s1 = ?p" "page_valid H s ?i \<longrightarrow> ix_page_index s1 = Some ?i"
    using load_page_correct[OF assms(1,2) i] by blast
  show ?thesis
  proof (cases "page_valid H s ?i")
    case True
    have prot: "ix_protected s1" "ix_logical_len s1 = ix_logical_len s" using s1(3) assms(2) by (simp_all add: same_file_def)
    note loaded = loaded_page[OF s1(2) prot(1) s1(5)[rule_format, OF True]]
    have "len \<le> ix_logical_len s - ?p" using assms(4) by simp
    then have "?p mod PAGE_BYTES + len \<le> ix_logical_len s - ?i * PAGE_BYTES"
      using position_page(4)[of ?p] \<open>?p < ix_logical_len s\<close> by linarith
    moreover have "?p mod PAGE_BYTES + len \<le> PAGE_BYTES" using assms(3,5) by simp
    ultimately have "?p mod PAGE_BYTES + len \<le> ix_page_len s1" unfolding loaded(1) prot(2) by simp
    moreover have "ix_page_len s1 \<le> PAGE_BYTES" unfolding loaded(1) by simp
    ultimately have "take len (drop (?p mod PAGE_BYTES) (ix_page s1)) = take len (drop ?p (body_of s))"
      using page_window[OF geo] loaded(2) same_file_views(2)[OF s1(3)] by metis
    moreover have "read_spec H s n (s1\<lparr>ix_position := ?p + len\<rparr>) (Inr (take len (drop ?p (body_of s))))"
      by (rule read_specI) (use s1(2-4) assms(3,4) range True in \<open>simp_all add: same_file_def\<close>)
    ultimately show ?thesis using s1(1,4) True by simp
  next
    case False
    then have "read_spec H s n s1 (Inl mismatch)"
      by (intro read_spec_failI[OF s1(2,3), of len]) (use range assms(4) in auto)
    then show ?thesis using s1(1) False by simp
  qed
qed

lemma pages_of_range:
  assumes "p mod PAGE_BYTES = 0" and "0 < c"
  shows "valid_range H s p c \<longleftrightarrow> (\<forall>k \<in> set [p div PAGE_BYTES..<p div PAGE_BYTES + div_ceil c PAGE_BYTES]. page_valid H s k)"
proof -
  let ?i = "p div PAGE_BYTES"
  have p: "p = ?i * PAGE_BYTES" using position_page(4)[of p] assms(1) by simp
  have *: "?i \<le> k \<and> k < ?i + div_ceil c PAGE_BYTES \<longleftrightarrow> (\<exists>j. p \<le> j \<and> j < p + c \<and> j div PAGE_BYTES = k)" for k
  proof
    assume k: "?i \<le> k \<and> k < ?i + div_ceil c PAGE_BYTES"
    then have "(k - ?i) * PAGE_BYTES < c" using div_ceil_gr[of "k - ?i" c] by linarith
    moreover have "k * PAGE_BYTES = p + (k - ?i) * PAGE_BYTES" using k p by (metis add_mult_distrib le_add_diff_inverse)
    ultimately have "p \<le> k * PAGE_BYTES" "k * PAGE_BYTES < p + c" by linarith+
    moreover have "k * PAGE_BYTES div PAGE_BYTES = k" by (simp add: PAGE_BYTES_def)
    ultimately show "\<exists>j. p \<le> j \<and> j < p + c \<and> j div PAGE_BYTES = k" by blast
  next
    assume "\<exists>j. p \<le> j \<and> j < p + c \<and> j div PAGE_BYTES = k"
    then obtain j where j: "p \<le> j" "j < p + c" "j div PAGE_BYTES = k" by blast
    then have ik: "?i \<le> k" using div_le_mono by blast
    have "k * PAGE_BYTES \<le> j" using position_page(1)[of j] j(3) by simp
    then have "k * PAGE_BYTES < ?i * PAGE_BYTES + c" using j(2) p by linarith
    then have "(k - ?i) * PAGE_BYTES < c" unfolding diff_mult_distrib using assms(2) by linarith
    then show "?i \<le> k \<and> k < ?i + div_ceil c PAGE_BYTES" using div_ceil_gr[of "k - ?i" c] ik by linarith
  qed
  show ?thesis unfolding valid_range_def set_upt atLeastLessThan_iff Ball_def * by blast
qed

lemma read_bulk:
  assumes "reader_ok H s" and "ix_protected s" and "len = min (ix_logical_len s - ix_position s) n"
    and "PAGE_BYTES \<le> len" and "ix_position s mod PAGE_BYTES = 0"
    and "cnt = (if ix_position s + len = ix_logical_len s then len else len div PAGE_BYTES * PAGE_BYTES)"
    and "t = s\<lparr>ix_prefetched_page := False\<rparr>"
  shows "\<exists>s' r. (case read_at (ix_file t) cnt (INDEX_HEADER_BYTES + ix_position t) of
       Inl e \<Rightarrow> (t, Inl e)
     | Inr bs \<Rightarrow> (case verify_bulk H t (ix_position t div PAGE_BYTES) (chunks PAGE_BYTES bs) of
          (t, Inl e) \<Rightarrow> (t, Inl e)
        | (t, Inr _) \<Rightarrow> (t\<lparr>ix_position := ix_position t + cnt\<rparr>, Inr bs))) = (s', r) \<and> read_spec H s n s' r"
proof -
  let ?p = "ix_position s" and ?i = "ix_position s div PAGE_BYTES" and ?m = "div_ceil cnt PAGE_BYTES"
  have geo: "geometry s" using assms(1) by (simp add: reader_ok_def)
  have t: "reader_ok H t" "same_file s t" "ix_position t = ?p" "ix_protected t" using reader_ok_forget[OF assms(1)] assms(2,7) by simp_all
  note views = same_file_views[OF t(2)]
  have p: "?p = ?i * PAGE_BYTES" using position_page(4)[of ?p] assms(5) by simp
  have le: "cnt \<le> len" unfolding assms(6) by (simp add: PAGE_BYTES_def)
  have "len div PAGE_BYTES \<noteq> 0" using assms(4) by (simp add: PAGE_BYTES_def div_eq_0_iff)
  then have pos: "0 < cnt" using assms(4) unfolding assms(6) by (simp add: PAGE_BYTES_def)
  have "len \<le> ix_logical_len s - ?p" using assms(3) by simp
  then have fit: "?p + cnt \<le> ix_logical_len s" using le pos by linarith
  have read: "read_at (ix_file t) cnt (INDEX_HEADER_BYTES + ?p) = Inr (take cnt (drop ?p (body_of s)))"
    using fit geo assms(2) t(2) by (simp add: read_at_def geometry_def same_file_def body_of_def drop_take min_def add.commute)
  have "?i * PAGE_BYTES + cnt = length (body_of s) \<or> PAGE_BYTES dvd cnt \<and> ?i * PAGE_BYTES + cnt \<le> length (body_of s)"
    using length_body[OF geo] p fit unfolding assms(6) by (auto split: if_splits)
  then have chunks: "chunks PAGE_BYTES (take cnt (drop ?p (body_of s))) = map (page_of s) [?i..<?i + ?m]"
    using chunks_of_run[of PAGE_BYTES ?i cnt "body_of s"] p by (simp add: PAGE_BYTES_def page_of_def[abs_def])
  have "(?i + ?m - 1) * PAGE_BYTES < ix_logical_len t" if "0 < ?m"
  proof -
    have "(?m - 1) * PAGE_BYTES < cnt" using div_ceil_gr[of "?m - 1" cnt] that by simp
    moreover have "(?i + ?m - 1) * PAGE_BYTES = ?p + (?m - 1) * PAGE_BYTES" using p that by (metis Nat.add_diff_assoc Suc_leI add_mult_distrib One_nat_def)
    ultimately show ?thesis using fit t(2) by (simp add: same_file_def)
  qed
  from verify_bulk_correct[OF t(1,4) this]
  obtain u where u: "verify_bulk H t ?i (map (page_of s) [?i..<?i + ?m]) = (u, if valid_range H s ?p cnt then Inr () else Inl mismatch)"
      "reader_ok H u" "same_file t u" "ix_position u = ?p"
    unfolding t(3) views pages_of_range[OF assms(5) pos] by blast
  have su: "same_file s u" by (rule same_file_trans[OF t(2) u(3)])
  show ?thesis
  proof (cases "valid_range H s ?p cnt")
    case True
    have "read_spec H s n (u\<lparr>ix_position := ?p + cnt\<rparr>) (Inr (take cnt (drop ?p (body_of s))))"
      by (rule read_specI) (use u(2) su le pos True assms(3) in \<open>simp_all add: same_file_def\<close>)
    then show ?thesis using True u(1,4) read chunks t(3) by simp
  next
    case False
    then have "read_spec H s n u (Inl mismatch)" by (intro read_spec_failI[OF u(2) su, of cnt]) (use le assms(3) in auto)
    then show ?thesis using False u(1) read chunks t(3) by simp
  qed
qed

lemma index_read_correct:
  assumes "reader_ok H s"
  shows "\<exists>s' r. index_read H s n = Some (s', r) \<and> read_spec H s n s' r"
proof -
  let ?p = "ix_position s"
  define len where "len = min (ix_logical_len s - ?p) n"
  have geo: "geometry s" using assms by (simp add: reader_ok_def)
  consider (empty) "len = 0" | (raw) "len \<noteq> 0" "\<not> ix_protected s"
    | (cached) "len \<noteq> 0" "ix_protected s" "(ix_page_index s = Some (?p div PAGE_BYTES) \<or> ix_prefetched_page s \<and> ?p div PAGE_BYTES = 0) \<and> len \<le> PAGE_BYTES - ?p mod PAGE_BYTES"
    | (bulk) "len \<noteq> 0" "ix_protected s" "\<not> ((ix_page_index s = Some (?p div PAGE_BYTES) \<or> ix_prefetched_page s \<and> ?p div PAGE_BYTES = 0) \<and> len \<le> PAGE_BYTES - ?p mod PAGE_BYTES)"
        "PAGE_BYTES \<le> len \<and> ?p mod PAGE_BYTES = 0"
    | (loop) "len \<noteq> 0" "ix_protected s" "\<not> ((ix_page_index s = Some (?p div PAGE_BYTES) \<or> ix_prefetched_page s \<and> ?p div PAGE_BYTES = 0) \<and> len \<le> PAGE_BYTES - ?p mod PAGE_BYTES)"
        "\<not> (PAGE_BYTES \<le> len \<and> ?p mod PAGE_BYTES = 0)"
    by blast
  then show ?thesis
  proof cases
    case empty
    then have "read_spec H s n s (Inr [])" using assms unfolding read_spec_def len_def by (auto intro!: exI[of _ 0])
    then show ?thesis using empty by (simp add: index_read_def len_def[symmetric])
  next
    case raw
    have "valid_range H s ?p len" using raw by (simp add: valid_range_def page_valid_def)
    then have "read_spec H s n (s\<lparr>ix_position := ?p + len\<rparr>) (Inr (take len (drop ?p (body_of s))))"
      by (intro read_specI) (use raw assms in \<open>simp_all add: len_def\<close>)
    moreover have "len \<le> ix_logical_len s - ?p" by (simp add: len_def)
    then have "?p + len \<le> ix_logical_len s" using raw(1) by linarith
    then have "read_at (ix_file s) len ?p = Inr (take len (drop ?p (body_of s)))"
      using raw(2) geo by (simp add: read_at_def geometry_def body_of_def)
    ultimately show ?thesis using raw by (simp add: index_read_def len_def[symmetric])
  next
    case cached
    then show ?thesis using read_cached[OF assms cached(2) _ len_def, of]
      by (simp add: index_read_def len_def[symmetric] Let_def)
  next
    case bulk
    have "\<not> \<not> ix_protected s" using bulk(2) by simp
    from read_bulk[OF assms bulk(2) len_def conjunct1[OF bulk(4)] conjunct2[OF bulk(4)] refl refl] show ?thesis
      unfolding index_read_def Let_def len_def[symmetric] if_not_P[OF bulk(1)] if_not_P[OF \<open>\<not> \<not> ix_protected s\<close>]
        if_not_P[OF bulk(3)] if_P[OF bulk(4)] option.inject .
  next
    case loop
    define want where "want = (if PAGE_BYTES \<le> len then min len (PAGE_BYTES - ?p mod PAGE_BYTES) else len)"
    have want: "0 < want" "want \<le> len" using loop(1) position_page(3)[of ?p] by (auto simp: want_def)
    have "len \<le> ix_logical_len s - ?p" by (simp add: len_def)
    then have "?p + want \<le> ix_logical_len s" using want by linarith
    then obtain s' r where r: "read_loop H s want [] = Some (s', r)" "loop_spec H s want [] s' r"
      using read_loop_correct[OF assms loop(2), of "[]" want want] by auto
    have "\<not> \<not> ix_protected s" using loop(2) by simp
    then have "index_read H s n = Some (s', r)"
      unfolding index_read_def Let_def len_def[symmetric] want_def[symmetric] if_not_P[OF loop(1)] if_not_P[OF loop(3)]
        if_not_P[OF loop(4)] r(1) by (rule if_not_P)
    moreover have "read_spec H s n s' r"
      using r(2) want valid_range_mono[of H s ?p "min n (ix_logical_len s - ?p)" want]
      unfolding loop_spec_def read_spec_def len_def by (auto simp: min.commute)
    ultimately show ?thesis by blast
  qed
qed

lemma index_read_exact_correct:
  assumes "reader_ok H s"
  shows "\<exists>s' r. index_read_exact H s n filled = Some (s', r) \<and> reader_ok H s' \<and> same_file s s'
    \<and> (if ix_position s + n \<le> ix_logical_len s \<and> valid_range H s (ix_position s) n \<or> n = 0
       then r = Inr (filled @ take n (drop (ix_position s) (body_of s))) \<and> ix_position s' = ix_position s + n
       else \<exists>e. r = Inl e)"
  using assms
proof (induction n arbitrary: s filled rule: less_induct)
  case (less n)
  let ?p = "ix_position s"
  show ?case
  proof (cases "n = 0")
    case True
    then show ?thesis using less.prems by (subst index_read_exact.simps) simp
  next
    case False
    obtain t r where t: "index_read H s n = Some (t, r)" "read_spec H s n t r" using index_read_correct[OF less.prems] by blast
    have ok: "reader_ok H t" "same_file s t" using t(2) by (simp_all add: read_spec_def)
    note views = same_file_views[OF ok(2)]
    from t(2) consider (bad) e where "r = Inl e" "\<not> valid_range H s ?p (min n (ix_logical_len s - ?p))"
      | (good) k where "k \<le> min n (ix_logical_len s - ?p)" "valid_range H s ?p k" "r = Inr (take k (drop ?p (body_of s)))"
          "ix_position t = ?p + k" "k = 0 \<longrightarrow> n = 0 \<or> ix_logical_len s \<le> ?p"
      unfolding read_spec_def by blast
    then show ?thesis
    proof cases
      case bad
      have "\<not> valid_range H s ?p n" using bad(2) valid_range_mono[of H s ?p n] by (meson min.cobounded1)
      then show ?thesis using bad(1) t(1) ok False by (subst index_read_exact.simps) simp
    next
      case good
      have len: "length (take k (drop ?p (body_of s))) = k"
        using good(1) length_body less.prems by (simp add: reader_ok_def)
      show ?thesis
      proof (cases "k = 0")
        case True
        then have "ix_logical_len s \<le> ?p" using good(5) False by simp
        then show ?thesis using True good(3) t(1) ok False by (subst index_read_exact.simps) simp
      next
        case pos: False
        have step: "index_read_exact H s n filled = index_read_exact H t (n - k) (filled @ take k (drop ?p (body_of s)))"
        proof -
          have "take k (drop ?p (body_of s)) \<noteq> []" using len pos by auto
          then show ?thesis using good(3) t(1) False len by (subst index_read_exact.simps) simp
        qed
        have "n - k < n" using pos False by simp
        from less.IH[OF this ok(1), of "filled @ take k (drop ?p (body_of s))"]
        obtain u q where u: "index_read_exact H t (n - k) (filled @ take k (drop ?p (body_of s))) = Some (u, q)" "reader_ok H u" "same_file t u"
            "if ix_position t + (n - k) \<le> ix_logical_len t \<and> valid_range H t (ix_position t) (n - k) \<or> n - k = 0
             then q = Inr ((filled @ take k (drop ?p (body_of s))) @ take (n - k) (drop (ix_position t) (body_of t))) \<and> ix_position u = ix_position t + (n - k)
             else \<exists>e. q = Inl e"
          by blast
        have k: "k \<le> n" "?p + k \<le> ix_logical_len s" using good(1) pos by linarith+
        have cond: "(ix_position t + (n - k) \<le> ix_logical_len t \<and> valid_range H t (ix_position t) (n - k) \<or> n - k = 0)
            \<longleftrightarrow> (?p + n \<le> ix_logical_len s \<and> valid_range H s ?p n)"
          using k good(2,4) views(5) ok(2) valid_range_split[of H s ?p k "n - k"] by (auto simp: same_file_def)
        have join: "take k (drop ?p (body_of s)) @ take (n - k) (drop (?p + k) (body_of s)) = take n (drop ?p (body_of s))"
          using take_add[of k "n - k" "drop ?p (body_of s)"] k(1) by (simp add: add.commute)
        have "if ?p + n \<le> ix_logical_len s \<and> valid_range H s ?p n
            then q = Inr (filled @ take n (drop ?p (body_of s))) \<and> ix_position u = ?p + n else \<exists>e. q = Inl e"
          using u(4)[unfolded cond, unfolded good(4) views(1)] join k(1) by (auto split: if_splits)
        then show ?thesis unfolding step using u(1,2) same_file_trans[OF ok(2) u(3)] False by auto
      qed
    qed
  qed
qed

section \<open>Opening\<close>

lemma parse_header_prefix: "parse_header H (take 48 f) n = parse_header H f n"
proof -
  have win: "take a (drop b (take 48 f)) = take a (drop b f)" if "b + a \<le> 48" for a b by (rule take_drop_window[OF that])
  have w: "take 4 (drop 44 (take 48 f)) = take 4 (drop 44 f)" "take 4 (drop 8 (take 48 f)) = take 4 (drop 8 f)"
    "take 4 (drop 12 (take 48 f)) = take 4 (drop 12 f)" "take 4 (drop 40 (take 48 f)) = take 4 (drop 40 f)"
    "take 8 (drop 16 (take 48 f)) = take 8 (drop 16 f)" "take 16 (drop 24 (take 48 f)) = take 16 (drop 24 f)"
    by (rule win, simp)+
  have t: "take 8 (take 48 f) = take 8 f" "take 44 (take 48 f) = take 44 f"
    "8 \<le> length (take 48 f) \<longleftrightarrow> 8 \<le> length f" "length (take 48 f) < 48 \<longleftrightarrow> length f < 48" by auto
  show ?thesis unfolding parse_header_def INDEX_HEADER_BYTES_def by (simp only: w t)
qed

lemma usize_checked_Some:
  "usize_checked_mul a b = Some c \<longleftrightarrow> c = a * b \<and> a * b < usize_limit" "usize_checked_add a b = Some c \<longleftrightarrow> c = a + b \<and> a + b < usize_limit"
  by (auto simp: usize_checked_mul_def usize_checked_add_def)

lemma physical_len_Inr_iff:
  "physical_len L = Inr n \<longleftrightarrow> n = div_ceil L PAGE_BYTES * CHECKSUM_BYTES + L + INDEX_HEADER_BYTES \<and> n < usize_limit"
  by (auto simp: physical_len_def ok_or_def usize_checked_Some bind_eq_Some_conv split: option.splits)
     (auto simp: usize_checked_mul_def usize_checked_add_def split: if_splits)

lemma parse_header_Some:
  assumes "parse_header H f (length f) = Inr (Some (L, fid))"
  shows "length f = INDEX_HEADER_BYTES + L + div_ceil L PAGE_BYTES * CHECKSUM_BYTES" and "fid = take 16 (drop 24 f)"
    and "L = unat (from_le_bytes (take 8 (drop 16 f)) :: u64)" and "length f < usize_limit"
  using assms by (auto simp: parse_header_def Let_def bind_res_Inr_iff physical_len_Inr_iff split: if_splits)

lemma take_overwrite [simp]: "take (length bs) (overwrite buf bs) = bs"
  by (simp add: overwrite_def)

lemma overwrite_window: "a + b \<le> length bs \<Longrightarrow> take b (drop a (overwrite buf bs)) = take b (drop a bs)"
  by (simp add: overwrite_def)

lemma length_overwrite [simp]: "length (overwrite buf bs) = max (length bs) (length buf)"
  by (simp add: overwrite_def)

lemma opened_ok:
  assumes "ix_file t = f" and "ix_logical_len t = L" and "ix_protected t"
    and "length f = INDEX_HEADER_BYTES + L + div_ceil L PAGE_BYTES * CHECKSUM_BYTES" and "m = min L PAGE_BYTES"
    and "ix_page t = overwrite (replicate PAGE_BYTES 0) (take m (drop INDEX_HEADER_BYTES f))" and "ix_page_index t = None" and "sums_ok t"
  shows "reader_ok H t"
proof -
  have "page_of t 0 = take m (drop INDEX_HEADER_BYTES f)" using assms by (simp add: page_of_def body_of_def min.commute)
  moreover have len: "length (take m (drop INDEX_HEADER_BYTES f)) = m" using assms(4,5) by simp
  ultimately have "take m (ix_page t) = page_of t 0" using assms(6) take_overwrite[of "take m (drop INDEX_HEADER_BYTES f)"] by simp
  moreover have "length (ix_page t) = PAGE_BYTES" unfolding assms(6) length_overwrite len length_replicate assms(5) by simp
  ultimately show ?thesis using assms by (simp add: reader_ok_def geometry_def page_ok_def)
qed

lemma index_open_correct:
  assumes "index_open H f = Inr s"
  shows "reader_ok H s" and "ix_file s = f" and "ix_position s = 0"
    and "parse_header H f (length f) = Inr (if ix_protected s then Some (ix_logical_len s, the (ix_file_id s)) else None)"
    and "ix_file_id s \<noteq> None \<longleftrightarrow> ix_protected s"
    and "ix_protected s \<Longrightarrow> ix_context s = file_context (ix_logical_len s) (the (ix_file_id s))"
proof -
  let ?cap = "INDEX_HEADER_BYTES + PAGE_BYTES + CHECKSUM_BYTES"
  define plen where "plen = min (length f) ?cap"
  define prefetch where "prefetch = overwrite (replicate ?cap 0) (take plen f)"
  have read: "read_at f plen 0 = Inr (take plen f)" by (simp add: read_at_def plen_def)
  have lp: "length (take plen f) = plen" by (simp add: plen_def)
  have "take (min plen INDEX_HEADER_BYTES) prefetch = take (min plen INDEX_HEADER_BYTES) (take plen f)"
    using overwrite_window[of 0 "min plen INDEX_HEADER_BYTES" "take plen f"] lp by (simp add: prefetch_def)
  also have "\<dots> = take 48 f" by (simp add: plen_def layout_defs min_def)
  finally have header: "parse_header H (take (min plen INDEX_HEADER_BYTES) prefetch) (length f) = parse_header H f (length f)"
    by (simp add: parse_header_prefix)
  obtain parsed where parsed: "parse_header H f (length f) = Inr parsed"
    using assms unfolding index_open_def Let_def plen_def[symmetric] read bind_res_simps prefetch_def[symmetric] header
    by (auto simp: bind_res_Inr_iff)
  note opened = assms[unfolded index_open_def Let_def plen_def[symmetric] read bind_res_simps prefetch_def[symmetric] header parsed]
  have "reader_ok H s \<and> ix_file s = f \<and> ix_position s = 0 \<and> (ix_file_id s \<noteq> None \<longleftrightarrow> ix_protected s)
      \<and> parsed = (if ix_protected s then Some (ix_logical_len s, the (ix_file_id s)) else None)
      \<and> (ix_protected s \<longrightarrow> ix_context s = file_context (ix_logical_len s) (the (ix_file_id s)))"
  proof (cases parsed)
    case None
    then show ?thesis using opened by (auto simp: reader_ok_def geometry_def)
  next
    case (Some p)
    obtain L fid where p: "p = (L, fid)" by fastforce
    have geo: "length f = INDEX_HEADER_BYTES + L + div_ceil L PAGE_BYTES * CHECKSUM_BYTES"
      by (rule parse_header_Some(1)) (use parsed Some p in simp)
    show ?thesis
    proof (cases "L = 0")
      case True
      then show ?thesis using opened Some p geo
        by (auto simp: reader_ok_def geometry_def sums_ok_def page_ok_def Let_def div_ceil_def PAGE_BYTES_def)
    next
      case False
      define m where "m = min L PAGE_BYTES"
      have "m \<le> L" "m \<le> PAGE_BYTES" by (simp_all add: m_def)
      then have "INDEX_HEADER_BYTES + m \<le> plen" using geo by (simp add: plen_def)
      then have page: "take m (drop INDEX_HEADER_BYTES prefetch) = take m (drop INDEX_HEADER_BYTES f)"
        using overwrite_window[of INDEX_HEADER_BYTES m "take plen f"] take_drop_window[of INDEX_HEADER_BYTES m plen f] lp
        by (simp add: prefetch_def)
      have foot: "take (plen - (INDEX_HEADER_BYTES + L)) (drop (INDEX_HEADER_BYTES + L) prefetch) = drop (INDEX_HEADER_BYTES + L) f"
        if "length f = plen"
        using overwrite_window[of "INDEX_HEADER_BYTES + L" "plen - (INDEX_HEADER_BYTES + L)" f] geo that by (simp add: prefetch_def)
      have s: "ix_file s = f \<and> ix_logical_len s = L \<and> ix_protected s \<and> ix_file_id s = Some fid \<and> ix_context s = file_context L fid
          \<and> ix_position s = 0 \<and> ix_page_index s = None \<and> ix_page s = overwrite (replicate PAGE_BYTES 0) (take m (drop INDEX_HEADER_BYTES f))"
        using opened Some p False page by (auto simp: m_def[symmetric] split: if_splits)
      have "sums_ok s"
      proof (cases "length f = plen")
        case True
        have all: "div_ceil L PAGE_BYTES * CHECKSUM_BYTES = length f - (INDEX_HEADER_BYTES + L)" using geo by simp
        have "div_ceil L PAGE_BYTES * CHECKSUM_BYTES \<le> CHECKSUM_CACHE_BYTES"
          unfolding all True by (simp add: plen_def layout_defs)
        then show ?thesis using opened Some p False True foot[OF True] all
          by (auto simp: sums_ok_def m_def[symmetric] overwrite_def Let_def)
      next
        case False
        then show ?thesis using opened Some p \<open>L \<noteq> 0\<close> by (auto simp: sums_ok_def m_def[symmetric] Let_def)
      qed
      then have "reader_ok H s" using opened_ok[of s f L m H] s geo m_def by simp
      then show ?thesis using s Some p by simp
    qed
  qed
  then show "reader_ok H s" "ix_file s = f" "ix_position s = 0"
    "parse_header H f (length f) = Inr (if ix_protected s then Some (ix_logical_len s, the (ix_file_id s)) else None)"
    "ix_file_id s \<noteq> None \<longleftrightarrow> ix_protected s"
    "ix_protected s \<Longrightarrow> ix_context s = file_context (ix_logical_len s) (the (ix_file_id s))"
    using parsed by auto
qed

section \<open>Whole files\<close>

lemma verify_pages_correct:
  assumes "\<forall>k < i + m. k * CHECKSUM_BYTES + CHECKSUM_BYTES \<le> length cks"
  shows "verify_pages H L ctxt cks i (map pg [i..<i + m])
    = (if \<forall>k \<in> set [i..<i + m]. page_fingerprint H L ctxt k (pg k) = take CHECKSUM_BYTES (drop (k * CHECKSUM_BYTES) cks) then Inr () else Inl mismatch)"
  using assms
proof (induction m arbitrary: i)
  case (Suc m)
  have pages: "[i..<i + Suc m] = i # [Suc i..<Suc i + m]" by (simp add: upt_conv_Cons)
  have "slice cks (i * CHECKSUM_BYTES) (i * CHECKSUM_BYTES + CHECKSUM_BYTES) = Inr (take CHECKSUM_BYTES (drop (i * CHECKSUM_BYTES) cks))"
    using Suc.prems by (simp add: slice_def)
  then show ?case using Suc.IH[of "Suc i"] Suc.prems
    unfolding pages list.map verify_pages.simps Let_def by (auto simp: verify_page_cases)
qed simp

lemma body_pages: "geometry s \<Longrightarrow> chunks PAGE_BYTES (body_of s) = map (page_of s) [0..<div_ceil (ix_logical_len s) PAGE_BYTES]"
  using chunks_of_run[of PAGE_BYTES 0 "ix_logical_len s" "body_of s"] length_body[of s] by (simp add: PAGE_BYTES_def page_of_def[abs_def])

lemma verify_body_correct:
  assumes "geometry s" and "ix_protected s"
  shows "verify_body H (body_of s) (drop (INDEX_HEADER_BYTES + ix_logical_len s) (ix_file s)) (ix_context s)
    = (if valid_range H s 0 (ix_logical_len s) then Inr () else Inl mismatch)"
proof -
  let ?cks = "drop (INDEX_HEADER_BYTES + ix_logical_len s) (ix_file s)" and ?m = "div_ceil (ix_logical_len s) PAGE_BYTES"
  have "length ?cks = ?m * CHECKSUM_BYTES" using assms by (simp add: geometry_def)
  then have cks: "\<forall>k < 0 + ?m. k * CHECKSUM_BYTES + CHECKSUM_BYTES \<le> length ?cks" by (simp add: CHECKSUM_BYTES_def)
  have sums: "take CHECKSUM_BYTES (drop (k * CHECKSUM_BYTES) ?cks) = sum_of s k" for k by (simp add: sum_of_def add.commute add.left_commute)
  have valid: "(page_fingerprint H (ix_logical_len s) (ix_context s) k (page_of s k) = sum_of s k) = page_valid H s k" for k
    using assms(2) by (simp add: page_valid_def)
  have "valid_range H s 0 (ix_logical_len s) \<longleftrightarrow> (\<forall>k \<in> set [0..<?m]. page_valid H s k)"
  proof (cases "ix_logical_len s = 0")
    case True
    then show ?thesis by (simp add: div_ceil_def PAGE_BYTES_def)
  next
    case False
    then show ?thesis using pages_of_range[of 0 "ix_logical_len s" H s] by simp
  qed
  then show ?thesis
    unfolding verify_body_def body_pages[OF assms(1)] length_body[OF assms(1)]
    using verify_pages_correct[OF cks, of H "ix_logical_len s" "ix_context s" "page_of s"] sums valid by simp
qed

lemma index_read_all_correct:
  assumes "reader_ok H s" and "ix_protected s \<Longrightarrow> physical_len (ix_logical_len s) = Inr (length (ix_file s))"
  shows "\<exists>r. index_read_all H s = Some r \<and> (if valid_range H s 0 (ix_logical_len s) then r = Inr (body_of s) else \<exists>e. r = Inl e)"
proof (cases "ix_protected s \<and> PAGE_BYTES < ix_logical_len s")
  case True
  have geo: "geometry s" using assms(1) by (simp add: reader_ok_def)
  let ?data = "drop INDEX_HEADER_BYTES (ix_file s)"
  have "read_at (ix_file s) (length (ix_file s) - INDEX_HEADER_BYTES) INDEX_HEADER_BYTES = Inr ?data"
    using geo True by (simp add: read_at_def geometry_def)
  moreover have "take (ix_logical_len s) ?data = body_of s" using True by (simp add: body_of_def)
  moreover have "drop (ix_logical_len s) ?data = drop (INDEX_HEADER_BYTES + ix_logical_len s) (ix_file s)" by (simp add: add.commute)
  ultimately show ?thesis using True assms(2) verify_body_correct[OF geo, of H] by (simp add: index_read_all_def Let_def)
next
  case False
  have geo: "geometry s" using assms(1) by (simp add: reader_ok_def)
  have views: "body_of (s\<lparr>ix_position := 0\<rparr>) = body_of s" "valid_range H (s\<lparr>ix_position := 0\<rparr>) = valid_range H s"
    by (rule same_file_views[OF same_file_updates(1)])+
  obtain u r where r: "index_read_exact H (s\<lparr>ix_position := 0\<rparr>) (ix_logical_len s) [] = Some (u, r)"
      "if valid_range H s 0 (ix_logical_len s) \<or> ix_logical_len s = 0 then r = Inr (take (ix_logical_len s) (body_of s)) else \<exists>e. r = Inl e"
    using index_read_exact_correct[of H "s\<lparr>ix_position := 0\<rparr>" "ix_logical_len s" "[]"] assms(1) unfolding views by auto
  have "valid_range H s 0 (ix_logical_len s)" if "ix_logical_len s = 0" using that by simp
  moreover have "take (ix_logical_len s) (body_of s) = body_of s" using length_body[OF geo] by simp
  ultimately show ?thesis using r False by (auto simp: index_read_all_def index_seek_def split: if_splits)
qed

end
