(* ===== verification/Index_Writer.thy ===== *)
theory Index_Writer
  imports Index_File
begin

text \<open>
  The writer of protected index files keeps, after every call of its producer,
  the bytes handed to it so far, their page fingerprints, and an output that
  holds every completed page and what was flushed of the last one.  A write
  that succeeds therefore yields a file that opens and reads back as exactly
  the bytes written, whatever the producer did with the errors it was given.
\<close>

section \<open>Writing\<close>

definition page_at :: "bytes \<Rightarrow> nat \<Rightarrow> bytes" where
  "page_at body k = take PAGE_BYTES (drop (k * PAGE_BYTES) body)"

definition writer_inv :: "index_hashes \<Rightarrow> bytes \<Rightarrow> bytes \<Rightarrow> index_writer \<Rightarrow> bool" where
  "writer_inv H header body w \<longleftrightarrow>
     (let q = length body div PAGE_BYTES; r = length body mod PAGE_BYTES
      in iw_written w = length body \<and> length body \<le> iw_logical_len w \<and> length (iw_page w) = PAGE_BYTES \<and> iw_flushed w \<le> r
         \<and> take r (iw_page w) = drop (q * PAGE_BYTES) body
         \<and> iw_output w = header @ take (q * PAGE_BYTES + iw_flushed w) body
         \<and> iw_checksums w = map (\<lambda>k. page_fingerprint H (iw_logical_len w) (iw_context w) k (page_at body k)) [0..<q])"

lemma page_at_append: "Suc k * PAGE_BYTES \<le> length body \<Longrightarrow> page_at (body @ bs) k = page_at body k"
  by (simp add: page_at_def)

lemma chunks_exact_run:
  assumes "0 < n" and "length xs = m * n"
  shows "chunks_exact n xs = map (\<lambda>k. take n (drop (k * n) xs)) [0..<m]"
  using assms(2)
proof (induction m arbitrary: xs)
  case 0
  then show ?case using assms(1) by (simp add: chunks_exact.simps)
next
  case (Suc m)
  have "chunks_exact n xs = take n xs # chunks_exact n (drop n xs)"
    using Suc.prems assms(1) by (subst chunks_exact.simps) simp
  also have "chunks_exact n (drop n xs) = map (\<lambda>k. take n (drop (k * n) (drop n xs))) [0..<m]" using Suc by simp
  also have "\<dots> = map (\<lambda>k. take n (drop (Suc k * n) xs)) [0..<m]" by (simp add: add.commute)
  finally show ?case by (simp add: map_upt_Suc del: upt_Suc)
qed

lemma writer_invE:
  assumes "writer_inv H header body w"
  obtains q r where "length body = q * PAGE_BYTES + r" "r < PAGE_BYTES" "iw_written w = length body" "length body \<le> iw_logical_len w"
    "length (iw_page w) = PAGE_BYTES" "iw_flushed w \<le> r" "take r (iw_page w) = drop (q * PAGE_BYTES) body"
    "iw_output w = header @ take (q * PAGE_BYTES + iw_flushed w) body"
    "iw_checksums w = map (\<lambda>k. page_fingerprint H (iw_logical_len w) (iw_context w) k (page_at body k)) [0..<q]"
proof (rule that)
  show "length body = length body div PAGE_BYTES * PAGE_BYTES + length body mod PAGE_BYTES" by simp
  show "length body mod PAGE_BYTES < PAGE_BYTES" by (simp add: PAGE_BYTES_def)
qed (use assms in \<open>simp_all only: writer_inv_def Let_def\<close>)

lemma writer_invI:
  assumes "length body = q * PAGE_BYTES + r" "r < PAGE_BYTES" "iw_written w = length body" "length body \<le> iw_logical_len w"
    "length (iw_page w) = PAGE_BYTES" "iw_flushed w \<le> r" "take r (iw_page w) = drop (q * PAGE_BYTES) body"
    "iw_output w = header @ take (q * PAGE_BYTES + iw_flushed w) body"
    "iw_checksums w = map (\<lambda>k. page_fingerprint H (iw_logical_len w) (iw_context w) k (page_at body k)) [0..<q]"
  shows "writer_inv H header body w"
proof -
  have q: "length body div PAGE_BYTES = q" and r: "length body mod PAGE_BYTES = r" unfolding assms(1) using assms(2) by simp_all
  show ?thesis unfolding writer_inv_def Let_def q r using assms(3-9) by blast
qed

lemma page_cut:
  assumes "flushed \<le> r" and "take r page = drop n body"
  shows "take (r - flushed) (drop flushed page) = drop (n + flushed) (body :: bytes)"
proof -
  have "take (r - flushed) (drop flushed page) = drop flushed (take r page)" by (simp add: drop_take)
  then show ?thesis unfolding assms(2) by (simp add: add.commute)
qed

lemma old_pages:
  assumes "q * PAGE_BYTES \<le> length body"
  shows "map (\<lambda>k. F k (page_at (body @ bs) k)) [0..<q] = map (\<lambda>k. F k (page_at body k)) [0..<q]"
proof (rule map_cong[OF refl])
  fix k assume "k \<in> set [0..<q]"
  then have "Suc k * PAGE_BYTES \<le> q * PAGE_BYTES" by (intro mult_le_mono1) simp
  then have "Suc k * PAGE_BYTES \<le> length body" using assms by linarith
  then show "F k (page_at (body @ bs) k) = F k (page_at body k)" by (simp only: page_at_append)
qed

lemma writer_flush:
  assumes "writer_inv H header body w"
  shows "writer_inv H header body (flush_bytes w)"
  using assms
proof (rule writer_invE)
  fix q r
  assume a: "length body = q * PAGE_BYTES + r" "r < PAGE_BYTES" "iw_written w = length body" "length body \<le> iw_logical_len w"
    "length (iw_page w) = PAGE_BYTES" "iw_flushed w \<le> r" "take r (iw_page w) = drop (q * PAGE_BYTES) body"
    "iw_output w = header @ take (q * PAGE_BYTES + iw_flushed w) body"
    "iw_checksums w = map (\<lambda>k. page_fingerprint H (iw_logical_len w) (iw_context w) k (page_at body k)) [0..<q]"
  have md: "iw_written w mod PAGE_BYTES = r" unfolding a(1,3) using a(2) by simp
  have out: "iw_output w @ take (r - iw_flushed w) (drop (iw_flushed w) (iw_page w)) = header @ body"
    unfolding a(8) page_cut[OF a(6,7)] by simp
  show ?thesis unfolding flush_bytes_def Let_def md out
    by (rule writer_invI[OF a(1,2)]) (use a in \<open>simp_all add: out\<close>)
qed

lemma writer_bulk:
  assumes "writer_inv H header body w" and "length body mod PAGE_BYTES = 0" and "length bs = m * PAGE_BYTES"
    and "length body + length bs \<le> iw_logical_len w"
  shows "writer_inv H header (body @ bs) (w\<lparr>iw_output := iw_output w @ bs,
      iw_checksums := iw_checksums w @ map (\<lambda>(k, page). page_fingerprint H (iw_logical_len w) (iw_context w) (iw_written w div PAGE_BYTES + k) page)
        (enumerate 0 (chunks_exact PAGE_BYTES bs)),
      iw_written := iw_written w + length bs\<rparr>)"
  using assms(1)
proof (rule writer_invE)
  fix q r
  assume a: "length body = q * PAGE_BYTES + r" "r < PAGE_BYTES" "iw_written w = length body" "length body \<le> iw_logical_len w"
    "length (iw_page w) = PAGE_BYTES" "iw_flushed w \<le> r" "take r (iw_page w) = drop (q * PAGE_BYTES) body"
    "iw_output w = header @ take (q * PAGE_BYTES + iw_flushed w) body"
    "iw_checksums w = map (\<lambda>k. page_fingerprint H (iw_logical_len w) (iw_context w) k (page_at body k)) [0..<q]"
  have P: "0 < PAGE_BYTES" by (simp add: PAGE_BYTES_def)
  have r: "r = 0" using assms(2) a(1,2) by simp
  have full: "q * PAGE_BYTES = length body" using a(1) r by simp
  have q: "iw_written w div PAGE_BYTES = q" unfolding a(3) full[symmetric] using P by simp
  have new: "page_at (body @ bs) (q + k) = take PAGE_BYTES (drop (k * PAGE_BYTES) bs)" for k
    by (simp add: page_at_def add_mult_distrib full)
  have ups: "[0..<q + m] = [0..<q] @ map (\<lambda>k. q + k) [0..<m]" by (induction m) simp_all
  have sums: "map (\<lambda>(k, page). page_fingerprint H (iw_logical_len w) (iw_context w) (q + k) page) (enumerate 0 (chunks_exact PAGE_BYTES bs))
      = map (\<lambda>k. page_fingerprint H (iw_logical_len w) (iw_context w) k (page_at (body @ bs) k)) (map (\<lambda>k. q + k) [0..<m])"
    unfolding chunks_exact_run[OF P assms(3)] enumerate_map_upt by (simp add: new)
  have old: "iw_checksums w = map (\<lambda>k. page_fingerprint H (iw_logical_len w) (iw_context w) k (page_at (body @ bs) k)) [0..<q]"
    unfolding a(9) by (rule old_pages[symmetric]) (simp add: full)
  have len: "length (body @ bs) = (q + m) * PAGE_BYTES + 0" using full assms(3) by (simp add: add_mult_distrib)
  have ends: "drop ((q + m) * PAGE_BYTES) (body @ bs) = []" "take ((q + m) * PAGE_BYTES) (body @ bs) = body @ bs"
    unfolding len[simplified, symmetric] by simp_all
  have fits: "length body + length bs \<le> iw_logical_len w" using assms(4) .
  have flushed: "iw_flushed w = 0" using a(6) r by simp
  have out: "iw_output w = header @ body" unfolding a(8) full flushed by simp
  define u where "u = w\<lparr>iw_output := iw_output w @ bs, iw_checksums := iw_checksums w
      @ map (\<lambda>k. page_fingerprint H (iw_logical_len w) (iw_context w) k (page_at (body @ bs) k)) (map (\<lambda>k. q + k) [0..<m]),
      iw_written := iw_written w + length bs\<rparr>"
  have u: "iw_output u = (header @ body) @ bs" "iw_logical_len u = iw_logical_len w" "iw_written u = length body + length bs"
    "iw_page u = iw_page w" "iw_flushed u = 0" "iw_context u = iw_context w"
    "iw_checksums u = map (\<lambda>k. page_fingerprint H (iw_logical_len w) (iw_context w) k (page_at (body @ bs) k)) [0..<q + m]"
    unfolding ups map_append old[symmetric] by (simp_all add: u_def out flushed a(3))
  have "writer_inv H header (body @ bs) u"
    by (rule writer_invI[OF len P]) (simp_all only: u fits ends length_append a(5) append_assoc take_0 add_0_right order_refl)
  then show ?thesis unfolding q sums u_def .
qed

lemma writer_buffer:
  fixes w :: index_writer
  assumes "writer_inv H header body w" and "iw_written w mod PAGE_BYTES = r" and "length bs \<le> PAGE_BYTES - r"
    and "length body + length bs \<le> iw_logical_len w"
    and v: "v = w\<lparr>iw_page := take r (iw_page w) @ bs @ drop (r + length bs) (iw_page w), iw_written := iw_written w + length bs\<rparr>"
  shows "writer_inv H header (body @ bs)
      (if r + length bs = PAGE_BYTES then finish_buffered_page H PAGE_BYTES (iw_written v div PAGE_BYTES - 1) v else v)"
  using assms(1)
proof (rule writer_invE)
  fix q r'
  assume a: "length body = q * PAGE_BYTES + r'" "r' < PAGE_BYTES" "iw_written w = length body" "length body \<le> iw_logical_len w"
    "length (iw_page w) = PAGE_BYTES" "iw_flushed w \<le> r'" "take r' (iw_page w) = drop (q * PAGE_BYTES) body"
    "iw_output w = header @ take (q * PAGE_BYTES + iw_flushed w) body"
    "iw_checksums w = map (\<lambda>k. page_fingerprint H (iw_logical_len w) (iw_context w) k (page_at body k)) [0..<q]"
  have r: "r' = r" using assms(2) unfolding a(1,3) using a(2) by simp
  note a = a[unfolded r]
  have P: "0 < PAGE_BYTES" by (simp add: PAGE_BYTES_def)
  have start: "drop (q * PAGE_BYTES) (body @ bs) = take r (iw_page w) @ bs" using a(1,7) by simp
  have page: "take (r + length bs) (iw_page v) = drop (q * PAGE_BYTES) (body @ bs)" "length (iw_page v) = PAGE_BYTES"
    using a(2,5) assms(3) unfolding start by (simp_all add: v)
  have fields: "iw_flushed v = iw_flushed w" "iw_output v = iw_output w" "iw_checksums v = iw_checksums w"
    "iw_logical_len v = iw_logical_len w" "iw_context v = iw_context w" "iw_written v = length (body @ bs)"
    using a(3) by (simp_all add: v)
  have out: "iw_output w = header @ take (q * PAGE_BYTES + iw_flushed w) (body @ bs)" using a(1,6,8) by simp
  have old: "iw_checksums w = map (\<lambda>k. page_fingerprint H (iw_logical_len w) (iw_context w) k (page_at (body @ bs) k)) [0..<q]"
    unfolding a(9) by (rule old_pages[symmetric]) (simp add: a(1))
  have fits: "length (body @ bs) \<le> iw_logical_len w" using assms(4) by simp
  show ?thesis
  proof (cases "r + length bs = PAGE_BYTES")
    case True
    have len: "length (body @ bs) = Suc q * PAGE_BYTES + 0" using True a(1) by simp
    have ends: "drop (Suc q * PAGE_BYTES) (body @ bs) = []" "take (Suc q * PAGE_BYTES) (body @ bs) = body @ bs"
      using len by simp_all
    have i: "iw_written v div PAGE_BYTES - 1 = q" unfolding fields len using P by simp
    have whole: "take PAGE_BYTES (iw_page v) = page_at (body @ bs) q"
      unfolding page_at_def page(1)[symmetric] True using page(2) by simp
    have cut: "take (PAGE_BYTES - iw_flushed w) (drop (iw_flushed w) (iw_page v)) = drop (q * PAGE_BYTES + iw_flushed w) (body @ bs)"
      by (rule page_cut) (use True a(2,6) page(1) in simp_all)
    have out': "iw_output w @ drop (q * PAGE_BYTES + iw_flushed w) (body @ bs) = header @ body @ bs"
      unfolding out append_assoc append_take_drop_id by simp
    have upt: "[0..<Suc q] = [0..<q] @ [q]" by simp
    define u where "u = finish_buffered_page H PAGE_BYTES q v"
    have u: "iw_output u = header @ body @ bs" "iw_logical_len u = iw_logical_len w" "iw_written u = length (body @ bs)"
      "iw_page u = iw_page v" "iw_flushed u = 0" "iw_context u = iw_context w"
      "iw_checksums u = map (\<lambda>k. page_fingerprint H (iw_logical_len w) (iw_context w) k (page_at (body @ bs) k)) [0..<Suc q]"
      unfolding upt map_append old[symmetric] out'[symmetric]
      by (simp_all add: u_def finish_buffered_page_def fields whole cut del: drop_append)
    have "writer_inv H header (body @ bs) u"
      by (rule writer_invI[OF len P]) (simp_all only: u fits ends page(2) take_0 add_0_right order_refl)
    note this[unfolded u_def]
    then show ?thesis using True i by simp
  next
    case False
    then have lt: "r + length bs < PAGE_BYTES" using assms(3) a(2) by linarith
    have len: "length (body @ bs) = q * PAGE_BYTES + (r + length bs)" using a(1) by simp
    have "iw_flushed w \<le> r + length bs" using a(6) by simp
    then have "writer_inv H header (body @ bs) v"
      by (intro writer_invI[OF len lt]) (use fields page fits out old in \<open>simp_all only:\<close>)
    then show ?thesis using False by simp
  qed
qed

lemma finish_keeps [simp]:
  "iw_logical_len (finish_buffered_page H n i w) = iw_logical_len w" "iw_context (finish_buffered_page H n i w) = iw_context w"
  "iw_failed (finish_buffered_page H n i w) = iw_failed w"
  by (simp_all add: finish_buffered_page_def)

lemma write_loop_correct:
  assumes "writer_inv H header body w" and "length body + length bs \<le> iw_logical_len w"
  shows "writer_inv H header (body @ bs) (write_loop H w bs) \<and> iw_logical_len (write_loop H w bs) = iw_logical_len w
    \<and> iw_context (write_loop H w bs) = iw_context w"
  using assms
proof (induction "length bs" arbitrary: body w bs rule: less_induct)
  case less
  show ?case
  proof (cases "bs = []")
    case True
    then show ?thesis using less.prems by (simp add: write_loop.simps)
  next
    case False
    let ?r = "iw_written w mod PAGE_BYTES"
    have P: "0 < PAGE_BYTES" by (simp add: PAGE_BYTES_def)
    have written: "iw_written w = length body" using less.prems(1) by (simp add: writer_inv_def Let_def)
    have step: ?thesis if cut: "0 < n" "n \<le> length bs" and loop: "write_loop H w bs = write_loop H v (drop n bs)"
      and v: "writer_inv H header (body @ take n bs) v" "iw_logical_len v = iw_logical_len w" "iw_context v = iw_context w" for n v
    proof -
      have "length (drop n bs) < length bs" using cut by simp
      moreover have "length (body @ take n bs) + length (drop n bs) \<le> iw_logical_len v" using less.prems(2) v(2) cut by simp
      ultimately show ?thesis using less.hyps[OF _ v(1), of "drop n bs"] v(2,3) loop by simp
    qed
    show ?thesis
    proof (cases "?r = 0 \<and> PAGE_BYTES \<le> length bs")
      case True
      define n where "n = length bs div PAGE_BYTES * PAGE_BYTES"
      have n: "n \<le> length bs" "0 < n" using True P by (simp_all add: n_def div_greater_zero_iff)
      have len: "length (take n bs) = length bs div PAGE_BYTES * PAGE_BYTES" using n(1) n_def by simp
      have fit: "length body + length (take n bs) \<le> iw_logical_len w" using less.prems(2) by simp
      note v = writer_bulk[OF less.prems(1) _ len fit, unfolded written[symmetric], OF conjunct1[OF True]]
      have tn: "length (take n bs) = n" using n(1) by simp
      show ?thesis
        by (rule step[OF n(2,1) _ v[unfolded tn]])
          (subst write_loop.simps, unfold Let_def if_not_P[OF False] if_P[OF True] n_def[symmetric], rule refl, simp_all)
    next
      case small: False
      define n where "n = min (PAGE_BYTES - ?r) (length bs)"
      have n: "n \<le> length bs" "n \<le> PAGE_BYTES - ?r" "0 < n" using False P by (simp_all add: n_def)
      have tn: "length (take n bs) = n" using n(1) by simp
      have fit: "length body + length (take n bs) \<le> iw_logical_len w" using less.prems(2) by simp
      note v = writer_buffer[OF less.prems(1) refl _ fit refl, unfolded tn, OF n(2)]
      show ?thesis
        by (rule step[OF n(3,1) _ v])
          (subst write_loop.simps, unfold Let_def if_not_P[OF False] if_not_P[OF small] n_def[symmetric], rule refl, simp_all)
    qed
  qed
qed

text \<open>The bytes the producer hands over.\<close>

primrec op_bytes :: "write_op \<Rightarrow> bytes" where
  "op_bytes (WriteAll bs) = bs"
| "op_bytes Flush = []"

lemma write_ops_failed: "iw_failed w \<Longrightarrow> iw_failed (fst (write_ops H w ops))"
proof (induction ops)
  case (Cons x ops)
  then have "fst (write_step H w x) = w" by (cases x) simp_all
  then show ?case using Cons by (cases "write_step H w x") (auto simp: Let_def split: prod.splits)
qed simp

lemma write_step_correct:
  assumes "writer_inv H header body w" and "\<not> iw_failed w"
  shows "if length body + length (op_bytes x) \<le> iw_logical_len w
    then \<exists>v. write_step H w x = (v, Inr ()) \<and> writer_inv H header (body @ op_bytes x) v \<and> \<not> iw_failed v
      \<and> iw_logical_len v = iw_logical_len w \<and> iw_context v = iw_context w
    else iw_failed (fst (write_step H w x))"
proof (cases x)
  case (WriteAll bs)
  have w: "iw_written w = length body" "length body \<le> iw_logical_len w" using assms(1) by (simp_all add: writer_inv_def Let_def)
  have keep: "writer_inv H header b (v\<lparr>iw_failed := c\<rparr>) = writer_inv H header b v" for b v c by (simp add: writer_inv_def)
  show ?thesis
    using WriteAll w assms write_loop_correct[OF assms(1), of bs] by (auto simp: write_bytes_def keep is_ok_def)
next
  case Flush
  have "length body \<le> iw_logical_len w" using assms(1) by (simp add: writer_inv_def Let_def)
  then show ?thesis using Flush assms writer_flush[OF assms(1)] by (simp add: flush_bytes_def Let_def)
qed

lemma write_ops_correct:
  assumes "writer_inv H header body w" and "\<not> iw_failed w"
  shows "if length body + length (concat (map op_bytes ops)) \<le> iw_logical_len w
    then \<exists>v. write_ops H w ops = (v, replicate (length ops) (Inr ())) \<and> writer_inv H header (body @ concat (map op_bytes ops)) v
      \<and> \<not> iw_failed v \<and> iw_logical_len v = iw_logical_len w \<and> iw_context v = iw_context w
    else iw_failed (fst (write_ops H w ops))"
  using assms
proof (induction ops arbitrary: body w)
  case Nil
  then show ?case by (simp add: writer_inv_def Let_def)
next
  case (Cons x ops)
  note step = write_step_correct[OF Cons.prems, of x]
  show ?case
  proof (cases "length body + length (op_bytes x) \<le> iw_logical_len w")
    case True
    then obtain v where v: "write_step H w x = (v, Inr ())" "writer_inv H header (body @ op_bytes x) v" "\<not> iw_failed v"
        "iw_logical_len v = iw_logical_len w" "iw_context v = iw_context w" using step by auto
    show ?thesis using Cons.IH[OF v(2,3)] v by (auto simp: Let_def add.assoc split: prod.splits)
  next
    case False
    then have "iw_failed (fst (write_step H w x))" using step by simp
    then have "iw_failed (fst (write_ops H w (x # ops)))" using write_ops_failed[of "fst (write_step H w x)" H ops]
      by (auto simp: Let_def split: prod.splits)
    then show ?thesis using False by simp
  qed
qed

text \<open>The file of a logical body.\<close>

definition index_image :: "index_hashes \<Rightarrow> bytes \<Rightarrow> bytes \<Rightarrow> bytes" where
  "index_image H file_id body =
     index_header H (length body) file_id @ body
     @ concat (map (\<lambda>k. page_fingerprint H (length body) (file_context (length body) file_id) k (page_at body k))
         [0..<div_ceil (length body) PAGE_BYTES])"

lemma finished_image:
  assumes "writer_inv H header body w" and "iw_logical_len w = length body"
  defines "v \<equiv> (if length body mod PAGE_BYTES \<noteq> 0
      then finish_buffered_page H (length body mod PAGE_BYTES) (length body div PAGE_BYTES) w else w)"
  shows "iw_output v = header @ body"
    and "iw_checksums v = map (\<lambda>k. page_fingerprint H (length body) (iw_context w) k (page_at body k)) [0..<div_ceil (length body) PAGE_BYTES]"
proof -
  let ?q = "length body div PAGE_BYTES" and ?r = "length body mod PAGE_BYTES"
  have P: "0 < PAGE_BYTES" by (simp add: PAGE_BYTES_def)
  have a: "iw_flushed w \<le> ?r" "take ?r (iw_page w) = drop (?q * PAGE_BYTES) body"
      "iw_output w = header @ take (?q * PAGE_BYTES + iw_flushed w) body"
      "iw_checksums w = map (\<lambda>k. page_fingerprint H (length body) (iw_context w) k (page_at body k)) [0..<?q]"
    using assms(1,2) by (simp_all add: writer_inv_def Let_def)
  have "iw_output v = header @ body
    \<and> iw_checksums v = map (\<lambda>k. page_fingerprint H (length body) (iw_context w) k (page_at body k)) [0..<div_ceil (length body) PAGE_BYTES]"
  proof (cases "?r = 0")
    case True
    have full: "?q * PAGE_BYTES = length body" using True by auto
    have "length body + PAGE_BYTES - 1 = ?q * PAGE_BYTES + (PAGE_BYTES - 1)" using full P by linarith
    moreover have "(?q * PAGE_BYTES + (PAGE_BYTES - 1)) div PAGE_BYTES = ?q" by (rule div_nat_eqI) (use P in \<open>simp_all add: mult.commute\<close>)
    ultimately have "div_ceil (length body) PAGE_BYTES = ?q" unfolding div_ceil_def by (simp only:)
    then show ?thesis using a True full by (simp add: v_def)
  next
    case False
    have "div_ceil (length body) PAGE_BYTES = Suc ?q"
    proof -
      have "length body + PAGE_BYTES - 1 = Suc ?q * PAGE_BYTES + (?r - 1)"
        using div_mult_mod_eq[of "length body" PAGE_BYTES] False P by simp
      moreover have "?r - 1 < PAGE_BYTES" using mod_less_divisor[OF P, of "length body"] by linarith
      moreover have "(Suc ?q * PAGE_BYTES + (?r - 1)) div PAGE_BYTES = Suc ?q"
        by (rule div_nat_eqI) (use calculation(2) P in \<open>simp_all add: algebra_simps\<close>)
      ultimately show ?thesis unfolding div_ceil_def by (simp only:)
    qed
    moreover have "page_at body ?q = take ?r (iw_page w)" using mod_less_divisor[OF P, of "length body"] False
      unfolding a(2) page_at_def by (simp add: minus_mult_div_eq_mod mult.commute)
    ultimately show ?thesis using False a page_cut[OF a(1,2)] assms(2) by (simp add: v_def finish_buffered_page_def)
  qed
  then show "iw_output v = header @ body"
    "iw_checksums v = map (\<lambda>k. page_fingerprint H (length body) (iw_context w) k (page_at body k)) [0..<div_ceil (length body) PAGE_BYTES]"
    by blast+
qed

lemma write_index_file_iff:
  "write_index_file H file_id L ops outcome = Inr f \<longleftrightarrow>
     length (concat (map op_bytes ops)) = L \<and> is_ok (physical_len L) \<and> outcome (replicate (length ops) (Inr ())) = Inr ()
     \<and> f = index_image H file_id (concat (map op_bytes ops))"
proof -
  let ?body = "concat (map op_bytes ops)"
  define w where "w = \<lparr>iw_output = index_header H L file_id, iw_logical_len = L, iw_written = 0, iw_page = replicate PAGE_BYTES 0,
      iw_flushed = 0, iw_failed = False, iw_context = file_context L file_id, iw_checksums = []\<rparr>"
  have inv: "writer_inv H (index_header H L file_id) [] w" "\<not> iw_failed w" by (simp_all add: writer_inv_def w_def)
  note ops = write_ops_correct[OF inv, of ops, simplified list.size add_0 append_Nil]
  show ?thesis
  proof (cases "length ?body \<le> L")
    case True
    then obtain v where v: "write_ops H w ops = (v, replicate (length ops) (Inr ()))" "writer_inv H (index_header H L file_id) ?body v"
        "\<not> iw_failed v" "iw_logical_len v = L" "iw_context v = file_context L file_id" using ops by (auto simp: w_def)
    have written: "iw_written v = length ?body" using v(2) by (simp add: writer_inv_def Let_def)
    show ?thesis
    proof (cases "length ?body = L")
      case len: True
      have "iw_logical_len v = length ?body" using v(4) len by simp
      note image = finished_image[OF v(2) this]
      show ?thesis using len v(1,3) written image v(5)
        by (auto simp: write_index_file_def w_def[symmetric] Let_def index_image_def is_ok_def bind_res_Inr_iff split: sum.splits)
    next
      case False
      then show ?thesis using v(1,3) written
        by (auto simp: write_index_file_def w_def[symmetric] Let_def bind_res_Inr_iff)
    qed
  next
    case False
    then have "iw_failed (fst (write_ops H w ops))" using ops by (simp add: w_def)
    then show ?thesis using False
      by (auto simp: write_index_file_def w_def[symmetric] Let_def bind_res_Inr_iff split: prod.splits)
  qed
qed

section \<open>Reading back\<close>

lemma length_index_header: "length file_id = 16 \<Longrightarrow> length (index_header H L file_id) = INDEX_HEADER_BYTES"
  by (simp add: index_header_def Let_def INDEX_MAGIC_def INDEX_HEADER_BYTES_def)

lemma length_fingerprint [simp]: "length (page_fingerprint H L c i page) = CHECKSUM_BYTES"
  by (simp add: page_fingerprint_def Let_def CHECKSUM_BYTES_def)

lemma length_index_image:
  assumes "length file_id = 16"
  shows "length (index_image H file_id body) = INDEX_HEADER_BYTES + length body + div_ceil (length body) PAGE_BYTES * CHECKSUM_BYTES"
proof -
  let ?sum = "\<lambda>k. page_fingerprint H (length body) (file_context (length body) file_id) k (page_at body k)"
  have "length (concat (map ?sum [0..<div_ceil (length body) PAGE_BYTES])) = length [0..<div_ceil (length body) PAGE_BYTES] * CHECKSUM_BYTES"
    by (rule length_concat_map_const) simp
  then show ?thesis using assms by (simp add: index_image_def length_index_header)
qed

lemma parse_index_image:
  assumes "length file_id = 16" and "is_ok (physical_len (length body))"
  shows "parse_header H (index_image H file_id body) (length (index_image H file_id body)) = Inr (Some (length body, file_id))"
proof -
  obtain n where n: "physical_len (length body) = Inr n" using assms(2) by (auto simp: is_ok_def split: sum.splits)
  then have len: "n = length (index_image H file_id body)" using length_index_image[OF assms(1)] by (simp add: physical_len_Inr_iff)
  have small: "length body < 2 ^ 64" using n by (simp add: physical_len_Inr_iff usize_limit_def)
  then have u: "unat (of_nat (length body) :: u64) = length body" by (simp add: unat_of_nat_less)
  have cut: "take 48 (index_image H file_id body) = index_header H (length body) file_id"
    using length_index_header[OF assms(1)] by (simp add: index_image_def INDEX_HEADER_BYTES_def)
  have "parse_header H (index_header H (length body) file_id) n = Inr (Some (length body, file_id))"
    using assms(1) n u by (simp add: parse_header_def index_header_def Let_def INDEX_MAGIC_def INDEX_HEADER_BYTES_def)
  then show ?thesis unfolding len[symmetric] parse_header_prefix[symmetric, of H "index_image H file_id body"] cut .
qed

lemma index_open_total:
  assumes "parse_header H f (length f) = Inr parsed"
  shows "\<exists>s. index_open H f = Inr s"
proof -
  let ?cap = "INDEX_HEADER_BYTES + PAGE_BYTES + CHECKSUM_BYTES"
  define plen where "plen = min (length f) ?cap"
  have read: "read_at f plen 0 = Inr (take plen f)" by (simp add: read_at_def plen_def)
  have "take (min plen INDEX_HEADER_BYTES) (overwrite (replicate ?cap 0) (take plen f)) = take 48 f"
    using overwrite_window[of 0 "min plen INDEX_HEADER_BYTES" "take plen f"] by (simp add: plen_def layout_defs min_def)
  then show ?thesis using assms
    unfolding index_open_def Let_def plen_def[symmetric] read bind_res_simps
    by (auto simp: parse_header_prefix split: option.splits prod.splits)
qed

lemma index_image_opens:
  assumes "length file_id = 16" and "is_ok (physical_len (length body))"
  obtains s where "index_open H (index_image H file_id body) = Inr s" "reader_ok H s" "ix_protected s" "ix_position s = 0"
    "ix_logical_len s = length body" "ix_file_id s = Some file_id" "body_of s = body"
    "\<And>p n. p + n \<le> length body \<Longrightarrow> valid_range H s p n"
    "physical_len (ix_logical_len s) = Inr (length (ix_file s))"
proof -
  let ?f = "index_image H file_id body"
  note parsed = parse_index_image[OF assms, of H]
  obtain s where s: "index_open H ?f = Inr s" using index_open_total[OF parsed] by blast
  note ok = index_open_correct[OF s]
  have fields: "ix_protected s" "ix_logical_len s = length body" "ix_file_id s = Some file_id"
    using ok(4,5) parsed by (auto split: if_splits)
  have ctxt: "ix_context s = file_context (length body) file_id" using ok(6) fields by simp
  have hl: "length (index_header H (length body) file_id) = INDEX_HEADER_BYTES" by (rule length_index_header[OF assms(1)])
  have b: "body_of s = body" using fields ok(2) hl by (simp add: body_of_def index_image_def)
  have valid: "page_valid H s k" if "k < div_ceil (length body) PAGE_BYTES" for k
  proof -
    let ?fp = "\<lambda>k. page_fingerprint H (length body) (file_context (length body) file_id) k (page_at body k)"
    have "sum_of s k = take CHECKSUM_BYTES (drop (k * CHECKSUM_BYTES) (concat (map ?fp [0..<div_ceil (length body) PAGE_BYTES])))"
      unfolding sum_of_def ok(2) fields index_image_def using hl by (simp add: drop_drop[symmetric] add.assoc del: drop_drop)
    also have "\<dots> = ?fp ([0..<div_ceil (length body) PAGE_BYTES] ! k)"
      by (rule concat_map_window) (use that in simp_all)
    also have "\<dots> = ?fp k" using that by simp
    finally show ?thesis unfolding page_valid_def using ctxt fields b by (simp add: page_of_def page_at_def)
  qed
  have "valid_range H s p n" if "p + n \<le> length body" for p n
    unfolding valid_range_def
  proof (intro allI impI)
    fix j assume "p \<le> j \<and> j < p + n"
    then have "j < length body" using that by linarith
    then have "j div PAGE_BYTES * PAGE_BYTES < length body" by (meson div_times_less_eq_dividend le_less_trans)
    then show "page_valid H s (j div PAGE_BYTES)" using valid[unfolded div_ceil_gr] by blast
  qed
  moreover have "physical_len (ix_logical_len s) = Inr (length (ix_file s))"
    using assms(2) length_index_image[OF assms(1), of H body] ok(2) fields(2)
    by (auto simp: is_ok_def physical_len_Inr_iff split: sum.splits)
  ultimately show thesis using that s ok(1,3) fields b by blast
qed

lemma read_all_from_path_correct:
  assumes "index_open H f = Inr s"
  shows "read_all_from_path_expected H f expected =
    (if expected \<noteq> None \<and> ix_file_id s \<noteq> expected
     then Inl (InvalidData ''index artifact does not match its publication binding'')
     else if valid_range H s 0 (ix_logical_len s) then Inr (body_of s) else Inl mismatch)"
proof -
  note ok = index_open_correct[OF assms]
  have geo: "geometry s" using ok(1) by (simp add: reader_ok_def)
  show ?thesis
  proof (cases "ix_protected s")
    case True
    then obtain fid where fid: "ix_file_id s = Some fid" using ok(5) by auto
    have "take (ix_logical_len s) (drop INDEX_HEADER_BYTES f) = body_of s" using True ok(2) by (simp add: body_of_def)
    moreover have "drop (ix_logical_len s) (drop INDEX_HEADER_BYTES f) = drop (INDEX_HEADER_BYTES + ix_logical_len s) (ix_file s)"
      using ok(2) by (simp add: add.commute)
    ultimately show ?thesis
      using ok(4,6) True fid verify_body_correct[OF geo True, of H]
      by (auto simp: read_all_from_path_expected_def Let_def simp del: drop_drop split: option.splits)
  next
    case False
    have "valid_range H s 0 (ix_logical_len s)" using False by (simp add: valid_range_def page_valid_def)
    moreover have "ix_file_id s = None" using ok(5) False by simp
    ultimately show ?thesis using ok(2,4) False by (auto simp: read_all_from_path_expected_def body_of_def split: option.splits)
  qed
qed

text \<open>A client of an open file: seek and read exactly, once per range, going on after errors.\<close>

fun read_ranges :: "index_hashes \<Rightarrow> index_file \<Rightarrow> (nat \<times> nat) list \<Rightarrow> bytes res list option" where
  "read_ranges H s [] = Some []"
| "read_ranges H s ((p, n) # ranges) =
     (case index_read_exact H (fst (index_seek s (SeekStart p))) n [] of
        None \<Rightarrow> None
      | Some (s, r) \<Rightarrow> map_option ((#) r) (read_ranges H s ranges))"

text \<open>A range is answered by the logical bytes, or by an error when it leaves the file or touches a page whose checksum is wrong.\<close>

definition range_answer :: "index_hashes \<Rightarrow> index_file \<Rightarrow> nat \<times> nat \<Rightarrow> bytes res \<Rightarrow> bool" where
  "range_answer H s rg r \<longleftrightarrow>
     (case rg of (p, n) \<Rightarrow>
        if p + n \<le> ix_logical_len s \<and> valid_range H s p n \<or> n = 0
        then r = Inr (take n (drop p (body_of s))) else \<exists>e. r = Inl e)"

lemma read_ranges_correct:
  assumes "reader_ok H s"
  shows "\<exists>rs. read_ranges H s ranges = Some rs \<and> list_all2 (range_answer H s) ranges rs"
  using assms
proof (induction ranges arbitrary: s)
  case (Cons x ranges)
  obtain p n where x: "x = (p, n)" by fastforce
  let ?s = "s\<lparr>ix_position := p\<rparr>"
  have views: "body_of ?s = body_of s" "valid_range H ?s = valid_range H s" by (rule same_file_views[OF same_file_updates(1)])+
  obtain u r where u: "index_read_exact H ?s n [] = Some (u, r)" "reader_ok H u" "same_file ?s u"
      "range_answer H s (p, n) r"
    using index_read_exact_correct[of H ?s n "[]"] Cons.prems unfolding views
    by (auto simp: range_answer_def split: if_splits)
  have "body_of u = body_of s" "valid_range H u = valid_range H s" "ix_logical_len u = ix_logical_len s"
    using same_file_views(1)[OF u(3)] same_file_views(5)[OF u(3), of H] u(3) views by (simp_all add: same_file_def)
  then have same: "range_answer H u = range_answer H s" unfolding range_answer_def[abs_def] by (simp only:)
  show ?case using Cons.IH[OF u(2)] u(1,4) unfolding same x by (auto simp: index_seek_def)
qed simp

lemma read_ranges_valid:
  assumes "reader_ok H s" and "\<And>p n. p + n \<le> ix_logical_len s \<Longrightarrow> valid_range H s p n"
    and "\<forall>(p, n) \<in> set ranges. p + n \<le> ix_logical_len s"
  shows "read_ranges H s ranges = Some (map (\<lambda>(p, n). Inr (take n (drop p (body_of s)))) ranges)"
proof -
  obtain rs where rs: "read_ranges H s ranges = Some rs" "list_all2 (range_answer H s) ranges rs"
    using read_ranges_correct[OF assms(1)] by blast
  have "rs = map (\<lambda>(p, n). Inr (take n (drop p (body_of s)))) ranges"
    using rs(2) assms(3) by (induction rule: list_all2_induct) (auto simp: range_answer_def assms(2))
  then show ?thesis using rs(1) by simp
qed

section \<open>Properties\<close>

text \<open>
  C12.  On any file that opens, whatever its bytes, every read returns: a
  sequence of seeks and exact reads, errors included, answers each range with
  exactly the logical bytes when the range lies in the file and every page it
  touches matches its checksum, and with an error otherwise, regardless of the
  order of the ranges and of the state of the page, prefetch and checksum
  caches; reading everything does the same for the whole file.
\<close>

theorem index_reads_exact:
  assumes "index_open H f = Inr s"
  shows "(\<exists>rs. read_ranges H s ranges = Some rs \<and> list_all2 (range_answer H s) ranges rs)
    \<and> (\<exists>r. index_read_all H s = Some r \<and> range_answer H s (0, ix_logical_len s) r)"
proof -
  note ok = index_open_correct[OF assms]
  have phys: "physical_len (ix_logical_len s) = Inr (length (ix_file s))" if "ix_protected s"
    unfolding physical_len_Inr_iff using parse_header_Some(1,4)[OF ok(4)[unfolded if_P[OF that]]] ok(2) by simp
  have "geometry s" using ok(1) by (simp add: reader_ok_def)
  then have whole: "take (ix_logical_len s) (body_of s) = body_of s" using length_body by simp
  have empty: "valid_range H s 0 (ix_logical_len s)" if "ix_logical_len s = 0" using that by simp
  obtain r where r: "index_read_all H s = Some r" "if valid_range H s 0 (ix_logical_len s) then r = Inr (body_of s) else \<exists>e. r = Inl e"
    using index_read_all_correct[OF ok(1) phys] by blast
  have "range_answer H s (0, ix_logical_len s) r"
  proof (cases "valid_range H s 0 (ix_logical_len s)")
    case True
    then show ?thesis using r(2) whole by (simp add: range_answer_def)
  next
    case False
    moreover from this have "ix_logical_len s \<noteq> 0" using empty by blast
    ultimately show ?thesis using r(2) by (simp add: range_answer_def)
  qed
  then show ?thesis using r(1) read_ranges_correct[OF ok(1)] by blast
qed

definition plain_hashes :: index_hashes where
  "plain_hashes = \<lparr>ih_crc32 = (\<lambda>bs. of_nat (length bs)), ih_xxh3 = (\<lambda>bs. of_nat (length bs)), ih_xxh3_seeded = (\<lambda>seed bs. seed + of_nat (length bs))\<rparr>"

theorem index_reads_exact_witness:
  "\<exists>s rs r. index_open plain_hashes (index_image plain_hashes (replicate 16 9) [1, 2, 3]) = Inr s
     \<and> read_ranges plain_hashes s [(1, 2), (2, 5), (0, 1)] = Some rs
     \<and> list_all2 (range_answer plain_hashes s) [(1, 2), (2, 5), (0, 1)] rs
     \<and> index_read_all plain_hashes s = Some r"
proof -
  have "is_ok (physical_len (length [1 :: u8, 2, 3]))"
    by (simp add: is_ok_def physical_len_def ok_or_def usize_checked_mul_def usize_checked_add_def usize_limit_def div_ceil_def layout_defs)
  then obtain s where "index_open plain_hashes (index_image plain_hashes (replicate 16 9) [1, 2, 3]) = Inr s"
    using index_image_opens[of "replicate 16 9" "[1, 2, 3]" plain_hashes] by (metis length_replicate)
  then show ?thesis using index_reads_exact[of plain_hashes _ s "[(1, 2), (2, 5), (0, 1)]"] by blast
qed

text \<open>
  C11.  A write of an index file succeeds exactly when the producer handed over
  as many bytes as declared, the file length does not overflow and the producer
  reports success; a producer that swallows a failed write never gets a file.
  The file it writes opens under its identity and reads back, whole or by any
  ranges, as the bytes of the producer, however they were cut into writes and
  flushes.
\<close>

theorem written_index_reads_back:
  assumes "length file_id = 16"
  shows "((\<exists>f. write_index_file H file_id L ops outcome = Inr f) \<longleftrightarrow>
       length (concat (map op_bytes ops)) = L \<and> is_ok (physical_len L) \<and> outcome (replicate (length ops) (Inr ())) = Inr ())
    \<and> (\<forall>f. write_index_file H file_id L ops outcome = Inr f \<longrightarrow>
       (\<exists>s. open_bound H f file_id = Inr s \<and> index_read_all H s = Some (Inr (concat (map op_bytes ops)))
          \<and> read_all_from_path_expected H f (Some file_id) = Inr (concat (map op_bytes ops))
          \<and> (\<forall>ranges. (\<forall>(p, n) \<in> set ranges. p + n \<le> L) \<longrightarrow>
               read_ranges H s ranges = Some (map (\<lambda>(p, n). Inr (take n (drop p (concat (map op_bytes ops))))) ranges))))"
proof (intro conjI allI impI)
  show "(\<exists>f. write_index_file H file_id L ops outcome = Inr f) \<longleftrightarrow>
      length (concat (map op_bytes ops)) = L \<and> is_ok (physical_len L) \<and> outcome (replicate (length ops) (Inr ())) = Inr ()"
    unfolding write_index_file_iff by blast
next
  fix f
  let ?body = "concat (map op_bytes ops)"
  assume "write_index_file H file_id L ops outcome = Inr f"
  then have f: "length ?body = L" "is_ok (physical_len (length ?body))" "f = index_image H file_id ?body"
    unfolding write_index_file_iff by blast+
  obtain s where s: "index_open H f = Inr s" "reader_ok H s" "ix_logical_len s = L" "ix_file_id s = Some file_id" "body_of s = ?body"
      "\<And>p n. p + n \<le> ix_logical_len s \<Longrightarrow> valid_range H s p n" "physical_len (ix_logical_len s) = Inr (length (ix_file s))"
    by (rule index_image_opens[OF assms f(2), of H]) (use f(1,3) in simp)
  have "valid_range H s 0 (ix_logical_len s)" using s(6) by simp
  then have "index_read_all H s = Some (Inr ?body)" "read_all_from_path_expected H f (Some file_id) = Inr ?body"
    using index_read_all_correct[OF s(2,7)] read_all_from_path_correct[OF s(1), of "Some file_id"] s(4,5) by auto
  moreover have "open_bound H f file_id = Inr s" using s(1,4) by (simp add: open_bound_def)
  ultimately show "\<exists>s. open_bound H f file_id = Inr s \<and> index_read_all H s = Some (Inr ?body)
      \<and> read_all_from_path_expected H f (Some file_id) = Inr ?body
      \<and> (\<forall>ranges. (\<forall>(p, n) \<in> set ranges. p + n \<le> L) \<longrightarrow> read_ranges H s ranges = Some (map (\<lambda>(p, n). Inr (take n (drop p ?body))) ranges))"
    using read_ranges_valid[OF s(2,6)] s(3,5) by (intro exI[of _ s]) simp
qed

theorem written_index_reads_back_witness:
  "\<exists>f s. write_index_file plain_hashes (replicate 16 9) 3 [WriteAll [1, 2], Flush, WriteAll [3]] (\<lambda>rs. Inr ()) = Inr f
     \<and> open_bound plain_hashes f (replicate 16 9) = Inr s \<and> read_ranges plain_hashes s [(1, 2)] = Some [Inr [2, 3]]"
proof -
  have ok: "is_ok (physical_len 3)"
    by (simp add: is_ok_def physical_len_def ok_or_def usize_checked_mul_def usize_checked_add_def usize_limit_def div_ceil_def layout_defs)
  note result = written_index_reads_back[of "replicate 16 9" plain_hashes 3 "[WriteAll [1, 2], Flush, WriteAll [3]]" "\<lambda>rs. Inr ()", simplified]
  obtain f where f: "write_index_file plain_hashes (replicate 16 9) 3 [WriteAll [1, 2], Flush, WriteAll [3]] (\<lambda>rs. Inr ()) = Inr f"
    using result ok by auto
  then obtain s where "open_bound plain_hashes f (replicate 16 9) = Inr s"
      "\<forall>ranges. (\<forall>(p, n) \<in> set ranges. p + n \<le> 3) \<longrightarrow> read_ranges plain_hashes s ranges = Some (map (\<lambda>(p, n). Inr (take n (drop p [1, 2, 3]))) ranges)"
    using result by auto
  then show ?thesis using f by (auto dest: spec[of _ "[(1, 2)]"])
qed

end
