(* ===== verification/BTree_Index.thy ===== *)
theory BTree_Index
  imports Bitmap_Decode Index_Writer "HOL-Library.List_Lexorder"
begin

text \<open>
  The key index of \<^verbatim>\<open>src/crates/logex-index/src/btree.rs\<close>: an in-memory index
  from fixed-width keys to bitmaps of row ids, its two file formats, the
  complete reader, and the point and range lookups that read only the pages
  they need.  A \<^verbatim>\<open>BTreeMap\<close> is its strictly increasing list of entries; byte
  strings are compared lexicographically.  The query memory budget admits
  every reservation, and allocations succeed.
\<close>

section \<open>In memory\<close>

definition BTREE_MAGIC :: bytes where
  "BTREE_MAGIC = [76, 88, 73, 88]"

definition BTREE_VERSION :: u32 where
  "BTREE_VERSION = 2"

definition INDEX_HEADER_LEN :: usize where
  "INDEX_HEADER_LEN = 20"

definition INDEX_V2_ENTRY_TRAILER_LEN :: usize where
  "INDEX_V2_ENTRY_TRAILER_LEN = 8 + 4"

definition SINGLE_ENTRY_BULK_MAX_LOGICAL_BYTES :: nat where
  "SINGLE_ENTRY_BULK_MAX_LOGICAL_BYTES = 1024 * 1024"

definition row_partitioned_logical_size_bound :: "nat \<Rightarrow> nat \<Rightarrow> nat res" where
  "row_partitioned_logical_size_bound rows key_size =
     ok_or (Option.bind (usize_checked_add key_size INDEX_V2_ENTRY_TRAILER_LEN) (\<lambda>width.
            Option.bind (usize_checked_add width 18) (\<lambda>width.
            Option.bind (usize_checked_mul width rows) (\<lambda>payload. usize_checked_add payload INDEX_HEADER_LEN))))
       (InvalidInput ''index size bound overflow'')"

type_synonym entries = "(bytes \<times> roaring) list"

record btree_index =
  bt_key_size :: usize
  bt_entries :: entries

definition btree_new :: "usize \<Rightarrow> btree_index" where
  "btree_new key_size = \<lparr>bt_key_size = key_size, bt_entries = []\<rparr>"

text \<open>\<^verbatim>\<open>entry(key).or_default().insert(row_id)\<close>.\<close>

fun insert_entry :: "bytes \<Rightarrow> u32 \<Rightarrow> entries \<Rightarrow> entries" where
  "insert_entry k row [] = [(k, fst (roaring_insert row []))]"
| "insert_entry k row ((k', b) # es) =
     (if k < k' then (k, fst (roaring_insert row [])) # (k', b) # es
      else if k = k' then (k', fst (roaring_insert row b)) # es
      else (k', b) # insert_entry k row es)"

definition btree_insert :: "bytes \<Rightarrow> u32 \<Rightarrow> btree_index \<Rightarrow> btree_index" where
  "btree_insert k row t = t\<lparr>bt_entries := insert_entry k row (bt_entries t)\<rparr>"

definition btree_get :: "btree_index \<Rightarrow> bytes \<Rightarrow> roaring option" where
  "btree_get t k = map_of (bt_entries t) k"

definition btree_range :: "btree_index \<Rightarrow> bytes \<Rightarrow> bytes \<Rightarrow> roaring" where
  "btree_range t start end_key =
     (if end_key \<le> start then []
      else foldl (\<lambda>result (_, bitmap). bitor_assign result bitmap) [] (filter (\<lambda>(k, _). start \<le> k \<and> k < end_key) (bt_entries t)))"

definition btree_key_count :: "btree_index \<Rightarrow> usize" where
  "btree_key_count t = length (bt_entries t)"

section \<open>The file format\<close>

definition table_end :: "usize \<Rightarrow> nat \<Rightarrow> nat res" where
  "table_end key_size entry_count =
     ok_or (Option.bind (usize_checked_add key_size INDEX_V2_ENTRY_TRAILER_LEN) (\<lambda>size.
            Option.bind (usize_checked_mul size entry_count) (\<lambda>len. usize_checked_add len INDEX_HEADER_LEN)))
       (InvalidData ''index table too large'')"

fun logical_length :: "nat \<Rightarrow> entries \<Rightarrow> nat res" where
  "logical_length len [] = Inr len"
| "logical_length len ((_, bitmap) # es) =
     bind_res (ok_or (try_u32 (serialized_size bitmap)) (InvalidData ''bitmap exceeds format limit'')) (\<lambda>size.
     bind_res (ok_or (usize_checked_add len (unat size)) (InvalidData ''index file too large'')) (\<lambda>len.
       logical_length len es))"

fun table_bytes :: "nat \<Rightarrow> entries \<Rightarrow> bytes list" where
  "table_bytes bitmap_offset [] = []"
| "table_bytes bitmap_offset ((k, bitmap) # es) =
     (let size = of_nat (serialized_size bitmap) :: u32
      in k # to_le_bytes (of_nat bitmap_offset :: u64) # to_le_bytes size # table_bytes (bitmap_offset + unat size) es)"

text \<open>
  The buffering between the serializer and the checked writer changes how the
  bytes are cut into writes, not the bytes.  The first error ends the closure.
\<close>

definition first_error :: "unit res list \<Rightarrow> unit res" where
  "first_error rs = foldl (\<lambda>acc r. bind_res acc (\<lambda>_. r)) (Inr ()) rs"

definition write_to_file :: "index_hashes \<Rightarrow> bytes \<Rightarrow> btree_index \<Rightarrow> bytes res" where
  "write_to_file H file_id t =
     bind_res (ok_or (try_u32 (bt_key_size t)) (InvalidData ''index key width exceeds format limit'')) (\<lambda>key_size.
     if key_size = 0 \<or> (\<exists>(k, _) \<in> set (bt_entries t). length k \<noteq> bt_key_size t)
     then Inl (InvalidData ''invalid index key width'')
     else
       bind_res (ok_or (try_u64 (length (bt_entries t))) (InvalidData ''too many index entries'')) (\<lambda>entry_count.
       bind_res (table_end (bt_key_size t) (unat entry_count)) (\<lambda>table_end.
       bind_res (logical_length table_end (bt_entries t)) (\<lambda>logical_len.
         write_index_file H file_id logical_len
           (map WriteAll ([BTREE_MAGIC, to_le_bytes BTREE_VERSION, to_le_bytes key_size, to_le_bytes entry_count]
              @ table_bytes table_end (bt_entries t) @ map (\<lambda>(_, bitmap). serialize_into bitmap) (bt_entries t)))
           first_error))))"

section \<open>Headers and complete traversal\<close>

record btree_header =
  bh_version :: u32
  bh_key_size :: usize
  bh_entry_count :: nat

definition btree_parse :: "bytes \<Rightarrow> btree_header res" where
  "btree_parse data =
     (if length data < INDEX_HEADER_LEN \<or> take 4 data \<noteq> BTREE_MAGIC
      then Inl (InvalidData ''invalid or truncated index header'')
      else
        let version = from_le_bytes (take 4 (drop 4 data)) :: u32
        in if version \<notin> {1, 2} then Inl (InvalidData ''unsupported index version'')
           else
             let key_size = unat (from_le_bytes (take 4 (drop 8 data)) :: u32)
             in if key_size = 0 then Inl (InvalidData ''zero index key width'')
                else Inr \<lparr>bh_version = version, bh_key_size = key_size,
                          bh_entry_count = unat (from_le_bytes (take 8 (drop 12 data)) :: u64)\<rparr>)"

definition validate_geometry :: "btree_header \<Rightarrow> nat \<Rightarrow> unit res" where
  "validate_geometry h logical_len =
     bind_res (ok_or (usize_checked_add (bh_key_size h) (if bh_version h = 2 then 20 else 12)) (InvalidData ''index entry too large'')) (\<lambda>entry_min.
     bind_res (ok_or (Option.bind (usize_checked_mul (bh_entry_count h) entry_min) (\<lambda>len. usize_checked_add len INDEX_HEADER_LEN))
                (InvalidData ''index file geometry overflows'')) (\<lambda>min_len.
       if logical_len < min_len \<or> (bh_entry_count h = 0 \<and> logical_len \<noteq> INDEX_HEADER_LEN)
       then Inl (InvalidData ''invalid index file extent'') else Inr ()))"

record index_entries =
  ie_data :: bytes
  ie_header :: btree_header
  ie_position :: usize
  ie_payload_position :: usize
  ie_remaining :: nat
  ie_previous_key :: "bytes option"

definition index_entries_new :: "bytes \<Rightarrow> index_entries res" where
  "index_entries_new data =
     bind_res (btree_parse data) (\<lambda>h.
     bind_res (validate_geometry h (length data)) (\<lambda>_.
     bind_res (if bh_version h = 2 then table_end (bh_key_size h) (bh_entry_count h) else Inr INDEX_HEADER_LEN) (\<lambda>payload_position.
       Inr \<lparr>ie_data = data, ie_header = h, ie_position = INDEX_HEADER_LEN, ie_payload_position = payload_position,
            ie_remaining = bh_entry_count h, ie_previous_key = None\<rparr>)))"

definition next_entry :: "index_entries \<Rightarrow> (index_entries \<times> (bytes \<times> bytes) option) res" where
  "next_entry s =
     (let v2 = (bh_version (ie_header s) = 2)
      in if ie_remaining s = 0
         then (if (if v2 then ie_payload_position s else ie_position s) \<noteq> length (ie_data s)
               then Inl (InvalidData ''trailing index file bytes'') else Inr (s, None))
         else
           bind_res (take_bytes (ie_data s) (ie_position s) (bh_key_size (ie_header s))) (\<lambda>(k, position).
           if (case ie_previous_key s of None \<Rightarrow> False | Some previous \<Rightarrow> k \<le> previous)
           then Inl (InvalidData ''index keys are not strictly increasing'')
           else
             bind_res (if v2
                       then bind_res (take_bytes (ie_data s) position 8) (\<lambda>(bs, position).
                            if unat (from_le_bytes bs :: u64) \<noteq> ie_payload_position s
                            then Inl (InvalidData ''noncontiguous index bitmap payload'') else Inr position)
                       else Inr position) (\<lambda>position.
             bind_res (take_bytes (ie_data s) position 4) (\<lambda>(bs, position).
             bind_res (take_bytes (ie_data s) (if v2 then ie_payload_position s else position) (unat (from_le_bytes bs :: u32)))
               (\<lambda>(payload, after).
                 Inr (s\<lparr>ie_position := (if v2 then position else after), ie_payload_position := (if v2 then after else ie_payload_position s),
                        ie_remaining := ie_remaining s - 1, ie_previous_key := Some k\<rparr>, Some (k, payload)))))))"

lemma next_entry_remaining: "next_entry s = Inr (s', Some e) \<Longrightarrow> ie_remaining s' < ie_remaining s"
  by (auto simp: next_entry_def Let_def bind_res_Inr_iff split: if_splits)

text \<open>Both complete readers drain the traversal and decode every bitmap.\<close>

function all_entries :: "(bytes \<Rightarrow> roaring res) \<Rightarrow> index_entries \<Rightarrow> entries res" where
  "all_entries decode s =
     (case next_entry s of
        Inl e \<Rightarrow> Inl e
      | Inr (s, None) \<Rightarrow> Inr []
      | Inr (s, Some (k, payload)) \<Rightarrow>
          bind_res (decode payload) (\<lambda>bitmap. bind_res (all_entries decode s) (\<lambda>es. Inr ((k, bitmap) # es))))"
  by pat_completeness auto
termination
  by (relation "measure (\<lambda>(decode, s). ie_remaining s)") (auto dest: next_entry_remaining)

declare all_entries.simps [simp del]

record btree_reader =
  br_key_size :: usize
  br_entries :: entries

definition open_data :: "bytes \<Rightarrow> btree_reader res" where
  "open_data data =
     bind_res (index_entries_new data) (\<lambda>input.
     bind_res (all_entries decode_bitmap input) (\<lambda>entries.
       Inr \<lparr>br_key_size = bh_key_size (ie_header input), br_entries = entries\<rparr>))"

definition btree_open :: "index_hashes \<Rightarrow> bytes \<Rightarrow> btree_reader res" where
  "btree_open H f = bind_res (read_all_from_path_expected H f None) open_data"

definition btree_open_bound :: "index_hashes \<Rightarrow> bytes \<Rightarrow> bytes \<Rightarrow> btree_reader res" where
  "btree_open_bound H f expected_file_id = bind_res (read_all_from_path_expected H f (Some expected_file_id)) open_data"

definition reader_get :: "btree_reader \<Rightarrow> bytes \<Rightarrow> roaring option" where
  "reader_get r k =
     (case binary_search (map fst (br_entries r)) k of Inr i \<Rightarrow> Some (snd (br_entries r ! i)) | Inl _ \<Rightarrow> None)"

definition reader_range :: "btree_reader \<Rightarrow> bytes \<Rightarrow> bytes \<Rightarrow> roaring" where
  "reader_range r start end_key =
     (if end_key \<le> start then []
      else
        let lo = partition_point (\<lambda>(k, _). k < start) (br_entries r); hi = partition_point (\<lambda>(k, _). k < end_key) (br_entries r)
        in union_entries (take (hi - lo) (drop lo (br_entries r))))"

definition reader_range_inclusive :: "btree_reader \<Rightarrow> bytes \<Rightarrow> bytes \<Rightarrow> roaring" where
  "reader_range_inclusive r start end_key =
     (if end_key < start then []
      else
        let lo = partition_point (\<lambda>(k, _). k < start) (br_entries r); hi = partition_point (\<lambda>(k, _). k \<le> end_key) (br_entries r)
        in union_entries (take (hi - lo) (drop lo (br_entries r))))"

section \<open>Lookups in files\<close>

text \<open>
  An operation on an open file: the file afterwards and a result; \<open>None\<close> would
  be a read that never returns.
\<close>

type_synonym 'a io = "index_file \<Rightarrow> (index_file \<times> 'a res) option"

definition io_bind :: "'a io \<Rightarrow> ('a \<Rightarrow> 'b io) \<Rightarrow> 'b io" where
  "io_bind m k s =
     (case m s of None \<Rightarrow> None | Some (s, Inl e) \<Rightarrow> Some (s, Inl e) | Some (s, Inr x) \<Rightarrow> k x s)"

definition io_res :: "'a res \<Rightarrow> 'a io" where
  "io_res r s = Some (s, r)"

lemma io_bind_cong [fundef_cong]:
  "m s = m' s' \<Longrightarrow> (\<And>x t. m' s' = Some (t, Inr x) \<Longrightarrow> k x t = k' x t) \<Longrightarrow> io_bind m k s = io_bind m' k' s'"
  by (auto simp: io_bind_def split: option.splits sum.splits)

text \<open>\<^verbatim>\<open>file.seek(SeekFrom::Start(p))?; file.read_exact(&mut [0; n])?\<close>.\<close>

definition seek_read :: "index_hashes \<Rightarrow> nat \<Rightarrow> nat \<Rightarrow> bytes io" where
  "seek_read H p n s = index_read_exact H (fst (index_seek s (SeekStart p))) n []"

definition validate_lookup_key :: "btree_header \<Rightarrow> bytes \<Rightarrow> unit res" where
  "validate_lookup_key h k =
     (if length k \<noteq> bh_key_size h
      then Inl (InvalidInput (''lookup key has length '' @ show_nat (length k) @ '', expected '' @ show_nat (bh_key_size h)))
      else Inr ())"

definition entry_offset :: "btree_header \<Rightarrow> nat \<Rightarrow> nat res" where
  "entry_offset h entry = table_end (bh_key_size h) entry"

definition read_key :: "index_hashes \<Rightarrow> btree_header \<Rightarrow> nat \<Rightarrow> bytes io" where
  "read_key H h entry = io_bind (io_res (entry_offset h entry)) (\<lambda>offset. seek_read H offset (bh_key_size h))"

definition read_descriptor :: "index_hashes \<Rightarrow> btree_header \<Rightarrow> nat \<Rightarrow> nat \<Rightarrow> (nat \<times> nat) io" where
  "read_descriptor H h entry table_limit =
     io_bind (io_res (bind_res (entry_offset h entry) (\<lambda>offset.
       ok_or (usize_checked_add offset (bh_key_size h)) (InvalidData ''index descriptor offset overflows'')))) (\<lambda>descriptor_offset.
     io_bind (seek_read H descriptor_offset INDEX_V2_ENTRY_TRAILER_LEN) (\<lambda>descriptor s.
       let offset = unat (from_le_bytes (take 8 descriptor) :: u64); len = unat (from_le_bytes (drop 8 descriptor) :: u32)
       in Some (s, bind_res (ok_or (usize_checked_add offset len) (InvalidData ''bitmap extent overflows'')) (\<lambda>end_offset.
            if offset < table_limit \<or> len < 8 \<or> ix_logical_len s < end_offset
            then Inl (InvalidData ''invalid bitmap payload extent'') else Inr (offset, len)))))"

function point_loop :: "index_hashes \<Rightarrow> btree_header \<Rightarrow> bytes \<Rightarrow> nat \<Rightarrow> nat \<Rightarrow> nat \<Rightarrow> (nat \<times> nat) option io" where
  "point_loop H h k table_limit lo hi s =
     (if lo < hi
      then
        let mid = lo + (hi - lo) div 2
        in io_bind (read_key H h mid) (\<lambda>current_key s.
             if current_key < k then point_loop H h k table_limit (mid + 1) hi s
             else if k < current_key then point_loop H h k table_limit lo mid s
             else io_bind (read_descriptor H h mid table_limit) (\<lambda>d. io_res (Inr (Some d))) s) s
      else Some (s, Inr None))"
  by pat_completeness auto
termination by (relation "measure (\<lambda>(H, h, k, table_limit, lo, hi, s). hi - lo)") auto

declare point_loop.simps [simp del]

definition find_point_payload :: "index_hashes \<Rightarrow> btree_header \<Rightarrow> bytes \<Rightarrow> (nat \<times> nat) option io" where
  "find_point_payload H h k =
     (if bh_entry_count h = 0 then io_res (Inr None)
      else
        io_bind (io_res (table_end (bh_key_size h) (bh_entry_count h))) (\<lambda>table_end.
        io_bind (read_descriptor H h 0 table_end) (\<lambda>first.
        io_bind (if bh_entry_count h = 1 then io_res (Inr first) else read_descriptor H h (bh_entry_count h - 1) table_end) (\<lambda>last s.
          if fst first \<noteq> table_end \<or> fst last + snd last \<noteq> ix_logical_len s
          then Some (s, Inl (InvalidData ''invalid index payload extent''))
          else point_loop H h k table_end 0 (bh_entry_count h) s))))"

definition single_entry_bulk_route_hint :: "index_file \<Rightarrow> bytes \<Rightarrow> bool" where
  "single_entry_bulk_route_hint s requested_key =
     (case pending_unverified_prefix_for_bounded_route s SINGLE_ENTRY_BULK_MAX_LOGICAL_BYTES of
        None \<Rightarrow> False
      | Some prefix \<Rightarrow>
          (case btree_parse prefix of
             Inl _ \<Rightarrow> False
           | Inr h \<Rightarrow>
               if bh_version h \<noteq> 2 \<or> bh_entry_count h \<noteq> 1 \<or> bh_key_size h \<noteq> length requested_key
                 \<or> \<not> is_ok (validate_geometry h (ix_logical_len s))
               then False
               else
                 (case table_end (bh_key_size h) 1 of
                    Inl _ \<Rightarrow> False
                  | Inr table_limit \<Rightarrow>
                      if length prefix < table_limit then False
                      else
                        let entry = take (table_limit - INDEX_HEADER_LEN) (drop INDEX_HEADER_LEN prefix);
                            descriptor = drop (bh_key_size h) entry;
                            offset = unat (from_le_bytes (take 8 descriptor) :: u64);
                            len = unat (from_le_bytes (drop 8 descriptor) :: u32)
                        in take (bh_key_size h) entry = requested_key
                           \<and> offset = table_limit \<and> 8 \<le> len \<and> usize_checked_add offset len = Some (ix_logical_len s))))"

definition io_read_all :: "index_hashes \<Rightarrow> bytes io" where
  "io_read_all H s = map_option (\<lambda>r. (s, r)) (index_read_all H s)"

definition read_header :: "index_hashes \<Rightarrow> btree_header io" where
  "read_header H =
     io_bind (\<lambda>s. index_read_exact H s INDEX_HEADER_LEN []) (\<lambda>bs.
     io_bind (io_res (btree_parse bs)) (\<lambda>h s.
       io_bind (io_res (validate_geometry h (ix_logical_len s))) (\<lambda>_. io_res (Inr h)) s))"

definition get_from_index_file :: "index_hashes \<Rightarrow> bytes \<Rightarrow> roaring option io" where
  "get_from_index_file H k s =
     (if single_entry_bulk_route_hint s k
      then
        io_bind (io_read_all H) (\<lambda>data. io_res (bind_res (open_data data) (\<lambda>reader.
          if br_key_size reader \<noteq> length k \<or> length (br_entries reader) \<noteq> 1
          then Inl (InvalidData ''single-entry route changed during validation'')
          else case br_entries reader of
              (validated_key, bitmap) # _ \<Rightarrow>
                if validated_key \<noteq> k then Inl (InvalidData ''single-entry route key mismatch'') else Inr (Some bitmap)
            | [] \<Rightarrow> Inl (Panic ''called `Option::unwrap()` on a `None` value'')))) s
      else
        io_bind (read_header H) (\<lambda>h.
        io_bind (io_res (validate_lookup_key h k)) (\<lambda>_ s.
          if \<not> ix_protected s \<or> bh_version h = 1
          then io_bind (io_read_all H) (\<lambda>data. io_res (bind_res (open_data data) (\<lambda>reader. Inr (reader_get reader k)))) s
          else
            io_bind (find_point_payload H h k) (\<lambda>found.
              case found of
                None \<Rightarrow> io_res (Inr None)
              | Some (offset, len) \<Rightarrow>
                  io_bind (seek_read H offset len) (\<lambda>payload. io_res (bind_res (decode_bitmap payload) (\<lambda>b. Inr (Some b))))) s)) s)"

definition get_from_file :: "index_hashes \<Rightarrow> bytes \<Rightarrow> bytes \<Rightarrow> roaring option res option" where
  "get_from_file H f k =
     (case index_open H f of Inl e \<Rightarrow> Some (Inl e) | Inr s \<Rightarrow> map_option snd (get_from_index_file H k s))"

definition get_from_file_bound :: "index_hashes \<Rightarrow> bytes \<Rightarrow> bytes \<Rightarrow> bytes \<Rightarrow> roaring option res option" where
  "get_from_file_bound H f expected_file_id k =
     (case open_bound H f expected_file_id of Inl e \<Rightarrow> Some (Inl e) | Inr s \<Rightarrow> map_option snd (get_from_index_file H k s))"

section \<open>Accounted lookups\<close>

definition get_from_complete_data :: "usize \<Rightarrow> bytes \<Rightarrow> bytes \<Rightarrow> bool \<Rightarrow> roaring option res" where
  "get_from_complete_data sz data k single_entry =
     bind_res (index_entries_new data) (\<lambda>input.
     bind_res (validate_lookup_key (ie_header input) k) (\<lambda>_.
     if single_entry \<and> bh_entry_count (ie_header input) \<noteq> 1
     then Inl (InvalidData ''single-entry route changed during validation'')
     else
       bind_res (all_entries (query_decode sz) input) (\<lambda>entries.
       let selected = map_of (rev entries) k
       in if single_entry \<and> selected = None then Inl (InvalidData ''single-entry route key mismatch'')
          else Inr selected)))"

definition get_from_index_file_with_memory :: "index_hashes \<Rightarrow> usize \<Rightarrow> bytes \<Rightarrow> roaring option io" where
  "get_from_index_file_with_memory H sz k s =
     (if single_entry_bulk_route_hint s k
      then io_bind (io_read_all H) (\<lambda>data. io_res (get_from_complete_data sz data k True)) s
      else
        io_bind (read_header H) (\<lambda>h.
        io_bind (io_res (validate_lookup_key h k)) (\<lambda>_ s.
          if \<not> ix_protected s \<or> bh_version h = 1
          then io_bind (io_read_all H) (\<lambda>data. io_res (get_from_complete_data sz data k False)) s
          else
            io_bind (find_point_payload H h k) (\<lambda>found.
              case found of
                None \<Rightarrow> io_res (Inr None)
              | Some (offset, len) \<Rightarrow>
                  io_bind (seek_read H offset len) (\<lambda>payload. io_res (bind_res (query_decode sz payload) (\<lambda>b. Inr (Some b))))) s)) s)"

definition before_bound :: "bytes \<Rightarrow> bool \<Rightarrow> bytes \<Rightarrow> bool" where
  "before_bound bound after_equal k \<longleftrightarrow> k < bound \<or> after_equal \<and> k = bound"

function find_key_boundary :: "index_hashes \<Rightarrow> btree_header \<Rightarrow> bytes \<Rightarrow> bool \<Rightarrow> nat \<Rightarrow> nat \<Rightarrow> nat io" where
  "find_key_boundary H h bound after_equal lo hi s =
     (if lo < hi
      then
        let mid = lo + (hi - lo) div 2
        in io_bind (read_key H h mid) (\<lambda>k s.
             if before_bound bound after_equal k then find_key_boundary H h bound after_equal (mid + 1) hi s
             else find_key_boundary H h bound after_equal lo mid s) s
      else Some (s, Inr lo))"
  by pat_completeness auto
termination by (relation "measure (\<lambda>(H, h, bound, after_equal, lo, hi, s). hi - lo)") auto

declare find_key_boundary.simps [simp del]

definition validate_range_boundary :: "index_hashes \<Rightarrow> btree_header \<Rightarrow> nat \<Rightarrow> nat \<Rightarrow> bytes \<Rightarrow> bool \<Rightarrow> unit io" where
  "validate_range_boundary H h boundary table_limit bound after_equal =
     io_bind (if 0 < boundary
              then io_bind (read_key H h (boundary - 1)) (\<lambda>k.
                   if \<not> before_bound bound after_equal k then io_res (Inl (InvalidData ''invalid range predecessor key''))
                   else io_bind (read_descriptor H h (boundary - 1) table_limit) (\<lambda>(offset, len). io_res (Inr (Some (offset + len)))))
              else io_res (Inr None)) (\<lambda>predecessor_end.
       if boundary < bh_entry_count h
       then io_bind (read_key H h boundary) (\<lambda>k.
            if before_bound bound after_equal k then io_res (Inl (InvalidData ''invalid range successor key''))
            else io_bind (read_descriptor H h boundary table_limit) (\<lambda>(offset, _).
              if predecessor_end \<notin> {None, Some offset} then io_res (Inl (InvalidData ''noncontiguous index range boundary''))
              else io_res (Inr ())))
       else io_res (Inr ()))"

fun select_range :: "index_hashes \<Rightarrow> usize \<Rightarrow> btree_header \<Rightarrow> nat \<Rightarrow> (bytes \<Rightarrow> bool) \<Rightarrow> nat list \<Rightarrow> bytes \<Rightarrow> nat option \<Rightarrow> roaring list io" where
  "select_range H sz h table_limit matches [] previous_key previous_end = io_res (Inr [])"
| "select_range H sz h table_limit matches (entry # es) previous_key previous_end =
     io_bind (read_key H h entry) (\<lambda>k.
       if \<not> matches k \<or> previous_key \<noteq> [] \<and> k \<le> previous_key
       then io_res (Inl (InvalidData ''invalid selected index key ordering''))
       else
         io_bind (read_descriptor H h entry table_limit) (\<lambda>(offset, len).
           if previous_end \<notin> {None, Some offset} then io_res (Inl (InvalidData ''noncontiguous selected index payload''))
           else
             io_bind (seek_read H offset len) (\<lambda>payload.
             io_bind (io_res (query_decode sz payload)) (\<lambda>bitmap.
             io_bind (select_range H sz h table_limit matches es k (Some (offset + len))) (\<lambda>bs. io_res (Inr (bitmap # bs)))))))"

definition in_range :: "bytes \<Rightarrow> bytes \<Rightarrow> bool \<Rightarrow> bytes \<Rightarrow> bool" where
  "in_range start end_key inclusive k \<longleftrightarrow> start \<le> k \<and> (k < end_key \<or> inclusive \<and> k = end_key)"

text \<open>The selective part of a range read, once the whole-file checks have passed.\<close>

definition select_from_table :: "index_hashes \<Rightarrow> vec_layout \<Rightarrow> btree_header \<Rightarrow> nat \<Rightarrow> bytes \<Rightarrow> bytes \<Rightarrow> bool \<Rightarrow> roaring io" where
  "select_from_table H L h table_limit start end_key inclusive =
     io_bind (find_key_boundary H h start False 0 (bh_entry_count h)) (\<lambda>lo.
     io_bind (if end_key < start then io_res (Inr lo) else find_key_boundary H h end_key inclusive 0 (bh_entry_count h)) (\<lambda>hi.
       if hi < lo then io_res (Inl (InvalidData ''invalid index range ordering''))
       else
         io_bind (validate_range_boundary H h lo table_limit start False) (\<lambda>_.
         io_bind (if start \<le> end_key then validate_range_boundary H h hi table_limit end_key inclusive else io_res (Inr ())) (\<lambda>_.
           if hi = lo then io_res (Inr (fst query_empty))
           else io_bind (select_range H (vl_container L) h table_limit (in_range start end_key inclusive) [lo..<hi] [] None) (\<lambda>selected.
                  io_res (query_union_all L selected))))))"

definition range_from_index_file_with_memory :: "index_hashes \<Rightarrow> vec_layout \<Rightarrow> bytes \<Rightarrow> bytes \<Rightarrow> bool \<Rightarrow> roaring io" where
  "range_from_index_file_with_memory H L start end_key inclusive =
     io_bind (read_header H) (\<lambda>h.
     io_bind (io_res (validate_lookup_key h start)) (\<lambda>_.
     io_bind (io_res (validate_lookup_key h end_key)) (\<lambda>_ s.
       if \<not> ix_protected s \<or> bh_version h = 1
       then
         io_bind (io_read_all H) (\<lambda>data. io_res (
           bind_res (index_entries_new data) (\<lambda>input.
           bind_res (all_entries (query_decode (vl_container L)) input) (\<lambda>entries.
             query_union_all L (map snd (filter (\<lambda>(k, _). in_range start end_key inclusive k) entries)))))) s
       else
         io_bind (io_res (table_end (bh_key_size h) (bh_entry_count h))) (\<lambda>table_limit.
           if bh_entry_count h = 0 then io_res (query_union_all L [])
           else
             io_bind (read_descriptor H h 0 table_limit) (\<lambda>first.
             io_bind (read_descriptor H h (bh_entry_count h - 1) table_limit) (\<lambda>last s.
               if fst first \<noteq> table_limit \<or> fst last + snd last \<noteq> ix_logical_len s
               then Some (s, Inl (InvalidData ''invalid index payload extent''))
               else select_from_table H L h table_limit start end_key inclusive s))) s)))"

definition range_from_file_bound_with_memory :: "index_hashes \<Rightarrow> vec_layout \<Rightarrow> bytes \<Rightarrow> bytes \<Rightarrow> bytes \<Rightarrow> bytes \<Rightarrow> roaring res option" where
  "range_from_file_bound_with_memory H L f expected_file_id start end_key =
     (case open_bound H f expected_file_id of
        Inl e \<Rightarrow> Some (Inl e)
      | Inr s \<Rightarrow> map_option snd (range_from_index_file_with_memory H L start end_key False s))"

definition range_inclusive_from_file_bound_with_memory :: "index_hashes \<Rightarrow> vec_layout \<Rightarrow> bytes \<Rightarrow> bytes \<Rightarrow> bytes \<Rightarrow> bytes \<Rightarrow> roaring res option" where
  "range_inclusive_from_file_bound_with_memory H L f expected_file_id start end_key =
     (case open_bound H f expected_file_id of
        Inl e \<Rightarrow> Some (Inl e)
      | Inr s \<Rightarrow> map_option snd (range_from_index_file_with_memory H L start end_key True s))"

definition get_from_file_bound_with_memory :: "index_hashes \<Rightarrow> usize \<Rightarrow> bytes \<Rightarrow> bytes \<Rightarrow> bytes \<Rightarrow> roaring option res option" where
  "get_from_file_bound_with_memory H sz f expected_file_id k =
     (case open_bound H f expected_file_id of
        Inl e \<Rightarrow> Some (Inl e)
      | Inr s \<Rightarrow> map_option snd (get_from_index_file_with_memory H sz k s))"

section \<open>The in-memory index\<close>

definition entries_ok :: "usize \<Rightarrow> entries \<Rightarrow> bool" where
  "entries_ok ks es \<longleftrightarrow> sorted_wrt (<) (map fst es) \<and> (\<forall>e \<in> set es. length (fst e) = ks \<and> roaring_ok (snd e))"

definition btree_ok :: "btree_index \<Rightarrow> bool" where
  "btree_ok t \<longleftrightarrow> entries_ok (bt_key_size t) (bt_entries t)"

text \<open>The abstract index: the rows of every key.\<close>

definition rows_of :: "entries \<Rightarrow> bytes \<Rightarrow> nat set" where
  "rows_of es k = (case map_of es k of None \<Rightarrow> {} | Some b \<Rightarrow> roaring_set b)"

lemma insert_entry_keys: "set (map fst (insert_entry k row es)) = insert k (set (map fst es))"
proof (induction es)
  case (Cons e es)
  then show ?case by (cases e) (simp add: insert_commute)
qed simp

lemma insert_entry_ok:
  assumes "entries_ok ks es" and "length k = ks"
  shows "entries_ok ks (insert_entry k row es)"
  using assms
proof (induction es)
  case Nil
  then show ?case by (simp add: entries_ok_def roaring_insert_correct)
next
  case (Cons e es)
  obtain k' b where e: "e = (k', b)" by fastforce
  have ok: "entries_ok ks es" "\<forall>x \<in> set (map fst es). k' < x" "length k' = ks" "roaring_ok b"
    using Cons.prems(1) by (auto simp: entries_ok_def e)
  note IH = Cons.IH[OF ok(1) Cons.prems(2)]
  consider "k < k'" | "k = k'" | "k' < k" using less_linear by blast
  then show ?case
  proof cases
    case 1
    then have "\<forall>x \<in> set (map fst es). k < x" using ok(2) less_trans by blast
    then show ?thesis using 1 ok Cons.prems(2) by (simp add: e entries_ok_def roaring_insert_correct)
  next
    case 2
    then show ?thesis using ok by (simp add: e entries_ok_def roaring_insert_correct)
  next
    case 3
    then have "\<not> k < k'" "k \<noteq> k'" by (auto dest: less_asym)
    moreover have "\<forall>x \<in> set (map fst (insert_entry k row es)). k' < x" unfolding insert_entry_keys using 3 ok(2) by simp
    ultimately show ?thesis using IH ok(3,4) by (simp add: e entries_ok_def)
  qed
qed

lemma insert_entry_lookup:
  assumes "entries_ok ks es"
  shows "rows_of (insert_entry k row es) = (rows_of es)(k := insert (unat row) (rows_of es k))"
  using assms
proof (induction es)
  case Nil
  then show ?case by (auto simp: rows_of_def roaring_insert_correct fun_eq_iff)
next
  case (Cons e es)
  obtain k' b where e: "e = (k', b)" by fastforce
  have ok: "entries_ok ks es" "\<forall>x \<in> set (map fst es). k' < x" "roaring_ok b" using Cons.prems by (auto simp: entries_ok_def e)
  have step: "rows_of ((k', b') # es') x = (if x = k' then roaring_set b' else rows_of es' x)" for b' es' x
    by (simp add: rows_of_def)
  consider "k < k'" | "k = k'" | "k' < k" using less_linear by blast
  then show ?case
  proof cases
    case 1
    then have "k \<noteq> k'" "k \<notin> set (map fst es)" using ok(2) by (auto dest: less_asym)
    then have "map_of ((k', b) # es) k = None" by (auto simp: map_of_eq_None_iff)
    then show ?thesis using 1 by (auto simp: e rows_of_def roaring_insert_correct fun_eq_iff)
  next
    case 2
    then show ?thesis using ok(3) by (simp add: e step fun_eq_iff roaring_insert_correct)
  next
    case 3
    then have "\<not> k < k'" "k \<noteq> k'" by (auto dest: less_asym)
    then show ?thesis using Cons.IH[OF ok(1)] by (simp add: e step fun_eq_iff)
  qed
qed

definition build_index :: "usize \<Rightarrow> (bytes \<times> u32) list \<Rightarrow> btree_index" where
  "build_index ks inserts = foldl (\<lambda>t (k, row). btree_insert k row t) (btree_new ks) inserts"

lemma build_index_correct:
  assumes "\<forall>(k, row) \<in> set inserts. length k = ks"
  shows "bt_key_size (build_index ks inserts) = ks \<and> btree_ok (build_index ks inserts)
    \<and> rows_of (bt_entries (build_index ks inserts)) = (\<lambda>k. {unat row | row. (k, row) \<in> set inserts})"
  using assms
proof (induction inserts rule: rev_induct)
  case Nil
  then show ?case by (simp add: build_index_def btree_new_def btree_ok_def entries_ok_def rows_of_def fun_eq_iff)
next
  case (snoc x inserts)
  obtain k row where x: "x = (k, row)" by fastforce
  let ?t = "build_index ks inserts"
  have t: "bt_key_size ?t = ks" "entries_ok ks (bt_entries ?t)"
      "rows_of (bt_entries ?t) = (\<lambda>k. {unat row | row. (k, row) \<in> set inserts})" "length k = ks"
    using snoc x by (auto simp: btree_ok_def)
  have "build_index ks (inserts @ [x]) = btree_insert k row ?t" by (simp add: build_index_def x)
  moreover have "rows_of (insert_entry k row (bt_entries ?t)) = (\<lambda>k. {unat row | row. (k, row) \<in> set (inserts @ [x])})"
    unfolding insert_entry_lookup[OF t(2)] t(3) by (auto simp: fun_eq_iff x)
  ultimately show ?case using t(1) insert_entry_ok[OF t(2,4)] by (simp add: btree_insert_def btree_ok_def)
qed

end
