(* ===== verification/BTree_Lookup.thy ===== *)
theory BTree_Lookup
  imports BTree_Index
begin

text \<open>
  Written indexes answer as the index in memory: the bytes of an index file,
  the complete reader, and the point and range lookups through the checked
  reader, which find their keys by binary search over the table.
\<close>

section \<open>Exact reads\<close>

text \<open>An operation yields \<open>x\<close> from every file that serves \<open>body\<close>, and leaves a file that still does.\<close>

definition yields :: "('f \<Rightarrow> bool) \<Rightarrow> ('f \<Rightarrow> ('f \<times> 'a res) option) \<Rightarrow> 'a \<Rightarrow> bool" where
  "yields serves m x \<longleftrightarrow> (\<forall>s. serves s \<longrightarrow> (\<exists>t. m s = Some (t, Inr x) \<and> serves t))"

locale byte_source =
  fixes serves :: "bytes \<Rightarrow> 'f \<Rightarrow> bool" and fetch :: "nat \<Rightarrow> nat \<Rightarrow> 'f \<Rightarrow> ('f \<times> bytes res) option"
  assumes fetch: "serves body s \<Longrightarrow> p + n \<le> length body \<Longrightarrow> \<exists>t. fetch p n s = Some (t, Inr (take n (drop p body))) \<and> serves body t"
begin

lemma fetch_yields: "p + n \<le> length body \<Longrightarrow> yields (serves body) (fetch p n) (take n (drop p body))"
  using fetch by (simp add: yields_def)

lemma fetch_part:
  assumes "body = a @ b @ c" and "length a = p" and "length b = n"
  shows "yields (serves body) (fetch p n) b"
  using fetch_yields[of p n body] assms by simp

end

definition serves :: "index_hashes \<Rightarrow> bytes \<Rightarrow> index_file \<Rightarrow> bool" where
  "serves H body s \<longleftrightarrow> reader_ok H s \<and> ix_protected s \<and> body_of s = body \<and> ix_logical_len s = length body
     \<and> (\<forall>p n. p + n \<le> length body \<longrightarrow> valid_range H s p n) \<and> physical_len (length body) = Inr (length (ix_file s))"

lemma serves_same_file:
  assumes "serves H body s" and "same_file s t" and "reader_ok H t"
  shows "serves H body t"
  using assms same_file_views(1)[OF assms(2)] same_file_views(5)[OF assms(2), of H] by (simp add: serves_def same_file_def)

lemma seek_read_serves:
  assumes "serves H body s" and "p + n \<le> length body"
  shows "\<exists>t. seek_read H p n s = Some (t, Inr (take n (drop p body))) \<and> serves H body t"
proof -
  let ?s = "s\<lparr>ix_position := p\<rparr>"
  have same: "same_file s ?s" by simp
  have ok: "serves H body ?s" by (rule serves_same_file[OF assms(1) same]) (use assms(1) in \<open>simp add: serves_def\<close>)
  then obtain t r where t: "index_read_exact H ?s n [] = Some (t, r)" "reader_ok H t" "same_file ?s t"
      "if p + n \<le> length body \<and> valid_range H ?s p n \<or> n = 0 then r = Inr (take n (drop p body)) else \<exists>e. r = Inl e"
    using index_read_exact_correct[of H ?s n "[]"] by (auto simp: serves_def split: if_splits)
  have "r = Inr (take n (drop p body))" using t(4) ok assms(2) by (simp add: serves_def)
  moreover have "serves H body t" by (rule serves_same_file[OF ok t(3,2)])
  ultimately show ?thesis using t(1) by (simp add: seek_read_def index_seek_def)
qed

interpretation index_reads: byte_source "serves H" "seek_read H" for H
  by unfold_locales (rule seek_read_serves)

lemma yields_bind:
  assumes "yields P m x" and "yields P (k x) y"
  shows "yields P (io_bind m k) y"
  unfolding yields_def
proof (intro allI impI)
  fix s assume "P s"
  then obtain t where t: "m s = Some (t, Inr x)" "P t" using assms(1) by (auto simp: yields_def)
  then obtain u where "k x t = Some (u, Inr y)" "P u" using assms(2) by (auto simp: yields_def)
  then show "\<exists>u. io_bind m k s = Some (u, Inr y) \<and> P u" using t by (auto simp: io_bind_def)
qed

lemma io_bind_res [simp]: "io_bind (io_res (Inr x)) k = k x"
  by (simp add: io_bind_def io_res_def fun_eq_iff)

lemma yields_res [simp]: "yields P (io_res r) x" if "r = Inr x"
  using that by (simp add: yields_def io_res_def)

lemma yields_cong: "(\<And>s. P s \<Longrightarrow> m s = m' s) \<Longrightarrow> yields P m x = yields P m' x"
  by (auto simp: yields_def)

section \<open>The bytes of an index\<close>

definition payload_size :: "bytes \<times> roaring \<Rightarrow> nat" where
  "payload_size e = length (serialize_into (snd e))"

definition table_size :: "usize \<Rightarrow> nat \<Rightarrow> nat" where
  "table_size ks n = 20 + (ks + 12) * n"

definition payload_at :: "usize \<Rightarrow> entries \<Rightarrow> nat \<Rightarrow> nat" where
  "payload_at ks es i = table_size ks (length es) + sum_list (map payload_size (take i es))"

definition entry_row :: "usize \<Rightarrow> entries \<Rightarrow> nat \<Rightarrow> bytes" where
  "entry_row ks es i = fst (es ! i) @ to_le_bytes (of_nat (payload_at ks es i) :: u64) @ to_le_bytes (of_nat (payload_size (es ! i)) :: u32)"

definition header_bytes :: "usize \<Rightarrow> entries \<Rightarrow> bytes" where
  "header_bytes ks es = BTREE_MAGIC @ to_le_bytes BTREE_VERSION @ to_le_bytes (of_nat ks :: u32) @ to_le_bytes (of_nat (length es) :: u64)"

definition index_body :: "usize \<Rightarrow> entries \<Rightarrow> bytes" where
  "index_body ks es = header_bytes ks es @ concat (map (entry_row ks es) [0..<length es]) @ concat (map (\<lambda>e. serialize_into (snd e)) es)"

lemma length_header_bytes [simp]: "length (header_bytes ks es) = 20"
  by (simp add: header_bytes_def BTREE_MAGIC_def)

lemma length_entry_row: "entries_ok ks es \<Longrightarrow> i < length es \<Longrightarrow> length (entry_row ks es i) = ks + 12"
  by (simp add: entry_row_def entries_ok_def)

lemma length_table: "entries_ok ks es \<Longrightarrow> length (concat (map (entry_row ks es) [0..<length es])) = length es * (ks + 12)"
  using length_concat_map_const[of "[0..<length es]" "entry_row ks es" "ks + 12"] length_entry_row by simp

lemma payloads_length: "length (concat (map (\<lambda>e. serialize_into (snd e)) es)) = sum_list (map payload_size es)"
  by (induction es) (simp_all add: payload_size_def)

lemma length_index_body: "entries_ok ks es \<Longrightarrow> length (index_body ks es) = payload_at ks es (length es)"
  using length_table payloads_length by (simp add: index_body_def payload_at_def table_size_def mult.commute)

lemma payload_at_Suc: "i < length es \<Longrightarrow> payload_at ks es (Suc i) = payload_at ks es i + payload_size (es ! i)"
  by (simp add: payload_at_def take_Suc_conv_app_nth)

lemma payload_at_mono: "i \<le> j \<Longrightarrow> payload_at ks es i \<le> payload_at ks es j"
proof -
  assume "i \<le> j"
  then have "take j es = take i es @ drop i (take j es)" by (metis append_take_drop_id min.absorb1 take_take)
  then show ?thesis unfolding payload_at_def by (metis add_le_cancel_left le_add1 map_append sum_list_append)
qed

lemma row_window:
  assumes "entries_ok ks es" and "i < length es"
  shows "\<exists>a c. index_body ks es = a @ entry_row ks es i @ c \<and> length a = table_size ks i"
proof -
  let ?rows = "map (entry_row ks es) [0..<length es]"
  have split: "concat ?rows = concat (take i ?rows) @ entry_row ks es i @ concat (drop (Suc i) ?rows)"
    using id_take_nth_drop[of i ?rows] assms(2) by (metis append_Cons concat.simps(2) concat_append length_map length_upt minus_nat.diff_0 nth_map_upt add_0)
  have "length (concat (take i ?rows)) = i * (ks + 12)"
    using length_concat_map_const[of "[0..<i]" "entry_row ks es" "ks + 12"] length_entry_row[OF assms(1)] assms(2)
    by (simp add: take_map)
  then have "length (header_bytes ks es @ concat (take i ?rows)) = table_size ks i" by (simp add: table_size_def mult.commute)
  moreover have "index_body ks es = (header_bytes ks es @ concat (take i ?rows)) @ entry_row ks es i
      @ concat (drop (Suc i) ?rows) @ concat (map (\<lambda>e. serialize_into (snd e)) es)"
    unfolding index_body_def split by simp
  ultimately show ?thesis by blast
qed

lemma payload_window:
  assumes "entries_ok ks es" and "i < length es"
  shows "\<exists>a c. index_body ks es = a @ serialize_into (snd (es ! i)) @ c \<and> length a = payload_at ks es i"
proof -
  let ?p = "map (\<lambda>e. serialize_into (snd e)) es"
  have split: "concat ?p = concat (take i ?p) @ serialize_into (snd (es ! i)) @ concat (drop (Suc i) ?p)"
    using id_take_nth_drop[of i ?p] assms(2) by (metis append_Cons concat.simps(2) concat_append length_map nth_map)
  have "length (concat (take i ?p)) = sum_list (map payload_size (take i es))"
    using payloads_length[of "take i es"] by (simp add: take_map)
  then have "length (header_bytes ks es @ concat (map (entry_row ks es) [0..<length es]) @ concat (take i ?p)) = payload_at ks es i"
    using length_table[OF assms(1)] by (simp add: payload_at_def table_size_def mult.commute)
  moreover have "index_body ks es = (header_bytes ks es @ concat (map (entry_row ks es) [0..<length es]) @ concat (take i ?p))
      @ serialize_into (snd (es ! i)) @ concat (drop (Suc i) ?p)"
    unfolding index_body_def split by simp
  ultimately show ?thesis by blast
qed

section \<open>Reading the table\<close>

definition header_of :: "usize \<Rightarrow> entries \<Rightarrow> btree_header" where
  "header_of ks es = \<lparr>bh_version = BTREE_VERSION, bh_key_size = ks, bh_entry_count = length es\<rparr>"

lemma header_of_simps [simp]:
  "bh_version (header_of ks es) = 2" "bh_key_size (header_of ks es) = ks" "bh_entry_count (header_of ks es) = length es"
  by (simp_all add: header_of_def BTREE_VERSION_def)

definition fits :: "usize \<Rightarrow> entries \<Rightarrow> bool" where
  "fits ks es \<longleftrightarrow> entries_ok ks es \<and> 0 < ks \<and> ks < 2 ^ 32 \<and> length (index_body ks es) < usize_limit"

lemma table_end_eq:
  assumes "ks < 2 ^ 32" and "table_size ks n < usize_limit"
  shows "table_end ks n = Inr (table_size ks n)"
  using assms
  by (simp add: table_end_def table_size_def INDEX_V2_ENTRY_TRAILER_LEN_def INDEX_HEADER_LEN_def usize_checked_add_def
      usize_checked_mul_def ok_or_def add.commute usize_limit_def)

lemma table_in_body: "entries_ok ks es \<Longrightarrow> i \<le> length es \<Longrightarrow> table_size ks i \<le> table_size ks (length es) \<and> table_size ks (length es) \<le> payload_at ks es j"
  by (simp add: table_size_def payload_at_def)

lemma fits_sizes:
  assumes "fits ks es" and "i \<le> length es"
  shows "payload_at ks es i \<le> length (index_body ks es)" and "table_size ks i \<le> length (index_body ks es)"
    and "length (index_body ks es) < usize_limit" and "table_end ks i = Inr (table_size ks i)"
proof -
  have ok: "entries_ok ks es" using assms(1) by (simp add: fits_def)
  show "payload_at ks es i \<le> length (index_body ks es)" unfolding length_index_body[OF ok] by (rule payload_at_mono[OF assms(2)])
  show small: "table_size ks i \<le> length (index_body ks es)"
    using table_in_body[OF ok assms(2), of "length es"] length_index_body[OF ok] by simp
  show "length (index_body ks es) < usize_limit" using assms(1) by (simp add: fits_def)
  then show "table_end ks i = Inr (table_size ks i)" using small assms(1) by (intro table_end_eq) (simp_all add: fits_def)
qed

lemma read_key_yields:
  assumes "fits ks es" and "i < length es"
  shows "yields (serves H (index_body ks es)) (read_key H (header_of ks es) i) (fst (es ! i))"
proof -
  have ok: "entries_ok ks es" using assms(1) by (simp add: fits_def)
  obtain a c where w: "index_body ks es = a @ entry_row ks es i @ c" "length a = table_size ks i" using row_window[OF ok assms(2)] by blast
  have "length (fst (es ! i)) = ks" using ok assms(2) by (simp add: entries_ok_def)
  then have "yields (serves H (index_body ks es)) (seek_read H (table_size ks i) ks) (fst (es ! i))"
    using w by (intro index_reads.fetch_part[where a = a]) (simp_all add: entry_row_def)
  then show ?thesis unfolding read_key_def entry_offset_def using fits_sizes(4)[OF assms(1), of i] assms(2) by simp
qed

lemma payload_size_bounds:
  assumes "entries_ok ks es" and "i < length es"
  shows "8 \<le> payload_size (es ! i)" and "payload_size (es ! i) < 2 ^ 32"
  using assms serialized_bound(2)[of "snd (es ! i)"] by (simp_all add: payload_size_def serialized_size_correct entries_ok_def)

lemma read_descriptor_yields:
  assumes "fits ks es" and "i < length es"
  shows "yields (serves H (index_body ks es)) (read_descriptor H (header_of ks es) i (table_size ks (length es)))
    (payload_at ks es i, payload_size (es ! i))"
proof -
  have ok: "entries_ok ks es" using assms(1) by (simp add: fits_def)
  obtain a c where w: "index_body ks es = a @ entry_row ks es i @ c" "length a = table_size ks i" using row_window[OF ok assms(2)] by blast
  have key: "length (fst (es ! i)) = ks" using ok assms(2) by (simp add: entries_ok_def)
  note size = payload_size_bounds[OF ok assms(2)]
  have last: "payload_at ks es i + payload_size (es ! i) \<le> length (index_body ks es)"
    using fits_sizes(1)[OF assms(1), of "Suc i"] assms(2) payload_at_Suc by simp
  have small: "payload_at ks es i + payload_size (es ! i) < usize_limit" using last fits_sizes(3)[OF assms(1), of i] assms(2) by simp
  let ?d = "to_le_bytes (of_nat (payload_at ks es i) :: u64) @ to_le_bytes (of_nat (payload_size (es ! i)) :: u32)"
  have read: "yields (serves H (index_body ks es)) (seek_read H (table_size ks i + ks) INDEX_V2_ENTRY_TRAILER_LEN) ?d"
    using w key by (intro index_reads.fetch_part[where a = "a @ fst (es ! i)"]) (simp_all add: entry_row_def INDEX_V2_ENTRY_TRAILER_LEN_def)
  have "table_size ks i + ks < usize_limit"
    using w key fits_sizes(3)[OF assms(1), of i] assms(2) by (simp add: entry_row_def)
  then have off: "bind_res (entry_offset (header_of ks es) i) (\<lambda>offset. ok_or (usize_checked_add offset ks) e) = Inr (table_size ks i + ks)" for e
    using fits_sizes(4)[OF assms(1), of i] assms(2) by (simp add: entry_offset_def usize_checked_add_def ok_or_def)
  have words: "unat (of_nat (payload_at ks es i) :: u64) = payload_at ks es i" "unat (of_nat (payload_size (es ! i)) :: u32) = payload_size (es ! i)"
    using small size(2) by (simp_all add: unat_of_nat_less usize_limit_def)
  have lower: "\<not> payload_at ks es i < table_size ks (length es)" by (simp add: payload_at_def)
  show ?thesis
    unfolding read_descriptor_def header_of_simps off io_bind_res
    by (rule yields_bind[OF read]) (use last small lower size(1) words in \<open>auto simp: yields_def Let_def serves_def usize_checked_add_def ok_or_def\<close>)
qed

lemma payload_yields:
  assumes "fits ks es" and "i < length es"
  shows "yields (serves H (index_body ks es)) (seek_read H (payload_at ks es i) (payload_size (es ! i))) (serialize_into (snd (es ! i)))"
proof -
  have ok: "entries_ok ks es" using assms(1) by (simp add: fits_def)
  obtain a c where "index_body ks es = a @ serialize_into (snd (es ! i)) @ c" "length a = payload_at ks es i"
    using payload_window[OF ok assms(2)] by blast
  then show ?thesis by (intro index_reads.fetch_part[where a = a]) (simp_all add: payload_size_def)
qed

section \<open>Binary search\<close>

text \<open>In a strictly sorted list a downward closed predicate holds of exactly the first elements.\<close>

lemma sorted_prefix:
  fixes xs :: "'a::linorder list"
  assumes "sorted_wrt (<) xs" and "\<And>x y. P y \<Longrightarrow> x < y \<Longrightarrow> P x" and "i < length xs"
  shows "P (xs ! i) \<longleftrightarrow> i < length (filter P xs)"
  using assms(1,3)
proof (induction xs arbitrary: i)
  case (Cons x xs)
  show ?case
  proof (cases "P x")
    case True
    then show ?thesis using Cons by (cases i) simp_all
  next
    case False
    have "\<not> P y" if "y \<in> set xs" for y using Cons.prems(1) that False assms(2) by auto
    moreover from this have "filter P (x # xs) = []" using False by (auto simp: filter_empty_conv)
    ultimately show ?thesis using False Cons.prems(2) by (cases i) (simp_all del: filter.simps)
  qed
qed simp

definition rank :: "(bytes \<Rightarrow> bool) \<Rightarrow> entries \<Rightarrow> nat" where
  "rank P es = length (filter P (map fst es))"

lemma rank_iff:
  assumes "entries_ok ks es" and "\<And>x y. P y \<Longrightarrow> x < y \<Longrightarrow> P x" and "i < length es"
  shows "P (fst (es ! i)) \<longleftrightarrow> i < rank P es"
  using sorted_prefix[of "map fst es" P i] assms by (simp add: entries_ok_def rank_def)

lemma rank_le: "rank P es \<le> length es"
  unfolding rank_def by (metis length_filter_le length_map)

lemma before_bound_closed: "before_bound b ae y \<Longrightarrow> x < y \<Longrightarrow> before_bound b ae x"
  by (auto simp: before_bound_def)

lemma find_key_boundary_yields:
  assumes "fits ks es" and "lo \<le> rank (before_bound b ae) es" and "rank (before_bound b ae) es \<le> hi" and "hi \<le> length es"
  shows "yields (serves H (index_body ks es)) (find_key_boundary H (header_of ks es) b ae lo hi) (rank (before_bound b ae) es)"
  using assms(2-)
proof (induction "hi - lo" arbitrary: lo hi rule: less_induct)
  case less
  let ?P = "serves H (index_body ks es)" and ?r = "rank (before_bound b ae) es"
  have ok: "entries_ok ks es" using assms(1) by (simp add: fits_def)
  show ?case
  proof (cases "lo < hi")
    case True
    define mid where "mid = lo + (hi - lo) div 2"
    have mid: "lo \<le> mid" "mid < hi" "mid < length es" using True less.prems(3) by (auto simp: mid_def)
    let ?k = "\<lambda>k s. if before_bound b ae k then find_key_boundary H (header_of ks es) b ae (mid + 1) hi s
             else find_key_boundary H (header_of ks es) b ae lo mid s"
    have step: "find_key_boundary H (header_of ks es) b ae lo hi = io_bind (read_key H (header_of ks es) mid) ?k"
      by (intro ext) (subst find_key_boundary.simps, unfold Let_def mid_def if_P[OF True], rule refl)
    have iff: "before_bound b ae (fst (es ! mid)) \<longleftrightarrow> mid < ?r"
      by (rule rank_iff[OF ok _ mid(3)]) (rule before_bound_closed)
    have "yields ?P (?k (fst (es ! mid))) ?r"
    proof (cases "mid < ?r")
      case True
      then have "yields ?P (find_key_boundary H (header_of ks es) b ae (mid + 1) hi) ?r"
        using less.prems mid by (intro less.hyps) simp_all
      then show ?thesis using iff True by simp
    next
      case False
      then have "yields ?P (find_key_boundary H (header_of ks es) b ae lo mid) ?r"
        using less.prems mid by (intro less.hyps) simp_all
      then show ?thesis using iff False by simp
    qed
    then show ?thesis unfolding step by (rule yields_bind[OF read_key_yields[OF assms(1) mid(3)]])
  next
    case False
    then have "lo = ?r" using less.prems by simp
    moreover have "find_key_boundary H (header_of ks es) b ae lo hi = io_res (Inr lo)"
      using False by (intro ext) (subst find_key_boundary.simps, simp add: io_res_def)
    ultimately show ?thesis by simp
  qed
qed

definition point_rank :: "bytes \<Rightarrow> entries \<Rightarrow> nat" where
  "point_rank k es = rank (\<lambda>x. x < k) es"

lemma point_rank_found:
  assumes "entries_ok ks es" and "i < length es"
  shows "fst (es ! i) < k \<longleftrightarrow> i < point_rank k es" and "fst (es ! i) = k \<Longrightarrow> i = point_rank k es"
proof -
  have iff: "fst (es ! j) < k \<longleftrightarrow> j < point_rank k es" if "j < length es" for j
    unfolding point_rank_def by (rule rank_iff[OF assms(1) _ that]) auto
  show "fst (es ! i) < k \<longleftrightarrow> i < point_rank k es" by (rule iff[OF assms(2)])
  show "i = point_rank k es" if k: "fst (es ! i) = k"
  proof (rule ccontr)
    assume "i \<noteq> point_rank k es"
    then have less: "point_rank k es < i" using iff[OF assms(2)] k by auto
    then have "fst (es ! point_rank k es) < fst (es ! i)"
      using assms sorted_wrt_nth_less[of "(<)" "map fst es" "point_rank k es" i] by (simp add: entries_ok_def)
    then show False using iff[of "point_rank k es"] k less assms(2) by simp
  qed
qed

lemma point_rank_lookup:
  fixes k :: bytes and es :: entries
  defines "r \<equiv> point_rank k es"
  assumes "entries_ok ks es"
  shows "map_of es k = (if r < length es \<and> fst (es ! r) = k then Some (snd (es ! r)) else None)"
proof -
  have distinct: "distinct (map fst es)" using assms(2) by (simp add: entries_ok_def strict_sorted_iff)
  show ?thesis
  proof (cases "r < length es \<and> fst (es ! r) = k")
    case True
    then have "(k, snd (es ! r)) \<in> set es" using nth_mem[of r es] by auto
    then show ?thesis using True distinct by simp
  next
    case False
    have "k \<notin> set (map fst es)"
    proof
      assume "k \<in> set (map fst es)"
      then obtain i where "i < length es" "fst (es ! i) = k" by (auto simp: in_set_conv_nth)
      then show False using point_rank_found(2)[OF assms(2), of i k] False by (auto simp: r_def)
    qed
    then have "map_of es k = None" by (simp add: map_of_eq_None_iff)
    then show ?thesis using False by simp
  qed
qed

lemma point_loop_yields:
  assumes "fits ks es" and "lo \<le> point_rank k es" and "point_rank k es \<le> hi" and "hi \<le> length es"
    and "point_rank k es < length es \<and> fst (es ! point_rank k es) = k \<Longrightarrow> point_rank k es < hi"
  shows "yields (serves H (index_body ks es)) (point_loop H (header_of ks es) k (table_size ks (length es)) lo hi)
    (if point_rank k es < length es \<and> fst (es ! point_rank k es) = k
     then Some (payload_at ks es (point_rank k es), payload_size (es ! point_rank k es)) else None)"
  using assms(2-)
proof (induction "hi - lo" arbitrary: lo hi rule: less_induct)
  case less
  let ?P = "serves H (index_body ks es)" and ?r = "point_rank k es" and ?h = "header_of ks es" and ?T = "table_size ks (length es)"
  let ?hit = "?r < length es \<and> fst (es ! ?r) = k"
  let ?res = "if ?hit then Some (payload_at ks es ?r, payload_size (es ! ?r)) else None"
  have ok: "entries_ok ks es" using assms(1) by (simp add: fits_def)
  show ?case
  proof (cases "lo < hi")
    case True
    define mid where "mid = lo + (hi - lo) div 2"
    have mid: "lo \<le> mid" "mid < hi" "mid < length es" using True less.prems(3) by (auto simp: mid_def)
    note found = point_rank_found[OF ok mid(3), of k]
    let ?k = "\<lambda>current s. if current < k then point_loop H ?h k ?T (mid + 1) hi s else if k < current then point_loop H ?h k ?T lo mid s
        else io_bind (read_descriptor H ?h mid ?T) (\<lambda>d. io_res (Inr (Some d))) s"
    have step: "point_loop H ?h k ?T lo hi = io_bind (read_key H ?h mid) ?k"
      by (intro ext) (subst point_loop.simps, unfold Let_def mid_def if_P[OF True], rule refl)
    consider "fst (es ! mid) < k" | "k < fst (es ! mid)" | "fst (es ! mid) = k" using less_linear by blast
    then have "yields ?P (?k (fst (es ! mid))) ?res"
    proof cases
      case 1
      then have "yields ?P (point_loop H ?h k ?T (mid + 1) hi) ?res"
        using less.prems mid found(1) by (intro less.hyps) simp_all
      then show ?thesis using 1 by simp
    next
      case 2
      then have "\<not> fst (es ! mid) < k" "fst (es ! mid) \<noteq> k" by auto
      then have "?r \<le> mid" "?hit \<Longrightarrow> ?r \<noteq> mid" using found(1) by auto
      then have "yields ?P (point_loop H ?h k ?T lo mid) ?res"
        using less.prems mid by (intro less.hyps) auto
      then show ?thesis using 2 \<open>\<not> fst (es ! mid) < k\<close> by simp
    next
      case 3
      then have r: "mid = ?r" by (rule found(2))
      have "yields ?P (io_bind (read_descriptor H ?h mid ?T) (\<lambda>d. io_res (Inr (Some d)))) (Some (payload_at ks es mid, payload_size (es ! mid)))"
        by (rule yields_bind[OF read_descriptor_yields[OF assms(1) mid(3)]]) simp
      then show ?thesis using 3 r mid(3) by simp
    qed
    then show ?thesis unfolding step by (rule yields_bind[OF read_key_yields[OF assms(1) mid(3)]])
  next
    case False
    then have "\<not> ?hit" using less.prems by linarith
    moreover have "point_loop H ?h k ?T lo hi = io_res (Inr None)"
      using False by (intro ext) (subst point_loop.simps, simp add: io_res_def)
    ultimately show ?thesis by simp
  qed
qed

section \<open>The complete reader\<close>

lemma fits_counts:
  assumes "fits ks es"
  shows "unat (of_nat ks :: u32) = ks" and "unat (of_nat (length es) :: u64) = length es"
proof -
  show "unat (of_nat ks :: u32) = ks" using assms by (simp add: fits_def unat_of_nat_less)
  have "length es \<le> table_size ks (length es)" by (simp add: table_size_def add_mult_distrib)
  then have "length es < usize_limit" using fits_sizes(2,3)[OF assms, of "length es"] by linarith
  then show "unat (of_nat (length es) :: u64) = length es" by (simp add: unat_of_nat_less usize_limit_def)
qed

lemma btree_parse_written:
  assumes "fits ks es"
  shows "btree_parse (header_bytes ks es @ rest) = Inr (header_of ks es)"
  using fits_counts[OF assms] assms
  by (simp add: btree_parse_def header_bytes_def BTREE_MAGIC_def BTREE_VERSION_def INDEX_HEADER_LEN_def Let_def header_of_def fits_def)

lemma geometry_written:
  assumes "fits ks es"
  shows "validate_geometry (header_of ks es) (length (index_body ks es)) = Inr ()"
proof -
  have ok: "entries_ok ks es" "ks < 2 ^ 32" using assms by (simp_all add: fits_def)
  have "length xs * 8 \<le> sum_list (map payload_size xs)" if "set xs \<subseteq> set es" for xs
    using that
  proof (induction xs)
    case (Cons x xs)
    then obtain i where "i < length es" "es ! i = x" by (auto simp: in_set_conv_nth)
    then have "8 \<le> payload_size x" using payload_size_bounds(1)[OF ok(1)] by auto
    then show ?case using Cons by simp
  qed simp
  then have "length es * (ks + 20) + 20 \<le> length (index_body ks es)"
    unfolding length_index_body[OF ok(1)] by (simp add: payload_at_def table_size_def algebra_simps)
  moreover have "length (index_body ks es) = 20" if "es = []" using that by (simp add: index_body_def)
  ultimately show ?thesis using fits_sizes(3)[OF assms, of 0] ok(2)
    by (simp add: validate_geometry_def usize_checked_add_def usize_checked_mul_def ok_or_def INDEX_HEADER_LEN_def usize_limit_def)
qed

definition traversal :: "usize \<Rightarrow> entries \<Rightarrow> nat \<Rightarrow> index_entries" where
  "traversal ks es i = \<lparr>ie_data = index_body ks es, ie_header = header_of ks es, ie_position = table_size ks i,
     ie_payload_position = payload_at ks es i, ie_remaining = length es - i,
     ie_previous_key = (if i = 0 then None else Some (fst (es ! (i - 1))))\<rparr>"

lemma index_entries_written:
  assumes "fits ks es"
  shows "index_entries_new (index_body ks es) = Inr (traversal ks es 0)"
proof -
  have "btree_parse (index_body ks es) = Inr (header_of ks es)" unfolding index_body_def by (rule btree_parse_written[OF assms])
  then show ?thesis using geometry_written[OF assms] fits_sizes(4)[OF assms, of "length es"]
    by (simp add: index_entries_new_def traversal_def table_size_def payload_at_def INDEX_HEADER_LEN_def)
qed

lemma next_entry_written:
  assumes "fits ks es" and "i < length es"
  shows "next_entry (traversal ks es i) = Inr (traversal ks es (Suc i), Some (fst (es ! i), serialize_into (snd (es ! i))))"
proof -
  let ?body = "index_body ks es"
  have ok: "entries_ok ks es" using assms(1) by (simp add: fits_def)
  have small: "length ?body < usize_limit" using assms(1) by (simp add: fits_def)
  have part: "take_bytes ?body p n = Inr (b, p + n)" if "?body = a @ b @ c" "length a = p" "length b = n" for a b c p n
    using that small by (subst take_bytes_ok) simp_all
  obtain a c where w: "?body = a @ entry_row ks es i @ c" "length a = table_size ks i" using row_window[OF ok assms(2)] by blast
  obtain a' c' where v: "?body = a' @ serialize_into (snd (es ! i)) @ c'" "length a' = payload_at ks es i" using payload_window[OF ok assms(2)] by blast
  let ?off = "to_le_bytes (of_nat (payload_at ks es i) :: u64)" and ?len = "to_le_bytes (of_nat (payload_size (es ! i)) :: u32)"
  have key: "length (fst (es ! i)) = ks" using ok assms(2) by (simp add: entries_ok_def)
  have t1: "take_bytes ?body (table_size ks i) ks = Inr (fst (es ! i), table_size ks i + ks)"
    by (rule part[where a = a]) (use w key in \<open>simp_all add: entry_row_def\<close>)
  have t2: "take_bytes ?body (table_size ks i + ks) 8 = Inr (?off, table_size ks i + ks + 8)"
    by (rule part[where a = "a @ fst (es ! i)"]) (use w key in \<open>simp_all add: entry_row_def\<close>)
  have t3: "take_bytes ?body (table_size ks i + ks + 8) 4 = Inr (?len, table_size ks i + ks + 8 + 4)"
    by (rule part[where a = "a @ fst (es ! i) @ ?off"]) (use w key in \<open>simp_all add: entry_row_def\<close>)
  have t4: "take_bytes ?body (payload_at ks es i) (payload_size (es ! i)) = Inr (serialize_into (snd (es ! i)), payload_at ks es i + payload_size (es ! i))"
    by (rule part[where a = a']) (use v in \<open>simp_all add: payload_size_def\<close>)
  have "payload_at ks es i < usize_limit" using fits_sizes(1)[OF assms(1), of i] assms(2) small by simp
  then have words: "unat (of_nat (payload_at ks es i) :: u64) = payload_at ks es i" "unat (of_nat (payload_size (es ! i)) :: u32) = payload_size (es ! i)"
    using payload_size_bounds(2)[OF ok assms(2)] by (simp_all add: unat_of_nat_less usize_limit_def)
  have fresh: "\<not> (case ie_previous_key (traversal ks es i) of None \<Rightarrow> False | Some previous \<Rightarrow> fst (es ! i) \<le> previous)"
  proof (cases i)
    case (Suc j)
    then have "fst (es ! j) < fst (es ! i)"
      using ok assms(2) sorted_wrt_nth_less[of "(<)" "map fst es" j i] by (simp add: entries_ok_def)
    then show ?thesis using Suc by (simp add: traversal_def not_le)
  qed (simp add: traversal_def)
  have "table_size ks (Suc i) = table_size ks i + ks + 8 + 4" by (simp add: table_size_def)
  then have goal: "traversal ks es (Suc i) = (traversal ks es i)\<lparr>ie_position := table_size ks i + ks + 8 + 4,
      ie_payload_position := payload_at ks es i + payload_size (es ! i), ie_remaining := length es - i - 1, ie_previous_key := Some (fst (es ! i))\<rparr>"
    using payload_at_Suc[OF assms(2)] by (simp add: traversal_def)
  show ?thesis using t1 t2 t3 t4 words fresh assms(2)
    unfolding goal by (simp add: next_entry_def traversal_def Let_def)
qed

lemma all_entries_written:
  assumes "fits ks es" and "\<And>b. roaring_ok b \<Longrightarrow> decode (serialize_into b) = Inr b" and "i \<le> length es"
  shows "all_entries decode (traversal ks es i) = Inr (drop i es)"
  using assms(3)
proof (induction "length es - i" arbitrary: i)
  case 0
  have ok: "entries_ok ks es" using assms(1) by (simp add: fits_def)
  have "next_entry (traversal ks es i) = Inr (traversal ks es i, None)"
    using 0 length_index_body[OF ok] by (simp add: next_entry_def traversal_def)
  then show ?case using 0 by (subst all_entries.simps) simp
next
  case (Suc m)
  then have i: "i < length es" by simp
  have "roaring_ok (snd (es ! i))" using assms(1) i by (simp add: fits_def entries_ok_def)
  moreover have "all_entries decode (traversal ks es (Suc i)) = Inr (drop (Suc i) es)" using Suc by (intro Suc.hyps) simp_all
  moreover have "drop i es = (fst (es ! i), snd (es ! i)) # drop (Suc i) es" using i by (simp add: Cons_nth_drop_Suc)
  ultimately show ?case
    by (subst all_entries.simps) (simp add: next_entry_written[OF assms(1) i] assms(2))
qed

lemma open_data_written: "fits ks es \<Longrightarrow> open_data (index_body ks es) = Inr \<lparr>br_key_size = ks, br_entries = es\<rparr>"
  using all_entries_written[of ks es decode_bitmap 0] decode_bitmap_serialized
  by (simp add: open_data_def index_entries_written) (simp add: traversal_def)

section \<open>Point lookups\<close>

lemma io_read_all_yields:
  assumes "fits ks es"
  shows "yields (serves H (index_body ks es)) (io_read_all H) (index_body ks es)"
  unfolding yields_def
proof (intro allI impI)
  fix s assume s: "serves H (index_body ks es) s"
  have "index_read_all H s = Some (Inr (index_body ks es))"
    using index_read_all_correct[of H s] s by (auto simp: serves_def)
  then show "\<exists>t. io_read_all H s = Some (t, Inr (index_body ks es)) \<and> serves H (index_body ks es) t"
    using s by (simp add: io_read_all_def)
qed

text \<open>The first read of a freshly opened file.\<close>

definition fresh :: "index_hashes \<Rightarrow> bytes \<Rightarrow> index_file \<Rightarrow> bool" where
  "fresh H body s \<longleftrightarrow> serves H body s \<and> ix_position s = 0"

lemma read_header_fresh:
  assumes "fits ks es" and "fresh H (index_body ks es) s"
  shows "\<exists>t. read_header H s = Some (t, Inr (header_of ks es)) \<and> serves H (index_body ks es) t"
proof -
  have s: "serves H (index_body ks es) s" "s\<lparr>ix_position := 0\<rparr> = s" using assms(2) by (simp_all add: fresh_def)
  have head: "take 20 (index_body ks es) = header_bytes ks es" by (simp add: index_body_def)
  have "0 + 20 \<le> length (index_body ks es)" by (simp add: index_body_def)
  then obtain t where t: "index_read_exact H s 20 [] = Some (t, Inr (header_bytes ks es))" "serves H (index_body ks es) t"
    using seek_read_serves[OF s(1), of 0 20] s(2) head by (auto simp: seek_read_def index_seek_def)
  then have "ix_logical_len t = length (index_body ks es)" by (simp add: serves_def)
  then show ?thesis using t btree_parse_written[OF assms(1), of "[]"] geometry_written[OF assms(1)]
    by (simp add: read_header_def io_bind_def INDEX_HEADER_LEN_def io_res_def)
qed

lemma find_point_payload_yields:
  assumes "fits ks es"
  shows "yields (serves H (index_body ks es)) (find_point_payload H (header_of ks es) k)
    (if point_rank k es < length es \<and> fst (es ! point_rank k es) = k
     then Some (payload_at ks es (point_rank k es), payload_size (es ! point_rank k es)) else None)"
    (is "yields ?P _ ?res")
proof (cases "length es = 0")
  case True
  then show ?thesis by (simp add: find_point_payload_def)
next
  case False
  let ?h = "header_of ks es" and ?T = "table_size ks (length es)" and ?n = "length es"
  have ok: "entries_ok ks es" using assms by (simp add: fits_def)
  have T: "table_end ks ?n = Inr ?T" using fits_sizes(4)[OF assms, of ?n] by simp
  let ?first = "(payload_at ks es 0, payload_size (es ! 0))" and ?last = "(payload_at ks es (?n - 1), payload_size (es ! (?n - 1)))"
  have first: "yields ?P (read_descriptor H ?h 0 ?T) ?first" by (rule read_descriptor_yields[OF assms]) (use False in simp)
  have last: "yields ?P (if ?n = 1 then io_res (Inr ?first) else read_descriptor H ?h (?n - 1) ?T) ?last"
  proof (cases "?n = 1")
    case False
    then show ?thesis using read_descriptor_yields[OF assms, of "?n - 1"] \<open>length es \<noteq> 0\<close> by simp
  qed simp
  have ends: "fst ?first = ?T" "fst ?last + snd ?last = length (index_body ks es)"
    using payload_at_Suc[of "?n - 1" es ks] False length_index_body[OF ok] by (simp_all add: payload_at_def)
  have le: "point_rank k es \<le> ?n" unfolding point_rank_def by (rule rank_le)
  have loop: "yields ?P (point_loop H ?h k ?T 0 ?n) ?res" by (rule point_loop_yields[OF assms]) (use le in auto)
  have rest: "yields ?P (\<lambda>s. if fst ?first \<noteq> ?T \<or> fst ?last + snd ?last \<noteq> ix_logical_len s
      then Some (s, Inl (InvalidData ''invalid index payload extent'')) else point_loop H ?h k ?T 0 ?n s) ?res"
    by (subst yields_cong[where m' = "point_loop H ?h k ?T 0 ?n"]) (use ends loop in \<open>auto simp: serves_def\<close>)
  show ?thesis unfolding find_point_payload_def header_of_simps if_not_P[OF False] T io_bind_res
    by (rule yields_bind[OF first], rule yields_bind[OF last], rule rest)
qed

text \<open>The prefetched page is not verified yet, but it is a prefix of the logical bytes.\<close>

lemma pending_prefix:
  assumes "serves H body s" and "pending_unverified_prefix_for_bounded_route s m = Some prefix"
  shows "\<exists>n. prefix = take n body"
proof -
  have s: "ix_prefetched_page s" "PAGE_BYTES < length body" "prefix = take (ix_page_len s) (ix_page s)" "page_ok H s"
    using assms by (auto simp: pending_unverified_prefix_for_bounded_route_def serves_def reader_ok_def split: if_splits)
  have "take (min (length body) PAGE_BYTES) (ix_page s) = page_of s 0" "length (ix_page s) = PAGE_BYTES"
    using s(1,4) assms(1) by (simp_all add: page_ok_def serves_def)
  then have "ix_page s = take PAGE_BYTES body" using s(2) assms(1) by (simp add: page_of_def serves_def)
  then show ?thesis using s(3) by auto
qed

lemma bulk_route_hint:
  assumes "fits ks es" and "serves H (index_body ks es) s" and "single_entry_bulk_route_hint s k"
  shows "length k = ks" and "length es = 1" and "map_of es k = Some (snd (es ! 0))" and "fst (es ! 0) = k"
proof -
  have ok: "entries_ok ks es" using assms(1) by (simp add: fits_def)
  obtain prefix h where p: "pending_unverified_prefix_for_bounded_route s SINGLE_ENTRY_BULK_MAX_LOGICAL_BYTES = Some prefix"
      "btree_parse prefix = Inr h" "bh_entry_count h = 1" "bh_key_size h = length k"
      "\<exists>T. table_end (bh_key_size h) 1 = Inr T \<and> T \<le> length prefix
         \<and> take (bh_key_size h) (take (T - INDEX_HEADER_LEN) (drop INDEX_HEADER_LEN prefix)) = k"
    using assms(3) by (auto simp: single_entry_bulk_route_hint_def Let_def split: option.splits sum.splits if_splits)
  obtain n where n: "prefix = take n (index_body ks es)" using pending_prefix[OF assms(2) p(1)] by blast
  have "20 \<le> length prefix" using p(2) by (auto simp: btree_parse_def INDEX_HEADER_LEN_def not_less split: if_splits)
  then have "prefix = header_bytes ks es @ take (n - 20) (drop 20 (index_body ks es))"
    using n by (simp add: index_body_def)
  then have h: "h = header_of ks es" using p(2) btree_parse_written[OF assms(1)] by simp
  then have one: "length es = 1" and len: "length k = ks" using p(3,4) by simp_all
  then show "length es = 1" "length k = ks" by simp_all
  have "table_end ks 1 = Inr (table_size ks 1)" using fits_sizes(4)[OF assms(1), of 1] one by simp
  then have T: "table_size ks 1 \<le> length prefix" "take ks (take (table_size ks 1 - 20) (drop 20 prefix)) = k"
    using p(5) h by (simp_all add: INDEX_HEADER_LEN_def)
  have "32 + ks \<le> n" using T(1) n by (simp add: table_size_def)
  then have "take ks (take (table_size ks 1 - 20) (drop 20 prefix)) = take ks (drop 20 (index_body ks es))"
    unfolding n by (simp add: table_size_def drop_take)
  also have "\<dots> = fst (es ! 0)" using one ok by (simp add: index_body_def entry_row_def entries_ok_def)
  finally show key: "fst (es ! 0) = k" using T(2) by simp
  then show "map_of es k = Some (snd (es ! 0))" using one by (cases es) auto
qed

lemma lookup_tail:
  assumes "fits ks es" and "\<And>b. roaring_ok b \<Longrightarrow> decode (serialize_into b) = Inr b"
  shows "yields (serves H (index_body ks es)) (io_bind (find_point_payload H (header_of ks es) k) (\<lambda>found.
      case found of
        None \<Rightarrow> io_res (Inr None)
      | Some (offset, len) \<Rightarrow> io_bind (seek_read H offset len) (\<lambda>payload. io_res (bind_res (decode payload) (\<lambda>b. Inr (Some b))))))
    (map_of es k)"
proof (rule yields_bind[OF find_point_payload_yields[OF assms(1)]])
  have ok: "entries_ok ks es" using assms(1) by (simp add: fits_def)
  let ?r = "point_rank k es"
  show "yields (serves H (index_body ks es)) (case (if ?r < length es \<and> fst (es ! ?r) = k
        then Some (payload_at ks es ?r, payload_size (es ! ?r)) else None) of
        None \<Rightarrow> io_res (Inr None)
      | Some (offset, len) \<Rightarrow> io_bind (seek_read H offset len) (\<lambda>payload. io_res (bind_res (decode payload) (\<lambda>b. Inr (Some b)))))
    (map_of es k)"
  proof (cases "?r < length es \<and> fst (es ! ?r) = k")
    case True
    then have "roaring_ok (snd (es ! ?r))" using ok by (simp add: entries_ok_def)
    then have "yields (serves H (index_body ks es)) (io_bind (seek_read H (payload_at ks es ?r) (payload_size (es ! ?r)))
        (\<lambda>payload. io_res (bind_res (decode payload) (\<lambda>b. Inr (Some b))))) (Some (snd (es ! ?r)))"
      by (intro yields_bind[OF payload_yields[OF assms(1)]]) (use True assms(2) in simp_all)
    then show ?thesis using True point_rank_lookup[OF ok, of k] by simp
  next
    case False
    show ?thesis unfolding point_rank_lookup[OF ok, of k] if_not_P[OF False] by simp
  qed
qed

lemma reader_get_lookup:
  assumes "entries_ok ks es"
  shows "reader_get \<lparr>br_key_size = n, br_entries = es\<rparr> k = map_of es k"
proof -
  have "sorted_wrt (<) (map fst es)" using assms by (simp add: entries_ok_def)
  then have "partition_point (\<lambda>y. y < k) (map fst es) = point_rank k es"
    using sorted_partition(1)[of "map fst es" k] unfolding point_rank_def rank_def
    by (metis length_take min.absorb2 partition_point_def length_takeWhile_le)
  then show ?thesis unfolding point_rank_lookup[OF assms]
    by (auto simp: reader_get_def binary_search_def Let_def)
qed

lemma get_from_index_file_written:
  assumes "fits ks es" and "fresh H (index_body ks es) s" and "length k = ks"
  shows "map_option snd (get_from_index_file H k s) = Some (Inr (map_of es k))"
    and "sz \<le> 2 ^ 32 \<Longrightarrow> map_option snd (get_from_index_file_with_memory H sz k s) = Some (Inr (map_of es k))"
proof -
  have s: "serves H (index_body ks es) s" using assms(2) by (simp add: fresh_def)
  have ok: "entries_ok ks es" using assms(1) by (simp add: fits_def)
  obtain t where all: "io_read_all H s = Some (t, Inr (index_body ks es))" using io_read_all_yields[OF assms(1), of H] s by (auto simp: yields_def)
  obtain u where u: "read_header H s = Some (u, Inr (header_of ks es))" "serves H (index_body ks es) u" using read_header_fresh[OF assms(1,2)] by blast
  have key: "validate_lookup_key (header_of ks es) k = Inr ()" using assms(3) by (simp add: validate_lookup_key_def)
  have prot: "ix_protected u" using u(2) by (simp add: serves_def)
  obtain v where v: "io_bind (find_point_payload H (header_of ks es) k) (\<lambda>found. case found of None \<Rightarrow> io_res (Inr None)
      | Some (offset, len) \<Rightarrow> io_bind (seek_read H offset len) (\<lambda>payload. io_res (bind_res (decode_bitmap payload) (\<lambda>b. Inr (Some b))))) u
      = Some (v, Inr (map_of es k))"
    using lookup_tail[OF assms(1), of decode_bitmap H k] decode_bitmap_serialized u(2) unfolding yields_def by blast
  note one = bulk_route_hint[OF assms(1) s]
  show "map_option snd (get_from_index_file H k s) = Some (Inr (map_of es k))"
  proof (cases "single_entry_bulk_route_hint s k")
    case True
    then obtain b where "es = [(k, b)]" "map_of es k = Some b" using one(2-4) by (cases es) (auto simp: prod_eq_iff)
    then show ?thesis using True all open_data_written[OF assms(1)] assms(3)
      by (simp add: get_from_index_file_def io_bind_def io_res_def)
  next
    case False
    then show ?thesis using u(1) key prot v by (simp add: get_from_index_file_def io_bind_def[of "read_header H"])
  qed
  assume sz: "sz \<le> 2 ^ 32"
  then have dec: "\<And>b. roaring_ok b \<Longrightarrow> query_decode sz (serialize_into b) = Inr b" by (rule query_decode_serialized[rotated])
  obtain v' where v': "io_bind (find_point_payload H (header_of ks es) k) (\<lambda>found. case found of None \<Rightarrow> io_res (Inr None)
      | Some (offset, len) \<Rightarrow> io_bind (seek_read H offset len) (\<lambda>payload. io_res (bind_res (query_decode sz payload) (\<lambda>b. Inr (Some b))))) u
      = Some (v', Inr (map_of es k))"
    using lookup_tail[OF assms(1), of "query_decode sz" H k] dec u(2) unfolding yields_def by blast
  have entries: "all_entries (query_decode sz) (traversal ks es 0) = Inr es" using all_entries_written[OF assms(1) dec, of 0] by simp
  show "map_option snd (get_from_index_file_with_memory H sz k s) = Some (Inr (map_of es k))"
  proof (cases "single_entry_bulk_route_hint s k")
    case True
    have "ie_header (traversal ks es 0) = header_of ks es" by (simp add: traversal_def)
    moreover have "es = [(k, snd (es ! 0))]" using one(2-4)[OF True] by (cases es) (auto simp: prod_eq_iff)
    ultimately have "get_from_complete_data sz (index_body ks es) k True = Inr (map_of es k)"
      using one(2,3)[OF True] entries key by (simp add: get_from_complete_data_def index_entries_written[OF assms(1)] Let_def) (metis map_of_Cons_code(2) rev_singleton_conv)
    then show ?thesis using True all by (simp add: get_from_index_file_with_memory_def io_bind_def io_res_def)
  next
    case False
    then show ?thesis using u(1) key prot v' by (simp add: get_from_index_file_with_memory_def io_bind_def[of "read_header H"])
  qed
qed

section \<open>Range lookups\<close>

lemma rank_mono: "(\<And>x. P x \<Longrightarrow> Q x) \<Longrightarrow> rank P es \<le> rank Q es"
  unfolding rank_def by (induction es) auto

lemma rank_split:
  assumes "entries_ok ks es" and "\<And>x y. P y \<Longrightarrow> x < y \<Longrightarrow> P x"
  shows "filter (\<lambda>e. P (fst e)) es = take (rank P es) es" and "filter (\<lambda>e. \<not> P (fst e)) es = drop (rank P es) es"
proof -
  have iff: "P (fst (es ! i)) \<longleftrightarrow> i < rank P es" if "i < length es" for i by (rule rank_iff[OF assms(1) _ that]) (rule assms(2))
  have take: "\<forall>e \<in> set (take (rank P es) es). P (fst e)" using iff by (simp add: all_set_conv_all_nth)
  have drop: "\<forall>e \<in> set (drop (rank P es) es). \<not> P (fst e)" using iff by (simp add: all_set_conv_all_nth)
  have *: "filter Q es = filter Q (take (rank P es) es) @ filter Q (drop (rank P es) es)" for Q
    unfolding filter_append[symmetric] by simp
  show "filter (\<lambda>e. P (fst e)) es = take (rank P es) es" using *[of "\<lambda>e. P (fst e)"] take drop by (simp add: filter_empty_conv)
  show "filter (\<lambda>e. \<not> P (fst e)) es = drop (rank P es) es" using *[of "\<lambda>e. \<not> P (fst e)"] take drop by (simp add: filter_empty_conv)
qed

lemma range_slice:
  fixes a b :: bytes and incl :: bool
  assumes "entries_ok ks es" and "a \<le> b"
  defines "lo \<equiv> rank (before_bound a False) es" and "hi \<equiv> rank (before_bound b incl) es"
  shows "take (hi - lo) (drop lo es) = filter (\<lambda>(k, _). in_range a b incl k) es"
proof -
  have "in_range a b incl k \<longleftrightarrow> before_bound b incl k \<and> \<not> before_bound a False k" for k
    by (auto simp: in_range_def before_bound_def)
  then have "filter (\<lambda>(k, _). in_range a b incl k) es = filter (\<lambda>e. before_bound b incl (fst e)) (filter (\<lambda>e. \<not> before_bound a False (fst e)) es)"
    by (simp add: case_prod_beta' filter_filter conj_commute)
  also have "\<dots> = filter (\<lambda>e. before_bound b incl (fst e)) (drop lo es)"
    unfolding lo_def by (subst rank_split(2)[OF assms(1)]) (auto intro: before_bound_closed)
  also have "\<dots> = take (hi - lo) (drop lo es)"
  proof -
    have split: "drop lo es = take (hi - lo) (drop lo es) @ drop hi es"
      using rank_mono[of "before_bound a False" "before_bound b incl" es] assms(2)
      unfolding lo_def hi_def by (metis append_take_drop_id before_bound_def drop_drop le_add_diff_inverse2 less_le_trans)
    have iff: "before_bound b incl (fst (es ! i)) \<longleftrightarrow> i < hi" if "i < length es" for i
      unfolding hi_def by (rule rank_iff[OF assms(1) _ that]) (rule before_bound_closed)
    have "lo \<le> length es" unfolding lo_def by (rule rank_le)
    then have "\<forall>e \<in> set (take (hi - lo) (drop lo es)). before_bound b incl (fst e)" using iff by (auto simp: all_set_conv_all_nth)
    moreover have "\<forall>e \<in> set (drop hi es). \<not> before_bound b incl (fst e)" using iff by (simp add: all_set_conv_all_nth)
    ultimately show ?thesis by (subst split) (simp add: filter_empty_conv)
  qed
  finally show ?thesis by simp
qed

lemma validate_range_boundary_yields:
  assumes "fits ks es"
  shows "yields (serves H (index_body ks es))
    (validate_range_boundary H (header_of ks es) (rank (before_bound b ae) es) (table_size ks (length es)) b ae) ()"
proof -
  let ?P = "serves H (index_body ks es)" and ?r = "rank (before_bound b ae) es" and ?h = "header_of ks es" and ?T = "table_size ks (length es)"
  have ok: "entries_ok ks es" using assms by (simp add: fits_def)
  have iff: "before_bound b ae (fst (es ! i)) \<longleftrightarrow> i < ?r" if "i < length es" for i
    by (rule rank_iff[OF ok _ that]) (rule before_bound_closed)
  let ?pred = "if 0 < ?r then Some (payload_at ks es ?r) else None"
  have pred: "yields ?P (if 0 < ?r
              then io_bind (read_key H ?h (?r - 1)) (\<lambda>k.
                   if \<not> before_bound b ae k then io_res (Inl (InvalidData ''invalid range predecessor key''))
                   else io_bind (read_descriptor H ?h (?r - 1) ?T) (\<lambda>(offset, len). io_res (Inr (Some (offset + len)))))
              else io_res (Inr None)) ?pred"
  proof (cases "0 < ?r")
    case True
    then have i: "?r - 1 < length es" using rank_le[of "before_bound b ae" es] by linarith
    have "payload_at ks es (?r - 1) + payload_size (es ! (?r - 1)) = payload_at ks es ?r" using payload_at_Suc[OF i, of ks] True by simp
    then have "yields ?P (io_bind (read_descriptor H ?h (?r - 1) ?T) (\<lambda>(offset, len). io_res (Inr (Some (offset + len))))) ?pred"
      using True by (intro yields_bind[OF read_descriptor_yields[OF assms i]]) simp
    then show ?thesis unfolding if_P[OF True]
      by (intro yields_bind[OF read_key_yields[OF assms i]]) (use True iff[OF i] in simp)
  qed simp
  show ?thesis unfolding validate_range_boundary_def
  proof (rule yields_bind[OF pred])
    show "yields ?P (if ?r < bh_entry_count ?h
       then io_bind (read_key H ?h ?r) (\<lambda>k.
            if before_bound b ae k then io_res (Inl (InvalidData ''invalid range successor key''))
            else io_bind (read_descriptor H ?h ?r ?T) (\<lambda>(offset, _).
              if ?pred \<notin> {None, Some offset} then io_res (Inl (InvalidData ''noncontiguous index range boundary''))
              else io_res (Inr ())))
       else io_res (Inr ())) ()"
    proof (cases "?r < length es")
      case True
      then have "yields ?P (io_bind (read_descriptor H ?h ?r ?T) (\<lambda>(offset, _).
              if ?pred \<notin> {None, Some offset} then io_res (Inl (InvalidData ''noncontiguous index range boundary''))
              else io_res (Inr ()))) ()"
        by (intro yields_bind[OF read_descriptor_yields[OF assms True]]) simp
      then show ?thesis unfolding header_of_simps if_P[OF True]
        by (intro yields_bind[OF read_key_yields[OF assms True]]) (use iff[OF True] in simp)
    qed simp
  qed
qed

lemma select_range_yields:
  assumes "fits ks es" and "sz \<le> 2 ^ 32" and "\<forall>i. lo \<le> i \<and> i < hi \<longrightarrow> matches (fst (es ! i))" and "hi \<le> length es" and "lo \<le> j" and "j \<le> hi"
  shows "yields (serves H (index_body ks es)) (select_range H sz (header_of ks es) (table_size ks (length es)) matches [j..<hi]
      (if j = lo then [] else fst (es ! (j - 1))) (if j = lo then None else Some (payload_at ks es j)))
    (map snd (take (hi - j) (drop j es)))"
  using assms(5,6)
proof (induction "hi - j" arbitrary: j)
  case 0
  then show ?case by simp
next
  case (Suc m)
  let ?P = "serves H (index_body ks es)" and ?h = "header_of ks es" and ?T = "table_size ks (length es)"
  have ok: "entries_ok ks es" using assms(1) by (simp add: fits_def)
  have j: "j < hi" "j < length es" using Suc.hyps(2) assms(4) by linarith+
  have upt: "[j..<hi] = j # [Suc j..<hi]" using j(1) by (rule upt_conv_Cons)
  have rest: "take (hi - j) (drop j es) = es ! j # take (hi - Suc j) (drop (Suc j) es)"
    using j by (simp add: Cons_nth_drop_Suc[symmetric] take_Suc_conv_app_nth Suc_diff_Suc[symmetric])
  have sorted: "\<not> ((if j = lo then [] else fst (es ! (j - 1))) \<noteq> [] \<and> fst (es ! j) \<le> (if j = lo then [] else fst (es ! (j - 1))))"
    using ok j(2) Suc.prems(1) sorted_wrt_nth_less[of "(<)" "map fst es" "j - 1" j] by (auto simp: entries_ok_def not_le)
  have match: "matches (fst (es ! j))" using assms(3) Suc.prems(1) j(1) by simp
  have dec: "query_decode sz (serialize_into (snd (es ! j))) = Inr (snd (es ! j))"
    by (rule query_decode_serialized[OF _ assms(2)]) (use ok j(2) in \<open>simp add: entries_ok_def\<close>)
  have "yields ?P (select_range H sz ?h ?T matches [Suc j..<hi] (fst (es ! j)) (Some (payload_at ks es (Suc j))))
      (map snd (take (hi - Suc j) (drop (Suc j) es)))"
    using Suc.hyps(1)[of "Suc j"] Suc.hyps(2) Suc.prems(1) j(1) by simp
  then have tail: "yields ?P (io_bind (select_range H sz ?h ?T matches [Suc j..<hi] (fst (es ! j)) (Some (payload_at ks es j + payload_size (es ! j))))
      (\<lambda>bs. io_res (Inr (snd (es ! j) # bs)))) (map snd (take (hi - j) (drop j es)))"
    unfolding payload_at_Suc[OF j(2)] rest by (rule yields_bind) simp
  define pk where "pk = (if j = lo then [] else fst (es ! (j - 1)))"
  define pe where "pe = (if j = lo then None else Some (payload_at ks es j))"
  have pe: "pe \<in> {None, Some (payload_at ks es j)}" by (simp add: pe_def)
  have pay: "yields ?P (io_bind (seek_read H (payload_at ks es j) (payload_size (es ! j))) (\<lambda>payload.
      io_bind (io_res (query_decode sz payload)) (\<lambda>bitmap.
      io_bind (select_range H sz ?h ?T matches [Suc j..<hi] (fst (es ! j)) (Some (payload_at ks es j + payload_size (es ! j))))
        (\<lambda>bs. io_res (Inr (bitmap # bs)))))) (map snd (take (hi - j) (drop j es)))"
    by (rule yields_bind[OF payload_yields[OF assms(1) j(2)]]) (unfold dec io_bind_res, rule tail)
  have desc: "yields ?P (io_bind (read_descriptor H ?h j ?T) (\<lambda>(offset, len).
      if pe \<notin> {None, Some offset} then io_res (Inl (InvalidData ''noncontiguous selected index payload''))
      else io_bind (seek_read H offset len) (\<lambda>payload.
           io_bind (io_res (query_decode sz payload)) (\<lambda>bitmap.
           io_bind (select_range H sz ?h ?T matches [Suc j..<hi] (fst (es ! j)) (Some (offset + len)))
             (\<lambda>bs. io_res (Inr (bitmap # bs))))))) (map snd (take (hi - j) (drop j es)))"
    by (rule yields_bind[OF read_descriptor_yields[OF assms(1) j(2)]]) (unfold prod.case, use pe pay in simp)
  have "\<not> (\<not> matches (fst (es ! j)) \<or> pk \<noteq> [] \<and> fst (es ! j) \<le> pk)" using sorted match unfolding pk_def by blast
  then show ?case unfolding upt select_range.simps pk_def[symmetric] pe_def[symmetric]
    by (intro yields_bind[OF read_key_yields[OF assms(1) j(2)]]) (use desc in \<open>simp only: if_False\<close>)
qed

lemma empty_range: "b < a \<Longrightarrow> filter (\<lambda>(k, _). in_range a b incl k) es = []"
  by (auto simp: filter_empty_conv in_range_def)

lemma select_from_table_yields:
  assumes "fits ks es" and "vl_container L \<le> 2 ^ 32"
    and "query_union_all L (map snd (filter (\<lambda>(k, _). in_range a b incl k) es)) = Inr u"
  shows "yields (serves H (index_body ks es)) (select_from_table H L (header_of ks es) (table_size ks (length es)) a b incl) u"
proof -
  let ?P = "serves H (index_body ks es)" and ?h = "header_of ks es" and ?T = "table_size ks (length es)"
  have ok: "entries_ok ks es" using assms(1) by (simp add: fits_def)
  define lo where "lo = rank (before_bound a False) es"
  define hi where "hi = (if b < a then lo else rank (before_bound b incl) es)"
  have le: "lo \<le> length es" "hi \<le> length es" unfolding hi_def lo_def by (auto intro: rank_le)
  have lohi: "lo \<le> hi" unfolding hi_def lo_def
    by (auto intro!: rank_mono simp: before_bound_def)
  have slice: "take (hi - lo) (drop lo es) = filter (\<lambda>(k, _). in_range a b incl k) es"
  proof (cases "b < a")
    case True
    then show ?thesis by (simp add: empty_range hi_def)
  next
    case False
    then have "a \<le> b" by simp
    then show ?thesis unfolding hi_def lo_def if_not_P[OF False] by (rule range_slice[OF ok])
  qed
  have find_lo: "yields ?P (find_key_boundary H ?h a False 0 (length es)) lo"
    unfolding lo_def by (rule find_key_boundary_yields[OF assms(1)]) (simp_all add: rank_le)
  have find_hi: "yields ?P (if b < a then io_res (Inr lo) else find_key_boundary H ?h b incl 0 (length es)) hi"
    unfolding hi_def using find_key_boundary_yields[OF assms(1), of 0 b incl "length es" H] by (simp add: rank_le)
  have check_lo: "yields ?P (validate_range_boundary H ?h lo ?T a False) ()" unfolding lo_def by (rule validate_range_boundary_yields[OF assms(1)])
  have check_hi: "yields ?P (if a \<le> b then validate_range_boundary H ?h hi ?T b incl else io_res (Inr ())) ()"
    unfolding hi_def using validate_range_boundary_yields[OF assms(1), of H b incl] by (auto simp: leD)
  have sel: "yields ?P (if hi = lo then io_res (Inr (fst query_empty))
      else io_bind (select_range H (vl_container L) ?h ?T (in_range a b incl) [lo..<hi] [] None) (\<lambda>selected. io_res (query_union_all L selected))) u"
  proof (cases "hi = lo")
    case True
    then show ?thesis using assms(3) unfolding slice[symmetric] by (simp add: query_union_all_def)
  next
    case False
    have "in_range a b incl (fst (es ! i))" if "lo \<le> i \<and> i < hi" for i
    proof -
      have "es ! i \<in> set (take (hi - lo) (drop lo es))"
        using that le by (auto simp: in_set_conv_nth intro!: exI[of _ "i - lo"])
      then show ?thesis unfolding slice by auto
    qed
    then have "yields ?P (select_range H (vl_container L) ?h ?T (in_range a b incl) [lo..<hi] [] None) (map snd (take (hi - lo) (drop lo es)))"
      using select_range_yields[OF assms(1,2), of lo hi "in_range a b incl" lo H] le lohi by simp
    then show ?thesis using False assms(3) unfolding slice[symmetric] by (auto intro: yields_bind)
  qed
  have "\<not> hi < lo" using lohi by simp
  then show ?thesis unfolding select_from_table_def header_of_simps
    by (intro yields_bind[OF find_lo] yields_bind[OF find_hi])
      (simp only: if_False, rule yields_bind[OF check_lo], rule yields_bind[OF check_hi], rule sel)
qed

lemma range_from_index_file_written:
  assumes "fits ks es" and "vl_container L \<le> 2 ^ 32" and "fresh H (index_body ks es) s" and "length a = ks" and "length b = ks"
    and "query_union_all L (map snd (filter (\<lambda>(k, _). in_range a b incl k) es)) = Inr res"
  shows "map_option snd (range_from_index_file_with_memory H L a b incl s) = Some (Inr res)"
proof -
  let ?P = "serves H (index_body ks es)" and ?h = "header_of ks es" and ?T = "table_size ks (length es)" and ?n = "length es"
  have ok: "entries_ok ks es" using assms(1) by (simp add: fits_def)
  obtain u where u: "read_header H s = Some (u, Inr ?h)" "?P u" using read_header_fresh[OF assms(1,3)] by blast
  have keys: "validate_lookup_key ?h a = Inr ()" "validate_lookup_key ?h b = Inr ()" using assms(4,5) by (simp_all add: validate_lookup_key_def)
  have prot: "ix_protected u" using u(2) by (simp add: serves_def)
  have T: "table_end ks ?n = Inr ?T" using fits_sizes(4)[OF assms(1), of ?n] by simp
  let ?tail = "if ?n = 0 then io_res (query_union_all L []) else io_bind (read_descriptor H ?h 0 ?T) (\<lambda>first.
             io_bind (read_descriptor H ?h (?n - 1) ?T) (\<lambda>last s.
               if fst first \<noteq> ?T \<or> fst last + snd last \<noteq> ix_logical_len s
               then Some (s, Inl (InvalidData ''invalid index payload extent''))
               else select_from_table H L ?h ?T a b incl s))"
  have "yields ?P ?tail res"
  proof (cases "?n = 0")
    case False
    let ?first = "(payload_at ks es 0, payload_size (es ! 0))" and ?last = "(payload_at ks es (?n - 1), payload_size (es ! (?n - 1)))"
    have first: "yields ?P (read_descriptor H ?h 0 ?T) ?first" and last: "yields ?P (read_descriptor H ?h (?n - 1) ?T) ?last"
      using False by (auto intro: read_descriptor_yields[OF assms(1)])
    have ends: "fst ?first = ?T" "fst ?last + snd ?last = length (index_body ks es)"
      using payload_at_Suc[of "?n - 1" es ks] False length_index_body[OF ok] by (simp_all add: payload_at_def)
    have "yields ?P (\<lambda>s. if fst ?first \<noteq> ?T \<or> fst ?last + snd ?last \<noteq> ix_logical_len s
        then Some (s, Inl (InvalidData ''invalid index payload extent'')) else select_from_table H L ?h ?T a b incl s) res"
      by (subst yields_cong[where m' = "select_from_table H L ?h ?T a b incl"])
        (use ends select_from_table_yields[OF assms(1,2,6)] in \<open>auto simp: serves_def\<close>)
    then show ?thesis unfolding if_not_P[OF False] by (intro yields_bind[OF first] yields_bind[OF last])
  qed (use assms(6) in simp)
  then obtain v where "?tail u = Some (v, Inr res)" using u(2) unfolding yields_def by blast
  moreover have "range_from_index_file_with_memory H L a b incl s = ?tail u" using u(1) keys prot T
    by (simp add: range_from_index_file_with_memory_def io_bind_def[of "read_header H"])
  ultimately show ?thesis by (simp only: option.map snd_conv)
qed

end
