(* ===== verification/BTree_Files.thy ===== *)
theory BTree_Files
  imports BTree_Lookup
begin

text \<open>
  Key index files end to end: what \<^verbatim>\<open>write_to_file\<close> of
  \<^verbatim>\<open>src/crates/logex-index/src/btree.rs\<close> writes, and that the complete reader,
  the point lookups and the range lookups answer from the file as the
  in-memory index does.
\<close>

section \<open>Writing\<close>

lemma table_end_Inr_iff: "ks < 2 ^ 32 \<Longrightarrow> table_end ks n = Inr T \<longleftrightarrow> T = table_size ks n \<and> T < usize_limit"
  by (auto simp: table_end_def table_size_def INDEX_V2_ENTRY_TRAILER_LEN_def INDEX_HEADER_LEN_def usize_checked_add_def
      usize_checked_mul_def ok_or_def add.commute usize_limit_def split: if_splits option.splits)

lemma serialized_size_entry: "entries_ok ks es \<Longrightarrow> e \<in> set es \<Longrightarrow> serialized_size (snd e) = payload_size e \<and> payload_size e < 2 ^ 32"
  using serialized_bound(2)[of "snd e"] length_serialized[of "snd e"]
  by (simp add: payload_size_def serialized_size_correct entries_ok_def)

lemma logical_length_Inr_iff:
  assumes "\<forall>e \<in> set es. serialized_size (snd e) = payload_size e \<and> payload_size e < 2 ^ 32" and "n < usize_limit"
  shows "logical_length n es = Inr L \<longleftrightarrow> L = n + sum_list (map payload_size es) \<and> L < usize_limit"
  using assms
proof (induction es arbitrary: n)
  case (Cons e es)
  obtain k b where e: "e = (k, b)" by fastforce
  have sz: "try_u32 (serialized_size b) = Some (of_nat (payload_size e))" "unat (of_nat (payload_size e) :: u32) = payload_size e"
    using Cons.prems(1) by (simp_all add: e try_u32_def unat_of_nat_less)
  show ?case
  proof (cases "n + payload_size e < usize_limit")
    case True
    then show ?thesis using Cons.IH[of "n + payload_size e"] Cons.prems sz
      by (simp add: e usize_checked_add_def ok_or_def add.assoc)
  next
    case False
    then show ?thesis using sz by (auto simp: e usize_checked_add_def ok_or_def)
  qed
qed auto

lemma table_bytes_rows:
  assumes "\<forall>e \<in> set es. serialized_size (snd e) = payload_size e \<and> payload_size e < 2 ^ 32" and "i \<le> length es"
  shows "concat (table_bytes (payload_at ks es i) (drop i es)) = concat (map (entry_row ks es) [i..<length es])"
  using assms(2)
proof (induction i rule: inc_induct)
  case (step i)
  obtain k b where e: "es ! i = (k, b)" by fastforce
  have mem: "es ! i \<in> set es" using step.hyps by simp
  then have sz: "serialized_size b = payload_size (es ! i)" "unat (of_nat (payload_size (es ! i)) :: u32) = payload_size (es ! i)"
    using assms(1) e by (auto simp: unat_of_nat_less)
  have "drop i es = (k, b) # drop (Suc i) es" using step.hyps e by (simp add: Cons_nth_drop_Suc[symmetric])
  then show ?case using step.IH step.hyps sz payload_at_Suc[of i es ks]
    by (simp add: upt_conv_Cons entry_row_def e Let_def)
qed simp

lemma first_error_ok: "first_error (replicate n (Inr ())) = Inr ()"
  by (induction n) (simp_all add: first_error_def)

lemma physical_len_limit: "is_ok (physical_len n) \<Longrightarrow> n < usize_limit"
  by (auto simp: is_ok_def physical_len_def ok_or_def usize_checked_add_def usize_checked_mul_def split: option.splits if_splits)

lemma written_pieces:
  assumes "entries_ok ks es"
  shows "concat ([BTREE_MAGIC, to_le_bytes BTREE_VERSION, to_le_bytes (of_nat ks :: u32), to_le_bytes (of_nat (length es) :: u64)]
      @ table_bytes (table_size ks (length es)) es @ map (\<lambda>(_, bitmap). serialize_into bitmap) es) = index_body ks es"
  using table_bytes_rows[of es 0 ks] serialized_size_entry[OF assms]
  by (simp add: index_body_def header_bytes_def payload_at_def case_prod_beta')

lemma write_to_file_iff:
  assumes "btree_ok t"
  defines "ks \<equiv> bt_key_size t" and "es \<equiv> bt_entries t"
  shows "write_to_file H file_id t = Inr f \<longleftrightarrow>
    0 < ks \<and> ks < 2 ^ 32 \<and> is_ok (physical_len (length (index_body ks es))) \<and> f = index_image H file_id (index_body ks es)"
proof -
  have ok: "entries_ok ks es" using assms by (simp add: btree_ok_def)
  have widths: "\<not> (\<exists>(k, _) \<in> set es. length k \<noteq> ks)" using ok by (auto simp: entries_ok_def)
  have sizes: "\<forall>e \<in> set es. serialized_size (snd e) = payload_size e \<and> payload_size e < 2 ^ 32" using serialized_size_entry[OF ok] by blast
  have body: "length (index_body ks es) = table_size ks (length es) + sum_list (map payload_size es)"
    unfolding length_index_body[OF ok] by (simp add: payload_at_def)
  define pieces where "pieces = [BTREE_MAGIC, to_le_bytes BTREE_VERSION, to_le_bytes (of_nat ks :: u32), to_le_bytes (of_nat (length es) :: u64)]
      @ table_bytes (table_size ks (length es)) es @ map (\<lambda>(_, bitmap). serialize_into bitmap) es"
  have pieces: "concat pieces = index_body ks es" unfolding pieces_def by (rule written_pieces[OF ok])
  have ops: "concat (map op_bytes (map WriteAll bss)) = concat bss" for bss by (induction bss) simp_all
  show ?thesis
  proof (cases "fits ks es")
    case True
    then have lim: "ks < 2 ^ 32" "0 < ks" "length (index_body ks es) < usize_limit" by (simp_all add: fits_def)
    have n: "length es < 2 ^ 64" using fits_counts(2)[OF True] unsigned_less[of "of_nat (length es) :: u64", where ?'a = nat] by simp
    have k32: "(of_nat ks :: u32) \<noteq> 0" using lim(2) fits_counts(1)[OF True] by (metis less_numeral_extra(3) unsigned_0)
    have T: "table_end ks (length es) = Inr (table_size ks (length es))" using fits_sizes(4)[OF True, of "length es"] by simp
    have L: "logical_length (table_size ks (length es)) es = Inr (length (index_body ks es))"
      using logical_length_Inr_iff[OF sizes, of "table_size ks (length es)"] lim(3) body by simp
    have eq: "write_to_file H file_id t = write_index_file H file_id (length (index_body ks es)) (map WriteAll pieces) first_error"
      using widths lim n k32 T L unat_of_nat_less[of "length es", where 'a = 64]
      by (simp add: pieces_def write_to_file_def ks_def[symmetric] es_def[symmetric] try_u32_def try_u64_def ok_or_def)
    show ?thesis using lim by (simp add: eq write_index_file_iff ops pieces first_error_ok del: map_map)
  next
    case False
    have "fits ks es" if w: "write_to_file H file_id t = Inr f"
    proof -
      obtain T L where "(of_nat ks :: u32) \<noteq> 0" "ks < 2 ^ 32" and T: "table_end ks (length es) = Inr T" and L: "logical_length T es = Inr L"
        using w unfolding write_to_file_def ks_def[symmetric] es_def[symmetric]
        by (auto simp: bind_res_Inr_iff try_u32_def try_u64_Some_iff split: if_splits)
      moreover from calculation(1) have "0 < ks" by (intro gr0I) simp
      moreover from T calculation(2) have T: "T = table_size ks (length es)" "T < usize_limit" by (simp_all add: table_end_Inr_iff)
      moreover have "length (index_body ks es) < usize_limit" using logical_length_Inr_iff[OF sizes T(2), of L] L body T(1) by simp
      ultimately show ?thesis using ok by (simp add: fits_def)
    qed
    moreover have "fits ks es" if "0 < ks" "ks < 2 ^ 32" "is_ok (physical_len (length (index_body ks es)))"
      using that ok physical_len_limit by (simp add: fits_def)
    ultimately show ?thesis using False by blast
  qed
qed

lemma written_file_opens:
  assumes "btree_ok t" and "length file_id = 16" and "write_to_file H file_id t = Inr f"
  defines "body \<equiv> index_body (bt_key_size t) (bt_entries t)"
  obtains s where "open_bound H f file_id = Inr s" and "fresh H body s" and "fits (bt_key_size t) (bt_entries t)"
    and "read_all_from_path_expected H f (Some file_id) = Inr body"
proof -
  have w: "0 < bt_key_size t" "bt_key_size t < 2 ^ 32" "is_ok (physical_len (length body))" "f = index_image H file_id body"
    using assms(3) unfolding write_to_file_iff[OF assms(1)] body_def by blast+
  obtain s where s: "index_open H f = Inr s" "reader_ok H s" "ix_protected s" "ix_position s = 0" "ix_logical_len s = length body"
      "ix_file_id s = Some file_id" "body_of s = body" "\<And>p n. p + n \<le> length body \<Longrightarrow> valid_range H s p n"
      "physical_len (ix_logical_len s) = Inr (length (ix_file s))"
    by (rule index_image_opens[OF assms(2) w(3), of H]) (use w(4) in simp)
  have "open_bound H f file_id = Inr s" using s(1,6) by (simp add: open_bound_def)
  moreover have "fresh H body s" using s by (simp add: fresh_def serves_def)
  moreover have "fits (bt_key_size t) (bt_entries t)"
    using w(1,2) physical_len_limit[OF w(3)] assms(1) by (simp add: fits_def btree_ok_def body_def)
  moreover have "read_all_from_path_expected H f (Some file_id) = Inr body"
    using read_all_from_path_correct[OF s(1), of "Some file_id"] s(5,6,7) s(8)[of 0 "length body"] by auto
  ultimately show thesis by (rule that)
qed

section \<open>Ranges\<close>

lemma partition_point_rank:
  assumes "entries_ok ks es" and "\<And>x y. P y \<Longrightarrow> x < y \<Longrightarrow> P x"
  shows "partition_point (\<lambda>(k, _). P k) es = rank P es"
proof -
  have iff: "P (fst (es ! i)) \<longleftrightarrow> i < rank P es" if "i < length es" for i
    by (rule rank_iff[OF assms(1) _ that]) (rule assms(2))
  have "takeWhile (\<lambda>(k, _). P k) es = take (rank P es) es"
    using iff by (intro takeWhile_eq_take_P_nth) (auto simp: case_prod_beta')
  then show ?thesis by (simp add: partition_point_def rank_le)
qed

lemma reader_range_entries:
  assumes "entries_ok ks es"
  defines "r \<equiv> \<lparr>br_key_size = ks, br_entries = es\<rparr>"
  shows "reader_range r a b = union_entries (filter (\<lambda>(k, _). in_range a b False k) es)"
    and "reader_range_inclusive r a b = union_entries (filter (\<lambda>(k, _). in_range a b True k) es)"
proof -
  have bound: "before_bound x False = (\<lambda>k. k < x)" "before_bound x True = (\<lambda>k. k \<le> x)" for x
    by (auto simp: before_bound_def fun_eq_iff)
  have points: "partition_point (\<lambda>(k, _). k < x) es = rank (before_bound x False) es"
      "partition_point (\<lambda>(k, _). k \<le> x) es = rank (before_bound x True) es" for x
    unfolding bound by (rule partition_point_rank[OF assms(1)], simp)+
  have none: "union_entries [] = []" by (simp add: union_entries_def)
  show "reader_range r a b = union_entries (filter (\<lambda>(k, _). in_range a b False k) es)"
  proof (cases "b \<le> a")
    case True
    then have "filter (\<lambda>(k, _). in_range a b False k) es = []" by (auto simp: filter_empty_conv in_range_def)
    then show ?thesis using True by (simp add: reader_range_def none)
  next
    case False
    then show ?thesis using range_slice[OF assms(1), of a b False] by (simp add: reader_range_def r_def points Let_def)
  qed
  show "reader_range_inclusive r a b = union_entries (filter (\<lambda>(k, _). in_range a b True k) es)"
  proof (cases "b < a")
    case True
    then show ?thesis by (simp add: reader_range_inclusive_def none empty_range)
  next
    case False
    then have "a \<le> b" by simp
    then show ?thesis using range_slice[OF assms(1), of a b True] False
      unfolding reader_range_inclusive_def if_not_P[OF False] by (simp add: r_def points Let_def)
  qed
qed

lemma btree_range_entries:
  "btree_range t a b = foldl bitor_assign [] (map snd (filter (\<lambda>(k, _). in_range a b False k) (bt_entries t)))"
proof (cases "b \<le> a")
  case True
  then have "filter (\<lambda>(k, _). in_range a b False k) (bt_entries t) = []" by (auto simp: filter_empty_conv in_range_def)
  then show ?thesis using True by (simp add: btree_range_def)
next
  case False
  then show ?thesis by (simp add: btree_range_def in_range_def foldl_map case_prod_beta')
qed

text \<open>The three ways to unite the selected bitmaps give one canonical bitmap.\<close>

lemma range_unions:
  fixes P :: "bytes \<Rightarrow> bool"
  assumes "entries_ok ks es"
  defines "sel \<equiv> filter (\<lambda>(k, _). P k) es"
  shows "roaring_ok (union_entries sel)" and "roaring_set (union_entries sel) = (\<Union>k \<in> {k. P k}. rows_of es k)"
    and "foldl bitor_assign [] (map snd sel) = union_entries sel"
    and "vl_container L \<le> 2 ^ 32 \<Longrightarrow> vl_cow L \<le> 2 ^ 32 \<Longrightarrow> query_union_all L (map snd sel) = Inr (union_entries sel)"
proof -
  have ok: "\<forall>e \<in> set sel. roaring_ok (snd e)" "\<forall>b \<in> set (map snd sel). roaring_ok b" using assms by (auto simp: entries_ok_def)
  note u = union_entries_correct[OF ok(1)]
  show "roaring_ok (union_entries sel)" using u by blast
  show "foldl bitor_assign [] (map snd sel) = union_entries sel"
    using roaring_rows.union_all[of "[]" "map snd sel"] ok(2) u by (intro roaring_unique) simp_all
  show "query_union_all L (map snd sel) = Inr (union_entries sel)" if L: "vl_container L \<le> 2 ^ 32" "vl_cow L \<le> 2 ^ 32"
  proof -
    obtain q where "query_union_all L (map snd sel) = Inr q" "roaring_ok q" "roaring_set q = (\<Union>b \<in> set (map snd sel). roaring_set b)"
      using query_union_all_correct[OF ok(2) L] by blast
    moreover from this have "q = union_entries sel" using u by (intro roaring_unique) simp_all
    ultimately show ?thesis by simp
  qed
  have distinct: "distinct (map fst es)" using assms(1) by (simp add: entries_ok_def strict_sorted_iff)
  have rows: "x \<in> rows_of es k \<longleftrightarrow> (\<exists>b. (k, b) \<in> set es \<and> x \<in> roaring_set b)" for x k
    unfolding map_of_eq_Some_iff[OF distinct, symmetric] by (simp add: rows_of_def split: option.split)
  have "roaring_set (union_entries sel) = (\<Union>e \<in> set sel. roaring_set (snd e))" using u by blast
  also have "\<dots> = (\<Union>k \<in> {k. P k}. rows_of es k)" unfolding sel_def set_eq_iff UN_iff rows by force
  finally show "roaring_set (union_entries sel) = (\<Union>k \<in> {k. P k}. rows_of es k)" .
qed

lemma build_index_keys: "set (map fst (bt_entries (build_index ks inserts))) = fst ` set inserts"
proof (induction inserts rule: rev_induct)
  case Nil
  then show ?case by (simp add: build_index_def btree_new_def)
next
  case (snoc x inserts)
  have "bt_entries (build_index ks (inserts @ [x])) = insert_entry (fst x) (snd x) (bt_entries (build_index ks inserts))"
    by (simp add: build_index_def btree_insert_def case_prod_beta')
  then show ?case using snoc.IH by (simp only: insert_entry_keys) simp
qed

text \<open>Small indexes are always written.\<close>

lemma payload_sum_bound: "\<forall>e \<in> set es. payload_size e < 2 ^ 32 \<Longrightarrow> sum_list (map payload_size es) \<le> length es * 2 ^ 32"
  by (induction es) auto

lemma physical_len_small: "n < 2 ^ 40 \<Longrightarrow> is_ok (physical_len n)"
  by (simp add: is_ok_def physical_len_def ok_or_def usize_checked_mul_def usize_checked_add_def usize_limit_def div_ceil_def layout_defs)

lemma small_index_written:
  assumes "btree_ok t" and "0 < bt_key_size t" and "bt_key_size t \<le> 32" and "length (bt_entries t) \<le> 16"
  shows "\<exists>f. write_to_file H file_id t = Inr f"
proof -
  let ?ks = "bt_key_size t" and ?es = "bt_entries t"
  have ok: "entries_ok ?ks ?es" using assms(1) by (simp add: btree_ok_def)
  have "sum_list (map payload_size ?es) \<le> length ?es * 2 ^ 32" by (rule payload_sum_bound) (use serialized_size_entry[OF ok] in blast)
  moreover have "length ?es * 2 ^ 32 \<le> 16 * 2 ^ 32" "(?ks + 12) * length ?es \<le> 44 * 16" using assms(3,4) mult_le_mono[of "?ks + 12" 44 "length ?es" 16] by simp_all
  ultimately have "length (index_body ?ks ?es) < 2 ^ 40"
    unfolding length_index_body[OF ok] payload_at_def table_size_def by simp
  then show ?thesis unfolding write_to_file_iff[OF assms(1)] using physical_len_small assms(2,3) by auto
qed

section \<open>Properties\<close>

text \<open>
  C13.  The in-memory key index is the multimap of the rows inserted under each
  key, whatever the order and repetition of the insertions: a lookup finds a
  canonical bitmap of exactly the key's rows, and finds nothing only for a key
  never inserted; the key count is the number of distinct keys; a range is the
  canonical bitmap of the rows of all keys from the first bound up to, and not
  including, the second.
\<close>

theorem btree_refines_multimap:
  assumes "\<forall>(k, row) \<in> set inserts. length k = ks"
  defines "t \<equiv> build_index ks inserts"
  shows "btree_ok t
    \<and> (\<forall>k. case btree_get t k of
          None \<Rightarrow> k \<notin> fst ` set inserts
        | Some b \<Rightarrow> roaring_ok b \<and> k \<in> fst ` set inserts \<and> roaring_set b = {unat row | row. (k, row) \<in> set inserts})
    \<and> btree_key_count t = card (fst ` set inserts)
    \<and> (\<forall>a b. roaring_ok (btree_range t a b)
          \<and> roaring_set (btree_range t a b) = {unat row | k row. (k, row) \<in> set inserts \<and> a \<le> k \<and> k < b})"
proof (intro conjI allI)
  have t: "btree_ok t" "entries_ok ks (bt_entries t)" "rows_of (bt_entries t) = (\<lambda>k. {unat row | row. (k, row) \<in> set inserts})"
    using build_index_correct[OF assms(1)] by (auto simp: t_def btree_ok_def)
  have keys: "fst ` set (bt_entries t) = fst ` set inserts" using build_index_keys[of ks inserts] by (simp add: t_def)
  have distinct: "distinct (map fst (bt_entries t))" using t(2) by (simp add: entries_ok_def strict_sorted_iff)
  show "btree_ok t" by (rule t(1))
  show "btree_key_count t = card (fst ` set inserts)"
    using distinct_card[OF distinct] keys by (simp add: btree_key_count_def)
  show "case btree_get t k of None \<Rightarrow> k \<notin> fst ` set inserts
      | Some b \<Rightarrow> roaring_ok b \<and> k \<in> fst ` set inserts \<and> roaring_set b = {unat row | row. (k, row) \<in> set inserts}" for k
  proof (cases "btree_get t k")
    case None
    then have "k \<notin> fst ` set inserts" by (simp add: btree_get_def map_of_eq_None_iff keys)
    then show ?thesis unfolding None by simp
  next
    case (Some b)
    then have mem: "(k, b) \<in> set (bt_entries t)" by (simp add: btree_get_def map_of_SomeD)
    have "rows_of (bt_entries t) k = roaring_set b" using Some by (simp add: rows_of_def btree_get_def)
    moreover have "k \<in> fst ` set inserts" unfolding keys[symmetric] using mem by force
    moreover have "roaring_ok b" using t(2) mem by (auto simp: entries_ok_def)
    ultimately show ?thesis using t(3) Some by simp
  qed
  fix a b
  note u = range_unions[OF t(2), where P = "in_range a b False"]
  show "roaring_ok (btree_range t a b)" unfolding btree_range_entries u(3) by (rule u(1))
  show "roaring_set (btree_range t a b) = {unat row | k row. (k, row) \<in> set inserts \<and> a \<le> k \<and> k < b}"
    unfolding btree_range_entries u(3) u(2) t(3) by (auto simp: in_range_def) blast
qed

theorem btree_refines_multimap_witness:
  "btree_key_count (build_index 1 [([1], 5), ([0], 7), ([1], 70000), ([1], 5)]) = 2
     \<and> roaring_set (btree_range (build_index 1 [([1], 5), ([0], 7), ([1], 70000), ([1], 5)]) [1] [2]) = {5, 70000}"
proof -
  let ?ins = "[([1], 5), ([0], 7), ([1], 70000), ([1], 5)] :: (bytes \<times> u32) list"
  have keys: "card (fst ` set ?ins) = 2" by (simp add: card_insert_if)
  have "{unat row | k row. (k, row) \<in> set ?ins \<and> [1] \<le> k \<and> k < [2]} = (\<lambda>(k, row). unat row) ` set (filter (\<lambda>(k, row). [1] \<le> k \<and> k < [2]) ?ins)"
    by force
  also have "\<dots> = {5, 70000}" by auto
  finally have rows: "{unat row | k row. (k, row) \<in> set ?ins \<and> [1] \<le> k \<and> k < [2]} = {5, 70000}" .
  show ?thesis using btree_refines_multimap[of ?ins 1] keys rows by simp
qed

text \<open>
  C14.  A key index round-trips through its file.  Writing succeeds exactly when
  the key width is a positive u32 and the file length does not overflow; the
  complete reader then returns the same entries, and a point lookup in the file,
  accounted or not, through the single-entry route or by binary search over the
  table, returns what the in-memory index returns.
\<close>

theorem btree_file_roundtrip:
  assumes "btree_ok t" and "length file_id = 16"
  defines "r \<equiv> \<lparr>br_key_size = bt_key_size t, br_entries = bt_entries t\<rparr>"
  shows "((\<exists>f. write_to_file H file_id t = Inr f) \<longleftrightarrow>
      0 < bt_key_size t \<and> bt_key_size t < 2 ^ 32 \<and> is_ok (physical_len (length (index_body (bt_key_size t) (bt_entries t)))))
    \<and> (\<forall>f. write_to_file H file_id t = Inr f \<longrightarrow>
        btree_open_bound H f file_id = Inr r
        \<and> (\<forall>k. reader_get r k = btree_get t k)
        \<and> (\<forall>k. length k = bt_key_size t \<longrightarrow> get_from_file_bound H f file_id k = Some (Inr (btree_get t k)))
        \<and> (\<forall>k sz. length k = bt_key_size t \<and> sz \<le> 2 ^ 32 \<longrightarrow>
             get_from_file_bound_with_memory H sz f file_id k = Some (Inr (btree_get t k))))"
proof (intro conjI allI impI)
  show "(\<exists>f. write_to_file H file_id t = Inr f) \<longleftrightarrow>
      0 < bt_key_size t \<and> bt_key_size t < 2 ^ 32 \<and> is_ok (physical_len (length (index_body (bt_key_size t) (bt_entries t))))"
    unfolding write_to_file_iff[OF assms(1)] by blast
  show "reader_get r k = btree_get t k" for k
    using assms(1) by (simp add: r_def btree_get_def reader_get_lookup btree_ok_def)
next
  fix f assume "write_to_file H file_id t = Inr f"
  then obtain s where s: "open_bound H f file_id = Inr s" "fresh H (index_body (bt_key_size t) (bt_entries t)) s"
      "fits (bt_key_size t) (bt_entries t)" "read_all_from_path_expected H f (Some file_id) = Inr (index_body (bt_key_size t) (bt_entries t))"
    by (rule written_file_opens[OF assms(1,2)])
  show "btree_open_bound H f file_id = Inr r" using s(4) open_data_written[OF s(3)] by (simp add: btree_open_bound_def r_def)
  show "get_from_file_bound H f file_id k = Some (Inr (btree_get t k))" if "length k = bt_key_size t" for k
    using s(1) get_from_index_file_written(1)[OF s(3,2) that] by (simp add: get_from_file_bound_def btree_get_def)
  show "get_from_file_bound_with_memory H sz f file_id k = Some (Inr (btree_get t k))" if "length k = bt_key_size t \<and> sz \<le> 2 ^ 32" for k sz
    using s(1) get_from_index_file_written(2)[OF s(3,2)] that by (simp add: get_from_file_bound_with_memory_def btree_get_def)
qed

theorem btree_file_roundtrip_witness:
  "\<exists>f. write_to_file plain_hashes (replicate 16 9) (build_index 2 [([0, 1], 7), ([0, 2], 9)]) = Inr f
     \<and> get_from_file_bound plain_hashes f (replicate 16 9) [0, 2]
         = Some (Inr (btree_get (build_index 2 [([0, 1], 7), ([0, 2], 9)]) [0, 2]))
     \<and> get_from_file_bound_with_memory plain_hashes 8 f (replicate 16 9) [0, 3] = Some (Inr None)"
proof -
  let ?t = "build_index 2 [([0, 1], 7), ([0, 2], 9)]"
  have t: "btree_ok ?t" "bt_key_size ?t = 2" using build_index_correct[of "[([0, 1], 7), ([0, 2], 9)]" 2] by auto
  have n: "length (bt_entries ?t) \<le> 16" "btree_get ?t [0, 3] = None"
    by (simp_all add: build_index_def btree_insert_def btree_new_def btree_get_def)
  obtain f where "write_to_file plain_hashes (replicate 16 9) ?t = Inr f" using small_index_written[OF t(1)] t(2) n(1) by auto
  then show ?thesis using btree_file_roundtrip[OF t(1), of "replicate 16 9" plain_hashes] t(2) n(2) by (intro exI[of _ f]) simp
qed

text \<open>
  C15.  Range lookups in a written key index file agree with the in-memory
  ranges.  The exclusive lookup that reads only the boundary keys and the
  selected bitmaps of the file, the reader's range and the in-memory range are
  the same bitmap; the inclusive lookup is the reader's inclusive range, and
  that is the canonical bitmap of the rows of all keys between the bounds.
\<close>

theorem btree_range_lookups_agree:
  assumes "btree_ok t" and "length file_id = 16" and "write_to_file H file_id t = Inr f"
    and "vl_container L \<le> 2 ^ 32" and "vl_cow L \<le> 2 ^ 32"
    and "length a = bt_key_size t" and "length b = bt_key_size t"
  defines "r \<equiv> \<lparr>br_key_size = bt_key_size t, br_entries = bt_entries t\<rparr>"
  shows "range_from_file_bound_with_memory H L f file_id a b = Some (Inr (btree_range t a b))
    \<and> reader_range r a b = btree_range t a b
    \<and> range_inclusive_from_file_bound_with_memory H L f file_id a b = Some (Inr (reader_range_inclusive r a b))
    \<and> roaring_ok (reader_range_inclusive r a b)
    \<and> roaring_set (reader_range_inclusive r a b) = (\<Union>k \<in> {a..b}. rows_of (bt_entries t) k)"
proof -
  have ok: "entries_ok (bt_key_size t) (bt_entries t)" using assms(1) by (simp add: btree_ok_def)
  obtain s where s: "open_bound H f file_id = Inr s" "fresh H (index_body (bt_key_size t) (bt_entries t)) s"
      "fits (bt_key_size t) (bt_entries t)"
    by (rule written_file_opens[OF assms(1,2,3)])
  note ranges = reader_range_entries[OF ok, folded r_def] btree_range_entries[of t a b]
  note ex = range_unions[OF ok, where P = "in_range a b False"] and inc = range_unions[OF ok, where P = "in_range a b True"]
  note read = range_from_index_file_written[OF s(3) assms(4) s(2) assms(6,7)]
  note read_ex = read[OF ex(4)[OF assms(4,5)]] and read_inc = read[OF inc(4)[OF assms(4,5)]]
  have "{k. in_range a b True k} = {a..b}" by (auto simp: in_range_def)
  then show ?thesis using s(1) read_ex read_inc ranges ex(3) inc(1,2)
    by (simp add: range_from_file_bound_with_memory_def range_inclusive_from_file_bound_with_memory_def)
qed

theorem btree_range_lookups_agree_witness:
  "\<exists>f. write_to_file plain_hashes (replicate 16 9) (build_index 2 [([0, 1], 7), ([0, 2], 9)]) = Inr f
     \<and> range_from_file_bound_with_memory plain_hashes \<lparr>vl_container = 32, vl_cow = 40, vl_alloc = id\<rparr> f (replicate 16 9) [0, 1] [0, 2]
         = Some (Inr (btree_range (build_index 2 [([0, 1], 7), ([0, 2], 9)]) [0, 1] [0, 2]))"
proof -
  let ?t = "build_index 2 [([0, 1], 7), ([0, 2], 9)]"
  have t: "btree_ok ?t" "bt_key_size ?t = 2" using build_index_correct[of "[([0, 1], 7), ([0, 2], 9)]" 2] by auto
  have n: "length (bt_entries ?t) \<le> 16" by (simp add: build_index_def btree_insert_def btree_new_def)
  obtain f where f: "write_to_file plain_hashes (replicate 16 9) ?t = Inr f" using small_index_written[OF t(1)] t(2) n by auto
  have "range_from_file_bound_with_memory plain_hashes \<lparr>vl_container = 32, vl_cow = 40, vl_alloc = id\<rparr> f (replicate 16 9) [0, 1] [0, 2] = Some (Inr (btree_range ?t [0, 1] [0, 2]))"
    using btree_range_lookups_agree[OF t(1) _ f, of "\<lparr>vl_container = 32, vl_cow = 40, vl_alloc = id\<rparr>" "[0, 1]" "[0, 2]"] t(2) by simp
  then show ?thesis using f by blast
qed

end
