(* ===== verification/Spec2Isabelle.thy ===== *)
theory Spec2Isabelle
  imports Pages Row_Commitment Light_Client_Store Wal Roaring_Serial BTree_Files
begin

text \<open>
  A verification development for \<^emph>\<open>logex\<close>, an indexer and query server for
  Ethereum event logs.

  \<^bold>\<open>The program.\<close>  A consensus light client (\<^verbatim>\<open>src/crates/logex-cl\<close>) follows the
  beacon chain and tells the synchroniser (\<^verbatim>\<open>logex-sync\<close>) which execution blocks
  are final.  The logs of those blocks become rows (\<^verbatim>\<open>logex-types\<close>), which the
  storage engine (\<^verbatim>\<open>logex-storage\<close>) first appends to a write-ahead log and then
  seals into segments: column files of compressed pages, with a commitment to
  the rows.  The indexer (\<^verbatim>\<open>logex-index\<close>) maps keys to Roaring bitmaps of row
  numbers, and the query engine and servers (\<^verbatim>\<open>logex-query\<close>, \<^verbatim>\<open>logex-server\<close>) read
  pages and bitmaps.  The bitmap library is the vendored \<^verbatim>\<open>src/vendor/roaring\<close>.

  \<^bold>\<open>Conventions\<close> (\<^verbatim>\<open>Prelude\<close>).  Machine integers are words of their width, counts of
  elements are natural numbers with the 64-bit limit written out where the code
  checks it.  A fallible operation returns \<^typ>\<open>'a res\<close>, that is an error or a
  value; errors carry the kind and the message of the source, and a slice or an
  index out of range is the error \<^const>\<open>Panic\<close>, so that absence of panics is a
  statement about results.  Readers take the bytes that are left and return the
  rest.  State is passed explicitly.  Libraries that are not part of the
  repository (zstd, LZ4, BLAKE3, SHA-256, BLS, CRC-32, XXH3, derived SSZ codecs) are
  parameters, with their documented laws as named predicates.

  \<^bold>\<open>Storage.\<close>
  \<^item> \<^verbatim>\<open>Bit_Packing\<close>, \<^verbatim>\<open>Codecs\<close>, \<^verbatim>\<open>Pages\<close> model \<^verbatim>\<open>compression.rs\<close> and \<^verbatim>\<open>page.rs\<close>: one
    definition per encoder and decoder.  The packers are proved once, in the
    locales \<open>bit_packer\<close> and \<open>bit_unpacker\<close>; the delta codecs satisfy the
    contract \<open>u64_codec\<close>.  Results: every page decodes to what was encoded, the
    page index and the packed words have one encoding, a selective decode is the
    full decode followed by a selection, no decoder panics on any input.
  \<^item> \<^verbatim>\<open>Log_Types\<close> models rows and row bounds (\<^verbatim>\<open>log_row.rs\<close>, \<^verbatim>\<open>row_bounds.rs\<close>).
  \<^item> \<^verbatim>\<open>Stream_Commitment\<close> and \<^verbatim>\<open>Row_Commitment\<close> model \<^verbatim>\<open>commitment/stream.rs\<close> and
    \<^verbatim>\<open>commitment.rs\<close>: a resumable hash does not depend on how the bytes were cut,
    a root binds namespace and rows up to an explicit collision, the dry run of an
    append accepts exactly the appends that succeed.
  \<^item> \<^verbatim>\<open>Wal\<close> models \<^verbatim>\<open>wal.rs\<close> over the bytes of the file: a payload has one meaning, and
    recovery after a crash at any byte of an append returns exactly the complete
    batches or an error.  Payloads without the binary magic go to the legacy JSON
    decoder, a parameter.

  \<^bold>\<open>Consensus light client.\<close>
  \<^item> \<^verbatim>\<open>Chain_Spec\<close> models \<^verbatim>\<open>chain.rs\<close>; \<^verbatim>\<open>Merkle_Branch\<close>, \<^verbatim>\<open>Light_Client_Types\<close>,
    \<^verbatim>\<open>Light_Client_Payloads\<close> and \<^verbatim>\<open>Light_Client\<close> model \<^verbatim>\<open>light_client.rs\<close>: the store is
    a record, every payload handler a function on it with the checks of the source
    in their order.
  \<^item> \<^verbatim>\<open>Light_Client_Store\<close> defines the stores reachable from a bootstrap by an
    inductive step relation and proves the invariant that makes them persistable,
    monotone heads, that a finalized header rests on a Merkle proof and a
    two-thirds signature, progress of the timeout fallback, absence of panics.

  \<^bold>\<open>Bitmaps and indexes.\<close>
  \<^item> \<^verbatim>\<open>Roaring_Array\<close>, \<^verbatim>\<open>Roaring_Store\<close>, \<^verbatim>\<open>Roaring_Bitmap\<close> model the vendored bitmap
    library as it is built (no SIMD, release arithmetic): array and bit-set stores,
    containers, the sorted vector of containers.  \<open>roaring_ok\<close> is the
    representation invariant and \<open>roaring_set\<close> the set a bitmap denotes; every
    operation is the set operation and keeps the invariant, and there is one
    bitmap per set.  The interface \<open>row_set\<close> is what the indexer needs of it.
  \<^item> \<^verbatim>\<open>Roaring_Serial\<close> models the portable format with its general and its
    validating reader.
  \<^item> \<^verbatim>\<open>Query_Ops\<close> and \<^verbatim>\<open>Query_Bitmap\<close> model the accounted operations of queries
    (\<^verbatim>\<open>query_ops.rs\<close>, \<^verbatim>\<open>query_bitmap.rs\<close>): preparation with checked sizes and the
    span check of the reference union, and application.  On well-formed bitmaps
    every preparation succeeds, the applications compute the ordinary operators,
    and the union of many bitmaps is their union: the span test that selects the
    reference union admits only what its preparation accepts.
  \<^item> \<^verbatim>\<open>Bitmap_Decode\<close> models the bitmap decoder and the union of entries of
    \<^verbatim>\<open>btree.rs\<close>: the dense route and the general route give back every serialized
    bitmap.
  \<^item> \<^verbatim>\<open>Index_File\<close> and \<^verbatim>\<open>Index_Writer\<close> model \<^verbatim>\<open>index_file.rs\<close>: a file is its bytes, an
    open file the record of the source with its page, prefetch and checksum
    caches, and the writer a record over the bytes written.  Every read of a file
    that opens terminates and returns the logical bytes or an error, and a
    written file reads back under its identity.
  \<^item> \<^verbatim>\<open>BTree_Index\<close>, \<^verbatim>\<open>BTree_Lookup\<close> and \<^verbatim>\<open>BTree_Files\<close> model \<^verbatim>\<open>btree.rs\<close>: the
    in-memory index as its sorted entries, the file format, the complete reader,
    and the point and range lookups that seek in the checked file.  The index is
    the multimap of the inserted rows, its file holds the same entries, and the
    lookups in the file answer as the index in memory.  The interface
    \<open>byte_source\<close> is what the lookups need of the checked reader, and \<open>yields\<close>
    states that an operation on an open file returns a given value.

  \<^bold>\<open>Fuel and termination.\<close>  No definition uses fuel.  Loops are structural
  recursions, or functions with a termination proof; loops over a file recurse on
  the bytes that are left.  The loops of the checked index reader, whose progress
  depends on the state of its caches, are partial functions into \<open>option\<close>; that
  they return on every open file is part of the theorems.

  \<^bold>\<open>Not modelled.\<close>  Asynchronous networking, peer management and supervision
  (\<^verbatim>\<open>logex-cl/src/network.rs\<close>, \<^verbatim>\<open>rpc.rs\<close>, \<^verbatim>\<open>logex-sync/src/engine\<close>, \<^verbatim>\<open>p2p\<close>), which
  depend on scheduling, clocks and peers; the SQL engine, whose plans are built and
  run by DataFusion and Arrow; HTTP, WebSocket and gRPC endpoints; the node's
  processes, command line and volumes; the directory layout of the native storage
  engine, its locks, fsync and rename ordering, repair and recovery of whole
  directories; segment readers over memory-mapped files with their caches and
  query-memory accounting (the decoders are modelled without a memory
  budget, the index lookups with one that admits every reservation, and
  allocation is assumed to succeed); the
  index builder and the Bloom filter indexes, which run over those readers; the
  other vendored crates, which are used
  only through their interfaces.
\<close>

end
